(* ===== verification/Prelude.thy ===== *)
theory Prelude
  imports Main "HOL-Library.Word" "HOL-Library.AList" "HOL-Library.Monad_Syntax"
    "HOL-Library.Sublist"
begin

text \<open>
  What every component shares. C strings are \<open>char list\<close>s without the terminating NUL; a C
  function that may dereference NULL or a wild pointer, run off a buffer, read an uninitialised variable or fail an
  assertion returns an \<open>option\<close>, with \<^term>\<open>None\<close> for that undefined outcome, so "this call is
  safe" is a theorem of the form \<open>\<exists>r. f x = Some r\<close>. Where an uninitialised number or pointer has some value on every
  machine, the value is a parameter. The theory also holds decimal printing
  (\<^verbatim>\<open>%lu\<close>, \<^verbatim>\<open>%u\<close>, \<^verbatim>\<open>%d\<close>) with its injectivity, the little-endian image of a 32-bit word with its
  round trip, and generic facts on lists, association lists and words.
\<close>

named_theorems kv_simps \<open>unfolding rules of the key-value components\<close>
named_theorems os_simps \<open>what the operating-system calls return\<close>

text \<open>\<open>mem n\<close> says whether \<^verbatim>\<open>malloc(n)\<close> succeeds; this is the memory that never runs out.\<close>

abbreviation mem_ok :: "nat \<Rightarrow> bool" where "mem_ok \<equiv> \<lambda>_. True"

text \<open>The \<^verbatim>\<open>ASSERT\<close> of the kernel.\<close>

definition assert :: "bool \<Rightarrow> unit option" where
  "assert b = (if b then Some () else None)"

section \<open>C strings\<close>

abbreviation NUL :: char where "NUL \<equiv> CHR 0x00"

definition cstr :: "string \<Rightarrow> bool" where
  "cstr s \<longleftrightarrow> NUL \<notin> set s"

lemma cstr_simps [simp]:
  "cstr []" "cstr (c # s) \<longleftrightarrow> c \<noteq> NUL \<and> cstr s" "cstr (s @ t) \<longleftrightarrow> cstr s \<and> cstr t"
  by (auto simp: cstr_def)

text \<open>The C string that starts at the first byte of a buffer: \<^term>\<open>None\<close> when the buffer holds no
  terminator, so that \<^verbatim>\<open>strlen\<close>, \<^verbatim>\<open>strcmp\<close> and \<^verbatim>\<open>strcpy\<close> would run past its end.\<close>

definition c_string :: "char list \<Rightarrow> string option" where
  "c_string bs = (if NUL \<in> set bs then Some (takeWhile (\<lambda>c. c \<noteq> NUL) bs) else None)"

lemma c_string_append [simp]: "cstr s \<Longrightarrow> c_string (s @ NUL # bs) = Some s"
proof -
  assume s: "cstr s"
  then have "takeWhile (\<lambda>c. c \<noteq> NUL) (s @ NUL # bs) = s"
    by (subst takeWhile_append2) (auto simp: cstr_def)
  then show ?thesis by (simp add: c_string_def)
qed

lemma c_string_cstr: "c_string bs = Some s \<Longrightarrow> cstr s"
  by (auto simp: c_string_def cstr_def dest: set_takeWhileD split: if_splits)

section \<open>Decimal printing\<close>

definition digit :: "nat \<Rightarrow> char" where
  "digit d = ''0123456789'' ! d"

fun dec :: "nat \<Rightarrow> string" where
  "dec n = (if n < 10 then [digit n] else dec (n div 10) @ [digit (n mod 10)])"

declare dec.simps [simp del]

definition undigit :: "char \<Rightarrow> nat" where
  "undigit c = of_char c - 48"

fun undec_acc :: "nat \<Rightarrow> string \<Rightarrow> nat" where
  "undec_acc a [] = a"
| "undec_acc a (c # cs) = undec_acc (10 * a + undigit c) cs"

lemma undec_acc_append: "undec_acc a (xs @ ys) = undec_acc (undec_acc a xs) ys"
  by (induction xs arbitrary: a) auto

lemma less_10_cases: "d < 10 \<Longrightarrow> d \<in> {0, 1, 2, 3, 4, 5, 6, 7, 8, 9 :: nat}"
  by auto

lemma undigit_digit [simp]: "d < 10 \<Longrightarrow> undigit (digit d) = d"
  by (drule less_10_cases) (auto simp: undigit_def digit_def)

lemma undec_dec [simp]: "undec_acc 0 (dec n) = n"
proof (induction n rule: dec.induct)
  case (1 n)
  show ?case
  proof (cases "n < 10")
    case True
    then show ?thesis by (simp add: dec.simps[of n])
  next
    case False
    with 1 show ?thesis by (simp add: dec.simps[of n] undec_acc_append)
  qed
qed

lemma dec_inj [simp]: "dec m = dec n \<longleftrightarrow> m = n"
  by (metis undec_dec)

lemma digit_digits: "d < 10 \<Longrightarrow> digit d \<in> set ''0123456789''"
  unfolding digit_def by (rule nth_mem) simp

lemma set_dec: "set (dec n) \<subseteq> set ''0123456789''"
proof (induction n rule: dec.induct)
  case (1 n)
  show ?case
  proof (cases "n < 10")
    case True
    then show ?thesis using digit_digits[of n] by (simp add: dec.simps[of n])
  next
    case False
    then show ?thesis using 1 digit_digits[of "n mod 10"] by (simp add: dec.simps[of n])
  qed
qed

lemma dec_not_in [simp]: "c \<notin> set ''0123456789'' \<Longrightarrow> c \<notin> set (dec n)"
  using set_dec[of n] by blast

lemma length_dec: "n < 10 ^ k \<Longrightarrow> 0 < k \<Longrightarrow> length (dec n) \<le> k"
proof (induction n arbitrary: k rule: dec.induct)
  case (1 n)
  show ?case
  proof (cases "n < 10")
    case True
    with 1 show ?thesis by (simp add: dec.simps[of n])
  next
    case False
    with 1(2,3) obtain j where k: "k = Suc j" and "0 < j"
      by (cases k; cases "k - 1") auto
    from 1(2) have "n div 10 < 10 ^ j" by (simp add: k less_mult_imp_div_less mult.commute)
    with 1(1)[OF False _ \<open>0 < j\<close>] False show ?thesis by (simp add: dec.simps[of n] k)
  qed
qed

section \<open>The memory image of a 32-bit integer\<close>

definition le32 :: "32 word \<Rightarrow> char list" where
  "le32 w = [char_of (unat w), char_of (unat w div 256), char_of (unat w div 65536),
     char_of (unat w div 16777216)]"

definition un_le32 :: "char list \<Rightarrow> 32 word" where
  "un_le32 bs = word_of_nat (of_char (bs ! 0) + 256 * of_char (bs ! 1) + 65536 * of_char (bs ! 2)
     + 16777216 * of_char (bs ! 3))"

lemma length_le32 [simp]: "length (le32 w) = 4"
  by (simp add: le32_def)

lemma bytes_of_nat: "n < 4294967296 \<Longrightarrow>
   n mod 256 + 256 * (n div 256 mod 256) + 65536 * (n div 65536 mod 256)
     + 16777216 * (n div 16777216 mod 256) = (n :: nat)"
proof -
  assume n: "n < 4294967296"
  let ?a = "n div 256" and ?b = "n div 256 div 256" and ?c = "n div 256 div 256 div 256"
  have d: "n div 65536 = ?b" "n div 16777216 = ?c" by (simp_all flip: div_mult2_eq)
  have "n = 256 * ?a + n mod 256" "?a = 256 * ?b + ?a mod 256" "?b = 256 * ?c + ?b mod 256"
    by simp_all
  moreover have "?c mod 256 = ?c" using n by (simp add: less_mult_imp_div_less flip: div_mult2_eq)
  ultimately show ?thesis unfolding d by linarith
qed

lemma un_le32_le32 [simp]: "un_le32 (le32 w @ bs) = w"
proof -
  have "unat w < 4294967296" using unsigned_less[of w, where ?'a = nat] by simp
  then have "un_le32 (le32 w @ bs) = word_of_nat (unat w)"
    using bytes_of_nat[of "unat w"] by (simp add: un_le32_def le32_def nth_Cons)
  then show ?thesis by simp
qed

lemma small_word:
  assumes "n < 2 ^ 31"
  shows "unat (word_of_nat n :: 32 word) = n" "sint (word_of_nat n :: 32 word) = int n"
proof -
  have "n < 2 ^ 32" using assms by (rule order_less_trans) simp
  then show "unat (word_of_nat n :: 32 word) = n" by (simp add: unsigned_of_nat take_bit_nat_eq_self_iff)
  have "signed_take_bit 31 (int n) = int n"
    using assms by (simp add: signed_take_bit_int_eq_self_iff)
  then show "sint (word_of_nat n :: 32 word) = int n" by (simp add: signed_of_nat)
qed

section \<open>Lists\<close>

lemma map_of_distinct_nth:
  "distinct (map fst es) \<Longrightarrow> i < length es \<Longrightarrow> map_of es (fst (es ! i)) = Some (snd (es ! i))"
  by (simp add: map_of_eq_Some_iff)

lemma find_Some_first:
  "List.find P xs = Some x \<Longrightarrow> x \<in> set xs \<and> P x"
  by (auto simp: find_Some_iff)

text \<open>The position of the first element of \<open>xs\<close> that satisfies \<open>P\<close>.\<close>

fun index_of :: "('a \<Rightarrow> bool) \<Rightarrow> 'a list \<Rightarrow> nat option" where
  "index_of P [] = None"
| "index_of P (x # xs) = (if P x then Some 0 else map_option Suc (index_of P xs))"

lemma index_of_None: "index_of P xs = None \<longleftrightarrow> (\<forall>x \<in> set xs. \<not> P x)"
  by (induction xs) auto

lemma index_of_Some:
  "index_of P xs = Some i \<longleftrightarrow> i < length xs \<and> P (xs ! i) \<and> (\<forall>j < i. \<not> P (xs ! j))"
proof (induction xs arbitrary: i)
  case (Cons x xs)
  then show ?case
    by (cases i) (auto simp: less_Suc_eq_0_disj)
qed simp

end
