(* ===== verification/KVConstants.thy ===== *)
theory KVConstants
  imports Prelude
begin

text \<open>
  \<^verbatim>\<open>kvconstants.h\<close>: the message types, the states of a two-phase-commit participant, the error
  codes and the error messages of the key-value store.
\<close>

definition MAX_KEYLEN :: nat where [kv_simps]: "MAX_KEYLEN = 1024"
definition MAX_VALLEN :: nat where [kv_simps]: "MAX_VALLEN = 1024"
definition MAX_FILENAME :: nat where [kv_simps]: "MAX_FILENAME = 1024"

definition MSG_SUCCESS :: string where "MSG_SUCCESS = ''SUCCESS''"
definition ERRMSG_NO_KEY :: string where "ERRMSG_NO_KEY = ''ERROR: NO KEY''"
definition ERRMSG_KEY_LEN :: string where "ERRMSG_KEY_LEN = ''ERROR: IMPROPER KEY LENGTH''"
definition ERRMSG_VAL_LEN :: string where "ERRMSG_VAL_LEN = ''ERROR: VALUE TOO LONG''"
definition ERRMSG_INVALID_REQUEST :: string where
  "ERRMSG_INVALID_REQUEST = ''ERROR: INVALID REQUEST''"
definition ERRMSG_GENERIC_ERROR :: string where
  "ERRMSG_GENERIC_ERROR = ''ERROR: UNABLE TO PROCESS REQUEST''"

datatype msgtype =
  GETREQ | PUTREQ | DELREQ | GETRESP | RESP | ACK | ABORT | COMMIT | VOTE_COMMIT | VOTE_ABORT
| REGISTER | INFO

datatype tpc_state = TPC_INIT | TPC_WAIT | TPC_READY | TPC_ABORT | TPC_COMMIT

definition ERRKEYLEN :: int where [kv_simps]: "ERRKEYLEN = -11"
definition ERRVALLEN :: int where [kv_simps]: "ERRVALLEN = -12"
definition ERRNOKEY :: int where [kv_simps]: "ERRNOKEY = -13"
definition ERRINVLDMSG :: int where [kv_simps]: "ERRINVLDMSG = -14"
definition ERRFILACCESS :: int where [kv_simps]: "ERRFILACCESS = -17"

definition GETMSG :: "int \<Rightarrow> string" where
  "GETMSG error =
     (if error = ERRKEYLEN then ERRMSG_KEY_LEN
      else if error = ERRVALLEN then ERRMSG_VAL_LEN
      else if error = ERRNOKEY then ERRMSG_NO_KEY
      else ERRMSG_GENERIC_ERROR)"

text \<open>The integer a C \<^verbatim>\<open>msgtype_t\<close> is stored as, and the converse cast (an integer outside the
  enumeration has no constructor).\<close>

definition msgtypes :: "msgtype list" where
  "msgtypes = [GETREQ, PUTREQ, DELREQ, GETRESP, RESP, ACK, ABORT, COMMIT, VOTE_COMMIT, VOTE_ABORT,
     REGISTER, INFO]"

fun msgtype_code :: "msgtype \<Rightarrow> nat" where
  "msgtype_code GETREQ = 0"
| "msgtype_code PUTREQ = 1"
| "msgtype_code DELREQ = 2"
| "msgtype_code GETRESP = 3"
| "msgtype_code RESP = 4"
| "msgtype_code ACK = 5"
| "msgtype_code ABORT = 6"
| "msgtype_code COMMIT = 7"
| "msgtype_code VOTE_COMMIT = 8"
| "msgtype_code VOTE_ABORT = 9"
| "msgtype_code REGISTER = 10"
| "msgtype_code INFO = 11"

definition msgtype_of :: "nat \<Rightarrow> msgtype option" where
  "msgtype_of n = (if n < length msgtypes then Some (msgtypes ! n) else None)"

lemma msgtype_of_code [simp]: "msgtype_of (msgtype_code t) = Some t"
  by (cases t) (simp_all add: msgtype_of_def msgtypes_def)

lemma msgtype_code_less: "msgtype_code t < 12"
  by (cases t) simp_all

end
