(* ===== verification/KVInterfaces.thy ===== *)
theory KVInterfaces
  imports KVConstants
begin

text \<open>
  What the server relies on. \<open>lossy_cache\<close> is the contract of a cache: it stands for a finite map,
  a hit returns the map's value, a put binds its key and may forget others but never invents or
  alters a binding, a delete unbinds. \<open>kv_store\<close> is the contract of the persistent store, which
  forgets nothing. \<open>write_through\<close> joins the two and proves once that the server's access patterns
  keep the cache a submap of the store.
\<close>

locale lossy_cache =
  fixes cmap :: "'c \<Rightarrow> string \<Rightarrow> string option"
    and cinv :: "'c \<Rightarrow> bool"
    and kadm :: "string \<Rightarrow> bool"
    and vadm :: "string \<Rightarrow> bool"
    and cget :: "'c \<Rightarrow> string \<Rightarrow> (int \<times> string option \<times> 'c) option"
    and cput :: "'c \<Rightarrow> string \<Rightarrow> string \<Rightarrow> (int \<times> 'c) option"
    and cdel :: "'c \<Rightarrow> string \<Rightarrow> (int \<times> 'c) option"
  assumes get_hit: "cinv c \<Longrightarrow> kadm k \<Longrightarrow> cmap c k = Some v \<Longrightarrow>
      \<exists>c'. cget c k = Some (0, Some v, c') \<and> cinv c' \<and> cmap c' = cmap c"
    and get_miss: "cinv c \<Longrightarrow> kadm k \<Longrightarrow> cmap c k = None \<Longrightarrow> cget c k = Some (ERRNOKEY, None, c)"
    and put_ok: "cinv c \<Longrightarrow> kadm k \<Longrightarrow> vadm v \<Longrightarrow>
      \<exists>c'. cput c k v = Some (0, c') \<and> cinv c' \<and> cmap c' k = Some v \<and>
        cmap c' \<subseteq>\<^sub>m (cmap c)(k \<mapsto> v)"
    and del_ok: "cinv c \<Longrightarrow> kadm k \<Longrightarrow>
      \<exists>c'. cdel c k = Some (if cmap c k = None then ERRNOKEY else 0, c') \<and> cinv c' \<and>
        cmap c' = (cmap c)(k := None)"
begin

lemma put_get:
  assumes "cinv c" "kadm k" "vadm v"
  shows "\<exists>c' c''. cput c k v = Some (0, c') \<and> cget c' k = Some (0, Some v, c'')"
  using put_ok[OF assms] get_hit[OF _ assms(2)] by metis

lemma put_submap:
  assumes "cinv c" "kadm k" "vadm v" "cmap c \<subseteq>\<^sub>m m"
  shows "\<exists>c'. cput c k v = Some (0, c') \<and> cinv c' \<and> cmap c' \<subseteq>\<^sub>m m(k \<mapsto> v)"
proof -
  obtain c' where c': "cput c k v = Some (0, c')" "cinv c'" "cmap c' \<subseteq>\<^sub>m (cmap c)(k \<mapsto> v)"
    using put_ok[OF assms(1-3)] by blast
  moreover have "(cmap c)(k \<mapsto> v) \<subseteq>\<^sub>m m(k \<mapsto> v)" using assms(4) by (simp add: map_le_def)
  ultimately show ?thesis using map_le_trans by blast
qed

lemma del_submap:
  assumes "cinv c" "kadm k" "cmap c \<subseteq>\<^sub>m m"
  shows "\<exists>r c'. cdel c k = Some (r, c') \<and> cinv c' \<and> cmap c' \<subseteq>\<^sub>m m(k := None)"
proof -
  obtain c' where c': "cdel c k = Some (if cmap c k = None then ERRNOKEY else 0, c')" "cinv c'"
    "cmap c' = (cmap c)(k := None)" using del_ok[OF assms(1,2)] by blast
  moreover have "(cmap c)(k := None) \<subseteq>\<^sub>m m(k := None)" using assms(3) by (auto simp: map_le_def)
  ultimately show ?thesis by auto
qed

end

locale kv_store =
  fixes srep :: "'s \<Rightarrow> (string \<rightharpoonup> string) \<Rightarrow> bool"
    and skey :: "string \<Rightarrow> bool"
    and sval :: "string \<Rightarrow> bool"
    and cap :: nat
    and sget :: "'s \<Rightarrow> string \<Rightarrow> (int \<times> string option) option"
    and sput :: "'s \<Rightarrow> string \<Rightarrow> string \<Rightarrow> (int \<times> 's) option"
    and sdel :: "'s \<Rightarrow> string \<Rightarrow> (int \<times> 's) option"
  assumes sget_hit: "srep s m \<Longrightarrow> skey k \<Longrightarrow> card (dom m) < cap \<Longrightarrow> m k = Some v \<Longrightarrow> sget s k = Some (0, Some v)"
    and sget_miss: "srep s m \<Longrightarrow> skey k \<Longrightarrow> card (dom m) < cap \<Longrightarrow> m k = None \<Longrightarrow> sget s k = Some (ERRNOKEY, None)"
    and sput_ok: "srep s m \<Longrightarrow> skey k \<Longrightarrow> sval v \<Longrightarrow> card (dom m) < cap \<Longrightarrow>
      \<exists>s'. sput s k v = Some (0, s') \<and> srep s' (m(k \<mapsto> v))"
    and sdel_hit: "srep s m \<Longrightarrow> skey k \<Longrightarrow> card (dom m) < cap \<Longrightarrow> m k = Some v \<Longrightarrow>
      \<exists>s'. sdel s k = Some (0, s') \<and> srep s' (m(k := None))"
    and sdel_miss: "srep s m \<Longrightarrow> skey k \<Longrightarrow> card (dom m) < cap \<Longrightarrow> m k = None \<Longrightarrow> sdel s k = Some (ERRNOKEY, s)"
    and srep_fun: "srep s m \<Longrightarrow> srep s m' \<Longrightarrow> m = m'"
    and srep_finite: "srep s m \<Longrightarrow> finite (dom m)"
begin

lemma sput_sget:
  assumes "srep s m" "skey k" "sval v" "card (dom m) + 1 < cap"
  shows "\<exists>s'. sput s k v = Some (0, s') \<and> sget s' k = Some (0, Some v)"
proof -
  obtain s' where s': "sput s k v = Some (0, s')" "srep s' (m(k \<mapsto> v))"
    using sput_ok[OF assms(1-3)] assms(4) by auto
  have "card (dom (m(k \<mapsto> v))) \<le> card (dom m) + 1"
    using srep_finite[OF assms(1)] by (simp add: card_insert_if)
  then show ?thesis using s' sget_hit[OF s'(2) assms(2)] assms(4) by simp
qed

text \<open>What a lookup returns pins the map down.\<close>

lemma sget_iff:
  assumes "srep s m" "skey k" "card (dom m) < cap"
  shows "sget s k = Some (0, Some v) \<longleftrightarrow> m k = Some v"
  using sget_hit[OF assms] sget_miss[OF assms] by (cases "m k") auto

end

text \<open>A cache in front of a store, kept a submap of it: a hit is the store's value, filling the cache
  after a miss, writing through and deleting from both all keep the two coherent.\<close>

locale write_through =
  lossy_cache cmap cinv kadm vadm cget cput cdel + kv_store srep skey sval cap sget sput sdel
  for cmap :: "'c \<Rightarrow> string \<Rightarrow> string option" and cinv kadm vadm cget cput cdel
    and srep :: "'s \<Rightarrow> (string \<rightharpoonup> string) \<Rightarrow> bool" and skey sval cap sget sput sdel +
  assumes skey_kadm: "skey k \<Longrightarrow> kadm k"
    and sval_vadm: "sval v \<Longrightarrow> vadm v"
    and srep_sval: "srep s m \<Longrightarrow> m k = Some v \<Longrightarrow> sval v"
begin

definition coherent :: "'c \<Rightarrow> 's \<Rightarrow> (string \<rightharpoonup> string) \<Rightarrow> bool" where
  "coherent c s m \<longleftrightarrow> cinv c \<and> srep s m \<and> cmap c \<subseteq>\<^sub>m m \<and> card (dom m) < cap"

lemma coherent_get:
  assumes "coherent c s m" "skey k"
  shows "case cmap c k of
      Some v \<Rightarrow> m k = Some v \<and> (\<exists>c'. cget c k = Some (0, Some v, c') \<and> coherent c' s m)
    | None \<Rightarrow> cget c k = Some (ERRNOKEY, None, c) \<and>
        (case m k of None \<Rightarrow> sget s k = Some (ERRNOKEY, None)
         | Some v \<Rightarrow> sget s k = Some (0, Some v) \<and> (\<exists>c'. cput c k v = Some (0, c') \<and> coherent c' s m))"
proof (cases "cmap c k")
  case (Some v)
  then have "m k = Some v" using assms(1) by (auto simp: coherent_def map_le_def dom_def)
  then show ?thesis
    using Some get_hit[OF _ skey_kadm[OF assms(2)] Some] assms(1) by (auto simp: coherent_def)
next
  case None
  have c: "cinv c" "srep s m" "cmap c \<subseteq>\<^sub>m m" "card (dom m) < cap" using assms(1) by (auto simp: coherent_def)
  show ?thesis
  proof (cases "m k")
    case None
    with \<open>cmap c k = None\<close> show ?thesis
      using get_miss[OF c(1) skey_kadm[OF assms(2)]] sget_miss[OF c(2) assms(2) c(4) None] by simp
  next
    case (Some v)
    obtain c' where "cput c k v = Some (0, c')" "cinv c'" "cmap c' \<subseteq>\<^sub>m m(k \<mapsto> v)"
      using put_submap[OF c(1) skey_kadm[OF assms(2)] sval_vadm[OF srep_sval[OF c(2) Some]] c(3)] by blast
    moreover have "m(k \<mapsto> v) = m" using Some by (simp add: map_upd_triv)
    ultimately show ?thesis
      using Some \<open>cmap c k = None\<close> get_miss[OF c(1) skey_kadm[OF assms(2)]] sget_hit[OF c(2) assms(2) c(4) Some] c
      by (simp add: coherent_def)
  qed
qed

lemma coherent_put:
  assumes "coherent c s m" "skey k" "sval v" "card (dom m) + 1 < cap"
  shows "\<exists>s' c'. sput s k v = Some (0, s') \<and> cput c k v = Some (0, c') \<and> coherent c' s' (m(k \<mapsto> v))"
proof -
  have c: "cinv c" "srep s m" "cmap c \<subseteq>\<^sub>m m" "card (dom m) < cap" using assms(1) by (auto simp: coherent_def)
  have "card (dom (m(k \<mapsto> v))) \<le> card (dom m) + 1" using srep_finite[OF c(2)] by (simp add: card_insert_if)
  then show ?thesis
    using sput_ok[OF c(2) assms(2,3) c(4)] put_submap[OF c(1) skey_kadm[OF assms(2)] sval_vadm[OF assms(3)] c(3)] assms(4)
    unfolding coherent_def by (meson le_less_trans)
qed

lemma coherent_del:
  assumes "coherent c s m" "skey k"
  shows "\<exists>r c'. cdel c k = Some (r, c') \<and> (m k = None \<longrightarrow> r = ERRNOKEY \<and> coherent c' s m) \<and>
    (m k \<noteq> None \<longrightarrow> (\<exists>s'. sdel s k = Some (0, s') \<and> coherent c' s' (m(k := None))))"
proof -
  have c: "cinv c" "srep s m" "cmap c \<subseteq>\<^sub>m m" "card (dom m) < cap" using assms(1) by (auto simp: coherent_def)
  obtain c' where c': "cdel c k = Some (if cmap c k = None then ERRNOKEY else 0, c')" "cinv c'"
    "cmap c' = (cmap c)(k := None)" using del_ok[OF c(1) skey_kadm[OF assms(2)]] by blast
  have sub: "cmap c' \<subseteq>\<^sub>m m(k := None)" using c(3) c'(3) by (auto simp: map_le_def)
  have "card (dom (m(k := None))) \<le> card (dom m)"
    using srep_finite[OF c(2)] by (intro card_mono) auto
  then have card: "card (dom (m(k := None))) < cap" using c(4) by simp
  show ?thesis
  proof (cases "m k")
    case None
    have "cmap c k = None" using c(3) None by (cases "cmap c k") (auto simp: map_le_def dom_def)
    then show ?thesis using c' sub None c by (simp add: coherent_def fun_upd_idem)
  next
    case (Some v)
    then show ?thesis using c' sub card sdel_hit[OF c(2) assms(2) c(4) Some] by (auto simp: coherent_def)
  qed
qed

end

end
