(* ===== verification/KVCacheSet.thy ===== *)
theory KVCacheSet
  imports KVInterfaces
begin

text \<open>
  \<^verbatim>\<open>kvcacheset.c\<close>: one set of the set-associative cache, with second-chance replacement. Entries
  live on a heap (\<open>cs_heap\<close>, addresses are natural numbers) and are reached through two structures
  that must agree: the doubly linked list \<open>list_ptr\<close> (the replacement queue) and the hash table
  \<open>hash_ptr\<close>. The \<^verbatim>\<open>utlist.h\<close> and \<^verbatim>\<open>uthash.h\<close> macros are taken at the level of the sequence of
  elements they maintain (application order for the hash table). \<open>mem n\<close> says whether
  \<^verbatim>\<open>malloc(n)\<close> succeeds; a NULL or dangling dereference is \<^term>\<open>None\<close>.
\<close>

section \<open>Data\<close>

record kvcacheentry =
  ekey :: string
  evalue :: "string option" \<comment> \<open>\<^term>\<open>None\<close> is a NULL pointer\<close>
  refbit :: bool

record kvcacheset =
  elem_per_set :: "32 word"
  num_entries :: "32 word"
  list_ptr :: "nat list"
  hash_ptr :: "nat list"
  cs_heap :: "nat \<Rightarrow> kvcacheentry option"
  cs_next :: nat \<comment> \<open>the next address \<^verbatim>\<open>malloc\<close> hands out\<close>

definition sizeof_kvcacheentry :: nat where
  "sizeof_kvcacheentry = 96"

section \<open>Operations\<close>

fun dl_next :: "'a list \<Rightarrow> 'a \<Rightarrow> 'a option" where
  "dl_next (x # y # ys) a = (if x = a then Some y else dl_next (y # ys) a)"
| "dl_next _ a = None"

definition hash_find :: "kvcacheset \<Rightarrow> string \<Rightarrow> nat option" where
  "hash_find cs key =
     List.find (\<lambda>i. case cs_heap cs i of None \<Rightarrow> False | Some e \<Rightarrow> ekey e = key) (hash_ptr cs)"

text \<open>\<open>lockret\<close> is what \<^verbatim>\<open>pthread_rwlock_init\<close> returns.\<close>

definition kvcacheset_init :: "int \<Rightarrow> 32 word \<Rightarrow> kvcacheset \<Rightarrow> int \<times> kvcacheset" where
  "kvcacheset_init lockret n cs =
     (if n < 2 then (-1, cs)
      else let cs1 = cs\<lparr>elem_per_set := n\<rparr> in
        if lockret < 0 then (lockret, cs1)
        else (0, cs1\<lparr>num_entries := 0, list_ptr := [], hash_ptr := []\<rparr>))"

text \<open>The second component is what \<^verbatim>\<open>*value\<close> is set to, \<^term>\<open>None\<close> when it is left alone.\<close>

definition kvcacheset_get ::
    "(nat \<Rightarrow> bool) \<Rightarrow> kvcacheset \<Rightarrow> string \<Rightarrow> (int \<times> string option \<times> kvcacheset) option" where
  "kvcacheset_get mem cs key =
     (case hash_find cs key of
        None \<Rightarrow> Some (ERRNOKEY, None, cs)
      | Some i \<Rightarrow> do {
          e \<leftarrow> cs_heap cs i;
          let cs1 = cs\<lparr>cs_heap := (cs_heap cs)(i \<mapsto> e\<lparr>refbit := True\<rparr>)\<rparr>;
          v \<leftarrow> evalue e;
          if mem (length v + 1) then Some (0, Some v, cs1) else None
        })"

text \<open>The eviction loop: \<^verbatim>\<open>DL_FOREACH_SAFE\<close> saves the successor \<open>tmp\<close> of \<open>elt\<close> before the body
  unlinks \<open>elt\<close>; a referenced element loses its bit and goes to the back, the first unreferenced one
  is freed.\<close>

function second_chance :: "nat option \<Rightarrow> kvcacheset \<Rightarrow> kvcacheset option" where
  "second_chance None cs = Some cs"
| "second_chance (Some elt) cs =
     (if elt \<notin> set (list_ptr cs) then None
      else case cs_heap cs elt of
        None \<Rightarrow> None
      | Some e \<Rightarrow>
          let tmp = dl_next (list_ptr cs) elt; rest = remove1 elt (list_ptr cs) in
          if \<not> refbit e
          then Some (cs\<lparr>list_ptr := rest, hash_ptr := remove1 elt (hash_ptr cs),
                 cs_heap := (cs_heap cs)(elt := None)\<rparr>)
          else second_chance tmp
                 (cs\<lparr>cs_heap := (cs_heap cs)(elt \<mapsto> e\<lparr>refbit := False\<rparr>), list_ptr := rest @ [elt]\<rparr>))"
  by pat_completeness auto

definition referenced :: "kvcacheset \<Rightarrow> nat \<Rightarrow> bool" where
  "referenced cs i = (case cs_heap cs i of None \<Rightarrow> False | Some e \<Rightarrow> refbit e)"

lemma filter_remove1_less:
  assumes "x \<in> set xs" "P x" "\<And>y. Q y \<Longrightarrow> P y" "\<not> Q x"
  shows "length (filter Q (remove1 x xs)) < length (filter P xs)"
  using assms(1)
proof (induction xs)
  case (Cons y ys)
  have "length (filter Q zs) \<le> length (filter P zs)" for zs
    using assms(3) by (induction zs) (auto simp: le_SucI)
  with Cons assms show ?case by (auto simp: less_Suc_eq_le)
qed simp

termination second_chance
proof (relation "measure (\<lambda>(_, cs). length (filter (referenced cs) (list_ptr cs)))", goal_cases)
  case (2 elt cs e tmp rest)
  then show ?case
    using filter_remove1_less[of elt "list_ptr cs" "referenced cs"
        "referenced (cs\<lparr>cs_heap := (cs_heap cs)(elt \<mapsto> e\<lparr>refbit := False\<rparr>), list_ptr := rest @ [elt]\<rparr>)"]
    by (auto simp: referenced_def split: if_splits)
qed simp

declare second_chance.simps [simp del]

definition kvcacheset_put ::
    "(nat \<Rightarrow> bool) \<Rightarrow> kvcacheset \<Rightarrow> string \<Rightarrow> string \<Rightarrow> (int \<times> kvcacheset) option" where
  "kvcacheset_put mem cs key val =
     (case hash_find cs key of
        Some i \<Rightarrow> do {
          e \<leftarrow> cs_heap cs i;
          if \<not> mem (length val + 1)
          then Some (-1, cs\<lparr>cs_heap := (cs_heap cs)(i \<mapsto> e\<lparr>evalue := None, refbit := True\<rparr>)\<rparr>)
          else Some (0, cs\<lparr>cs_heap := (cs_heap cs)(i \<mapsto> e\<lparr>evalue := Some val, refbit := True\<rparr>)\<rparr>)
        }
      | None \<Rightarrow>
          if \<not> mem sizeof_kvcacheentry then None
          else if \<not> mem (length key + 1) then Some (-1, cs)
          else if \<not> mem (length val + 1) then Some (-1, cs)
          else do {
            let i = cs_next cs;
            let cs1 = cs\<lparr>cs_next := i + 1,
              cs_heap := (cs_heap cs)(i \<mapsto> \<lparr>ekey = key, evalue = Some val, refbit = False\<rparr>)\<rparr>;
            cs2 \<leftarrow> (if num_entries cs1 < elem_per_set cs1
                   then Some (cs1\<lparr>num_entries := num_entries cs1 + 1\<rparr>)
                   else second_chance
                     (case list_ptr cs1 of [] \<Rightarrow> None | elt # _ \<Rightarrow> Some elt) cs1);
            Some (0, cs2\<lparr>list_ptr := list_ptr cs2 @ [i], hash_ptr := hash_ptr cs2 @ [i]\<rparr>)
          })"

definition kvcacheset_del :: "kvcacheset \<Rightarrow> string \<Rightarrow> (int \<times> kvcacheset) option" where
  "kvcacheset_del cs key =
     (case hash_find cs key of
        None \<Rightarrow> Some (ERRNOKEY, cs)
      | Some elt \<Rightarrow>
          if elt \<notin> set (list_ptr cs) then None
          else Some (0, cs\<lparr>hash_ptr := remove1 elt (hash_ptr cs),
            list_ptr := remove1 elt (list_ptr cs), cs_heap := (cs_heap cs)(elt := None),
            num_entries := num_entries cs - 1\<rparr>))"

fun clear_loop :: "nat list \<Rightarrow> kvcacheset \<Rightarrow> kvcacheset option" where
  "clear_loop [] cs = Some cs"
| "clear_loop (elt # elts) cs =
     (if elt \<notin> set (list_ptr cs) then None
      else clear_loop elts (cs\<lparr>hash_ptr := remove1 elt (hash_ptr cs),
        list_ptr := remove1 elt (list_ptr cs), cs_heap := (cs_heap cs)(elt := None)\<rparr>))"

definition kvcacheset_clear :: "kvcacheset \<Rightarrow> kvcacheset option" where
  "kvcacheset_clear cs = clear_loop (hash_ptr cs) cs"

definition kvcacheset_ref :: "kvcacheset \<Rightarrow> string \<Rightarrow> int option" where
  "kvcacheset_ref cs key =
     (case hash_find cs key of
        None \<Rightarrow> Some ERRNOKEY
      | Some i \<Rightarrow> map_option (\<lambda>e. if refbit e then 1 else 0) (cs_heap cs i))"

section \<open>Invariant and abstraction\<close>

text \<open>The entry at an address, the replacement queue as a list of entries, and the finite map a set
  stands for.\<close>

definition entry_at :: "kvcacheset \<Rightarrow> nat \<Rightarrow> kvcacheentry" where
  "entry_at cs i = the (cs_heap cs i)"

definition cs_entries :: "kvcacheset \<Rightarrow> kvcacheentry list" where
  "cs_entries cs = map (entry_at cs) (list_ptr cs)"

definition cs_map :: "kvcacheset \<Rightarrow> string \<Rightarrow> string option" where
  "cs_map cs key = (case hash_find cs key of None \<Rightarrow> None | Some i \<Rightarrow> evalue (entry_at cs i))"

text \<open>List and hash table hold the same live entries, each once, with distinct keys and non-NULL
  values; the entry count is an upper bound of the queue and stays within the capacity.\<close>

definition cs_core :: "kvcacheset \<Rightarrow> bool" where
  "cs_core cs \<longleftrightarrow>
     distinct (list_ptr cs) \<and> distinct (hash_ptr cs) \<and> set (hash_ptr cs) = set (list_ptr cs) \<and>
     (\<forall>i \<in> set (list_ptr cs). i < cs_next cs \<and> cs_heap cs i \<noteq> None \<and> evalue (entry_at cs i) \<noteq> None) \<and>
     inj_on (\<lambda>i. ekey (entry_at cs i)) (set (list_ptr cs))"

definition cs_wf :: "kvcacheset \<Rightarrow> bool" where
  "cs_wf cs \<longleftrightarrow> cs_core cs \<and> length (list_ptr cs) \<le> unat (num_entries cs) \<and>
     num_entries cs \<le> elem_per_set cs \<and> 2 \<le> elem_per_set cs"

lemma cs_wf_core [simp, intro]: "cs_wf cs \<Longrightarrow> cs_core cs"
  by (simp add: cs_wf_def)

lemma cs_coreD:
  assumes "cs_core cs"
  shows "distinct (list_ptr cs)" "distinct (hash_ptr cs)" "set (hash_ptr cs) = set (list_ptr cs)"
    "i \<in> set (list_ptr cs) \<Longrightarrow> i < cs_next cs"
  using assms by (simp_all add: cs_core_def)

lemma cs_coreI:
  assumes "distinct (list_ptr cs)" "distinct (hash_ptr cs)" "set (hash_ptr cs) = set (list_ptr cs)"
    "\<And>i. i \<in> set (list_ptr cs) \<Longrightarrow>
      i < cs_next cs \<and> cs_heap cs i \<noteq> None \<and> evalue (entry_at cs i) \<noteq> None"
    "\<And>i j. i \<in> set (list_ptr cs) \<Longrightarrow> j \<in> set (list_ptr cs) \<Longrightarrow>
      ekey (entry_at cs i) = ekey (entry_at cs j) \<Longrightarrow> i = j"
  shows "cs_core cs"
  using assms unfolding cs_core_def inj_on_def by blast

lemma cs_core_live:
  "cs_core cs \<Longrightarrow> i \<in> set (list_ptr cs) \<Longrightarrow>
    i < cs_next cs \<and> cs_heap cs i \<noteq> None \<and> evalue (entry_at cs i) \<noteq> None"
  by (simp add: cs_core_def)

lemma cs_core_inj:
  "cs_core cs \<Longrightarrow> i \<in> set (list_ptr cs) \<Longrightarrow> j \<in> set (list_ptr cs) \<Longrightarrow>
    ekey (entry_at cs i) = ekey (entry_at cs j) \<longleftrightarrow> i = j"
  by (auto simp: cs_core_def inj_on_def)

lemma cs_core_entry:
  assumes "cs_core cs" "i \<in> set (list_ptr cs)"
  obtains e v where "cs_heap cs i = Some e" "entry_at cs i = e" "evalue e = Some v" "i < cs_next cs"
  using assms by (fastforce simp: cs_core_def entry_at_def)

lemma hash_find_Some:
  assumes "cs_core cs"
  shows "hash_find cs k = Some i \<longleftrightarrow> i \<in> set (list_ptr cs) \<and> ekey (entry_at cs i) = k"
proof
  assume "hash_find cs k = Some i"
  then show "i \<in> set (list_ptr cs) \<and> ekey (entry_at cs i) = k"
    using find_Some_first[of _ "hash_ptr cs" i] cs_coreD(3)[OF assms]
    by (fastforce simp: hash_find_def entry_at_def split: option.splits)
next
  assume i: "i \<in> set (list_ptr cs) \<and> ekey (entry_at cs i) = k"
  then obtain e where e: "cs_heap cs i = Some e" "entry_at cs i = e"
    using cs_core_entry[OF assms] by metis
  have "hash_find cs k \<noteq> None"
    using i e cs_coreD(3)[OF assms] by (auto simp: hash_find_def find_None_iff)
  then obtain j where j: "hash_find cs k = Some j" by blast
  then have "j \<in> set (list_ptr cs)" "ekey (entry_at cs j) = k"
    using find_Some_first[of _ "hash_ptr cs" j] cs_coreD(3)[OF assms]
    by (fastforce simp: hash_find_def entry_at_def split: option.splits)+
  with i assms have "j = i" by (auto simp: cs_core_def inj_on_def)
  with j show "hash_find cs k = Some i" by simp
qed

lemma hash_find_None:
  assumes "cs_core cs"
  shows "hash_find cs k = None \<longleftrightarrow> (\<forall>i \<in> set (list_ptr cs). ekey (entry_at cs i) \<noteq> k)"
  using hash_find_Some[OF assms, of k] by (cases "hash_find cs k") auto

lemma cs_map_Some:
  assumes "cs_core cs"
  shows "cs_map cs k = Some v \<longleftrightarrow>
    (\<exists>i \<in> set (list_ptr cs). ekey (entry_at cs i) = k \<and> evalue (entry_at cs i) = Some v)"
proof -
  have "cs_map cs k = Some v \<longleftrightarrow> (\<exists>i. hash_find cs k = Some i \<and> evalue (entry_at cs i) = Some v)"
    by (auto simp: cs_map_def split: option.splits)
  then show ?thesis by (auto simp: hash_find_Some[OF assms])
qed

lemma cs_map_hit:
  assumes "cs_core cs" "hash_find cs k = Some i"
  obtains e v where "cs_heap cs i = Some e" "entry_at cs i = e" "evalue e = Some v"
    "cs_map cs k = Some v"
  using assms cs_core_entry[OF assms(1)] hash_find_Some[OF assms(1)]
  by (metis cs_map_def option.simps(5))

section \<open>The eviction loop\<close>

text \<open>Second chance as the header of \<^verbatim>\<open>kvcache.h\<close> describes it, on the queue of entries: the first
  unreferenced entry goes, the referenced ones in front of it lose their bit and move to the back.
  When all are referenced the oldest goes after one full turn (a single entry survives its turn,
  since the loop ends with it).\<close>

definition unref :: "kvcacheentry \<Rightarrow> kvcacheentry" where
  "unref e = e\<lparr>refbit := False\<rparr>"

definition evict_spec :: "kvcacheentry list \<Rightarrow> kvcacheentry list" where
  "evict_spec es =
     (case dropWhile refbit es of
        _ # ys \<Rightarrow> ys @ map unref (takeWhile refbit es)
      | [] \<Rightarrow> (if length es \<le> 1 then map unref es else map unref (tl es)))"

lemma dl_next_hd [simp]: "dl_next (i # js) i = (case js of [] \<Rightarrow> None | j # _ \<Rightarrow> Some j)"
  by (cases js) simp_all

text \<open>Clearing the bits of a set of addresses.\<close>

definition unref_at :: "nat set \<Rightarrow> kvcacheset \<Rightarrow> kvcacheset" where
  "unref_at A cs = cs\<lparr>cs_heap := (\<lambda>i. if i \<in> A then map_option unref (cs_heap cs i) else cs_heap cs i)\<rparr>"

lemma second_chance_rotate:
  assumes "list_ptr cs = rs @ rest" "distinct (rs @ rest)" "rest \<noteq> []"
    "\<forall>i \<in> set rs. referenced cs i"
  shows "second_chance (Some (hd (rs @ rest))) cs =
     second_chance (Some (hd rest)) (unref_at (set rs) (cs\<lparr>list_ptr := rest @ rs\<rparr>))"
  using assms
proof (induction rs arbitrary: cs rest)
  case Nil
  then have "unref_at (set []) (cs\<lparr>list_ptr := rest @ []\<rparr>) = cs"
    by (cases cs) (simp add: unref_at_def)
  then show ?case by (simp only: append_Nil)
next
  case (Cons i rs)
  obtain e where e: "cs_heap cs i = Some e" "refbit e"
    using Cons.prems by (auto simp: referenced_def split: option.splits)
  let ?cs = "cs\<lparr>cs_heap := (cs_heap cs)(i \<mapsto> e\<lparr>refbit := False\<rparr>), list_ptr := rs @ rest @ [i]\<rparr>"
  have "dl_next (list_ptr cs) i = Some (hd (rs @ rest @ [i]))"
    using Cons.prems(1,3) by (cases rs; cases rest) auto
  then have "second_chance (Some i) cs = second_chance (Some (hd (rs @ rest @ [i]))) ?cs"
    using Cons.prems(1,2) e by (simp add: second_chance.simps(2))
  also have "\<dots> = second_chance (Some (hd (rest @ [i])))
      (unref_at (set rs) (?cs\<lparr>list_ptr := (rest @ [i]) @ rs\<rparr>))"
    using Cons.prems(2,3,4) by (intro Cons.IH) (auto simp: referenced_def)
  also have "unref_at (set rs) (?cs\<lparr>list_ptr := (rest @ [i]) @ rs\<rparr>)
      = unref_at (set (i # rs)) (cs\<lparr>list_ptr := rest @ i # rs\<rparr>)"
    using e Cons.prems(2) by (auto simp: unref_at_def unref_def fun_eq_iff)
  also have "hd (rest @ [i]) = hd rest" using Cons.prems(3) by simp
  finally show ?case by simp
qed

text \<open>What the loop leaves when it meets the unreferenced \<open>v\<close>.\<close>

definition evicted :: "nat \<Rightarrow> nat list \<Rightarrow> nat set \<Rightarrow> kvcacheset \<Rightarrow> kvcacheset" where
  "evicted v xs A cs = (unref_at A cs)\<lparr>list_ptr := xs, hash_ptr := remove1 v (hash_ptr cs),
     cs_heap := (cs_heap (unref_at A cs))(v := None)\<rparr>"

lemma evicted_simps [simp]:
  "list_ptr (evicted v xs A cs) = xs" "hash_ptr (evicted v xs A cs) = remove1 v (hash_ptr cs)"
  "cs_next (evicted v xs A cs) = cs_next cs" "num_entries (evicted v xs A cs) = num_entries cs"
  "elem_per_set (evicted v xs A cs) = elem_per_set cs"
  by (simp_all add: evicted_def unref_at_def)

lemma evicted_heap:
  "v \<in> L \<Longrightarrow> A \<subseteq> L \<Longrightarrow> j \<notin> L \<Longrightarrow> cs_heap (evicted v xs A cs) j = cs_heap cs j"
  by (auto simp: evicted_def unref_at_def)

lemma second_chance_hit:
  assumes "list_ptr cs = rs @ v # ys" "distinct (rs @ v # ys)"
    "\<forall>i \<in> set rs. referenced cs i" "cs_heap cs v = Some e" "\<not> refbit e"
  shows "second_chance (Some (hd (list_ptr cs))) cs = Some (evicted v (ys @ rs) (set rs) cs)"
proof -
  have "second_chance (Some (hd (list_ptr cs))) cs
      = second_chance (Some v) (unref_at (set rs) (cs\<lparr>list_ptr := (v # ys) @ rs\<rparr>))"
    using second_chance_rotate[of cs rs "v # ys"] assms by simp
  then show ?thesis
    using assms(2,4,5)
    by (simp add: second_chance.simps(2) unref_at_def evicted_def cong: if_cong)
qed

lemma second_chance_full_turn:
  assumes "list_ptr cs = v # ys" "distinct (v # ys)" "ys \<noteq> []"
    "\<forall>i \<in> set (v # ys). referenced cs i"
  shows "second_chance (Some v) cs = Some (evicted v ys (set (v # ys)) cs)"
proof -
  obtain zs l where ys: "ys = zs @ [l]" using assms(3) by (cases ys rule: rev_cases) auto
  obtain e where e: "cs_heap cs l = Some e" "refbit e"
    using assms(4) ys by (auto simp: referenced_def split: option.splits)
  obtain ev where ev: "cs_heap cs v = Some ev"
    using assms(4) by (auto simp: referenced_def split: option.splits)
  let ?cs = "unref_at (set (v # zs)) (cs\<lparr>list_ptr := [l] @ v # zs\<rparr>)"
  have "second_chance (Some v) cs = second_chance (Some l) ?cs"
    using second_chance_rotate[of cs "v # zs" "[l]"] assms ys by simp
  also have "\<dots> = second_chance (Some v)
      (?cs\<lparr>cs_heap := (cs_heap ?cs)(l \<mapsto> unref e), list_ptr := v # ys\<rparr>)"
    using e assms(2) ys
    by (subst second_chance.simps(2)) (simp add: unref_at_def unref_def cong: if_cong)
  also have "?cs\<lparr>cs_heap := (cs_heap ?cs)(l \<mapsto> unref e), list_ptr := v # ys\<rparr>
      = unref_at (set (v # ys)) (cs\<lparr>list_ptr := v # ys\<rparr>)"
    using e ys by (intro kvcacheset.equality) (auto simp: unref_at_def fun_eq_iff)
  also have "second_chance (Some v) \<dots> = Some (evicted v ys (set (v # ys)) cs)"
    using ev by (simp add: second_chance.simps(2) unref_at_def evicted_def unref_def cong: if_cong)
  finally show ?thesis .
qed

lemma entries_evicted:
  assumes "v \<notin> set xs" "A \<subseteq> insert v (set xs)" "\<forall>i \<in> A. cs_heap cs i \<noteq> None"
  shows "cs_entries (evicted v xs A cs) = map (\<lambda>i. if i \<in> A then unref (entry_at cs i) else entry_at cs i) xs"
  using assms
  by (auto simp: cs_entries_def evicted_def entry_at_def unref_at_def)

text \<open>With at least two entries the loop always frees exactly one of them.\<close>

lemma second_chance_evicts:
  assumes "distinct (list_ptr cs)" "\<forall>i \<in> set (list_ptr cs). cs_heap cs i \<noteq> None"
    "2 \<le> length (list_ptr cs)"
  obtains v xs A where
    "second_chance (Some (hd (list_ptr cs))) cs = Some (evicted v xs A cs)"
    "v \<in> set (list_ptr cs)" "distinct xs" "set xs = set (list_ptr cs) - {v}"
    "A \<subseteq> set (list_ptr cs)" "length xs + 1 = length (list_ptr cs)"
    "cs_entries (evicted v xs A cs) = evict_spec (cs_entries cs)"
proof -
  let ?P = "referenced cs" and ?l = "list_ptr cs"
  have ref: "referenced cs i \<longleftrightarrow> refbit (entry_at cs i)" if "i \<in> set ?l" for i
    using assms(2) that by (auto simp: referenced_def entry_at_def)
  have tw: "takeWhile refbit (cs_entries cs) = map (entry_at cs) (takeWhile ?P ?l)"
    "dropWhile refbit (cs_entries cs) = map (entry_at cs) (dropWhile ?P ?l)"
    unfolding cs_entries_def takeWhile_map dropWhile_map
    using ref by (auto simp: comp_def intro!: arg_cong[where f = "map (entry_at cs)"]
        takeWhile_cong dropWhile_cong)
  show thesis
  proof (cases "dropWhile ?P ?l")
    case (Cons v ys)
    let ?rs = "takeWhile ?P ?l"
    have l: "?l = ?rs @ v # ys" using takeWhile_dropWhile_id[of ?P ?l] Cons by simp
    have v: "v \<in> set ?l" using l by (metis in_set_conv_decomp)
    have nv: "\<not> ?P v" using hd_dropWhile[of ?P ?l] Cons by simp
    then obtain e where e: "cs_heap cs v = Some e" "\<not> refbit e"
      using assms(2) v by (auto simp: referenced_def split: option.splits)
    have rs: "\<forall>i \<in> set ?rs. ?P i" by (auto dest: set_takeWhileD)
    have d: "distinct (?rs @ v # ys)" using assms(1) l by simp
    show thesis
    proof (rule that)
      show "second_chance (Some (hd ?l)) cs = Some (evicted v (ys @ ?rs) (set ?rs) cs)"
        by (rule second_chance_hit[OF l d rs e])
      show "v \<in> set ?l" by (rule v)
      show "distinct (ys @ ?rs)" using d by auto
      show "set (ys @ ?rs) = set ?l - {v}" using d by (subst (2) l) auto
      show "set ?rs \<subseteq> set ?l" by (auto dest: set_takeWhileD)
      show "length (ys @ ?rs) + 1 = length ?l" by (subst (2) l) simp
      show "cs_entries (evicted v (ys @ ?rs) (set ?rs) cs) = evict_spec (cs_entries cs)"
        using d assms(2) by (subst entries_evicted)
          (auto simp: evict_spec_def tw Cons dest: set_takeWhileD)
    qed
  next
    case Nil
    then have all: "\<forall>i \<in> set ?l. ?P i" by (simp add: dropWhile_eq_Nil_conv)
    obtain v ys where l: "?l = v # ys" and ys: "ys \<noteq> []"
      using assms(3) by (cases ?l) (auto simp: Suc_le_eq)
    have d: "distinct (v # ys)" using assms(1) l by simp
    have "dropWhile refbit (cs_entries cs) = []" using tw(2) Nil by simp
    then have es: "evict_spec (cs_entries cs) = map (\<lambda>i. unref (entry_at cs i)) ys"
      using ys l by (simp add: evict_spec_def cs_entries_def comp_def)
    show thesis
    proof (rule that)
      show "second_chance (Some (hd ?l)) cs = Some (evicted v ys (set (v # ys)) cs)"
        using second_chance_full_turn[OF l d ys] all l by simp
      show "cs_entries (evicted v ys (set (v # ys)) cs) = evict_spec (cs_entries cs)"
        using d assms(2) l unfolding es by (subst entries_evicted) auto
    qed (use d l in auto)
  qed
qed

section \<open>What each step does to the map\<close>

lemma cs_map_eqI:
  assumes "cs_core cs" "cs_core cs'"
    "\<And>k v. (\<exists>i \<in> set (list_ptr cs'). ekey (entry_at cs' i) = k \<and> evalue (entry_at cs' i) = Some v)
       \<longleftrightarrow> m k = Some v"
  shows "cs_map cs' = m"
proof
  fix k
  have "cs_map cs' k = Some v \<longleftrightarrow> m k = Some v" for v
    using cs_map_Some[OF assms(2)] assms(3) by simp
  then show "cs_map cs' k = m k" by (metis option.exhaust)
qed

lemma cs_map_None: "cs_core cs \<Longrightarrow> cs_map cs k = None \<longleftrightarrow> (\<forall>i \<in> set (list_ptr cs). ekey (entry_at cs i) \<noteq> k)"
proof -
  assume c: "cs_core cs"
  have "cs_map cs k = None \<longleftrightarrow> hash_find cs k = None"
  proof (cases "hash_find cs k")
    case (Some i)
    then obtain v where "cs_map cs k = Some v" using cs_map_hit[OF c Some] by metis
    with Some show ?thesis by simp
  qed (simp add: cs_map_def)
  then show ?thesis by (simp only: hash_find_None[OF c])
qed

text \<open>Updating the value or the reference bit of one entry in place.\<close>

lemma core_update:
  assumes "cs_core cs" "i \<in> set (list_ptr cs)" "cs_heap cs i = Some e"
    "ekey e' = ekey e" "evalue e' = Some v"
  shows "cs_core (cs\<lparr>cs_heap := (cs_heap cs)(i \<mapsto> e')\<rparr>)" (is "cs_core ?cs")
    and "cs_map (cs\<lparr>cs_heap := (cs_heap cs)(i \<mapsto> e')\<rparr>) = (cs_map cs)(ekey e \<mapsto> v)"
proof -
  have key: "ekey (entry_at ?cs j) = ekey (entry_at cs j)" for j
    using assms(3,4) by (simp add: entry_at_def)
  have val: "evalue (entry_at ?cs j) = (if j = i then Some v else evalue (entry_at cs j))" for j
    using assms(5) by (simp add: entry_at_def)
  have ei: "ekey (entry_at cs i) = ekey e" using assms(3) by (simp add: entry_at_def)
  show c: "cs_core ?cs"
  proof (rule cs_coreI)
    show "j < cs_next ?cs \<and> cs_heap ?cs j \<noteq> None \<and> evalue (entry_at ?cs j) \<noteq> None"
      if "j \<in> set (list_ptr ?cs)" for j
      using cs_core_live[OF assms(1), of j] that val by simp
  qed (use cs_coreD(1-3)[OF assms(1)] cs_core_inj[OF assms(1)] key in simp_all)
  show "cs_map ?cs = (cs_map cs)(ekey e \<mapsto> v)"
  proof (rule cs_map_eqI[OF assms(1) c])
    fix k w
    show "(\<exists>j \<in> set (list_ptr ?cs). ekey (entry_at ?cs j) = k \<and> evalue (entry_at ?cs j) = Some w)
       \<longleftrightarrow> ((cs_map cs)(ekey e \<mapsto> v)) k = Some w"
    proof (cases "k = ekey e")
      case True
      have "ekey (entry_at cs j) = ekey e \<longleftrightarrow> j = i" if "j \<in> set (list_ptr cs)" for j
        using cs_core_inj[OF assms(1) that assms(2)] ei by simp
      with True assms(2) show ?thesis unfolding key val by (auto cong: conj_cong)
    next
      case False
      then have "(\<exists>j \<in> set (list_ptr ?cs). ekey (entry_at ?cs j) = k \<and> evalue (entry_at ?cs j) = Some w)
        \<longleftrightarrow> (\<exists>j \<in> set (list_ptr cs). ekey (entry_at cs j) = k \<and> evalue (entry_at cs j) = Some w)"
        unfolding key val by (intro bex_cong) (use ei in auto)
      with False show ?thesis by (simp add: cs_map_Some[OF assms(1)])
    qed
  qed
qed

lemma core_evicted:
  assumes "cs_core cs" "v \<in> set (list_ptr cs)" "distinct xs" "set xs = set (list_ptr cs) - {v}"
    "A \<subseteq> set (list_ptr cs)"
  shows "cs_core (evicted v xs A cs)" (is "cs_core ?cs")
    and "cs_map (evicted v xs A cs) = (cs_map cs)(ekey (entry_at cs v) := None)"
proof -
  have ent: "ekey (entry_at ?cs j) = ekey (entry_at cs j) \<and> evalue (entry_at ?cs j) = evalue (entry_at cs j)
      \<and> cs_heap ?cs j \<noteq> None" if "j \<in> set xs" for j
  proof -
    have j: "j \<in> set (list_ptr cs)" "j \<noteq> v" using that assms(4) by auto
    obtain e where e: "cs_heap cs j = Some e" using cs_core_live[OF assms(1) j(1)] by blast
    have "cs_heap ?cs j = Some (if j \<in> A then unref e else e)"
      using j(2) e by (simp add: evicted_def unref_at_def)
    then show ?thesis using e by (simp add: entry_at_def unref_def)
  qed
  note lists = evicted_simps(1-3)[of v xs A cs]
  show c: "cs_core ?cs"
  proof (rule cs_coreI)
    show "j < cs_next ?cs \<and> cs_heap ?cs j \<noteq> None \<and> evalue (entry_at ?cs j) \<noteq> None"
      if "j \<in> set (list_ptr ?cs)" for j
      using cs_core_live[OF assms(1), of j] ent[of j] that assms(4) unfolding lists by simp
    show "j = l" if "j \<in> set (list_ptr ?cs)" "l \<in> set (list_ptr ?cs)"
      "ekey (entry_at ?cs j) = ekey (entry_at ?cs l)" for j l
      using cs_core_inj[OF assms(1), of j l] ent that assms(4) unfolding lists by simp
  qed (use cs_coreD(1-3)[OF assms(1)] assms(3,4) in \<open>simp_all add: lists set_remove1_eq\<close>)
  show "cs_map ?cs = (cs_map cs)(ekey (entry_at cs v) := None)"
  proof (rule cs_map_eqI[OF assms(1) c])
    fix k w
    show "(\<exists>j \<in> set (list_ptr ?cs). ekey (entry_at ?cs j) = k \<and> evalue (entry_at ?cs j) = Some w)
       \<longleftrightarrow> ((cs_map cs)(ekey (entry_at cs v) := None)) k = Some w"
    proof (cases "k = ekey (entry_at cs v)")
      case True
      have "ekey (entry_at ?cs j) \<noteq> k" if "j \<in> set xs" for j
        using cs_core_inj[OF assms(1), of j v] ent[OF that] that assms(2,4) True by simp
      with True show ?thesis unfolding lists by simp
    next
      case False
      have "(\<exists>j \<in> set xs. ekey (entry_at ?cs j) = k \<and> evalue (entry_at ?cs j) = Some w)
        \<longleftrightarrow> (\<exists>j \<in> set xs. ekey (entry_at cs j) = k \<and> evalue (entry_at cs j) = Some w)"
        using ent by (intro bex_cong) simp_all
      also have "\<dots> \<longleftrightarrow> cs_map cs k = Some w"
        using False assms(4) by (auto simp: cs_map_Some[OF assms(1)])
      finally show ?thesis using False unfolding lists by simp
    qed
  qed
qed

lemma core_add:
  assumes "cs_core cs" "i \<notin> set (list_ptr cs)" "i < cs_next cs" "cs_heap cs i = Some e"
    "evalue e = Some v" "cs_map cs (ekey e) = None"
  shows "cs_core (cs\<lparr>list_ptr := list_ptr cs @ [i], hash_ptr := hash_ptr cs @ [i]\<rparr>)" (is "cs_core ?cs")
    and "cs_map (cs\<lparr>list_ptr := list_ptr cs @ [i], hash_ptr := hash_ptr cs @ [i]\<rparr>)
      = (cs_map cs)(ekey e \<mapsto> v)"
proof -
  have ent: "entry_at ?cs j = entry_at cs j" for j by (simp add: entry_at_def)
  have new: "ekey (entry_at cs j) \<noteq> ekey e" if "j \<in> set (list_ptr cs)" for j
    using assms(1,6) that by (simp add: cs_map_None)
  have ei: "entry_at cs i = e" using assms(4) by (simp add: entry_at_def)
  show c: "cs_core ?cs"
  proof (rule cs_coreI)
    show "j < cs_next ?cs \<and> cs_heap ?cs j \<noteq> None \<and> evalue (entry_at ?cs j) \<noteq> None"
      if "j \<in> set (list_ptr ?cs)" for j
      using cs_core_live[OF assms(1), of j] that assms(3,4,5) ei unfolding ent
      by (cases "j = i") simp_all
    show "j = l" if "j \<in> set (list_ptr ?cs)" "l \<in> set (list_ptr ?cs)"
      "ekey (entry_at ?cs j) = ekey (entry_at ?cs l)" for j l
      using cs_core_inj[OF assms(1), of j l] new[of j] new[of l] that ei unfolding ent
      by (cases "j = i"; cases "l = i") simp_all
  qed (use cs_coreD(1-3)[OF assms(1)] assms(2) in simp_all)
  show "cs_map ?cs = (cs_map cs)(ekey e \<mapsto> v)"
  proof (rule cs_map_eqI[OF assms(1) c])
    fix k w
    show "(\<exists>j \<in> set (list_ptr ?cs). ekey (entry_at ?cs j) = k \<and> evalue (entry_at ?cs j) = Some w)
       \<longleftrightarrow> ((cs_map cs)(ekey e \<mapsto> v)) k = Some w"
      using assms(5) new ei cs_map_Some[OF assms(1), of k w] unfolding ent
      by (cases "k = ekey e") auto
  qed
qed

lemma core_alloc:
  assumes "cs_core cs"
  shows "cs_core (cs\<lparr>cs_next := cs_next cs + 1, cs_heap := (cs_heap cs)(cs_next cs \<mapsto> e)\<rparr>)" (is "cs_core ?cs")
    and "cs_map (cs\<lparr>cs_next := cs_next cs + 1, cs_heap := (cs_heap cs)(cs_next cs \<mapsto> e)\<rparr>) = cs_map cs"
proof -
  have ent: "entry_at ?cs j = entry_at cs j" "cs_heap ?cs j = cs_heap cs j" if "j \<in> set (list_ptr cs)" for j
    using cs_coreD(4)[OF assms that] by (simp_all add: entry_at_def)
  show c: "cs_core ?cs"
  proof (rule cs_coreI)
    show "j < cs_next ?cs \<and> cs_heap ?cs j \<noteq> None \<and> evalue (entry_at ?cs j) \<noteq> None"
      if "j \<in> set (list_ptr ?cs)" for j
      using cs_core_live[OF assms, of j] ent[of j] that by simp
    show "j = l" if "j \<in> set (list_ptr ?cs)" "l \<in> set (list_ptr ?cs)"
      "ekey (entry_at ?cs j) = ekey (entry_at ?cs l)" for j l
      using cs_core_inj[OF assms, of j l] ent(1)[of j] ent(1)[of l] that by simp
  qed (use cs_coreD(1-3)[OF assms] in simp_all)
  show "cs_map ?cs = cs_map cs"
  proof (rule cs_map_eqI[OF assms c])
    fix k w
    have "(\<exists>j \<in> set (list_ptr ?cs). ekey (entry_at ?cs j) = k \<and> evalue (entry_at ?cs j) = Some w)
      \<longleftrightarrow> (\<exists>j \<in> set (list_ptr cs). ekey (entry_at cs j) = k \<and> evalue (entry_at cs j) = Some w)"
      using ent(1) by (intro bex_cong) simp_all
    then show "(\<exists>j \<in> set (list_ptr ?cs). ekey (entry_at ?cs j) = k \<and> evalue (entry_at ?cs j) = Some w)
       \<longleftrightarrow> cs_map cs k = Some w" by (simp only: cs_map_Some[OF assms])
  qed
qed

text \<open>The loop as \<open>kvcacheset_put\<close> starts it: it never crashes, drops at most one binding and, with two
  or more entries queued, drops exactly one.\<close>

lemma second_chance_step:
  assumes "cs_core cs"
  obtains cs' where
    "second_chance (case list_ptr cs of [] \<Rightarrow> None | elt # _ \<Rightarrow> Some elt) cs = Some cs'"
    "cs_core cs'" "set (list_ptr cs') \<subseteq> set (list_ptr cs)" "cs_map cs' \<subseteq>\<^sub>m cs_map cs"
    "\<And>j. j \<notin> set (list_ptr cs) \<Longrightarrow> cs_heap cs' j = cs_heap cs j"
    "cs_next cs' = cs_next cs" "num_entries cs' = num_entries cs" "elem_per_set cs' = elem_per_set cs"
    "length (list_ptr cs') \<le> length (list_ptr cs)"
    "2 \<le> length (list_ptr cs) \<Longrightarrow> length (list_ptr cs') + 1 = length (list_ptr cs)"
proof -
  consider "list_ptr cs = []" | i where "list_ptr cs = [i]" | "2 \<le> length (list_ptr cs)"
    by (cases "list_ptr cs"; cases "tl (list_ptr cs)") auto
  then show thesis
  proof cases
    case 1
    show thesis by (rule that[of cs]) (use 1 assms in \<open>simp_all add: second_chance.simps(1)\<close>)
  next
    case (2 i)
    obtain e v where e: "cs_heap cs i = Some e" "evalue e = Some v"
      using cs_core_entry[OF assms, of i] 2 by (metis list.set_intros(1))
    show thesis
    proof (cases "refbit e")
      case True
      let ?cs = "cs\<lparr>cs_heap := (cs_heap cs)(i \<mapsto> unref e)\<rparr>"
      have "?cs\<lparr>list_ptr := [i]\<rparr> = ?cs" using 2 by simp
      then have sc: "second_chance (Some i) cs = Some ?cs"
        using 2 e True by (simp add: second_chance.simps unref_def)
      have m: "cs_core ?cs" "cs_map ?cs = (cs_map cs)(ekey e \<mapsto> v)"
        using core_update[OF assms _ e(1), of "unref e" v] 2 e(2) by (simp_all add: unref_def)
      have "cs_map cs (ekey e) = Some v"
        using 2 e by (simp add: cs_map_Some[OF assms] entry_at_def)
      then have "cs_map ?cs = cs_map cs" using m(2) by (simp add: map_upd_triv)
      then show thesis by (intro that[of ?cs]) (use 2 m sc in simp_all)
    next
      case False
      then have sc: "second_chance (Some i) cs = Some (evicted i [] {} cs)"
        using second_chance_hit[of cs "[]" i "[]" e] 2 e by simp
      have "cs_core (evicted i [] {} cs)" "cs_map (evicted i [] {} cs) \<subseteq>\<^sub>m cs_map cs"
        using core_evicted[OF assms, of i "[]" "{}"] 2 by (simp_all add: map_le_def)
      then show thesis
        by (intro that[of "evicted i [] {} cs"])
          (use 2 sc evicted_heap[of i "{i}" "{}"] in simp_all)
    qed
  next
    case 3
    obtain v xs A where ev:
      "second_chance (Some (hd (list_ptr cs))) cs = Some (evicted v xs A cs)"
      "v \<in> set (list_ptr cs)" "distinct xs" "set xs = set (list_ptr cs) - {v}"
      "A \<subseteq> set (list_ptr cs)" "length xs + 1 = length (list_ptr cs)"
      using second_chance_evicts[OF cs_coreD(1)[OF assms] _ 3] cs_core_live[OF assms] by metis
    have sc: "second_chance (case list_ptr cs of [] \<Rightarrow> None | elt # _ \<Rightarrow> Some elt) cs = Some (evicted v xs A cs)"
      using ev(1) 3 by (cases "list_ptr cs") simp_all
    show thesis
    proof (rule that[OF sc core_evicted(1)[OF assms ev(2-5)]])
      show "cs_map (evicted v xs A cs) \<subseteq>\<^sub>m cs_map cs"
        unfolding core_evicted(2)[OF assms ev(2-5)] by (simp add: map_le_def)
      show "cs_heap (evicted v xs A cs) j = cs_heap cs j" if "j \<notin> set (list_ptr cs)" for j
        by (rule evicted_heap[OF ev(2,5) that])
    qed (use ev in auto)
  qed
qed

section \<open>The operations\<close>

lemma unat_word_Suc: "n < (m :: 32 word) \<Longrightarrow> unat (n + 1) = unat n + 1"
  by unat_arith

lemma unat_word_pred: "0 < unat (n :: 32 word) \<Longrightarrow> unat (n - 1) = unat n - 1"
  by unat_arith

lemma kvcacheset_get_hit:
  assumes "cs_wf cs" "cs_map cs k = Some v"
  shows "\<exists>cs'. kvcacheset_get mem_ok cs k = Some (0, Some v, cs') \<and> cs_wf cs' \<and> cs_map cs' = cs_map cs \<and>
    list_ptr cs' = list_ptr cs \<and> num_entries cs' = num_entries cs"
proof -
  obtain i where i: "hash_find cs k = Some i" using assms(2) by (auto simp: cs_map_def split: option.splits)
  then obtain e where e: "cs_heap cs i = Some e" "entry_at cs i = e" "evalue e = Some v"
    using cs_map_hit[OF cs_wf_core[OF assms(1)] i] assms(2) by (metis option.inject)
  have li: "i \<in> set (list_ptr cs)" "ekey e = k"
    using i e(2) hash_find_Some[OF cs_wf_core[OF assms(1)]] by auto
  let ?cs = "cs\<lparr>cs_heap := (cs_heap cs)(i \<mapsto> e\<lparr>refbit := True\<rparr>)\<rparr>"
  have "cs_core ?cs" "cs_map ?cs = (cs_map cs)(k \<mapsto> v)"
    using core_update[OF cs_wf_core[OF assms(1)] li(1) e(1), of "e\<lparr>refbit := True\<rparr>" v] e(3) li(2) by simp_all
  moreover have "(cs_map cs)(k \<mapsto> v) = cs_map cs" using assms(2) by (simp add: map_upd_triv)
  ultimately show ?thesis
    using i e assms(1) by (simp add: kvcacheset_get_def cs_wf_def)
qed

lemma core_num_entries:
  "cs_core (cs\<lparr>num_entries := n\<rparr>) = cs_core cs" "cs_map (cs\<lparr>num_entries := n\<rparr>) = cs_map cs"
proof -
  have "entry_at (cs\<lparr>num_entries := n\<rparr>) = entry_at cs" by (simp add: entry_at_def fun_eq_iff)
  then show "cs_core (cs\<lparr>num_entries := n\<rparr>) = cs_core cs" "cs_map (cs\<lparr>num_entries := n\<rparr>) = cs_map cs"
    by (simp_all add: cs_core_def cs_map_def[abs_def] hash_find_def cong: option.case_cong)
qed

lemma kvcacheset_put_ok:
  assumes "cs_wf cs"
  shows "\<exists>cs'. kvcacheset_put mem_ok cs k v = Some (0, cs') \<and> cs_wf cs' \<and> cs_map cs' k = Some v \<and>
    cs_map cs' \<subseteq>\<^sub>m (cs_map cs)(k \<mapsto> v) \<and> elem_per_set cs' = elem_per_set cs \<and>
    (length (list_ptr cs) = unat (num_entries cs) \<longrightarrow> length (list_ptr cs') = unat (num_entries cs'))"
proof (cases "hash_find cs k")
  case (Some i)
  have c: "cs_core cs" using assms by simp
  obtain e where e: "cs_heap cs i = Some e" "entry_at cs i = e" using cs_map_hit[OF c Some] by metis
  have li: "i \<in> set (list_ptr cs)" "ekey e = k" using Some e(2) hash_find_Some[OF c] by auto
  let ?e = "e\<lparr>evalue := Some v, refbit := True\<rparr>"
  let ?cs = "cs\<lparr>cs_heap := (cs_heap cs)(i \<mapsto> ?e)\<rparr>"
  have "cs_core ?cs" "cs_map ?cs = (cs_map cs)(k \<mapsto> v)"
    using core_update[OF c li(1) e(1), of ?e v] li(2) by simp_all
  then show ?thesis using Some e assms by (simp add: kvcacheset_put_def cs_wf_def)
next
  case None
  have c: "cs_core cs" using assms by simp
  let ?i = "cs_next cs" and ?e = "\<lparr>ekey = k, evalue = Some v, refbit = False\<rparr>"
  let ?cs1 = "cs\<lparr>cs_next := ?i + 1, cs_heap := (cs_heap cs)(?i \<mapsto> ?e)\<rparr>"
  note c1 = core_alloc[OF c, of ?e]
  have fresh: "?i \<notin> set (list_ptr cs)" using cs_coreD(4)[OF c] by blast
  have kn: "cs_map cs k = None" using None by (simp add: cs_map_def)
  let ?next = "if num_entries ?cs1 < elem_per_set ?cs1
     then Some (?cs1\<lparr>num_entries := num_entries ?cs1 + 1\<rparr>)
     else second_chance (case list_ptr ?cs1 of [] \<Rightarrow> None | elt # _ \<Rightarrow> Some elt) ?cs1"
  have "\<exists>cs2. ?next = Some cs2 \<and> cs_core cs2 \<and> ?i \<notin> set (list_ptr cs2) \<and> ?i < cs_next cs2 \<and>
      cs_heap cs2 ?i = Some ?e \<and> cs_map cs2 \<subseteq>\<^sub>m cs_map cs \<and> elem_per_set cs2 = elem_per_set cs \<and>
      num_entries cs2 \<le> elem_per_set cs2 \<and> length (list_ptr cs2) + 1 \<le> unat (num_entries cs2) \<and>
      (length (list_ptr cs) = unat (num_entries cs) \<longrightarrow> length (list_ptr cs2) + 1 = unat (num_entries cs2))"
  proof (cases "num_entries cs < elem_per_set cs")
    case True
    let ?cs2 = "?cs1\<lparr>num_entries := num_entries cs + 1\<rparr>"
    have c2: "cs_core ?cs2" "cs_map ?cs2 = cs_map ?cs1" using c1(1) by (simp_all only: core_num_entries)
    have "num_entries cs + 1 \<le> elem_per_set cs" using True by (simp add: inc_le)
    then show ?thesis
      using True c1 c2 fresh assms unat_word_Suc[OF True]
      by (intro exI[of _ ?cs2]) (simp add: cs_wf_def)
  next
    case False
    obtain cs' where cs': "second_chance (case list_ptr ?cs1 of [] \<Rightarrow> None | elt # _ \<Rightarrow> Some elt) ?cs1 = Some cs'"
      "cs_core cs'" "set (list_ptr cs') \<subseteq> set (list_ptr ?cs1)" "cs_map cs' \<subseteq>\<^sub>m cs_map ?cs1"
      "\<And>j. j \<notin> set (list_ptr ?cs1) \<Longrightarrow> cs_heap cs' j = cs_heap ?cs1 j"
      "cs_next cs' = cs_next ?cs1" "num_entries cs' = num_entries ?cs1" "elem_per_set cs' = elem_per_set ?cs1"
      "length (list_ptr cs') \<le> length (list_ptr ?cs1)"
      "2 \<le> length (list_ptr ?cs1) \<Longrightarrow> length (list_ptr cs') + 1 = length (list_ptr ?cs1)"
      using second_chance_step[OF c1(1)] by blast
    have n: "2 \<le> unat (num_entries cs)" "num_entries cs \<le> elem_per_set cs"
      "length (list_ptr cs) \<le> unat (num_entries cs)"
      using assms False by (auto simp: cs_wf_def not_less word_le_nat_alt)
    have "length (list_ptr cs') + 1 \<le> unat (num_entries cs)"
      using cs'(9,10) n by (cases "2 \<le> length (list_ptr cs)") auto
    moreover have "length (list_ptr cs) = unat (num_entries cs) \<longrightarrow>
        length (list_ptr cs') + 1 = unat (num_entries cs)"
      using cs'(10) n by simp
    ultimately show ?thesis
      using False cs' c1(2) fresh n by (intro exI[of _ cs']) auto
  qed
  then obtain cs2 where cs2: "?next = Some cs2" "cs_core cs2" "?i \<notin> set (list_ptr cs2)" "?i < cs_next cs2"
    "cs_heap cs2 ?i = Some ?e" "cs_map cs2 \<subseteq>\<^sub>m cs_map cs" "elem_per_set cs2 = elem_per_set cs"
    "num_entries cs2 \<le> elem_per_set cs2" "length (list_ptr cs2) + 1 \<le> unat (num_entries cs2)"
    "length (list_ptr cs) = unat (num_entries cs) \<longrightarrow> length (list_ptr cs2) + 1 = unat (num_entries cs2)"
    by blast
  let ?cs3 = "cs2\<lparr>list_ptr := list_ptr cs2 @ [?i], hash_ptr := hash_ptr cs2 @ [?i]\<rparr>"
  have k2: "cs_map cs2 (ekey ?e) = None"
    using cs2(6) kn by (cases "cs_map cs2 k") (auto simp: map_le_def dom_def dest!: bspec)
  have c3: "cs_core ?cs3" "cs_map ?cs3 = (cs_map cs2)(k \<mapsto> v)"
    using core_add[OF cs2(2-5) _ k2, of v] by simp_all
  have put: "kvcacheset_put mem_ok cs k v = Some (0, ?cs3)"
    using None cs2(1) by (simp add: kvcacheset_put_def Let_def cong: if_cong)
  have "cs_map ?cs3 \<subseteq>\<^sub>m (cs_map cs)(k \<mapsto> v)"
    unfolding c3(2) using cs2(6) by (simp add: map_le_def)
  moreover have "cs_wf ?cs3" using c3(1) cs2(7-9) assms by (simp add: cs_wf_def)
  ultimately show ?thesis using put c3 cs2(7,10) by simp
qed

lemma core_remove:
  assumes "cs_core cs" "i \<in> set (list_ptr cs)"
  shows "cs_core (cs\<lparr>hash_ptr := remove1 i (hash_ptr cs), list_ptr := remove1 i (list_ptr cs),
      cs_heap := (cs_heap cs)(i := None)\<rparr>)" (is "cs_core ?cs")
    and "cs_map (cs\<lparr>hash_ptr := remove1 i (hash_ptr cs), list_ptr := remove1 i (list_ptr cs),
      cs_heap := (cs_heap cs)(i := None)\<rparr>) = (cs_map cs)(ekey (entry_at cs i) := None)"
proof -
  have eq: "?cs = evicted i (remove1 i (list_ptr cs)) {} cs"
    by (intro kvcacheset.equality) (simp_all add: evicted_def unref_at_def)
  show "cs_core ?cs" "cs_map ?cs = (cs_map cs)(ekey (entry_at cs i) := None)"
    unfolding eq using core_evicted[OF assms, of "remove1 i (list_ptr cs)" "{}"] cs_coreD(1)[OF assms(1)]
    by (simp_all add: distinct_remove1 set_remove1_eq)
qed

lemma kvcacheset_del_ok:
  assumes "cs_wf cs"
  shows "\<exists>cs'. kvcacheset_del cs k = Some (if cs_map cs k = None then ERRNOKEY else 0, cs') \<and> cs_wf cs' \<and>
    cs_map cs' = (cs_map cs)(k := None) \<and>
    (length (list_ptr cs) = unat (num_entries cs) \<longrightarrow> length (list_ptr cs') = unat (num_entries cs'))"
proof (cases "hash_find cs k")
  case None
  then have "cs_map cs k = None" by (simp add: cs_map_def)
  then show ?thesis using None assms by (simp add: kvcacheset_del_def fun_upd_idem)
next
  case (Some i)
  have c: "cs_core cs" using assms by simp
  have li: "i \<in> set (list_ptr cs)" "ekey (entry_at cs i) = k" using Some hash_find_Some[OF c] by auto
  obtain v where v: "cs_map cs k = Some v" using cs_map_hit[OF c Some] by metis
  let ?cs = "cs\<lparr>hash_ptr := remove1 i (hash_ptr cs), list_ptr := remove1 i (list_ptr cs),
      cs_heap := (cs_heap cs)(i := None)\<rparr>"
  let ?cs' = "?cs\<lparr>num_entries := num_entries cs - 1\<rparr>"
  have n: "0 < length (list_ptr cs)" "length (list_ptr cs) \<le> unat (num_entries cs)"
    using li(1) assms by (auto simp: cs_wf_def)
  have u: "unat (num_entries cs - 1) = unat (num_entries cs) - 1" by (rule unat_word_pred) (use n in linarith)
  have "num_entries cs - 1 \<le> elem_per_set cs"
    using assms u unfolding cs_wf_def word_le_nat_alt by linarith
  moreover have "length (remove1 i (list_ptr cs)) = length (list_ptr cs) - 1"
    using li(1) by (simp add: length_remove1)
  ultimately have "cs_wf ?cs'"
    using core_remove(1)[OF c li(1)] assms u diff_le_mono[OF n(2), of 1] by (simp add: cs_wf_def core_num_entries)
  moreover have "cs_map ?cs' = (cs_map cs)(k := None)"
    using core_remove(2)[OF c li(1)] li(2) by (simp add: core_num_entries)
  ultimately show ?thesis
    using Some li(1) v u n by (intro exI[of _ ?cs']) (simp add: kvcacheset_del_def length_remove1)
qed

text \<open>Emptying walks the hash table; every entry it meets is still on the list.\<close>

lemma clear_loop_ok:
  assumes "cs_core cs" "hash_ptr cs = xs"
  shows "\<exists>cs'. clear_loop xs cs = Some cs' \<and> cs_core cs' \<and> list_ptr cs' = [] \<and> hash_ptr cs' = [] \<and>
    num_entries cs' = num_entries cs \<and> elem_per_set cs' = elem_per_set cs"
  using assms
proof (induction xs arbitrary: cs)
  case Nil
  then show ?case using cs_coreD(3)[of cs] by simp
next
  case (Cons i xs)
  have i: "i \<in> set (list_ptr cs)" using Cons.prems cs_coreD(3)[of cs] by auto
  let ?cs = "cs\<lparr>hash_ptr := remove1 i (hash_ptr cs), list_ptr := remove1 i (list_ptr cs),
      cs_heap := (cs_heap cs)(i := None)\<rparr>"
  have "hash_ptr ?cs = xs" using Cons.prems(2) by simp
  from Cons.IH[OF core_remove(1)[OF Cons.prems(1) i] this] show ?case using i by simp
qed

lemma cs_map_empty: "hash_ptr cs = [] \<Longrightarrow> cs_map cs = Map.empty"
  by (simp add: cs_map_def[abs_def] hash_find_def)

lemma kvcacheset_clear_ok:
  assumes "cs_wf cs"
  shows "\<exists>cs'. kvcacheset_clear cs = Some cs' \<and> cs_wf cs' \<and> cs_map cs' = Map.empty \<and> list_ptr cs' = [] \<and>
    num_entries cs' = num_entries cs \<and> elem_per_set cs' = elem_per_set cs"
  using clear_loop_ok[OF cs_wf_core[OF assms] refl] assms cs_map_empty
  by (auto simp: kvcacheset_clear_def cs_wf_def)

lemma kvcacheset_init_ok:
  assumes "2 \<le> n" "0 \<le> r"
  shows "fst (kvcacheset_init r n cs) = 0 \<and> cs_wf (snd (kvcacheset_init r n cs)) \<and>
    cs_map (snd (kvcacheset_init r n cs)) = Map.empty \<and> num_entries (snd (kvcacheset_init r n cs)) = 0 \<and>
    elem_per_set (snd (kvcacheset_init r n cs)) = n"
  using assms by (auto simp: kvcacheset_init_def cs_wf_def cs_core_def Let_def intro!: cs_map_empty)

interpretation cs: lossy_cache cs_map cs_wf "\<lambda>_. True" "\<lambda>_. True"
    "kvcacheset_get mem_ok" "kvcacheset_put mem_ok" kvcacheset_del
proof unfold_locales
  fix c :: kvcacheset and k v
  assume c: "cs_wf c"
  show "\<exists>c'. kvcacheset_get mem_ok c k = Some (0, Some v, c') \<and> cs_wf c' \<and> cs_map c' = cs_map c"
    if "cs_map c k = Some v" using kvcacheset_get_hit[OF c that] by blast
  show "kvcacheset_get mem_ok c k = Some (ERRNOKEY, None, c)" if "cs_map c k = None"
    using that cs_map_hit[OF cs_wf_core[OF c]] by (cases "hash_find c k") (simp add: kvcacheset_get_def, metis option.simps(3))
  show "\<exists>c'. kvcacheset_put mem_ok c k v = Some (0, c') \<and> cs_wf c' \<and> cs_map c' k = Some v \<and>
      cs_map c' \<subseteq>\<^sub>m (cs_map c)(k \<mapsto> v)" using kvcacheset_put_ok[OF c, of k v] by blast
  show "\<exists>c'. kvcacheset_del c k = Some (if cs_map c k = None then ERRNOKEY else 0, c') \<and> cs_wf c' \<and>
      cs_map c' = (cs_map c)(k := None)" using kvcacheset_del_ok[OF c, of k] by blast
qed

section \<open>Properties\<close>

text \<open>Sequences of calls, each caller holding the set's lock.\<close>

datatype cs_call = CGet string | CPut string string | CDel string | CClear

fun cs_call_step :: "cs_call \<Rightarrow> kvcacheset \<Rightarrow> kvcacheset option" where
  "cs_call_step (CGet k) cs = map_option (snd \<circ> snd) (kvcacheset_get mem_ok cs k)"
| "cs_call_step (CPut k v) cs = map_option snd (kvcacheset_put mem_ok cs k v)"
| "cs_call_step (CDel k) cs = map_option snd (kvcacheset_del cs k)"
| "cs_call_step CClear cs = kvcacheset_clear cs"

fun cs_run :: "cs_call list \<Rightarrow> kvcacheset \<Rightarrow> kvcacheset option" where
  "cs_run [] cs = Some cs"
| "cs_run (c # cs') cs = cs_call_step c cs \<bind> cs_run cs'"

lemma cs_call_step_ok:
  assumes "cs_wf cs"
  shows "\<exists>cs'. cs_call_step c cs = Some cs' \<and> cs_wf cs' \<and> elem_per_set cs' = elem_per_set cs"
proof (cases c)
  case (CGet k)
  show ?thesis
  proof (cases "cs_map cs k")
    case None
    then show ?thesis using CGet assms cs.get_miss by simp
  next
    case (Some v)
    obtain i where i: "hash_find cs k = Some i" using Some by (auto simp: cs_map_def split: option.splits)
    then show ?thesis
      using CGet kvcacheset_get_hit[OF assms Some]
      by (auto simp: kvcacheset_get_def bind_eq_Some_conv)
  qed
next
  case (CPut k v)
  then show ?thesis using kvcacheset_put_ok[OF assms, of k v] by auto
next
  case (CDel k)
  then show ?thesis
    using kvcacheset_del_ok[OF assms, of k] by (auto simp: kvcacheset_del_def split: option.splits if_splits)
next
  case CClear
  then show ?thesis using kvcacheset_clear_ok[OF assms] by auto
qed

lemma cs_run_ok:
  "cs_wf cs \<Longrightarrow> \<exists>cs'. cs_run calls cs = Some cs' \<and> cs_wf cs' \<and> elem_per_set cs' = elem_per_set cs"
proof (induction calls arbitrary: cs)
  case (Cons c calls)
  obtain cs1 where "cs_call_step c cs = Some cs1" "cs_wf cs1" "elem_per_set cs1 = elem_per_set cs"
    using cs_call_step_ok[OF Cons.prems] by blast
  then show ?case using Cons.IH[of cs1] by simp
qed simp

lemma cs_wf_capacity:
  assumes "cs_wf cs"
  shows "length (list_ptr cs) \<le> unat (elem_per_set cs)" "length (hash_ptr cs) = length (list_ptr cs)"
proof -
  show "length (list_ptr cs) \<le> unat (elem_per_set cs)"
    using assms unfolding cs_wf_def word_le_nat_alt by linarith
  show "length (hash_ptr cs) = length (list_ptr cs)"
    using cs_coreD(1-3)[OF cs_wf_core[OF assms]] by (metis distinct_card)
qed

text \<open>A set for the examples: room for three entries, two of them used.\<close>

definition ex_set :: kvcacheset where
  "ex_set = \<lparr>elem_per_set = 3, num_entries = 2, list_ptr = [0, 1], hash_ptr = [0, 1],
     cs_heap = [0 \<mapsto> \<lparr>ekey = ''a'', evalue = Some ''1'', refbit = True\<rparr>,
                1 \<mapsto> \<lparr>ekey = ''b'', evalue = Some ''2'', refbit = False\<rparr>], cs_next = 2\<rparr>"

lemma ex_set_wf [simp]: "cs_wf ex_set"
  by (simp add: ex_set_def cs_wf_def cs_core_def entry_at_def)

text \<open>C11. A set initialised for at least two elements survives, with memory available, every sequence of gets, puts,
  deletes and clears: no call dereferences a bad pointer, the list and the hash table keep holding
  the same entries, and neither ever exceeds \<^verbatim>\<open>elem_per_set\<close>.\<close>

theorem kvcacheset_capacity:
  assumes "2 \<le> n" "0 \<le> lockret"
  shows "\<exists>cs'. cs_run calls (snd (kvcacheset_init lockret n cs)) = Some cs' \<and> cs_wf cs' \<and>
    set (hash_ptr cs') = set (list_ptr cs') \<and> length (list_ptr cs') \<le> unat n \<and> length (hash_ptr cs') \<le> unat n"
proof -
  obtain cs' where cs': "cs_run calls (snd (kvcacheset_init lockret n cs)) = Some cs'" "cs_wf cs'"
    "elem_per_set cs' = n"
    using cs_run_ok kvcacheset_init_ok[OF assms] by metis
  then show ?thesis using cs_wf_capacity[OF cs'(2)] cs_coreD(3)[OF cs_wf_core[OF cs'(2)]] by auto
qed

theorem kvcacheset_capacity_witness:
  "\<exists>cs'. cs_run [CPut ''a'' ''1'', CPut ''b'' ''2'', CGet ''a'', CPut ''c'' ''3'', CClear, CDel ''a'']
     (snd (kvcacheset_init 0 2 ex_set)) = Some cs' \<and> length (list_ptr cs') \<le> 2"
  using kvcacheset_capacity[of 2 0 "[CPut ''a'' ''1'', CPut ''b'' ''2'', CGet ''a'', CPut ''c'' ''3'',
      CClear, CDel ''a'']" ex_set] by auto

text \<open>C22. With memory available, \<^verbatim>\<open>kvcacheset_put\<close> on a well-formed set returns 0 and binds the key to the value; every
  other binding of the result was there before, with the same value; deleting afterwards makes the
  key a miss.\<close>

theorem kvcacheset_put_correct:
  assumes "cs_wf cs"
  shows "\<exists>cs1 cs2 cs3. kvcacheset_put mem_ok cs k v = Some (0, cs1) \<and> cs_wf cs1 \<and>
    cs_map cs1 \<subseteq>\<^sub>m (cs_map cs)(k \<mapsto> v) \<and> kvcacheset_get mem_ok cs1 k = Some (0, Some v, cs2) \<and>
    kvcacheset_del cs2 k = Some (0, cs3) \<and> kvcacheset_get mem_ok cs3 k = Some (ERRNOKEY, None, cs3)"
proof -
  obtain cs1 where p: "kvcacheset_put mem_ok cs k v = Some (0, cs1)" "cs_wf cs1"
    "cs_map cs1 k = Some v" "cs_map cs1 \<subseteq>\<^sub>m (cs_map cs)(k \<mapsto> v)" using cs.put_ok[OF assms] by blast
  obtain cs2 where g: "kvcacheset_get mem_ok cs1 k = Some (0, Some v, cs2)" "cs_wf cs2"
    "cs_map cs2 = cs_map cs1" using cs.get_hit[OF p(2) _ p(3)] by blast
  obtain cs3 where d: "kvcacheset_del cs2 k = Some (0, cs3)" "cs_wf cs3"
    "cs_map cs3 = (cs_map cs2)(k := None)" using cs.del_ok[OF g(2), of k] g(3) p(3) by auto
  show ?thesis using p g d cs.get_miss[OF d(2), of k] by simp
qed

theorem kvcacheset_put_correct_witness:
  "\<exists>cs1. kvcacheset_put mem_ok ex_set ''c'' ''3'' = Some (0, cs1) \<and> cs_wf cs1"
  using kvcacheset_put_correct[of ex_set "''c''" "''3''"] by auto

text \<open>C21. Putting a new key into a full set evicts exactly as second chance prescribes: the
  replacement queue becomes \<^const>\<open>evict_spec\<close> of the old one with the new, unreferenced entry at its
  end.\<close>

theorem kvcacheset_put_second_chance:
  assumes "cs_wf cs" "cs_map cs k = None" "num_entries cs = elem_per_set cs"
    "length (list_ptr cs) = unat (num_entries cs)"
  shows "\<exists>cs'. kvcacheset_put mem_ok cs k v = Some (0, cs') \<and>
    cs_entries cs' = evict_spec (cs_entries cs) @ [\<lparr>ekey = k, evalue = Some v, refbit = False\<rparr>]"
proof -
  have c: "cs_core cs" using assms(1) by simp
  let ?i = "cs_next cs" and ?e = "\<lparr>ekey = k, evalue = Some v, refbit = False\<rparr>"
  let ?cs1 = "cs\<lparr>cs_next := ?i + 1, cs_heap := (cs_heap cs)(?i \<mapsto> ?e)\<rparr>"
  have fresh: "?i \<notin> set (list_ptr cs)" using cs_coreD(4)[OF c] by blast
  have two: "2 \<le> length (list_ptr ?cs1)" using assms by (simp add: cs_wf_def word_le_nat_alt)
  have live: "\<forall>i \<in> set (list_ptr ?cs1). cs_heap ?cs1 i \<noteq> None"
    using cs_core_live[OF core_alloc(1)[OF c, of ?e]] by blast
  obtain w xs A where w: "second_chance (Some (hd (list_ptr ?cs1))) ?cs1 = Some (evicted w xs A ?cs1)"
    "w \<in> set (list_ptr ?cs1)" "distinct xs" "set xs = set (list_ptr ?cs1) - {w}"
    "A \<subseteq> set (list_ptr ?cs1)" "length xs + 1 = length (list_ptr ?cs1)"
    "cs_entries (evicted w xs A ?cs1) = evict_spec (cs_entries ?cs1)"
    by (rule second_chance_evicts[OF cs_coreD(1)[OF core_alloc(1)[OF c, of ?e]] live two])
  let ?cs3 = "(evicted w xs A ?cs1)\<lparr>list_ptr := xs @ [?i], hash_ptr := remove1 w (hash_ptr cs) @ [?i]\<rparr>"
  have "hash_find cs k = None" using assms(2) cs_map_hit[OF c, of k] by (metis option.exhaust option.simps(3))
  moreover have "(case list_ptr cs of [] \<Rightarrow> None | elt # _ \<Rightarrow> Some elt) = Some (hd (list_ptr cs))"
    using two by (cases "list_ptr cs") auto
  ultimately have put: "kvcacheset_put mem_ok cs k v = Some (0, ?cs3)"
    using assms(3) w(1) by (simp add: kvcacheset_put_def Let_def)
  have "cs_heap (evicted w xs A ?cs1) ?i = Some ?e"
    using w(2,5) fresh by (auto simp: evicted_def unref_at_def)
  then have "cs_entries ?cs3 = cs_entries (evicted w xs A ?cs1) @ [?e]"
    by (simp add: cs_entries_def entry_at_def)
  moreover have "cs_entries ?cs1 = cs_entries cs"
    using fresh by (auto simp: cs_entries_def entry_at_def)
  ultimately show ?thesis using put w(7) by metis
qed

theorem kvcacheset_put_second_chance_witness:
  "\<exists>cs'. kvcacheset_put mem_ok (ex_set\<lparr>elem_per_set := 2\<rparr>) ''c'' ''3'' = Some (0, cs') \<and>
     map ekey (cs_entries cs') = [''a'', ''c'']"
proof -
  let ?cs = "ex_set\<lparr>elem_per_set := 2\<rparr>"
  have "cs_wf ?cs" "cs_map ?cs ''c'' = None" "num_entries ?cs = elem_per_set ?cs"
    "length (list_ptr ?cs) = unat (num_entries ?cs)"
    by (simp_all add: ex_set_def cs_wf_def cs_core_def entry_at_def cs_map_def hash_find_def)
  from kvcacheset_put_second_chance[OF this, of "''3''"] show ?thesis
    by (auto simp: ex_set_def cs_entries_def entry_at_def evict_spec_def unref_def)
qed

text \<open>\<^verbatim>\<open>kvcacheset_clear\<close> empties a set but keeps \<^verbatim>\<open>num_entries\<close>: after clearing a full set its
  capacity is gone, and the second of two new keys evicts the first although the set has room.\<close>

theorem kvcacheset_clear_loses_capacity:
  assumes "cs_wf cs" "num_entries cs = elem_per_set cs" "k1 \<noteq> k2"
  shows "\<exists>cs1 cs2 cs3. kvcacheset_clear cs = Some cs1 \<and> cs_map cs1 = Map.empty \<and>
    kvcacheset_put mem_ok cs1 k1 v1 = Some (0, cs2) \<and> kvcacheset_put mem_ok cs2 k2 v2 = Some (0, cs3) \<and>
    cs_map cs3 = [k2 \<mapsto> v2]"
proof -
  obtain cs1 where c: "kvcacheset_clear cs = Some cs1" "cs_wf cs1" "cs_map cs1 = Map.empty"
    "list_ptr cs1 = []" "num_entries cs1 = elem_per_set cs1"
    using kvcacheset_clear_ok[OF assms(1)] assms(2) by auto
  have h: "hash_ptr cs1 = []" using cs_coreD(3)[OF cs_wf_core[OF c(2)]] c(4) by simp
  let ?i = "cs_next cs1"
  have k12: "k2 \<noteq> k1" "k1 \<noteq> k2" using assms(3) by auto
  show ?thesis
    using c(1,3,4,5) h k12
    by (simp add: kvcacheset_put_def Let_def hash_find_def second_chance.simps cs_map_def[abs_def]
        entry_at_def fun_eq_iff)
qed

theorem kvcacheset_clear_loses_capacity_witness:
  "\<exists>cs1. kvcacheset_clear (ex_set\<lparr>elem_per_set := 2\<rparr>) = Some cs1 \<and> cs_map cs1 = Map.empty"
proof -
  have "cs_wf (ex_set\<lparr>elem_per_set := 2\<rparr>)"
    by (simp add: ex_set_def cs_wf_def cs_core_def entry_at_def)
  then show ?thesis
    using kvcacheset_clear_loses_capacity[of "ex_set\<lparr>elem_per_set := 2\<rparr>" "''x''" "''y''"]
    by (auto simp: ex_set_def)
qed

text \<open>When \<^verbatim>\<open>malloc\<close> of the new value fails on a cached key, \<^verbatim>\<open>kvcacheset_put\<close> returns -1 but has
  freed the old value and left NULL in the entry, which stays in the set: the next get of the key
  dereferences it.\<close>

theorem kvcacheset_put_no_memory:
  assumes "cs_wf cs" "cs_map cs k = Some v" "\<not> mem (length v' + 1)"
  shows "\<exists>cs'. kvcacheset_put mem cs k v' = Some (-1, cs') \<and> kvcacheset_get mem' cs' k = None"
proof -
  have c: "cs_core cs" using assms(1) by simp
  obtain i where i: "hash_find cs k = Some i"
    using assms(2) by (auto simp: cs_map_def split: option.splits)
  obtain e where e: "cs_heap cs i = Some e" "entry_at cs i = e" using cs_map_hit[OF c i] by metis
  let ?cs = "cs\<lparr>cs_heap := (cs_heap cs)(i \<mapsto> e\<lparr>evalue := None, refbit := True\<rparr>)\<rparr>"
  have "hash_find ?cs k = hash_find cs k" unfolding hash_find_def using e by (intro find_cong) auto
  then show ?thesis using i e assms(3) by (simp add: kvcacheset_put_def kvcacheset_get_def)
qed

theorem kvcacheset_put_no_memory_witness:
  "\<exists>cs'. kvcacheset_put (\<lambda>n. n \<le> 4) ex_set ''a'' ''long value'' = Some (-1, cs') \<and>
     kvcacheset_get mem_ok cs' ''a'' = None"
  using kvcacheset_put_no_memory[of ex_set "''a''" "''1''" "\<lambda>n. n \<le> 4" "''long value''" mem_ok]
  by (simp add: ex_set_def cs_map_def hash_find_def entry_at_def cs_wf_def cs_core_def)

end
