(* ===== verification/Posix.thy ===== *)
theory Posix
  imports KVConstants
begin

text \<open>
  The part of the C library and of the operating system the store and the log call: a file system
  as an association list from path names to nodes, with \<^verbatim>\<open>stat\<close>, \<^verbatim>\<open>mkdir\<close>, \<^verbatim>\<open>fopen\<close>, \<^verbatim>\<open>fwrite\<close>,
  \<^verbatim>\<open>remove\<close>, \<^verbatim>\<open>rename\<close> and \<^verbatim>\<open>readdir\<close>. Path names are taken as written, without links or \<^verbatim>\<open>..\<close>.
  \<open>fault\<close> makes every call on a path that needs permission, a device or a descriptor fail with the
  given \<^verbatim>\<open>errno\<close>; \<open>wlimit\<close> makes a write to a path stop short after that many bytes, or fail when it is
  negative. A call on a path without a fault fails only for the reasons written out below.
  Calls that can fail return \<^term>\<open>Inl\<close> of the \<^verbatim>\<open>errno\<close>.
\<close>

section \<open>The file system\<close>

datatype node = Dir | File "char list"

record os =
  files :: "(string \<times> node) list"
  fault :: "string \<Rightarrow> int option"
  wlimit :: "string \<Rightarrow> int option"

definition ENOENT :: int where [os_simps]: "ENOENT = 2"
definition ENOMEM :: int where [os_simps]: "ENOMEM = 12"
definition EEXIST :: int where [os_simps]: "EEXIST = 17"
definition EISDIR :: int where [os_simps]: "EISDIR = 21"
definition ENOTEMPTY :: int where [os_simps]: "ENOTEMPTY = 39"

definition lookup :: "os \<Rightarrow> string \<Rightarrow> node option" where
  "lookup s p = map_of (files s) p"

definition stat :: "os \<Rightarrow> string \<Rightarrow> bool" where
  "stat s p = (lookup s p \<noteq> None)"

definition parent :: "string \<Rightarrow> string" where
  "parent p = rev (drop 1 (dropWhile (\<lambda>c. c \<noteq> CHR ''/'') (rev p)))"

definition parent_ok :: "os \<Rightarrow> string \<Rightarrow> bool" where
  "parent_ok s p = (CHR ''/'' \<in> set p \<longrightarrow> lookup s (parent p) = Some Dir)"

definition set_node :: "string \<Rightarrow> node \<Rightarrow> os \<Rightarrow> os" where
  "set_node p x s = s\<lparr>files := AList.update p x (files s)\<rparr>"

definition del_node :: "string \<Rightarrow> os \<Rightarrow> os" where
  "del_node p s = s\<lparr>files := AList.delete p (files s)\<rparr>"

definition mkdir :: "os \<Rightarrow> string \<Rightarrow> int + os" where
  "mkdir s p =
     (case fault s p of Some e \<Rightarrow> Inl e
      | None \<Rightarrow> if stat s p then Inl EEXIST
                else if \<not> parent_ok s p then Inl ENOENT
                else Inr (set_node p Dir s))"

text \<open>\<^verbatim>\<open>fopen(p, "r")\<close>: the bytes that can be read (none from a directory).\<close>

definition fopen_r :: "os \<Rightarrow> string \<Rightarrow> int + char list" where
  "fopen_r s p =
     (case fault s p of Some e \<Rightarrow> Inl e
      | None \<Rightarrow> (case lookup s p of
            None \<Rightarrow> Inl ENOENT
          | Some Dir \<Rightarrow> Inr []
          | Some (File bs) \<Rightarrow> Inr bs))"

text \<open>\<^verbatim>\<open>fopen(p, "w")\<close> creates or truncates; \<^verbatim>\<open>fwrite\<close> on the fresh stream sets the contents.\<close>

definition fopen_w :: "os \<Rightarrow> string \<Rightarrow> int + os" where
  "fopen_w s p =
     (case fault s p of Some e \<Rightarrow> Inl e
      | None \<Rightarrow> if lookup s p = Some Dir then Inl EISDIR
                else if \<not> parent_ok s p then Inl ENOENT
                else Inr (set_node p (File []) s))"

definition fwrite :: "os \<Rightarrow> string \<Rightarrow> char list \<Rightarrow> os" where
  "fwrite s p bs = set_node p (File (case wlimit s p of None \<Rightarrow> bs | Some l \<Rightarrow> take (nat l) bs)) s"

text \<open>\<^verbatim>\<open>open(p, O_WRONLY | O_CREAT, mode)\<close> keeps what a file holds; \<^verbatim>\<open>write\<close> on the fresh descriptor
  overwrites from the start and returns how many bytes it took, or -1.\<close>

definition open_creat :: "os \<Rightarrow> string \<Rightarrow> int + os" where
  "open_creat s p =
     (case fault s p of Some e \<Rightarrow> Inl e
      | None \<Rightarrow> (case lookup s p of
            Some Dir \<Rightarrow> Inl EISDIR
          | Some (File _) \<Rightarrow> Inr s
          | None \<Rightarrow> if \<not> parent_ok s p then Inl ENOENT else Inr (set_node p (File []) s)))"

definition contents :: "os \<Rightarrow> string \<Rightarrow> char list" where
  "contents s p = (case lookup s p of Some (File bs) \<Rightarrow> bs | _ \<Rightarrow> [])"

definition write_fd :: "os \<Rightarrow> string \<Rightarrow> char list \<Rightarrow> int \<times> os" where
  "write_fd s p bs =
     (case wlimit s p of
        None \<Rightarrow> (int (length bs), set_node p (File (bs @ drop (length bs) (contents s p))) s)
      | Some l \<Rightarrow>
          if l < 0 then (-1, s)
          else let ws = take (nat l) bs in
            (int (length ws), set_node p (File (ws @ drop (length ws) (contents s p))) s))"

definition child_name :: "string \<Rightarrow> string \<Rightarrow> string option" where
  "child_name d p =
     (let n = drop (length d + 1) p in
      if prefix (d @ ''/'') p \<and> n \<noteq> [] \<and> CHR ''/'' \<notin> set n then Some n else None)"

definition readdir :: "os \<Rightarrow> string \<Rightarrow> string list" where
  "readdir s d = ''.'' # ''..'' # List.map_filter (child_name d) (map fst (files s))"

definition remove_path :: "os \<Rightarrow> string \<Rightarrow> int + os" where
  "remove_path s p =
     (case fault s p of Some e \<Rightarrow> Inl e
      | None \<Rightarrow> (case lookup s p of
            None \<Rightarrow> Inl ENOENT
          | Some Dir \<Rightarrow> if length (readdir s p) > 2 then Inl ENOTEMPTY else Inr (del_node p s)
          | Some (File _) \<Rightarrow> Inr (del_node p s)))"

text \<open>\<^verbatim>\<open>rename\<close> of one regular file over another.\<close>

definition rename_path :: "os \<Rightarrow> string \<Rightarrow> string \<Rightarrow> int + os" where
  "rename_path s p q =
     (case fault s p of Some e \<Rightarrow> Inl e
      | None \<Rightarrow> (case fault s q of Some e \<Rightarrow> Inl e
          | None \<Rightarrow> (case lookup s p of
                None \<Rightarrow> Inl ENOENT
              | Some x \<Rightarrow> if lookup s q = Some Dir then Inl EISDIR
                          else if \<not> parent_ok s q then Inl ENOENT
                          else Inr (set_node q x (del_node p s)))))"

section \<open>Their effect on the name space\<close>

lemma lookup_set_node [simp]: "lookup (set_node p x s) q = (if q = p then Some x else lookup s q)"
  by (simp add: lookup_def set_node_def update_conv')

lemma lookup_del_node [simp]: "lookup (del_node p s) q = (if q = p then None else lookup s q)"
  by (simp add: lookup_def del_node_def delete_conv')

lemma fault_nodes [simp]: "fault (set_node p x s) = fault s" "fault (del_node p s) = fault s"
  "wlimit (set_node p x s) = wlimit s" "wlimit (del_node p s) = wlimit s"
  by (simp_all add: set_node_def del_node_def)

lemma lookup_fwrite [simp]:
  "wlimit s p = None \<Longrightarrow> lookup (fwrite s p bs) q = (if q = p then Some (File bs) else lookup s q)"
  "fault (fwrite s p bs) = fault s" "wlimit (fwrite s p bs) = wlimit s"
  by (simp_all add: fwrite_def)

lemma parent_child [simp]: "CHR ''/'' \<notin> set n \<Longrightarrow> parent (d @ CHR ''/'' # n) = d"
proof -
  assume "CHR ''/'' \<notin> set n"
  then have "dropWhile (\<lambda>c. c \<noteq> CHR ''/'') (rev n @ CHR ''/'' # rev d) = CHR ''/'' # rev d"
    by (subst dropWhile_append2) auto
  then show ?thesis by (simp add: parent_def)
qed

lemma parent_ok_child [simp]:
  "CHR ''/'' \<notin> set n \<Longrightarrow> parent_ok s (d @ CHR ''/'' # n) \<longleftrightarrow> lookup s d = Some Dir"
  by (simp add: parent_ok_def)

lemma finite_lookup: "finite {p. stat s p}"
  using finite_dom_map_of[of "files s"] by (simp add: stat_def lookup_def dom_def)

text \<open>A path is never the name of one of its children.\<close>

lemma child_neq [simp]: "d @ x # n \<noteq> d" "d \<noteq> d @ x # n"
  by simp_all

section \<open>Scanning numbered files\<close>

text \<open>The loops of the store and of the log probe \<open>f 0\<close>, \<open>f 1\<close>, ... until a file is missing. They
  end because there are finitely many files and the names differ.\<close>

definition files_left :: "os \<Rightarrow> (nat \<Rightarrow> string) \<Rightarrow> nat \<Rightarrow> nat" where
  "files_left s f n = card {i. n \<le> i \<and> stat s (f i)}"

lemma files_left_less:
  assumes "inj f" "stat s (f n)"
  shows "files_left s f (Suc n) < files_left s f n"
  unfolding files_left_def
proof (rule psubset_card_mono)
  have "f ` {i. n \<le> i \<and> stat s (f i)} \<subseteq> {p. stat s p}" by auto
  then have "finite (f ` {i. n \<le> i \<and> stat s (f i)})" using finite_lookup finite_subset by blast
  then show "finite {i. n \<le> i \<and> stat s (f i)}"
    using assms(1) finite_imageD inj_on_subset by blast
  show "{i. Suc n \<le> i \<and> stat s (f i)} \<subset> {i. n \<le> i \<and> stat s (f i)}"
    using assms(2) by (auto simp: Suc_le_eq)
qed

end
