(* ===== verification/KVStore.thy ===== *)
theory KVStore
  imports Posix KVInterfaces "HOL-Library.Multiset"
begin

text \<open>
  \<^verbatim>\<open>kvstore.c\<close>: the persistent store. An entry is a file \<^verbatim>\<open><hash>-<chainpos>.entry\<close> whose bytes are
  the dump of a \<^verbatim>\<open>kventry_t\<close>; entries whose keys collide form a chain of consecutive positions.
  \<open>chain_at\<close> says what a complete chain is, \<open>store_rep\<close> which finite map a directory stands for.
  Operations run with the store's lock held as in the code; \<open>kvstore_put\<close> is the composition of the
  part before and the part after the lock is taken for writing. File name buffers hold
  \<^const>\<open>MAX_FILENAME\<close> bytes and overflowing one is \<^term>\<open>None\<close>. Chain positions are natural
  numbers; the lemmas keep them below \<open>2 ^ 31\<close>, where the C integers agree.
\<close>

section \<open>Data\<close>

record kvstore =
  ks_dirname :: string

definition KVSTORE_FILETYPE :: string where
  "KVSTORE_FILETYPE = ''.entry''"

definition sizeof_kventry :: nat where
  "sizeof_kventry = 4"

definition hash :: "string \<Rightarrow> 64 word" where
  "hash str = fold (\<lambda>c h. (push_bit 5 h + h) + scast (of_char c :: 8 word)) str 5381"

text \<open>The bytes of a \<^verbatim>\<open>kventry_t\<close>: \<^verbatim>\<open>length\<close>, then \<^verbatim>\<open>data\<close>.\<close>

definition entry_data :: "string \<Rightarrow> string \<Rightarrow> char list" where
  "entry_data key val = key @ NUL # val @ [NUL]"

definition entry_bytes :: "string \<Rightarrow> string \<Rightarrow> char list" where
  "entry_bytes key val = le32 (word_of_nat (length key + length val + 2)) @ entry_data key val"

section \<open>Operations\<close>

definition entry_path :: "string \<Rightarrow> 64 word \<Rightarrow> nat \<Rightarrow> string" where
  "entry_path d h n = d @ CHR ''/'' # dec (unat h) @ CHR ''-'' # dec n @ KVSTORE_FILETYPE"

definition sprintf_entry :: "string \<Rightarrow> 64 word \<Rightarrow> nat \<Rightarrow> string option" where
  "sprintf_entry d h n =
     (if length (entry_path d h n) < MAX_FILENAME then Some (entry_path d h n) else None)"

lemma entry_path_inj [simp]: "entry_path d h m = entry_path d h' n \<longleftrightarrow> h = h' \<and> m = n"
proof -
  have "dec a @ CHR ''-'' # dec m @ z = dec b @ CHR ''-'' # dec n @ z \<longleftrightarrow> a = b \<and> m = n" for a b z
  proof
    assume eq: "dec a @ CHR ''-'' # dec m @ z = dec b @ CHR ''-'' # dec n @ z"
    have "takeWhile (\<lambda>c. c \<noteq> CHR ''-'') (dec i @ CHR ''-'' # y) = dec i" for i y
      by (subst takeWhile_append2) (use dec_not_in[of "CHR ''-''" i] in auto)
    from this[of a "dec m @ z"] this[of b "dec n @ z"] have "dec a = dec b" unfolding eq by simp
    with eq show "a = b \<and> m = n" by simp
  qed simp
  then show ?thesis by (auto simp: entry_path_def intro: unsigned_word_eqI)
qed

lemma inj_entry_path: "inj (entry_path d h)"
  by (simp add: inj_on_def)

definition kvstore_init :: "os \<Rightarrow> kvstore \<Rightarrow> string \<Rightarrow> (int \<times> os \<times> kvstore) option" where
  "kvstore_init s st dirname =
     (case (if stat s dirname then Inr s else mkdir s dirname) of
        Inl errno \<Rightarrow> Some (errno, s, st)
      | Inr s1 \<Rightarrow>
          if length dirname < MAX_FILENAME then Some (0, s1, st\<lparr>ks_dirname := dirname\<rparr>) else None)"

text \<open>Reading an entry: the header first, then the whole entry into a buffer of that size. A file
  that is shorter than it says leaves part of the buffer uninitialised.\<close>

definition read_header :: "char list \<Rightarrow> nat option" where
  "read_header bs =
     (if length bs < sizeof_kventry \<or> sint (un_le32 bs) < 0 then None else Some (unat (un_le32 bs)))"

definition read_data :: "char list \<Rightarrow> nat \<Rightarrow> char list option" where
  "read_data bs len =
     (if length bs < sizeof_kventry + len then None else Some (take len (drop sizeof_kventry bs)))"

text \<open>The loop of \<^verbatim>\<open>find_entry\<close>; \<open>want\<close> is \<^verbatim>\<open>value != NULL\<close>.\<close>

function find_loop ::
    "(nat \<Rightarrow> bool) \<Rightarrow> os \<Rightarrow> string \<Rightarrow> 64 word \<Rightarrow> string \<Rightarrow> bool \<Rightarrow> nat \<Rightarrow> (int \<times> string option) option" where
  "find_loop mem s d h key want counter =
     (if length (entry_path d h counter) \<ge> MAX_FILENAME then None
      else if \<not> stat s (entry_path d h counter) then Some (ERRNOKEY, None)
      else case fopen_r s (entry_path d h counter) of
        Inl _ \<Rightarrow> Some (ERRFILACCESS, None)
      | Inr bs \<Rightarrow>
          (case read_header bs of None \<Rightarrow> None
           | Some len \<Rightarrow>
               if \<not> mem (sizeof_kventry + len) then Some (ENOMEM, None)
               else case read_data bs len \<bind> c_string of None \<Rightarrow> None
                 | Some k \<Rightarrow>
                     if key = k
                     then (if \<not> want then Some (int counter, None)
                           else if \<not> mem (len - length k - 1) then Some (ENOMEM, None)
                           else do {
                             data \<leftarrow> read_data bs len;
                             v \<leftarrow> c_string (drop (length k + 1) data);
                             Some (int counter, Some v)
                           })
                     else find_loop mem s d h key want (Suc counter)))"
  by pat_completeness auto
termination
proof (relation "measure (\<lambda>(_, s, d, h, _, _, n). files_left s (entry_path d h) n)", goal_cases)
  case (2 mem s d h key want counter)
  then show ?case using files_left_less[OF inj_entry_path] by simp
qed simp

declare find_loop.simps [simp del]

definition find_entry ::
    "(nat \<Rightarrow> bool) \<Rightarrow> os \<Rightarrow> kvstore \<Rightarrow> string \<Rightarrow> bool \<Rightarrow> (int \<times> string option) option" where
  "find_entry mem s st key want =
     (if length key > MAX_KEYLEN then Some (ERRKEYLEN, None)
      else if \<not> stat s (ks_dirname st) then Some (ERRFILACCESS, None)
      else find_loop mem s (ks_dirname st) (hash key) key want 0)"

definition kvstore_haskey :: "(nat \<Rightarrow> bool) \<Rightarrow> os \<Rightarrow> kvstore \<Rightarrow> string \<Rightarrow> bool option" where
  "kvstore_haskey mem s st key = map_option (\<lambda>(r, _). 0 \<le> r) (find_entry mem s st key False)"

definition kvstore_get ::
    "(nat \<Rightarrow> bool) \<Rightarrow> os \<Rightarrow> kvstore \<Rightarrow> string \<Rightarrow> (int \<times> string option) option" where
  "kvstore_get mem s st key =
     map_option (\<lambda>(ret, v). if ret < 0 then (ret, v) else (0, v)) (find_entry mem s st key True)"

definition kvstore_put_check :: "os \<Rightarrow> kvstore \<Rightarrow> string \<Rightarrow> string \<Rightarrow> int" where
  "kvstore_put_check s st key val =
     (if length key > MAX_KEYLEN then ERRKEYLEN
      else if length val > MAX_VALLEN then ERRVALLEN
      else if \<not> stat s (ks_dirname st) then ERRFILACCESS
      else 0)"

text \<open>The end of a chain, from a position on: the first name without a file.\<close>

function end_loop :: "os \<Rightarrow> string \<Rightarrow> 64 word \<Rightarrow> nat \<Rightarrow> nat option" where
  "end_loop s d h counter =
     (if length (entry_path d h counter) \<ge> MAX_FILENAME then None
      else if \<not> stat s (entry_path d h counter) then Some counter
      else end_loop s d h (Suc counter))"
  by pat_completeness auto
termination
proof (relation "measure (\<lambda>(s, d, h, n). files_left s (entry_path d h) n)", goal_cases)
  case (2 s d h counter)
  then show ?case using files_left_less[OF inj_entry_path] by simp
qed simp

declare end_loop.simps [simp del]

text \<open>\<^verbatim>\<open>kvstore_put\<close> from the point where it takes the lock for writing.\<close>

definition kvstore_put_write ::
    "(nat \<Rightarrow> bool) \<Rightarrow> os \<Rightarrow> kvstore \<Rightarrow> string \<Rightarrow> string \<Rightarrow> int \<Rightarrow> (int \<times> os) option" where
  "kvstore_put_write mem s st key val counter = do {
     let d = ks_dirname st;
     n \<leftarrow> (if counter \<ge> 0 then Some (nat counter) else end_loop s d (hash key) 0);
     filename \<leftarrow> sprintf_entry d (hash key) n;
     case fopen_w s filename of
       Inl _ \<Rightarrow> Some (ERRFILACCESS, s)
     | Inr s1 \<Rightarrow>
         if \<not> mem (sizeof_kventry + length key + length val + 2) then None
         else Some (0, fwrite s1 filename (entry_bytes key val))
   }"

definition kvstore_put ::
    "(nat \<Rightarrow> bool) \<Rightarrow> os \<Rightarrow> kvstore \<Rightarrow> string \<Rightarrow> string \<Rightarrow> (int \<times> os) option" where
  "kvstore_put mem s st key val =
     (let check = kvstore_put_check s st key val in
      if check < 0 then Some (check, s)
      else do {
        (counter, _) \<leftarrow> find_entry mem s st key False;
        kvstore_put_write mem s st key val counter
      })"

definition kvstore_del_check :: "(nat \<Rightarrow> bool) \<Rightarrow> os \<Rightarrow> kvstore \<Rightarrow> string \<Rightarrow> int option" where
  "kvstore_del_check mem s st key =
     (if length key > MAX_KEYLEN then Some ERRKEYLEN
      else if \<not> stat s (ks_dirname st) then Some ERRFILACCESS
      else map_option (\<lambda>has. if \<not> has then ERRNOKEY else 0) (kvstore_haskey mem s st key))"

definition kvstore_del :: "(nat \<Rightarrow> bool) \<Rightarrow> os \<Rightarrow> kvstore \<Rightarrow> string \<Rightarrow> (int \<times> os) option" where
  "kvstore_del mem s st key = do {
     (chainpos, _) \<leftarrow> find_entry mem s st key False;
     if chainpos < 0 then Some (chainpos, s)
     else do {
       let d = ks_dirname st;
       let h = hash key;
       delfile \<leftarrow> sprintf_entry d h (nat chainpos);
       counter \<leftarrow> end_loop s d h (nat chainpos + 1);
       if counter = nat chainpos + 1
       then (case remove_path s delfile of
               Inl errno \<Rightarrow> Some (errno, s)
             | Inr s1 \<Rightarrow> Some (0, s1))
       else do {
         currfile \<leftarrow> sprintf_entry d h (counter - 1);
         case rename_path s currfile delfile of
           Inl errno \<Rightarrow> Some (errno, s)
         | Inr s1 \<Rightarrow> Some (0, s1)
       }
     }
   }"

text \<open>\<^verbatim>\<open>kvstore_clean\<close>: \<^verbatim>\<open>remove\<close> on every directory entry, its result ignored.\<close>

definition remove_ignore :: "os \<Rightarrow> string \<Rightarrow> os" where
  "remove_ignore s p = (case remove_path s p of Inl _ \<Rightarrow> s | Inr s1 \<Rightarrow> s1)"

fun clean_loop :: "os \<Rightarrow> string \<Rightarrow> string list \<Rightarrow> os option" where
  "clean_loop s d [] = Some s"
| "clean_loop s d (n # ns) =
     (if length (d @ CHR ''/'' # n) < MAX_FILENAME
      then clean_loop (remove_ignore s (d @ CHR ''/'' # n)) d ns else None)"

definition kvstore_clean :: "os \<Rightarrow> kvstore \<Rightarrow> (int \<times> os) option" where
  "kvstore_clean s st =
     (let d = ks_dirname st in
      if lookup s d \<noteq> Some Dir \<or> fault s d \<noteq> None then Some (0, s)
      else map_option (\<lambda>s1. (0, remove_ignore s1 d)) (clean_loop s d (readdir s d)))"

section \<open>The entry format\<close>

definition adm_key :: "string \<Rightarrow> bool" where
  "adm_key k \<longleftrightarrow> cstr k \<and> length k \<le> MAX_KEYLEN"

definition adm_val :: "string \<Rightarrow> bool" where
  "adm_val v \<longleftrightarrow> cstr v \<and> length v \<le> MAX_VALLEN"

lemma read_entry:
  assumes "length k + length v + 2 < 2 ^ 31" "cstr k" "cstr v"
  shows "read_header (entry_bytes k v) = Some (length k + length v + 2)"
    "read_data (entry_bytes k v) (length k + length v + 2) = Some (entry_data k v)"
    "c_string (entry_data k v) = Some k"
    "c_string (drop (length k + 1) (entry_data k v)) = Some v"
proof -
  have d: "drop (length k + 1) (entry_data k v) = v @ [NUL]" by (simp add: entry_data_def)
  show "read_header (entry_bytes k v) = Some (length k + length v + 2)"
    using small_word[OF assms(1)] by (simp add: read_header_def entry_bytes_def sizeof_kventry_def)
  show "read_data (entry_bytes k v) (length k + length v + 2) = Some (entry_data k v)"
    by (simp add: read_data_def entry_bytes_def sizeof_kventry_def entry_data_def)
  show "c_string (entry_data k v) = Some k" using assms(2) by (simp add: entry_data_def)
  show "c_string (drop (length k + 1) (entry_data k v)) = Some v"
    unfolding d using assms(3) by simp
qed

lemma adm_length: "adm_key k \<Longrightarrow> adm_val v \<Longrightarrow> length k + length v + 2 < 2 ^ 31 \<and> cstr k \<and> cstr v"
  by (simp add: adm_key_def adm_val_def kv_simps)

section \<open>Chains and the abstraction\<close>

text \<open>A usable store directory: it exists, its name leaves room for the longest entry name, and the
  entry files can be opened, renamed and removed.\<close>

definition healthy :: "os \<Rightarrow> string \<Rightarrow> bool" where
  "healthy s d \<longleftrightarrow> lookup s d = Some Dir \<and> length d \<le> 985 \<and>
     (\<forall>h n. fault s (entry_path d h n) = None \<and> wlimit s (entry_path d h n) = None)"

definition chain_files :: "os \<Rightarrow> string \<Rightarrow> 64 word \<Rightarrow> (string \<times> string) list \<Rightarrow> bool" where
  "chain_files s d h es \<longleftrightarrow>
     (\<forall>n. lookup s (entry_path d h n) =
        (if n < length es then Some (File (entry_bytes (fst (es ! n)) (snd (es ! n)))) else None)) \<and>
     (\<forall>(k, v) \<in> set es. hash k = h \<and> adm_key k \<and> adm_val v)"

definition chain_at :: "os \<Rightarrow> string \<Rightarrow> 64 word \<Rightarrow> (string \<times> string) list \<Rightarrow> bool" where
  "chain_at s d h es \<longleftrightarrow> chain_files s d h es \<and> distinct (map fst es)"

definition store_rep :: "os \<Rightarrow> string \<Rightarrow> (string \<rightharpoonup> string) \<Rightarrow> bool" where
  "store_rep s d m \<longleftrightarrow> healthy s d \<and> finite (dom m) \<and>
     (\<forall>h. \<exists>es. chain_at s d h es \<and> (\<forall>k. hash k = h \<longrightarrow> m k = map_of es k))"

lemma length_entry_path:
  assumes "length d \<le> 985" "n < 2 ^ 31"
  shows "length (entry_path d h n) < MAX_FILENAME"
proof -
  have "unat h < 10 ^ 20" using unsigned_less[of h, where ?'a = nat] by simp
  then have "length (dec (unat h)) \<le> 20" by (rule length_dec) simp
  moreover have "n < 10 ^ 10" using assms(2) by simp
  then have "length (dec n) \<le> 10" by (rule length_dec) simp
  ultimately show ?thesis using assms(1) by (simp add: entry_path_def KVSTORE_FILETYPE_def kv_simps)
qed

lemma chain_filesD:
  assumes "chain_files s d h es"
  shows "lookup s (entry_path d h n) =
      (if n < length es then Some (File (entry_bytes (fst (es ! n)) (snd (es ! n)))) else None)"
    "n < length es \<Longrightarrow> hash (fst (es ! n)) = h \<and> adm_key (fst (es ! n)) \<and> adm_val (snd (es ! n))"
  using assms nth_mem[of n es] by (auto simp: chain_files_def case_prod_beta)

lemma chain_atD:
  assumes "chain_at s d h es"
  shows "lookup s (entry_path d h n) =
      (if n < length es then Some (File (entry_bytes (fst (es ! n)) (snd (es ! n)))) else None)"
    "distinct (map fst es)" "chain_files s d h es"
  using assms chain_filesD(1) by (auto simp: chain_at_def)

lemma parent_ok_entry [simp]: "parent_ok s (entry_path d h n) \<longleftrightarrow> lookup s d = Some Dir"
  unfolding entry_path_def KVSTORE_FILETYPE_def by (rule parent_ok_child) simp

lemma entry_path_neq_dir [simp]: "entry_path d h n \<noteq> d" "d \<noteq> entry_path d h n"
  by (simp_all add: entry_path_def)

lemma find_loop_spec:
  assumes "healthy s d" "chain_files s d h es" "length es < 2 ^ 31" "n \<le> length es"
  shows "find_loop mem_ok s d h key want n =
    Some (case index_of (\<lambda>e. key = fst e) (drop n es) of
       None \<Rightarrow> (ERRNOKEY, None)
     | Some i \<Rightarrow> (int (n + i), if want then Some (snd (es ! (n + i))) else None))"
  using assms(4)
proof (induction "length es - n" arbitrary: n)
  case 0
  then have "n = length es" by simp
  then show ?case
    using chain_filesD(1)[OF assms(2), of n] assms(1,3) length_entry_path[of d n h]
    by (simp add: find_loop.simps healthy_def stat_def)
next
  case (Suc j)
  then have n: "n < length es" by simp
  then have len: "length (entry_path d h n) < MAX_FILENAME"
    using assms(1,3) by (intro length_entry_path) (auto simp: healthy_def)
  obtain k v where e: "es ! n = (k, v)" by (cases "es ! n")
  have dr: "drop n es = (k, v) # drop (Suc n) es" using n e by (metis Cons_nth_drop_Suc)
  have look: "lookup s (entry_path d h n) = Some (File (entry_bytes k v))"
    using chain_filesD(1)[OF assms(2), of n] n e by simp
  have fo: "fopen_r s (entry_path d h n) = Inr (entry_bytes k v)"
    using look assms(1) by (simp add: fopen_r_def healthy_def)
  note rd = read_entry[of k v]
  have adm: "length k + length v + 2 < 2 ^ 31" "cstr k" "cstr v"
    using chain_filesD(2)[OF assms(2) n] adm_length[of k v] e by simp_all
  have IH: "find_loop mem_ok s d h key want (Suc n) =
    Some (case index_of (\<lambda>e. key = fst e) (drop (Suc n) es) of
       None \<Rightarrow> (ERRNOKEY, None)
     | Some i \<Rightarrow> (int (Suc n + i), if want then Some (snd (es ! (Suc n + i))) else None))"
    using Suc n by (intro Suc.hyps(1)) auto
  have "find_loop mem_ok s d h key want n =
    (if key = k then Some (int n, if want then Some v else None)
     else find_loop mem_ok s d h key want (Suc n))"
    using len look fo rd[OF adm]
    by (subst find_loop.simps) (simp add: stat_def not_le)
  then show ?case unfolding IH dr using e by (auto split: option.split)
qed

lemma end_loop_spec:
  assumes "healthy s d" "chain_files s d h es" "length es < 2 ^ 31" "n \<le> length es"
  shows "end_loop s d h n = Some (length es)"
  using assms(4)
proof (induction "length es - n" arbitrary: n)
  case 0
  then show ?case
    using chain_filesD(1)[OF assms(2), of n] assms(1,3) length_entry_path[of d n h]
    by (subst end_loop.simps) (auto simp: healthy_def stat_def not_le)
next
  case (Suc j)
  then have "n < length es" by simp
  then show ?case
    using Suc chain_filesD(1)[OF assms(2), of n] assms(1,3) length_entry_path[of d n h]
    by (subst end_loop.simps) (auto simp: healthy_def stat_def not_le)
qed

section \<open>Refinement\<close>

lemma store_repD:
  assumes "store_rep s d m"
  obtains es where "healthy s d" "finite (dom m)" "chain_at s d (hash k) es"
    "\<And>k'. hash k' = hash k \<Longrightarrow> m k' = map_of es k'" "length es \<le> card (dom m)"
proof -
  obtain es where es: "chain_at s d (hash k) es" "\<And>k'. hash k' = hash k \<Longrightarrow> m k' = map_of es k'"
    using assms by (fastforce simp: store_rep_def)
  have fin: "finite (dom m)" using assms by (simp add: store_rep_def)
  have "set (map fst es) \<subseteq> dom m"
  proof
    fix k' assume "k' \<in> set (map fst es)"
    then obtain v where "(k', v) \<in> set es" by auto
    then have "hash k' = hash k" "map_of es k' = Some v"
      using es(1) chain_atD(2)[OF es(1)] by (auto simp: chain_at_def chain_files_def)
    then show "k' \<in> dom m" using es(2) by auto
  qed
  then have "length es \<le> card (dom m)"
    using card_mono[OF fin, of "set (map fst es)"] distinct_card[OF chain_atD(2)[OF es(1)]] by simp
  then show thesis using that es fin assms by (simp add: store_rep_def)
qed

lemma find_entry_chain:
  assumes "healthy s (ks_dirname st)" "chain_files s (ks_dirname st) (hash k) es" "length es < 2 ^ 31" "adm_key k"
  shows "find_entry mem_ok s st k want =
    Some (case index_of (\<lambda>e. k = fst e) es of
       None \<Rightarrow> (ERRNOKEY, None)
     | Some i \<Rightarrow> (int i, if want then Some (snd (es ! i)) else None))"
  using find_loop_spec[OF assms(1-3), of 0 k want] assms(1,4)
  by (auto simp: find_entry_def adm_key_def healthy_def stat_def split: option.split)

lemma find_entry_spec:
  assumes "store_rep s (ks_dirname st) m" "adm_key k" "card (dom m) < 2 ^ 31" "chain_at s (ks_dirname st) (hash k) es"
    "length es \<le> card (dom m)"
  shows "find_entry mem_ok s st k want =
    Some (case index_of (\<lambda>e. k = fst e) es of
       None \<Rightarrow> (ERRNOKEY, None)
     | Some i \<Rightarrow> (int i, if want then Some (snd (es ! i)) else None))"
  using assms by (intro find_entry_chain) (auto simp: store_rep_def chain_at_def)

lemma map_of_index:
  assumes "distinct (map fst es)"
  shows "map_of es k = (case index_of (\<lambda>e. k = fst e) es of None \<Rightarrow> None | Some i \<Rightarrow> Some (snd (es ! i)))"
proof (cases "index_of (\<lambda>e. k = fst e) es")
  case None
  then have "map_of es k = None" by (auto simp: index_of_None map_of_eq_None_iff)
  then show ?thesis using None by simp
next
  case (Some i)
  then have "i < length es" "k = fst (es ! i)" by (simp_all add: index_of_Some)
  then show ?thesis using Some map_of_distinct_nth[OF assms, of i] by simp
qed

text \<open>Changing one chain leaves the others, the directory and the faults alone.\<close>

lemma store_rep_chain:
  assumes "store_rep s d m" "chain_at s' d h es'" "fault s' = fault s" "wlimit s' = wlimit s" "lookup s' d = lookup s d"
    "\<And>h' n. h' \<noteq> h \<Longrightarrow> lookup s' (entry_path d h' n) = lookup s (entry_path d h' n)"
    "\<And>k. m' k = (if hash k = h then map_of es' k else m k)" "finite (dom m')"
  shows "store_rep s' d m'"
  unfolding store_rep_def
proof (intro conjI allI)
  show "healthy s' d" using assms(1,3-5) by (simp add: store_rep_def healthy_def)
  show "finite (dom m')" by (rule assms(8))
  fix h'
  show "\<exists>es. chain_at s' d h' es \<and> (\<forall>k. hash k = h' \<longrightarrow> m' k = map_of es k)"
  proof (cases "h' = h")
    case True
    then show ?thesis using assms(2,7) by auto
  next
    case False
    obtain es where "chain_at s d h' es" "\<forall>k. hash k = h' \<longrightarrow> m k = map_of es k"
      using assms(1) unfolding store_rep_def by blast
    then show ?thesis using False assms(6,7) by (auto simp: chain_at_def chain_files_def intro!: exI[of _ es])
  qed
qed

lemma map_of_list_update:
  assumes "distinct (map fst es)" "i < length es" "fst (es ! i) = k"
  shows "map_of (es[i := (k, v)]) = (map_of es)(k \<mapsto> v)"
proof -
  have "map fst (es[i := (k, v)]) = map fst es" using assms(2,3) by (simp add: map_update list_update_same_conv)
  then have d: "distinct (map fst (es[i := (k, v)]))" using assms(1) by simp
  have "map_of (es[i := (k, v)]) x = ((map_of es)(k \<mapsto> v)) x" for x
  proof (cases "x = k")
    case True
    have "(k, v) \<in> set (es[i := (k, v)])" using assms(2) set_update_memI by metis
    then show ?thesis using d True by (simp add: map_of_eq_Some_iff)
  next
    case False
    have iff: "(x, y) \<in> set (es[i := (k, v)]) \<longleftrightarrow> (x, y) \<in> set es" for y
      using assms(2,3) False by (auto simp: in_set_conv_nth nth_list_update) (metis fst_conv)+
    have "map_of (es[i := (k, v)]) x = Some y \<longleftrightarrow> map_of es x = Some y" for y
      using iff d assms(1) by (simp add: map_of_eq_Some_iff)
    then have "map_of (es[i := (k, v)]) x = map_of es x" by (metis not_None_eq)
    then show ?thesis using False by simp
  qed
  then show ?thesis by blast
qed

lemma map_of_append_new: "k \<notin> set (map fst es) \<Longrightarrow> map_of (es @ [(k, v)]) = (map_of es)(k \<mapsto> v)"
  by (induction es) (auto simp: fun_eq_iff)

lemma put_write_spec:
  assumes "store_rep s (ks_dirname st) m" "chain_at s (ks_dirname st) (hash k) es" "length es < 2 ^ 31 - 1"
    "if c < 0 then n = length es else n = nat c \<and> n \<le> length es"
  shows "kvstore_put_write mem_ok s st k v c =
    Some (0, fwrite (set_node (entry_path (ks_dirname st) (hash k) n) (File []) s)
       (entry_path (ks_dirname st) (hash k) n) (entry_bytes k v))"
proof -
  let ?p = "entry_path (ks_dirname st) (hash k) n"
  have h: "healthy s (ks_dirname st)" using assms(1) by (simp add: store_rep_def)
  have n: "n \<le> length es" using assms(4) by (auto split: if_splits)
  have len: "length ?p < MAX_FILENAME"
    using h n assms(3) by (intro length_entry_path) (auto simp: healthy_def)
  have "fopen_w s ?p = Inr (set_node ?p (File []) s)"
    using chain_atD(1)[OF assms(2), of n] h by (simp add: fopen_w_def healthy_def)
  moreover have "end_loop s (ks_dirname st) (hash k) 0 = Some (length es)"
    using end_loop_spec[OF h chain_atD(3)[OF assms(2)]] assms(3) by simp
  ultimately show ?thesis
    using assms(4) len by (cases "c < 0") (simp_all add: kvstore_put_write_def sprintf_entry_def Let_def)
qed

lemma chain_at_write:
  assumes "chain_at s d h es" "n \<le> length es" "hash k = h" "adm_key k" "adm_val v"
    "wlimit s (entry_path d h n) = None" "if n < length es then fst (es ! n) = k else k \<notin> set (map fst es)"
  shows "chain_at (fwrite (set_node (entry_path d h n) (File []) s) (entry_path d h n) (entry_bytes k v)) d h
      (if n < length es then es[n := (k, v)] else es @ [(k, v)])"
proof (cases "n < length es")
  case True
  have "map fst (es[n := (k, v)]) = map fst es"
    using True assms(7) by (simp add: map_update list_update_same_conv)
  then have "distinct (map fst (es[n := (k, v)]))" using chain_atD(2)[OF assms(1)] by simp
  moreover have "hash k' = h \<and> adm_key k' \<and> adm_val v'" if "(k', v') \<in> set (es[n := (k, v)])" for k' v'
    using that assms(1,3-5) set_update_subset_insert[of es n "(k, v)"] by (auto simp: chain_at_def chain_files_def)
  ultimately show ?thesis
    using True chain_atD(1)[OF assms(1)] assms(6) by (auto simp: chain_at_def chain_files_def nth_list_update)
next
  case False
  then have n: "n = length es" using assms(2) by simp
  have "hash k' = h \<and> adm_key k' \<and> adm_val v'" if "(k', v') \<in> set (es @ [(k, v)])" for k' v'
    using that assms(1,3-5) by (auto simp: chain_at_def chain_files_def)
  moreover have "distinct (map fst (es @ [(k, v)]))" using chain_atD(2)[OF assms(1)] assms(7) n by simp
  ultimately show ?thesis
    using n chain_atD(1)[OF assms(1)] assms(6) by (auto simp: chain_at_def chain_files_def nth_append less_Suc_eq)
qed

lemma kvstore_put_ok:
  assumes "store_rep s (ks_dirname st) m" "adm_key k" "adm_val v" "card (dom m) < 2 ^ 31 - 1"
  shows "\<exists>s'. kvstore_put mem_ok s st k v = Some (0, s') \<and> store_rep s' (ks_dirname st) (m(k \<mapsto> v))"
proof -
  let ?d = "ks_dirname st" and ?h = "hash k"
  obtain es where es: "healthy s ?d" "finite (dom m)" "chain_at s ?d ?h es"
    "\<And>k'. hash k' = ?h \<Longrightarrow> m k' = map_of es k'" "length es \<le> card (dom m)"
    using store_repD[OF assms(1)] by metis
  define c where "c = (case index_of (\<lambda>e. k = fst e) es of None \<Rightarrow> ERRNOKEY | Some i \<Rightarrow> int i)"
  define n where "n = (case index_of (\<lambda>e. k = fst e) es of None \<Rightarrow> length es | Some i \<Rightarrow> i)"
  have fe: "find_entry mem_ok s st k False = Some (c, None)"
    using find_entry_spec[OF assms(1,2) _ es(3,5), of False] assms(4)
    by (simp add: c_def split: option.splits)
  have ix: "i < length es \<and> fst (es ! i) = k" if "index_of (\<lambda>e. k = fst e) es = Some i" for i
    using that by (auto simp: index_of_Some)
  have cn: "if c < 0 then n = length es else n = nat c \<and> n \<le> length es"
    using ix by (cases "index_of (\<lambda>e. k = fst e) es") (simp_all add: c_def n_def kv_simps less_imp_le)
  have nk: "n \<le> length es" "if n < length es then fst (es ! n) = k else k \<notin> set (map fst es)"
    using ix index_of_None[of "\<lambda>e. k = fst e" es]
    by (cases "index_of (\<lambda>e. k = fst e) es"; force simp: n_def)+
  let ?s' = "fwrite (set_node (entry_path ?d ?h n) (File []) s) (entry_path ?d ?h n) (entry_bytes k v)"
  let ?es' = "if n < length es then es[n := (k, v)] else es @ [(k, v)]"
  have put: "kvstore_put mem_ok s st k v = Some (0, ?s')"
    using put_write_spec[OF assms(1) es(3) _ cn] es(1,5) assms(2-4) fe
    by (simp add: kvstore_put_def kvstore_put_check_def adm_key_def adm_val_def stat_def healthy_def)
  have "map_of ?es' = (map_of es)(k \<mapsto> v)"
    using nk map_of_list_update[OF chain_atD(2)[OF es(3)], of n k v]
      map_of_append_new[of k es v] by (auto split: if_splits)
  then have "store_rep ?s' ?d (m(k \<mapsto> v))"
    using chain_at_write[OF es(3) nk(1) refl assms(2,3) _ nk(2)] es(1,2,4)
    by (intro store_rep_chain[OF assms(1)]) (auto simp: healthy_def)
  with put show ?thesis by blast
qed

text \<open>Removing position \<open>i\<close> of a chain: the last entry takes its place.\<close>

definition chain_remove :: "nat \<Rightarrow> 'a list \<Rightarrow> 'a list" where
  "chain_remove i es = butlast (es[i := last es])"

lemma chain_remove_set:
  assumes "i < length es"
  shows "mset (chain_remove i es) = mset es - {#es ! i#}" "length (chain_remove i es) = length es - 1"
proof -
  obtain ys y where es: "es = ys @ [y]" using assms by (metis append_butlast_last_id length_0_conv not_less0)
  show "mset (chain_remove i es) = mset es - {#es ! i#}"
    using assms by (cases "i < length ys")
      (auto simp: es chain_remove_def list_update_append nth_append mset_update less_Suc_eq)
  show "length (chain_remove i es) = length es - 1" by (simp add: chain_remove_def)
qed

lemma chain_remove_nth:
  assumes "i < length es" "n < length es - 1"
  shows "chain_remove i es ! n = (if n = i then last es else es ! n)"
  using assms by (simp add: chain_remove_def nth_butlast nth_list_update)

lemma chain_remove_map_of:
  assumes "distinct (map fst es)" "i < length es" "fst (es ! i) = k"
  shows "distinct (map fst (chain_remove i es))" "map_of (chain_remove i es) = (map_of es)(k := None)"
    "set (chain_remove i es) \<subseteq> set es"
proof -
  have dist: "distinct es" using assms(1) by (simp add: distinct_map)
  have m: "mset (chain_remove i es) = mset (remove1 (es ! i) es)"
    using chain_remove_set(1)[OF assms(2)] by simp
  have "mset (map fst (chain_remove i es)) = mset (map fst (remove1 (es ! i) es))" using m by simp
  moreover have "distinct (map fst (remove1 (es ! i) es))"
    using assms(1) by (simp add: distinct_map distinct_remove1 set_remove1_eq inj_on_diff)
  ultimately show d: "distinct (map fst (chain_remove i es))" by (metis mset_eq_imp_distinct_iff)
  have set: "set (chain_remove i es) = set es - {es ! i}"
    using m dist by (metis set_mset_mset set_remove1_eq)
  then show "set (chain_remove i es) \<subseteq> set es" by blast
  have "map_of (chain_remove i es) x = Some y \<longleftrightarrow> ((map_of es)(k := None)) x = Some y" for x y
  proof -
    have "(x, y) = es ! i \<longleftrightarrow> x = k" if "(x, y) \<in> set es"
      using assms that by (metis eq_key_imp_eq_value fst_conv nth_mem prod.collapse)
    then show ?thesis using d assms(1) by (auto simp: map_of_eq_Some_iff set)
  qed
  then show "map_of (chain_remove i es) = (map_of es)(k := None)"
    by (metis (no_types, opaque_lifting) ext not_None_eq)
qed

lemma kvstore_del_miss:
  assumes "store_rep s (ks_dirname st) m" "adm_key k" "card (dom m) < 2 ^ 31 - 1" "m k = None"
  shows "kvstore_del mem_ok s st k = Some (ERRNOKEY, s)"
proof -
  obtain es where es: "chain_at s (ks_dirname st) (hash k) es" "m k = map_of es k" "length es \<le> card (dom m)"
    using store_repD[OF assms(1)] by metis
  then have "index_of (\<lambda>e. k = fst e) es = None"
    using assms(4) map_of_index[OF chain_atD(2)[OF es(1)], of k] by (auto split: option.splits)
  then show ?thesis
    using find_entry_spec[OF assms(1,2) _ es(1,3), of False] assms(3) by (simp add: kvstore_del_def kv_simps)
qed

lemma kvstore_del_chain:
  assumes "healthy s (ks_dirname st)" "chain_files s (ks_dirname st) (hash k) es" "length es < 2 ^ 31" "adm_key k"
    "index_of (\<lambda>e. k = fst e) es = Some i"
  shows "\<exists>s'. kvstore_del mem_ok s st k = Some (0, s') \<and> fault s' = fault s \<and> wlimit s' = wlimit s \<and>
    (\<forall>q. lookup s' q = (if q = entry_path (ks_dirname st) (hash k) (length es - 1) then None
       else if q = entry_path (ks_dirname st) (hash k) i
       then lookup s (entry_path (ks_dirname st) (hash k) (length es - 1)) else lookup s q))"
proof -
  let ?d = "ks_dirname st" and ?h = "hash k"
  have il: "i < length es" "length es - 1 < length es" using assms(5) by (auto simp: index_of_Some)
  have len: "length (entry_path ?d ?h n) < MAX_FILENAME" if "n \<le> length es" for n
    using that assms(1,3) by (intro length_entry_path) (auto simp: healthy_def)
  have fe: "find_entry mem_ok s st k False = Some (int i, None)"
    using find_entry_chain[OF assms(1-4), of False] assms(5) by simp
  have el: "end_loop s ?d ?h (Suc i) = Some (length es)"
    using end_loop_spec[OF assms(1-3)] il(1) by simp
  have look: "lookup s (entry_path ?d ?h n) = Some (File (entry_bytes (fst (es ! n)) (snd (es ! n))))"
    if "n < length es" for n using chain_filesD(1)[OF assms(2), of n] that by simp
  show ?thesis
  proof (cases "Suc i = length es")
    case True
    then show ?thesis using fe el len[of i] look[of i] il(1) assms(1)
      by (auto simp: kvstore_del_def sprintf_entry_def remove_path_def healthy_def Let_def)
  next
    case False
    then show ?thesis
      using fe el len[of i] len[of "length es - 1"] look[OF il(1)] look[OF il(2)] il assms(1)
      by (auto simp: kvstore_del_def sprintf_entry_def rename_path_def healthy_def Let_def)
  qed
qed

lemma chain_files_remove:
  assumes "chain_files s d h es" "i < length es"
    "\<And>q. lookup s' q = (if q = entry_path d h (length es - 1) then None
       else if q = entry_path d h i then lookup s (entry_path d h (length es - 1)) else lookup s q)"
  shows "chain_files s' d h (chain_remove i es)"
proof -
  have last: "last es = es ! (length es - 1)" using assms(2) by (metis last_conv_nth list.size(3) not_less0)
  have "lookup s' (entry_path d h n) = (if n < length (chain_remove i es)
      then Some (File (entry_bytes (fst (chain_remove i es ! n)) (snd (chain_remove i es ! n)))) else None)" for n
    using assms(2,3) chain_filesD(1)[OF assms(1)] chain_remove_nth[OF assms(2), of n] chain_remove_set(2)[OF assms(2)] last
    by auto
  moreover have "set (chain_remove i es) \<subseteq> set es"
    using chain_remove_set(1)[OF assms(2)] by (metis diff_subset_eq_self set_mset_mono set_mset_mset)
  then have "\<forall>(k, v) \<in> set (chain_remove i es). hash k = h \<and> adm_key k \<and> adm_val v"
    using assms(1) by (auto simp: chain_files_def)
  ultimately show ?thesis by (simp add: chain_files_def)
qed

lemma kvstore_del_hit:
  assumes "store_rep s (ks_dirname st) m" "adm_key k" "card (dom m) < 2 ^ 31 - 1" "m k = Some v"
  shows "\<exists>s'. kvstore_del mem_ok s st k = Some (0, s') \<and> store_rep s' (ks_dirname st) (m(k := None))"
proof -
  let ?d = "ks_dirname st" and ?h = "hash k"
  obtain es where es: "healthy s ?d" "finite (dom m)" "chain_at s ?d ?h es"
    "\<And>k'. hash k' = ?h \<Longrightarrow> m k' = map_of es k'" "length es \<le> card (dom m)"
    using store_repD[OF assms(1)] by metis
  note d = chain_atD(2)[OF es(3)] and cf = chain_atD(3)[OF es(3)]
  obtain i where i: "index_of (\<lambda>e. k = fst e) es = Some i"
    using assms(4) es(4)[of k] map_of_index[OF d, of k] by (auto split: option.splits)
  have il: "i < length es" "fst (es ! i) = k" using i by (auto simp: index_of_Some)
  have "length es < 2 ^ 31" using es(5) assms(3) by simp
  from kvstore_del_chain[OF es(1) cf this assms(2) i]
  obtain s' where s': "kvstore_del mem_ok s st k = Some (0, s')" "fault s' = fault s" "wlimit s' = wlimit s"
    "\<And>q. lookup s' q = (if q = entry_path ?d ?h (length es - 1) then None
       else if q = entry_path ?d ?h i then lookup s (entry_path ?d ?h (length es - 1)) else lookup s q)"
    by blast
  have "chain_at s' ?d ?h (chain_remove i es)"
    using chain_files_remove[OF cf il(1) s'(4)] chain_remove_map_of(1)[OF d il] by (simp add: chain_at_def)
  then have "store_rep s' ?d (m(k := None))"
    using es(2,4) chain_remove_map_of(2)[OF d il] s'(2-4) by (intro store_rep_chain[OF assms(1)]) auto
  with s'(1) show ?thesis by blast
qed

lemma kvstore_get_spec:
  assumes "store_rep s (ks_dirname st) m" "adm_key k" "card (dom m) < 2 ^ 31 - 1"
  shows "kvstore_get mem_ok s st k = Some (if m k = None then ERRNOKEY else 0, m k)"
proof -
  obtain es where es: "chain_at s (ks_dirname st) (hash k) es" "m k = map_of es k" "length es \<le> card (dom m)"
    using store_repD[OF assms(1)] by metis
  show ?thesis
    using find_entry_spec[OF assms(1,2) _ es(1,3), of True] assms(3) map_of_index[OF chain_atD(2)[OF es(1)], of k] es(2)
    by (cases "index_of (\<lambda>e. k = fst e) es") (simp_all add: kvstore_get_def kv_simps)
qed

lemma kvstore_haskey_spec:
  assumes "store_rep s (ks_dirname st) m" "adm_key k" "card (dom m) < 2 ^ 31 - 1"
  shows "kvstore_haskey mem_ok s st k = Some (m k \<noteq> None)"
proof -
  obtain es where es: "chain_at s (ks_dirname st) (hash k) es" "m k = map_of es k" "length es \<le> card (dom m)"
    using store_repD[OF assms(1)] by metis
  show ?thesis
    using find_entry_spec[OF assms(1,2) _ es(1,3), of False] assms(3) map_of_index[OF chain_atD(2)[OF es(1)], of k] es(2)
    by (cases "index_of (\<lambda>e. k = fst e) es") (simp_all add: kvstore_haskey_def kv_simps)
qed

lemma entry_bytes_inj:
  assumes "adm_key k" "adm_val v" "adm_key k'" "adm_val v'" "entry_bytes k v = entry_bytes k' v'"
  shows "k = k' \<and> v = v'"
proof -
  have "entry_data k v = entry_data k' v'"
    using assms(5) by (metis append_eq_append_conv entry_bytes_def length_le32)
  moreover note read_entry(3,4)[of k v] read_entry(3,4)[of k' v']
  ultimately show ?thesis using adm_length[OF assms(1,2)] adm_length[OF assms(3,4)] by fastforce
qed

lemma chain_files_fun:
  assumes "chain_files s d h es" "chain_files s d h es'"
  shows "es = es'"
proof (rule nth_equalityI)
  have iff: "n < length es \<longleftrightarrow> n < length es'" for n
    using chain_filesD(1)[OF assms(1), of n] chain_filesD(1)[OF assms(2), of n] by (auto split: if_splits)
  then show len: "length es = length es'" by (meson linorder_neqE_nat less_irrefl)
  fix n assume n: "n < length es"
  then have "entry_bytes (fst (es ! n)) (snd (es ! n)) = entry_bytes (fst (es' ! n)) (snd (es' ! n))"
    using chain_filesD(1)[OF assms(1), of n] chain_filesD(1)[OF assms(2), of n] len by simp
  then show "es ! n = es' ! n"
    using entry_bytes_inj chain_filesD(2)[OF assms(1), of n] chain_filesD(2)[OF assms(2), of n] n len
    by (metis prod.expand)
qed

lemma store_rep_fun:
  assumes "store_rep s d m" "store_rep s d m'"
  shows "m = m'"
proof
  fix k
  obtain es where es: "chain_at s d (hash k) es" "m k = map_of es k" using store_repD[OF assms(1)] by metis
  obtain es' where es': "chain_at s d (hash k) es'" "m' k = map_of es' k" using store_repD[OF assms(2)] by metis
  show "m k = m' k" using es es' chain_files_fun chain_atD(3) by metis
qed

lemma store_rep_finite: "store_rep s d m \<Longrightarrow> finite (dom m)"
  by (simp add: store_rep_def)

interpretation ks: kv_store "\<lambda>s. store_rep s (ks_dirname st)" adm_key adm_val "2 ^ 31 - 1"
    "\<lambda>s. kvstore_get mem_ok s st" "\<lambda>s. kvstore_put mem_ok s st" "\<lambda>s. kvstore_del mem_ok s st" for st
  using kvstore_put_ok[of _ st] kvstore_del_hit[of _ st] kvstore_del_miss[of _ st] store_rep_fun[of _ "ks_dirname st"]
  by unfold_locales (auto simp: kvstore_get_spec store_rep_finite)

text \<open>Whatever a put or a delete returns, it touches only the files of the key's chain.\<close>

definition touches_chain :: "string \<Rightarrow> 64 word \<Rightarrow> os \<Rightarrow> os \<Rightarrow> bool" where
  "touches_chain d h s s' \<longleftrightarrow> fault s' = fault s \<and> wlimit s' = wlimit s \<and>
     (\<forall>p. (\<forall>n. p \<noteq> entry_path d h n) \<longrightarrow> lookup s' p = lookup s p)"

lemma touches_chain_simps [simp]:
  "touches_chain d h s s"
  "touches_chain d h s (set_node (entry_path d h n) x s') \<longleftrightarrow> touches_chain d h s (s' :: os)"
  "touches_chain d h s (del_node (entry_path d h n) s') \<longleftrightarrow> touches_chain d h s s'"
  by (auto simp: touches_chain_def)

lemma kvstore_put_frame:
  assumes "kvstore_put mem s st k v = Some (r, s')"
  shows "touches_chain (ks_dirname st) (hash k) s s'"
proof (cases "kvstore_put_check s st k v < 0")
  case False
  then obtain c where w: "kvstore_put_write mem s st k v c = Some (r, s')"
    using assms by (auto simp: kvstore_put_def Let_def bind_eq_Some_conv)
  let ?p = "entry_path (ks_dirname st) (hash k)"
  define nn where "nn = (if c \<ge> 0 then Some (nat c) else end_loop s (ks_dirname st) (hash k) 0)"
  have w': "(nn \<bind> (\<lambda>n. sprintf_entry (ks_dirname st) (hash k) n \<bind> (\<lambda>p.
      case fopen_w s p of Inl _ \<Rightarrow> Some (ERRFILACCESS, s)
      | Inr s1 \<Rightarrow> if \<not> mem (sizeof_kventry + length k + length v + 2) then None
          else Some (0, fwrite s1 p (entry_bytes k v))))) = Some (r, s')"
    using w unfolding kvstore_put_write_def nn_def Let_def .
  then obtain n where n: "nn = Some n" by (cases nn) auto
  have "sprintf_entry (ks_dirname st) (hash k) n = Some (?p n)"
    using w' n by (cases "length (?p n) < MAX_FILENAME") (simp_all add: sprintf_entry_def)
  with w' n show ?thesis
    by (auto simp: fwrite_def fopen_w_def split: sum.splits if_splits option.splits)
qed (use assms in \<open>simp add: kvstore_put_def\<close>)

lemma kvstore_del_frame:
  assumes "kvstore_del mem s st k = Some (r, s')"
  shows "touches_chain (ks_dirname st) (hash k) s s'"
proof -
  let ?p = "entry_path (ks_dirname st) (hash k)"
  obtain pos x where pos: "find_entry mem s st k False = Some (pos, x)"
    using assms by (auto simp: kvstore_del_def bind_eq_Some_conv)
  show ?thesis
  proof (cases "pos < 0")
    case True
    then show ?thesis using assms pos by (simp add: kvstore_del_def)
  next
    case False
    then obtain n where "end_loop s (ks_dirname st) (hash k) (nat pos + 1) = Some n"
      using assms pos by (auto simp: kvstore_del_def Let_def bind_eq_Some_conv split: if_splits)
    then have "(case remove_path s (?p (nat pos)) of Inl e \<Rightarrow> Some (e, s) | Inr s1 \<Rightarrow> Some (0, s1)) = Some (r, s') \<or>
        (case rename_path s (?p (n - 1)) (?p (nat pos)) of Inl e \<Rightarrow> Some (e, s) | Inr s1 \<Rightarrow> Some (0, s1)) = Some (r, s')"
      using assms pos False
      by (auto simp: kvstore_del_def Let_def bind_eq_Some_conv sprintf_entry_def split: if_splits)
    then show ?thesis
      by (auto simp: remove_path_def rename_path_def split: sum.splits option.splits node.splits if_splits)
  qed
qed

section \<open>A fresh directory\<close>

lemma store_rep_empty:
  assumes "healthy s d" "\<And>h n. lookup s (entry_path d h n) = None"
  shows "store_rep s d Map.empty"
  using assms by (auto simp: store_rep_def chain_at_def chain_files_def intro!: exI[of _ "[]"])

lemma kvstore_init_fresh:
  assumes "lookup s d = None" "fault s d = None" "parent_ok s d" "length d \<le> 985"
    "\<And>h n. fault s (entry_path d h n) = None \<and> wlimit s (entry_path d h n) = None"
    "\<And>h n. lookup s (entry_path d h n) = None"
  shows "kvstore_init s st d = Some (0, set_node d Dir s, st\<lparr>ks_dirname := d\<rparr>) \<and>
    store_rep (set_node d Dir s) d Map.empty"
  using assms by (auto simp: kvstore_init_def stat_def mkdir_def kv_simps healthy_def intro!: store_rep_empty)

text \<open>Opening a directory that holds a store gives a store with the same entries.\<close>

lemma kvstore_init_reopen:
  assumes "store_rep s d m"
  shows "kvstore_init s st d = Some (0, s, st\<lparr>ks_dirname := d\<rparr>)"
  using assms by (simp add: kvstore_init_def stat_def kv_simps healthy_def store_rep_def)

section \<open>Cleaning\<close>

text \<open>A directory of plain files whose names fit the buffer and that may be removed.\<close>

definition plain_dir :: "os \<Rightarrow> string \<Rightarrow> bool" where
  "plain_dir s d \<longleftrightarrow> lookup s d = Some Dir \<and> fault s d = None \<and> length d + 3 < MAX_FILENAME \<and>
     (\<forall>n x. CHR ''/'' \<notin> set n \<longrightarrow> lookup s (d @ CHR ''/'' # n) = Some x \<longrightarrow>
        (\<exists>bs. x = File bs) \<and> fault s (d @ CHR ''/'' # n) = None \<and> length (d @ CHR ''/'' # n) < MAX_FILENAME)"

lemma child_name_iff: "child_name d p = Some n \<longleftrightarrow> p = d @ CHR ''/'' # n \<and> n \<noteq> [] \<and> CHR ''/'' \<notin> set n"
  by (auto simp: child_name_def Let_def prefix_def)

lemma readdir_names: "n \<in> set (readdir s d) \<longleftrightarrow>
   n = ''.'' \<or> n = ''..'' \<or> (stat s (d @ CHR ''/'' # n) \<and> n \<noteq> [] \<and> CHR ''/'' \<notin> set n)"
proof -
  have "n \<in> set (List.map_filter (child_name d) (map fst (files s))) \<longleftrightarrow>
      (\<exists>p. stat s p \<and> child_name d p = Some n)"
    by (force simp: List.map_filter_def stat_def lookup_def map_of_eq_None_iff image_iff)
  then show ?thesis unfolding child_name_iff by (auto simp: readdir_def)
qed

lemma readdir_empty:
  assumes "\<And>n. n \<noteq> [] \<Longrightarrow> CHR ''/'' \<notin> set n \<Longrightarrow> \<not> stat s (d @ CHR ''/'' # n)"
  shows "length (readdir s d) = 2"
proof -
  have "List.map_filter (child_name d) (map fst (files s)) = []"
  proof (rule ccontr)
    assume "\<not> ?thesis"
    then obtain n where "n \<in> set (List.map_filter (child_name d) (map fst (files s)))"
      by (meson list.set_sel(1))
    then obtain p where "p \<in> fst ` set (files s)" "child_name d p = Some n"
      by (force simp: List.map_filter_def)
    then show False
      using assms[of n] unfolding child_name_iff stat_def lookup_def by (simp add: map_of_eq_None_iff)
  qed
  then show ?thesis by (simp add: readdir_def)
qed

lemma clean_loop_ok:
  assumes "plain_dir s d"
    "\<And>n. n \<in> set ns \<Longrightarrow> CHR ''/'' \<notin> set n \<and> length (d @ CHR ''/'' # n) < MAX_FILENAME"
  shows "\<exists>s'. clean_loop s d ns = Some s' \<and> fault s' = fault s \<and>
    (\<forall>p. lookup s' p = (if \<exists>n \<in> set ns. p = d @ CHR ''/'' # n then None else lookup s p))"
  using assms
proof (induction ns arbitrary: s)
  case (Cons n ns)
  let ?p = "d @ CHR ''/'' # n" and ?s = "remove_ignore s (d @ CHR ''/'' # n)"
  have n: "CHR ''/'' \<notin> set n" "length ?p < MAX_FILENAME" using Cons.prems(2) by auto
  have look: "lookup ?s q = (if q = ?p then None else lookup s q)" for q
    using n(1) Cons.prems(1)
    by (auto simp: plain_dir_def remove_ignore_def remove_path_def split: option.splits node.splits)
  have fl: "fault ?s = fault s"
    by (auto simp: remove_ignore_def remove_path_def split: option.splits node.splits sum.splits if_splits)
  have "plain_dir ?s d" using Cons.prems(1) unfolding plain_dir_def look fl by auto
  then have "\<exists>s'. clean_loop ?s d ns = Some s' \<and> fault s' = fault ?s \<and>
      (\<forall>p. lookup s' p = (if \<exists>n \<in> set ns. p = d @ CHR ''/'' # n then None else lookup ?s p))"
    using Cons.prems(2) by (intro Cons.IH) auto
  then show ?case using n fl look by auto
qed simp

lemma kvstore_clean_ok:
  assumes "plain_dir s (ks_dirname st)"
  shows "\<exists>s'. kvstore_clean s st = Some (0, s') \<and> (\<forall>p. lookup s' p =
    (if p = ks_dirname st \<or> child_name (ks_dirname st) p \<noteq> None then None else lookup s p))"
proof -
  let ?d = "ks_dirname st"
  have ns: "CHR ''/'' \<notin> set n \<and> length (?d @ CHR ''/'' # n) < MAX_FILENAME" if "n \<in> set (readdir s ?d)" for n
    using that assms unfolding readdir_names by (auto simp: plain_dir_def stat_def)
  obtain s1 where s1: "clean_loop s ?d (readdir s ?d) = Some s1" "fault s1 = fault s"
    "\<And>p. lookup s1 p = (if \<exists>n \<in> set (readdir s ?d). p = ?d @ CHR ''/'' # n then None else lookup s p)"
    using clean_loop_ok[OF assms ns] by blast
  have child: "lookup s1 p = (if child_name ?d p \<noteq> None then None else lookup s p)" for p
  proof (cases "lookup s p")
    case (Some x)
    have "(\<exists>n \<in> set (readdir s ?d). p = ?d @ CHR ''/'' # n) \<longleftrightarrow> child_name ?d p \<noteq> None"
      using Some by (auto simp: readdir_names child_name_iff stat_def)
    then show ?thesis using s1(3) by simp
  qed (simp add: s1(3))
  have "length (readdir s1 ?d) = 2"
    using child by (intro readdir_empty) (auto simp: stat_def child_name_iff)
  then have "lookup (remove_ignore s1 ?d) p = (if p = ?d then None else lookup s1 p)" for p
    using assms child[of ?d] s1(2)
    by (auto simp: remove_ignore_def remove_path_def plain_dir_def child_name_iff)
  then show ?thesis
    using s1(1) assms child by (auto simp: kvstore_clean_def plain_dir_def Let_def)
qed

section \<open>Properties\<close>

datatype ks_call = SPut string string | SDel string

fun ks_adm :: "ks_call \<Rightarrow> bool" where
  "ks_adm (SPut k v) \<longleftrightarrow> adm_key k \<and> adm_val v"
| "ks_adm (SDel k) \<longleftrightarrow> adm_key k"

fun ks_run :: "os \<Rightarrow> kvstore \<Rightarrow> ks_call list \<Rightarrow> (int list \<times> os) option" where
  "ks_run s st [] = Some ([], s)"
| "ks_run s st (c # cs) = do {
     (r, s1) \<leftarrow> (case c of SPut k v \<Rightarrow> kvstore_put mem_ok s st k v | SDel k \<Rightarrow> kvstore_del mem_ok s st k);
     (rs, s2) \<leftarrow> ks_run s1 st cs;
     Some (r # rs, s2)
   }"

text \<open>The dictionary the store implements: the result codes and the final map.\<close>

fun dict_run :: "(string \<rightharpoonup> string) \<Rightarrow> ks_call list \<Rightarrow> int list \<times> (string \<rightharpoonup> string)" where
  "dict_run m [] = ([], m)"
| "dict_run m (SPut k v # cs) = (let (rs, m') = dict_run (m(k \<mapsto> v)) cs in (0 # rs, m'))"
| "dict_run m (SDel k # cs) =
     (let (rs, m') = dict_run (m(k := None)) cs in ((if m k = None then ERRNOKEY else 0) # rs, m'))"

lemma ks_run_refines:
  assumes "store_rep s (ks_dirname st) m" "list_all ks_adm cs" "card (dom m) + length cs < 2 ^ 31"
  shows "\<exists>s'. ks_run s st cs = Some (fst (dict_run m cs), s') \<and>
    store_rep s' (ks_dirname st) (snd (dict_run m cs)) \<and>
    card (dom (snd (dict_run m cs))) \<le> card (dom m) + length cs"
  using assms
proof (induction cs arbitrary: s m)
  case (Cons c cs)
  note fin = store_rep_finite[OF Cons.prems(1)]
  show ?case
  proof (cases c)
    case (SPut k v)
    obtain s1 where s1: "kvstore_put mem_ok s st k v = Some (0, s1)" "store_rep s1 (ks_dirname st) (m(k \<mapsto> v))"
      using ks.sput_ok[OF Cons.prems(1), of k v] Cons.prems(2,3) SPut by auto
    have "card (dom (m(k \<mapsto> v))) \<le> Suc (card (dom m))" using fin by (simp add: card_insert_if del: fun_upd_apply)
    then obtain s2 where "ks_run s1 st cs = Some (fst (dict_run (m(k \<mapsto> v)) cs), s2)"
      "store_rep s2 (ks_dirname st) (snd (dict_run (m(k \<mapsto> v)) cs))"
      "card (dom (snd (dict_run (m(k \<mapsto> v)) cs))) \<le> card (dom m) + length (c # cs)"
      using Cons.IH[OF s1(2)] Cons.prems(2,3) by fastforce
    then show ?thesis using s1(1) by (simp add: SPut case_prod_beta Let_def)
  next
    case (SDel k)
    have del: "\<exists>s1. kvstore_del mem_ok s st k = Some (if m k = None then ERRNOKEY else 0, s1) \<and>
        store_rep s1 (ks_dirname st) (m(k := None))"
      using ks.sdel_hit[OF Cons.prems(1), of k] ks.sdel_miss[OF Cons.prems(1), of k] Cons.prems SDel
      by (cases "m k") (auto simp: fun_upd_idem)
    then obtain s1 where s1: "kvstore_del mem_ok s st k = Some (if m k = None then ERRNOKEY else 0, s1)"
      "store_rep s1 (ks_dirname st) (m(k := None))" by blast
    have "card (dom (m(k := None))) \<le> card (dom m)" using fin by (simp add: card_mono)
    then obtain s2 where "ks_run s1 st cs = Some (fst (dict_run (m(k := None)) cs), s2)"
      "store_rep s2 (ks_dirname st) (snd (dict_run (m(k := None)) cs))"
      "card (dom (snd (dict_run (m(k := None)) cs))) \<le> card (dom m) + length (c # cs)"
      using Cons.IH[OF s1(2)] Cons.prems(2,3) by fastforce
    then show ?thesis using s1(1) by (simp add: SDel case_prod_beta Let_def)
  qed
qed simp

definition ex_os :: os where
  "ex_os = \<lparr>files = [], fault = (\<lambda>_. None), wlimit = (\<lambda>_. None)\<rparr>"

definition ex_store :: kvstore where
  "ex_store = \<lparr>ks_dirname = ''store''\<rparr>"

lemma ex_os_simps [simp]: "lookup ex_os p = None" "fault ex_os p = None" "wlimit ex_os p = None"
  by (simp_all add: ex_os_def lookup_def)

lemma ex_fresh: "store_rep (set_node ''store'' Dir ex_os) ''store'' Map.empty"
  by (rule store_rep_empty) (auto simp: healthy_def)

text \<open>C9. The store is a dictionary. After \<^verbatim>\<open>kvstore_init\<close> on a fresh directory without file faults, and with memory available, any sequence of puts
  and deletes of admissible keys and values returns the codes of the dictionary operations and leaves
  a directory from which \<^verbatim>\<open>kvstore_get\<close> reads exactly the dictionary's contents, for every key.\<close>

theorem kvstore_is_dictionary:
  assumes "lookup s d = None" "fault s d = None" "parent_ok s d" "length d \<le> 985"
    "\<And>h n. fault s (entry_path d h n) = None \<and> wlimit s (entry_path d h n) = None"
    "\<And>h n. lookup s (entry_path d h n) = None"
    "list_all ks_adm cs" "length cs < 2 ^ 31 - 1" "adm_key k"
  shows "\<exists>s1 st s2. kvstore_init s st0 d = Some (0, s1, st) \<and>
    ks_run s1 st cs = Some (fst (dict_run Map.empty cs), s2) \<and>
    kvstore_get mem_ok s2 st k = Some (if snd (dict_run Map.empty cs) k = None then ERRNOKEY else 0,
      snd (dict_run Map.empty cs) k)"
proof -
  let ?s1 = "set_node d Dir s" and ?st = "st0\<lparr>ks_dirname := d\<rparr>"
  note init = kvstore_init_fresh[OF assms(1-6), of st0]
  obtain s2 where s2: "ks_run ?s1 ?st cs = Some (fst (dict_run Map.empty cs), s2)"
    "store_rep s2 d (snd (dict_run Map.empty cs))" "card (dom (snd (dict_run Map.empty cs))) \<le> length cs"
    using ks_run_refines[of ?s1 ?st Map.empty cs] init assms(7,8) by auto
  have "kvstore_get mem_ok s2 ?st k = Some (if snd (dict_run Map.empty cs) k = None then ERRNOKEY else 0,
      snd (dict_run Map.empty cs) k)"
    using s2(2,3) assms(8,9) by (intro kvstore_get_spec) auto
  then show ?thesis using init s2(1) by blast
qed

theorem kvstore_is_dictionary_witness:
  "\<exists>s1 st s2. kvstore_init ex_os ex_store ''store'' = Some (0, s1, st) \<and>
     ks_run s1 st [SPut ''a'' ''1'', SDel ''b'', SPut ''a'' ''2''] = Some ([0, ERRNOKEY, 0], s2) \<and>
     kvstore_get mem_ok s2 st ''a'' = Some (0, Some ''2'')"
  using kvstore_is_dictionary[of ex_os "''store''" "[SPut ''a'' ''1'', SDel ''b'', SPut ''a'' ''2'']" "''a''" ex_store]
  by (simp add: parent_ok_def adm_key_def adm_val_def kv_simps)

text \<open>\<^verbatim>\<open>kvstore_clean\<close> on a directory of plain files removes every file in it and the directory, and
  nothing else.\<close>

theorem kvstore_clean_removes:
  assumes "plain_dir s (ks_dirname st)"
  shows "\<exists>s'. kvstore_clean s st = Some (0, s') \<and> (\<forall>p. lookup s' p =
    (if p = ks_dirname st \<or> child_name (ks_dirname st) p \<noteq> None then None else lookup s p))"
  by (rule kvstore_clean_ok[OF assms])

theorem kvstore_clean_removes_witness:
  "\<exists>s'. kvstore_clean (set_node ''store/7-0.entry'' (File []) (set_node ''store'' Dir ex_os)) ex_store = Some (0, s') \<and>
     lookup s' ''store'' = None \<and> lookup s' ''store/7-0.entry'' = None"
proof -
  have "plain_dir (set_node ''store/7-0.entry'' (File []) (set_node ''store'' Dir ex_os)) (ks_dirname ex_store)"
    by (auto simp: plain_dir_def ex_store_def kv_simps)
  moreover have "child_name ''store'' ''store/7-0.entry'' = Some ''7-0.entry''" by code_simp
  ultimately show ?thesis using kvstore_clean_removes by (fastforce simp: ex_store_def)
qed

text \<open>C37. The store's lock does not make a put atomic: the position is looked up before the lock is
  taken for writing. When two threads put the same new key and both look it up first, both puts
  return 0 and the chain holds the key twice; a get then returns the value written first, and
  deleting the key brings the other one back.\<close>

theorem kvstore_put_race:
  assumes "store_rep s (ks_dirname st) m" "adm_key k" "adm_val v1" "adm_val v2" "card (dom m) < 2 ^ 31 - 3"
    "m k = None"
  shows "\<exists>s1 s2 s3. find_entry mem_ok s st k False = Some (ERRNOKEY, None) \<and>
    kvstore_put_write mem_ok s st k v1 ERRNOKEY = Some (0, s1) \<and>
    kvstore_put_write mem_ok s1 st k v2 ERRNOKEY = Some (0, s2) \<and>
    kvstore_get mem_ok s2 st k = Some (0, Some v1) \<and>
    kvstore_del mem_ok s2 st k = Some (0, s3) \<and> kvstore_get mem_ok s3 st k = Some (0, Some v2)"
proof -
  let ?d = "ks_dirname st" and ?h = "hash k"
  obtain es where es: "healthy s ?d" "finite (dom m)" "chain_at s ?d ?h es"
    "\<And>k'. hash k' = ?h \<Longrightarrow> m k' = map_of es k'" "length es \<le> card (dom m)"
    using store_repD[OF assms(1)] by metis
  let ?l = "length es"
  define s1 where "s1 = fwrite (set_node (entry_path ?d ?h ?l) (File []) s) (entry_path ?d ?h ?l) (entry_bytes k v1)"
  define s2 where "s2 = fwrite (set_node (entry_path ?d ?h (?l + 1)) (File []) s1) (entry_path ?d ?h (?l + 1))
    (entry_bytes k v2)"
  have new: "k \<notin> set (map fst es)" using assms(6) es(4)[of k] by (simp add: map_of_eq_None_iff)
  have ix: "index_of (\<lambda>e. k = fst e) es = None" using new by (auto simp: index_of_None)
  have fe: "find_entry mem_ok s st k False = Some (ERRNOKEY, None)"
    using find_entry_spec[OF assms(1,2) _ es(3,5), of False] assms(5) ix by simp
  have w1: "kvstore_put_write mem_ok s st k v1 ERRNOKEY = Some (0, s1)"
    unfolding s1_def using es(5) assms(5) by (intro put_write_spec[OF assms(1) es(3)]) (auto simp: kv_simps)
  have c1: "chain_at s1 ?d ?h (es @ [(k, v1)])"
    using chain_at_write[OF es(3), of ?l k v1] assms(2,3) es(1) new by (simp add: s1_def healthy_def)
  have r1: "store_rep s1 ?d (m(k \<mapsto> v1))"
    using c1 es(2,4) map_of_append_new[OF new, of v1] by (intro store_rep_chain[OF assms(1)]) (use es(1) in \<open>auto simp: s1_def healthy_def\<close>)
  have w2: "kvstore_put_write mem_ok s1 st k v2 ERRNOKEY = Some (0, s2)"
    unfolding s2_def using es(5) assms(5) by (intro put_write_spec[OF r1 c1]) (auto simp: kv_simps)
  have wl: "wlimit s1 (entry_path ?d ?h n) = None" for n using es(1) by (simp add: s1_def healthy_def)
  let ?es2 = "es @ [(k, v1), (k, v2)]"
  have c2: "chain_files s2 ?d ?h ?es2"
    using chain_atD(3)[OF c1] assms(2,4) wl
    by (auto simp: chain_files_def s2_def nth_append less_Suc_eq split: if_splits)
  have h2: "healthy s2 ?d" using es(1) wl by (simp add: healthy_def s2_def s1_def)
  have l2: "length ?es2 < 2 ^ 31" using es(5) assms(5) by simp
  have i2: "index_of (\<lambda>e. k = fst e) ?es2 = Some ?l"
    using new by (auto simp: index_of_Some nth_append dest: nth_mem)
  have g2: "kvstore_get mem_ok s2 st k = Some (0, Some v1)"
    using find_entry_chain[OF h2 c2 l2 assms(2), of True] i2 by (simp add: kvstore_get_def)
  obtain s3 where s3: "kvstore_del mem_ok s2 st k = Some (0, s3)" "fault s3 = fault s2" "wlimit s3 = wlimit s2"
    "\<And>q. lookup s3 q = (if q = entry_path ?d ?h (length ?es2 - 1) then None
       else if q = entry_path ?d ?h ?l then lookup s2 (entry_path ?d ?h (length ?es2 - 1)) else lookup s2 q)"
    using kvstore_del_chain[OF h2 c2 l2 assms(2) i2] by blast
  have "chain_remove ?l ?es2 = es @ [(k, v2)]" by (simp add: chain_remove_def list_update_append butlast_append)
  then have c3: "chain_files s3 ?d ?h (es @ [(k, v2)])"
    using chain_files_remove[OF c2 _ s3(4)] by simp
  have h3: "healthy s3 ?d" using h2 s3(2-4) by (simp add: healthy_def)
  have "index_of (\<lambda>e. k = fst e) (es @ [(k, v2)]) = Some ?l"
    using new by (auto simp: index_of_Some nth_append dest: nth_mem)
  then have "kvstore_get mem_ok s3 st k = Some (0, Some v2)"
    using find_entry_chain[OF h3 c3 _ assms(2), of True] l2 by (simp add: kvstore_get_def)
  then show ?thesis using fe w1 w2 g2 s3(1) by blast
qed

theorem kvstore_put_race_witness:
  "\<exists>s1 s2. kvstore_put_write mem_ok (set_node ''store'' Dir ex_os) ex_store ''a'' ''1'' ERRNOKEY = Some (0, s1) \<and>
     kvstore_put_write mem_ok s1 ex_store ''a'' ''2'' ERRNOKEY = Some (0, s2) \<and>
     kvstore_get mem_ok s2 ex_store ''a'' = Some (0, Some ''1'')"
  using kvstore_put_race[of "set_node ''store'' Dir ex_os" ex_store Map.empty "''a''" "''1''" "''2''"] ex_fresh
  by (auto simp: ex_store_def adm_key_def adm_val_def kv_simps)

text \<open>\<^verbatim>\<open>find_entry\<close> reports a failed allocation as the positive \<^verbatim>\<open>ENOMEM\<close>, which its callers read as
  a chain position: when the first entry of the chain cannot be loaded, \<^verbatim>\<open>kvstore_haskey\<close> answers true
  and \<^verbatim>\<open>kvstore_get\<close> returns 0 without a value, for every key of that hash, stored or not.\<close>

theorem kvstore_get_no_memory:
  assumes "healthy s (ks_dirname st)" "chain_at s (ks_dirname st) (hash k) ((k0, v0) # es)" "adm_key k"
    "\<not> mem (length k0 + length v0 + 6)"
  shows "kvstore_haskey mem s st k = Some True \<and> kvstore_get mem s st k = Some (0, None)"
proof -
  let ?p = "entry_path (ks_dirname st) (hash k) 0"
  have look: "lookup s ?p = Some (File (entry_bytes k0 v0))" using chain_atD(1)[OF assms(2), of 0] by simp
  have adm: "length k0 + length v0 + 2 < 2 ^ 31" "cstr k0" "cstr v0"
    using chain_filesD(2)[OF chain_atD(3)[OF assms(2)], of 0] adm_length[of k0 v0] by simp_all
  have "length ?p < MAX_FILENAME" using assms(1) by (intro length_entry_path) (auto simp: healthy_def)
  then have "find_loop mem s (ks_dirname st) (hash k) k want 0 = Some (ENOMEM, None)" for want
    using look assms(1,4) read_entry(1)[OF adm]
    by (subst find_loop.simps)
      (simp add: stat_def not_le fopen_r_def healthy_def sizeof_kventry_def add.commute add.left_commute)
  then have "find_entry mem s st k want = Some (ENOMEM, None)" for want
    using assms(1,3) by (simp add: find_entry_def healthy_def stat_def adm_key_def)
  then show ?thesis by (simp add: kvstore_haskey_def kvstore_get_def os_simps)
qed

theorem kvstore_get_no_memory_witness:
  "\<exists>s. kvstore_haskey (\<lambda>n. n < 8) s ex_store ''b!'' = Some True \<and> kvstore_haskey mem_ok s ex_store ''b!'' = Some False"
proof -
  let ?s0 = "set_node ''store'' Dir ex_os"
  have col: "hash ''b!'' = hash ''aB''" by code_simp
  obtain s where s: "store_rep s (ks_dirname ex_store) [''aB'' \<mapsto> ''1'']"
    using kvstore_put_ok[of ?s0 ex_store Map.empty "''aB''" "''1''"] ex_fresh
    by (auto simp: ex_store_def adm_key_def adm_val_def kv_simps)
  obtain es where es: "healthy s (ks_dirname ex_store)" "chain_at s (ks_dirname ex_store) (hash ''b!'') es"
    "\<And>k'. hash k' = hash ''b!'' \<Longrightarrow> [''aB'' \<mapsto> ''1''] k' = map_of es k'"
    "length es \<le> card (dom [''aB'' \<mapsto> ''1''])"
    using store_repD[OF s] by metis
  have "map_of es ''aB'' = Some ''1''" using es(3)[of "''aB''"] col by simp
  then have "es = [(''aB'', ''1'')]" using es(4) by (cases es) (auto split: if_splits)
  then have "kvstore_haskey (\<lambda>n. n < 8) s ex_store ''b!'' = Some True"
    using kvstore_get_no_memory[of s ex_store "''b!''" "''aB''" "''1''" "[]" "\<lambda>n. n < 8"] es(1,2)
    by (simp add: adm_key_def kv_simps)
  moreover have "kvstore_haskey mem_ok s ex_store ''b!'' = Some False"
    using kvstore_haskey_spec[OF s, of "''b!''"] by (simp add: adm_key_def kv_simps)
  ultimately show ?thesis by blast
qed

end
