(* ===== verification/KVCache.thy ===== *)
theory KVCache
  imports KVCacheSet KVStore
begin

text \<open>
  \<^verbatim>\<open>kvcache.c\<close>: the set-associative cache, an array of sets indexed by the low 32 bits of the key's
  hash. The cache inherits the contract of a set: it is interpreted as a \<open>lossy_cache\<close> whose map
  looks a key up in the one set its hash selects. An index outside the array and a division by zero
  are \<^term>\<open>None\<close>.
\<close>

section \<open>Data and operations\<close>

record kvcache =
  num_sets :: "32 word"
  kc_elem_per_set :: "32 word"
  sets :: "kvcacheset list"

definition sizeof_kvcacheset :: nat where
  "sizeof_kvcacheset = 80"

text \<open>A set in freshly allocated memory; \<^const>\<open>kvcacheset_init\<close> overwrites its fields.\<close>

definition raw_set :: kvcacheset where
  "raw_set = \<lparr>elem_per_set = 0, num_entries = 0, list_ptr = [], hash_ptr = [], cs_heap = Map.empty, cs_next = 0\<rparr>"

fun init_sets :: "(nat \<Rightarrow> int) \<Rightarrow> 32 word \<Rightarrow> nat \<Rightarrow> kvcacheset list \<Rightarrow> int \<times> kvcacheset list" where
  "init_sets lockret n i [] = (0, [])"
| "init_sets lockret n i (cs # css) =
     (let (r, cs') = kvcacheset_init (lockret i) n cs in
      if r \<noteq> 0 then (-1, cs' # css)
      else let (r', css') = init_sets lockret n (i + 1) css in (r', cs' # css'))"

definition kvcache_init ::
    "(nat \<Rightarrow> bool) \<Rightarrow> (nat \<Rightarrow> int) \<Rightarrow> kvcache \<Rightarrow> 32 word \<Rightarrow> 32 word \<Rightarrow> int \<times> kvcache" where
  "kvcache_init mem lockret cache nsets n =
     (if nsets = 0 \<or> n = 0 then (-1, cache)
      else if \<not> mem (unat nsets * sizeof_kvcacheset) then (ENOMEM, cache)
      else let (r, css) = init_sets lockret n 0 (replicate (unat nsets) raw_set) in
        (r, cache\<lparr>sets := css, num_sets := nsets, kc_elem_per_set := n\<rparr>))"

definition get_cache_set :: "kvcache \<Rightarrow> string \<Rightarrow> nat option" where
  "get_cache_set cache key =
     (if num_sets cache = 0 then None
      else let i = unat ((ucast (hash key) :: 32 word) mod num_sets cache) in
        if i < length (sets cache) then Some i else None)"

definition kvcache_get ::
    "(nat \<Rightarrow> bool) \<Rightarrow> kvcache \<Rightarrow> string \<Rightarrow> (int \<times> string option \<times> kvcache) option" where
  "kvcache_get mem cache key =
     (if length key > MAX_KEYLEN then Some (ERRKEYLEN, None, cache)
      else do {
        i \<leftarrow> get_cache_set cache key;
        (r, v, cs) \<leftarrow> kvcacheset_get mem (sets cache ! i) key;
        Some (r, v, cache\<lparr>sets := (sets cache)[i := cs]\<rparr>)
      })"

definition kvcache_put ::
    "(nat \<Rightarrow> bool) \<Rightarrow> kvcache \<Rightarrow> string \<Rightarrow> string \<Rightarrow> (int \<times> kvcache) option" where
  "kvcache_put mem cache key val =
     (if length key > MAX_KEYLEN then Some (ERRKEYLEN, cache)
      else if length val > MAX_VALLEN then Some (ERRVALLEN, cache)
      else do {
        i \<leftarrow> get_cache_set cache key;
        (r, cs) \<leftarrow> kvcacheset_put mem (sets cache ! i) key val;
        Some (r, cache\<lparr>sets := (sets cache)[i := cs]\<rparr>)
      })"

definition kvcache_del :: "kvcache \<Rightarrow> string \<Rightarrow> (int \<times> kvcache) option" where
  "kvcache_del cache key =
     (if length key > MAX_KEYLEN then Some (ERRKEYLEN, cache)
      else do {
        i \<leftarrow> get_cache_set cache key;
        (r, cs) \<leftarrow> kvcacheset_del (sets cache ! i) key;
        Some (r, cache\<lparr>sets := (sets cache)[i := cs]\<rparr>)
      })"

text \<open>The lock is named by the index of its set; the inner \<^term>\<open>None\<close> is the NULL pointer.\<close>

definition kvcache_getlock :: "kvcache \<Rightarrow> string \<Rightarrow> nat option option" where
  "kvcache_getlock cache key =
     (if length key > MAX_KEYLEN then Some None else map_option Some (get_cache_set cache key))"

fun clear_sets :: "kvcacheset list \<Rightarrow> kvcacheset list option" where
  "clear_sets [] = Some []"
| "clear_sets (cs # css) = do {
     cs' \<leftarrow> kvcacheset_clear cs;
     css' \<leftarrow> clear_sets css;
     Some (cs' # css')
   }"

definition kvcache_clear :: "kvcache \<Rightarrow> kvcache option" where
  "kvcache_clear cache =
     map_option (\<lambda>css. cache\<lparr>sets := css\<rparr>) (clear_sets (sets cache))"

section \<open>Invariant and abstraction\<close>

definition kc_wf :: "kvcache \<Rightarrow> bool" where
  "kc_wf c \<longleftrightarrow> num_sets c \<noteq> 0 \<and> length (sets c) = unat (num_sets c) \<and> list_all cs_wf (sets c)"

definition set_index :: "kvcache \<Rightarrow> string \<Rightarrow> nat" where
  "set_index c key = unat ((ucast (hash key) :: 32 word) mod num_sets c)"

definition kc_map :: "kvcache \<Rightarrow> string \<Rightarrow> string option" where
  "kc_map c key = cs_map (sets c ! set_index c key) key"

definition kc_key :: "string \<Rightarrow> bool" where
  "kc_key k \<longleftrightarrow> length k \<le> MAX_KEYLEN"

definition kc_val :: "string \<Rightarrow> bool" where
  "kc_val v \<longleftrightarrow> length v \<le> MAX_VALLEN"

lemma get_cache_set_ok:
  assumes "kc_wf c"
  shows "get_cache_set c k = Some (set_index c k)" "set_index c k < length (sets c)"
    "cs_wf (sets c ! set_index c k)"
proof -
  have "0 < num_sets c" using assms by (simp add: kc_wf_def word_neq_0_conv)
  then have "(ucast (hash k) :: 32 word) mod num_sets c < num_sets c"
    by (simp add: word_mod_less_divisor)
  then show i: "set_index c k < length (sets c)" using assms by (simp add: set_index_def kc_wf_def word_less_nat_alt)
  then show "get_cache_set c k = Some (set_index c k)"
    using assms by (simp add: get_cache_set_def kc_wf_def set_index_def Let_def)
  show "cs_wf (sets c ! set_index c k)" using assms i by (simp add: kc_wf_def list_all_length)
qed

lemma kc_wf_update:
  assumes "kc_wf c" "cs_wf cs"
  shows "kc_wf (c\<lparr>sets := (sets c)[i := cs]\<rparr>)"
  using assms set_update_subset_insert[of "sets c" i cs] by (auto simp: kc_wf_def list_all_iff)

lemma kc_map_update:
  assumes "kc_wf c" "i = set_index c k"
  shows "kc_map (c\<lparr>sets := (sets c)[i := cs]\<rparr>) k' =
    (if set_index c k' = i then cs_map cs k' else kc_map c k')"
  using get_cache_set_ok(2)[OF assms(1)] assms(2)
  by (auto simp: kc_map_def set_index_def nth_list_update)

interpretation kc: lossy_cache kc_map kc_wf kc_key kc_val
    "kvcache_get mem_ok" "kvcache_put mem_ok" kvcache_del
proof unfold_locales
  fix c :: kvcache and k v
  assume c: "kc_wf c" and k: "kc_key k"
  note i = get_cache_set_ok[OF c, of k]
  let ?cs = "sets c ! set_index c k"
  have same: "c\<lparr>sets := (sets c)[set_index c k := ?cs]\<rparr> = c" by (cases c) simp
  show "\<exists>c'. kvcache_get mem_ok c k = Some (0, Some v, c') \<and> kc_wf c' \<and> kc_map c' = kc_map c"
    if v: "kc_map c k = Some v"
  proof -
    obtain cs' where "kvcacheset_get mem_ok ?cs k = Some (0, Some v, cs')" "cs_wf cs'" "cs_map cs' = cs_map ?cs"
      using cs.get_hit[OF i(3), of k v] v by (auto simp: kc_map_def)
    then show ?thesis
      using i(1) k kc_wf_update[OF c] kc_map_update[OF c refl, of k]
      by (auto simp: kvcache_get_def kc_key_def fun_eq_iff) (simp add: kc_map_def)
  qed
  show "kvcache_get mem_ok c k = Some (ERRNOKEY, None, c)" if "kc_map c k = None"
    using cs.get_miss[OF i(3), of k] that i(1) k same by (simp add: kvcache_get_def kc_key_def kc_map_def)
  show "\<exists>c'. kvcache_del c k = Some (if kc_map c k = None then ERRNOKEY else 0, c') \<and> kc_wf c' \<and>
      kc_map c' = (kc_map c)(k := None)"
  proof -
    obtain cs' where "kvcacheset_del ?cs k = Some (if cs_map ?cs k = None then ERRNOKEY else 0, cs')"
      "cs_wf cs'" "cs_map cs' = (cs_map ?cs)(k := None)" using cs.del_ok[OF i(3), of k] by blast
    then show ?thesis
      using i(1) k kc_wf_update[OF c] kc_map_update[OF c refl, of k]
      by (auto simp: kvcache_del_def kc_key_def fun_eq_iff) (simp_all add: kc_map_def)
  qed
  show "\<exists>c'. kvcache_put mem_ok c k v = Some (0, c') \<and> kc_wf c' \<and> kc_map c' k = Some v \<and>
      kc_map c' \<subseteq>\<^sub>m (kc_map c)(k \<mapsto> v)" if v: "kc_val v"
  proof -
    obtain cs' where cs': "kvcacheset_put mem_ok ?cs k v = Some (0, cs')" "cs_wf cs'" "cs_map cs' k = Some v"
      "cs_map cs' \<subseteq>\<^sub>m (cs_map ?cs)(k \<mapsto> v)" using cs.put_ok[OF i(3), of k v] by blast
    let ?c = "c\<lparr>sets := (sets c)[set_index c k := cs']\<rparr>"
    have "kc_map ?c \<subseteq>\<^sub>m (kc_map c)(k \<mapsto> v)"
      unfolding map_le_def
    proof
      fix k' assume k': "k' \<in> dom (kc_map ?c)"
      show "kc_map ?c k' = ((kc_map c)(k \<mapsto> v)) k'"
      proof (cases "set_index c k' = set_index c k")
        case True
        then have "k' \<in> dom (cs_map cs')" using k' kc_map_update[OF c refl, of k cs' k'] by (simp add: domIff)
        then have "cs_map cs' k' = ((cs_map ?cs)(k \<mapsto> v)) k'" using cs'(4) by (simp add: map_le_def)
        then show ?thesis using True kc_map_update[OF c refl, of k cs' k'] by (simp add: kc_map_def)
      next
        case False
        then show ?thesis using kc_map_update[OF c refl, of k cs' k'] by auto
      qed
    qed
    then show ?thesis
      using i(1) k v cs'(1-3) kc_wf_update[OF c cs'(2)] kc_map_update[OF c refl, of k cs' k]
      by (auto simp: kvcache_put_def kc_key_def kc_val_def)
  qed
qed

section \<open>Initialisation and clearing\<close>

lemma init_sets_ok:
  assumes "2 \<le> n" "\<forall>i. 0 \<le> lockret i"
  shows "fst (init_sets lockret n i css) = 0 \<and> length (snd (init_sets lockret n i css)) = length css \<and>
    (\<forall>cs \<in> set (snd (init_sets lockret n i css)). cs_wf cs \<and> cs_map cs = Map.empty \<and> elem_per_set cs = n)"
proof (induction css arbitrary: i)
  case (Cons cs css)
  then show ?case
    using kvcacheset_init_ok[OF assms(1) spec[OF assms(2), of i], of cs] Cons.IH[of "i + 1"]
    by (auto simp: Let_def case_prod_beta)
qed simp

lemma kvcache_init_ok:
  assumes "nsets \<noteq> 0" "2 \<le> n" "\<forall>i. 0 \<le> lockret i"
  shows "\<exists>c'. kvcache_init mem_ok lockret c nsets n = (0, c') \<and> kc_wf c' \<and> kc_map c' = Map.empty \<and>
    num_sets c' = nsets"
proof -
  have "n \<noteq> 0" using assms(2) by auto
  let ?r = "init_sets lockret n 0 (replicate (unat nsets) raw_set)"
  let ?c = "c\<lparr>sets := snd ?r, num_sets := nsets, kc_elem_per_set := n\<rparr>"
  note ok = init_sets_ok[OF assms(2,3), where i = 0 and css = "replicate (unat nsets) raw_set"]
  have wf: "kc_wf ?c" using assms(1) ok by (simp add: kc_wf_def list_all_iff)
  have "kc_map ?c k = None" for k
    using get_cache_set_ok(2)[OF wf, of k] ok by (simp add: kc_map_def)
  then show ?thesis
    using wf ok assms(1) \<open>n \<noteq> 0\<close> by (auto simp: kvcache_init_def case_prod_beta Let_def)
qed

lemma clear_sets_ok:
  assumes "list_all cs_wf css"
  shows "\<exists>css'. clear_sets css = Some css' \<and> length css' = length css \<and>
    (\<forall>cs \<in> set css'. cs_wf cs \<and> cs_map cs = Map.empty)"
  using assms
proof (induction css)
  case (Cons cs css)
  obtain cs' where "kvcacheset_clear cs = Some cs'" "cs_wf cs'" "cs_map cs' = Map.empty"
    using kvcacheset_clear_ok[of cs] Cons.prems by auto
  then show ?case using Cons by auto
qed simp

lemma kvcache_clear_ok:
  assumes "kc_wf c"
  shows "\<exists>c'. kvcache_clear c = Some c' \<and> kc_wf c' \<and> kc_map c' = Map.empty"
proof -
  obtain css where css: "clear_sets (sets c) = Some css" "length css = length (sets c)"
    "\<forall>cs \<in> set css. cs_wf cs \<and> cs_map cs = Map.empty"
    using clear_sets_ok[of "sets c"] assms by (auto simp: kc_wf_def)
  let ?c = "c\<lparr>sets := css\<rparr>"
  have wf: "kc_wf ?c" using assms css by (simp add: kc_wf_def list_all_iff)
  have "kc_map ?c k = None" for k
    using get_cache_set_ok(2)[OF wf, of k] css by (simp add: kc_map_def)
  then show ?thesis using wf css(1) by (auto simp: kvcache_clear_def)
qed

end
