(* ===== verification/TPCLog.thy ===== *)
theory TPCLog
  imports KVStore
begin

text \<open>
  \<^verbatim>\<open>tpclog.c\<close>: the write-ahead log of a participant. Record \<open>i\<close> is the file \<^verbatim>\<open><i>.log\<close>, the dump
  of a \<^verbatim>\<open>logentry_t\<close>. \<open>log_rep\<close> says which list of records a directory and a \<^verbatim>\<open>tpclog_t\<close> stand for;
  logging appends, initialisation recovers the next id, iteration yields the records in order and
  clearing empties the list. The log shares its directory with the store; the frame lemmas at the
  end say that neither touches the other's files. Ids are natural numbers, printed with \<^verbatim>\<open>%lu\<close>.
\<close>

section \<open>Data\<close>

record tpclog =
  log_dirname :: "string option" \<comment> \<open>\<^term>\<open>None\<close> is a NULL pointer\<close>
  nextid :: nat
  iterpos :: nat

record logentry =
  le_type :: "32 word"
  le_length :: "32 word"
  le_data :: "char list"

definition TPCLOG_FILETYPE :: string where
  "TPCLOG_FILETYPE = ''.log''"

definition sizeof_logentry :: nat where
  "sizeof_logentry = 8"

definition log_path :: "string \<Rightarrow> nat \<Rightarrow> string" where
  "log_path d n = d @ CHR ''/'' # dec n @ TPCLOG_FILETYPE"

definition sprintf_log :: "string \<Rightarrow> nat \<Rightarrow> string option" where
  "sprintf_log d n = (if length (log_path d n) < MAX_FILENAME then Some (log_path d n) else None)"

lemma log_path_inj [simp]: "log_path d m = log_path d n \<longleftrightarrow> m = n"
  by (simp add: log_path_def)

lemma inj_log_path: "inj (log_path d)"
  by (simp add: inj_on_def)

definition entry_image :: "logentry \<Rightarrow> char list" where
  "entry_image e = le32 (le_type e) @ le32 (le_length e) @ le_data e"

section \<open>Operations\<close>

text \<open>The first unused id.\<close>

function nextid_loop :: "os \<Rightarrow> string \<Rightarrow> nat \<Rightarrow> nat option" where
  "nextid_loop s d n =
     (if length (log_path d n) \<ge> MAX_FILENAME then None
      else if \<not> stat s (log_path d n) then Some n
      else nextid_loop s d (Suc n))"
  by pat_completeness auto
termination
proof (relation "measure (\<lambda>(s, d, n). files_left s (log_path d) n)", goal_cases)
  case (2 s d n)
  then show ?case using files_left_less[OF inj_log_path] by simp
qed simp

declare nextid_loop.simps [simp del]

definition tpclog_init ::
    "(nat \<Rightarrow> bool) \<Rightarrow> os \<Rightarrow> tpclog \<Rightarrow> string \<Rightarrow> (int \<times> os \<times> tpclog) option" where
  "tpclog_init mem s log dirname =
     (case (if stat s dirname then Inr s else mkdir s dirname) of
        Inl errno \<Rightarrow> Some (errno, s, log)
      | Inr s1 \<Rightarrow>
          if \<not> mem (length dirname + 1) then Some (ENOMEM, s1, log\<lparr>log_dirname := None\<rparr>)
          else do {
            n \<leftarrow> nextid_loop s1 dirname 0;
            Some (0, s1, log\<lparr>log_dirname := Some dirname, nextid := n\<rparr>)
          })"

text \<open>\<^verbatim>\<open>key\<close> and \<^verbatim>\<open>value\<close> may be NULL. The comparison of \<^verbatim>\<open>write\<close>'s signed result with the unsigned
  size converts the former to a \<^verbatim>\<open>size_t\<close>.\<close>

definition tpclog_log ::
    "(nat \<Rightarrow> bool) \<Rightarrow> os \<Rightarrow> tpclog \<Rightarrow> msgtype \<Rightarrow> string option \<Rightarrow> string option \<Rightarrow>
     (int \<times> os \<times> tpclog) option" where
  "tpclog_log mem s log type key val =
     (if type \<notin> {PUTREQ, DELREQ, ABORT, COMMIT} then Some (ERRINVLDMSG, s, log)
      else do {
        d \<leftarrow> log_dirname log;
        filename \<leftarrow> sprintf_log d (nextid log);
        case open_creat s filename of
          Inl _ \<Rightarrow> Some (ERRFILACCESS, s, log)
        | Inr s1 \<Rightarrow> do {
            let log1 = log\<lparr>nextid := nextid log + 1\<rparr>;
            kbs \<leftarrow> (if type = PUTREQ \<or> type = DELREQ then map_option (\<lambda>k. k @ [NUL]) key else Some []);
            vbs \<leftarrow> (if type = PUTREQ then map_option (\<lambda>v. v @ [NUL]) val else Some []);
            let size = sizeof_logentry + length kbs + length vbs;
            if \<not> mem size then Some (ENOMEM, s1, log1)
            else do {
              let entry = \<lparr>le_type = word_of_nat (msgtype_code type),
                le_length = word_of_nat (length kbs + length vbs), le_data = kbs @ vbs\<rparr>;
              let (r, s2) = write_fd s1 filename (entry_image entry);
              if (word_of_int r :: 64 word) < word_of_nat size
              then Some (ERRFILACCESS, s2, log1)
              else Some (0, s2, log1)
            }
          }
      })"

text \<open>Reading from a directory's descriptor returns -1, which the unsigned comparison lets through.\<close>

definition tpclog_load_entry :: "(nat \<Rightarrow> bool) \<Rightarrow> os \<Rightarrow> string \<Rightarrow> (int \<times> logentry option) option" where
  "tpclog_load_entry mem s filename =
     (case fopen_r s filename of
        Inl _ \<Rightarrow> Some (ERRFILACCESS, None)
      | Inr bs \<Rightarrow>
          if lookup s filename = Some Dir then None
          else if length bs < sizeof_logentry then Some (ERRFILACCESS, None)
          else let len = un_le32 (drop 4 bs) in
            if sint len < 0 then None
            else if \<not> mem (unat len + sizeof_logentry) then Some (ENOMEM, None)
            else if length bs < unat len + sizeof_logentry then Some (ERRFILACCESS, None)
            else Some (0, Some \<lparr>le_type = un_le32 bs, le_length = len,
                   le_data = take (unat len) (drop sizeof_logentry bs)\<rparr>))"

definition tpclog_iterate_begin :: "tpclog \<Rightarrow> tpclog" where
  "tpclog_iterate_begin log = log\<lparr>iterpos := 0\<rparr>"

definition tpclog_iterate_has_next :: "os \<Rightarrow> tpclog \<Rightarrow> bool option" where
  "tpclog_iterate_has_next s log = do {
     d \<leftarrow> log_dirname log;
     filename \<leftarrow> sprintf_log d (iterpos log);
     Some (stat s filename)
   }"

text \<open>The entry, or \<^term>\<open>None\<close> for a NULL result (a failed allocation leaves NULL in the entry
  pointer too).\<close>

definition tpclog_iterate_next ::
    "(nat \<Rightarrow> bool) \<Rightarrow> os \<Rightarrow> tpclog \<Rightarrow> (logentry option \<times> tpclog) option" where
  "tpclog_iterate_next mem s log = do {
     b \<leftarrow> tpclog_iterate_has_next s log;
     if \<not> b then Some (None, log)
     else do {
       d \<leftarrow> log_dirname log;
       filename \<leftarrow> sprintf_log d (iterpos log);
       (ret, entry) \<leftarrow> tpclog_load_entry mem s filename;
       Some (if ret < 0 then None else entry, log\<lparr>iterpos := iterpos log + 1\<rparr>)
     }
   }"

text \<open>The removal loop. A \<^verbatim>\<open>remove\<close> that fails ends it with the \<^verbatim>\<open>errno\<close>, the first component.\<close>

function log_clear_loop :: "os \<Rightarrow> string \<Rightarrow> nat \<Rightarrow> (int option \<times> os) option" where
  "log_clear_loop s d n =
     (if length (log_path d n) \<ge> MAX_FILENAME then None
      else if \<not> stat s (log_path d n) then Some (None, s)
      else case remove_path s (log_path d n) of
        Inl errno \<Rightarrow> Some (Some errno, s)
      | Inr s1 \<Rightarrow> log_clear_loop s1 d (Suc n))"
  by pat_completeness auto

lemma remove_path_Inr: "remove_path s p = Inr s1 \<Longrightarrow> s1 = del_node p s"
  by (auto simp: remove_path_def split: option.splits node.splits if_splits)

lemma files_left_removed: "files_left (del_node p s) f n \<le> files_left s f n" if "inj f"
proof -
  have "f ` {i. n \<le> i \<and> stat s (f i)} \<subseteq> {p. stat s p}" by auto
  then have "finite (f ` {i. n \<le> i \<and> stat s (f i)})" using finite_lookup finite_subset by blast
  then have "finite {i. n \<le> i \<and> stat s (f i)}" using that finite_imageD inj_on_subset by blast
  then show ?thesis unfolding files_left_def by (rule card_mono) (auto simp: stat_def split: if_splits)
qed

termination log_clear_loop
proof (relation "measure (\<lambda>(s, d, n). files_left s (log_path d) n)", goal_cases)
  case (2 s d n s1)
  then have "stat s (log_path d n)" by simp
  then have "files_left s (log_path d) (Suc n) < files_left s (log_path d) n"
    by (rule files_left_less[OF inj_log_path])
  moreover have "files_left s1 (log_path d) (Suc n) \<le> files_left s (log_path d) (Suc n)"
    using remove_path_Inr[OF 2(3)] files_left_removed[OF inj_log_path] by simp
  ultimately show ?case by simp
qed simp

declare log_clear_loop.simps [simp del]

definition tpclog_clear_log :: "os \<Rightarrow> tpclog \<Rightarrow> (int \<times> os \<times> tpclog) option" where
  "tpclog_clear_log s log = do {
     d \<leftarrow> log_dirname log;
     (r, s1) \<leftarrow> log_clear_loop s d 0;
     Some (case r of Some errno \<Rightarrow> (errno, s1, log) | None \<Rightarrow> (0, s1, log\<lparr>nextid := 0\<rparr>))
   }"

section \<open>Records\<close>

text \<open>What the four kinds of entries mean, and the entry each is stored as.\<close>

datatype logrec = LPut string string | LDel string | LAbort | LCommit

fun rec_type :: "logrec \<Rightarrow> msgtype" where
  "rec_type (LPut _ _) = PUTREQ"
| "rec_type (LDel _) = DELREQ"
| "rec_type LAbort = ABORT"
| "rec_type LCommit = COMMIT"

fun rec_key :: "logrec \<Rightarrow> string option" where
  "rec_key (LPut k _) = Some k"
| "rec_key (LDel k) = Some k"
| "rec_key _ = None"

fun rec_val :: "logrec \<Rightarrow> string option" where
  "rec_val (LPut _ v) = Some v"
| "rec_val _ = None"

fun rec_data :: "logrec \<Rightarrow> char list" where
  "rec_data (LPut k v) = k @ NUL # v @ [NUL]"
| "rec_data (LDel k) = k @ [NUL]"
| "rec_data _ = []"

definition rec_entry :: "logrec \<Rightarrow> logentry" where
  "rec_entry r = \<lparr>le_type = word_of_nat (msgtype_code (rec_type r)),
     le_length = word_of_nat (length (rec_data r)), le_data = rec_data r\<rparr>"

fun rec_adm :: "logrec \<Rightarrow> bool" where
  "rec_adm (LPut k v) \<longleftrightarrow> cstr k \<and> cstr v \<and> length k + length v + 2 < 2 ^ 31"
| "rec_adm (LDel k) \<longleftrightarrow> cstr k \<and> length k + 1 < 2 ^ 31"
| "rec_adm _ \<longleftrightarrow> True"

lemma rec_data_length: "rec_adm r \<Longrightarrow> length (rec_data r) < 2 ^ 31"
  by (cases r) auto

lemma rec_entry_simps [simp]:
  "le_data (rec_entry r) = rec_data r" "le_type (rec_entry r) = word_of_nat (msgtype_code (rec_type r))"
  "unat (le_type (rec_entry r)) = msgtype_code (rec_type r)"
  using small_word(1)[of "msgtype_code (rec_type r)"] msgtype_code_less[of "rec_type r"]
  by (simp_all add: rec_entry_def)

text \<open>The usable log directory, and the records it holds.\<close>

definition log_ok :: "os \<Rightarrow> string \<Rightarrow> bool" where
  "log_ok s d \<longleftrightarrow> lookup s d = Some Dir \<and> length d \<le> 985 \<and>
     (\<forall>n. fault s (log_path d n) = None \<and> wlimit s (log_path d n) = None)"

definition log_at :: "os \<Rightarrow> string \<Rightarrow> logrec list \<Rightarrow> bool" where
  "log_at s d rs \<longleftrightarrow> list_all rec_adm rs \<and>
     (\<forall>n. lookup s (log_path d n) = (if n < length rs then Some (File (entry_image (rec_entry (rs ! n)))) else None))"

definition log_rep :: "os \<Rightarrow> tpclog \<Rightarrow> string \<Rightarrow> logrec list \<Rightarrow> bool" where
  "log_rep s log d rs \<longleftrightarrow> log_dirname log = Some d \<and> log_ok s d \<and> log_at s d rs \<and> nextid log = length rs"

lemma log_atD:
  assumes "log_at s d rs"
  shows "lookup s (log_path d n) = (if n < length rs then Some (File (entry_image (rec_entry (rs ! n)))) else None)"
    "n < length rs \<Longrightarrow> rec_adm (rs ! n)"
  using assms by (auto simp: log_at_def list_all_length)

lemma length_log_path:
  assumes "length d \<le> 985" "n < 2 ^ 64"
  shows "length (log_path d n) < MAX_FILENAME"
proof -
  have "n < 10 ^ 20" using assms(2) by simp
  then have "length (dec n) \<le> 20" by (rule length_dec) simp
  then show ?thesis using assms(1) by (simp add: log_path_def TPCLOG_FILETYPE_def kv_simps)
qed

lemma sprintf_log_ok: "log_ok s d \<Longrightarrow> n < 2 ^ 64 \<Longrightarrow> sprintf_log d n = Some (log_path d n)"
  using length_log_path[of d n] by (simp add: sprintf_log_def log_ok_def)

lemma parent_ok_log [simp]: "parent_ok s (log_path d n) \<longleftrightarrow> lookup s d = Some Dir"
  unfolding log_path_def TPCLOG_FILETYPE_def by (rule parent_ok_child) simp

lemma log_path_neq_dir [simp]: "log_path d n \<noteq> d" "d \<noteq> log_path d n"
  by (simp_all add: log_path_def)

section \<open>Behaviour\<close>

lemma load_entry_image:
  assumes "lookup s p = Some (File (entry_image (rec_entry r)))" "fault s p = None" "rec_adm r"
  shows "tpclog_load_entry mem_ok s p = Some (0, Some (rec_entry r))"
proof -
  note w = small_word[OF rec_data_length[OF assms(3)]]
  have "un_le32 (entry_image (rec_entry r)) = le_type (rec_entry r)"
    "un_le32 (drop 4 (entry_image (rec_entry r))) = le_length (rec_entry r)"
    "drop 8 (entry_image (rec_entry r)) = rec_data r" "length (entry_image (rec_entry r)) = length (rec_data r) + 8"
    by (simp_all add: entry_image_def rec_entry_def)
  then show ?thesis
    using assms w by (simp add: tpclog_load_entry_def fopen_r_def sizeof_logentry_def rec_entry_def Let_def)
qed

lemma nextid_loop_spec:
  assumes "log_ok s d" "log_at s d rs" "length rs < 2 ^ 64" "n \<le> length rs"
  shows "nextid_loop s d n = Some (length rs)"
  using assms(4)
proof (induction "length rs - n" arbitrary: n)
  case 0
  then show ?case
    using log_atD(1)[OF assms(2), of n] assms(1,3) length_log_path[of d n]
    by (subst nextid_loop.simps) (auto simp: log_ok_def stat_def not_le)
next
  case (Suc j)
  then have "n < length rs" by simp
  then show ?case
    using Suc log_atD(1)[OF assms(2), of n] assms(1,3) length_log_path[of d n]
    by (subst nextid_loop.simps) (auto simp: log_ok_def stat_def not_le)
qed

lemma tpclog_init_recovers:
  assumes "log_ok s d" "log_at s d rs" "length rs < 2 ^ 64"
  shows "\<exists>log'. tpclog_init mem_ok s log d = Some (0, s, log') \<and> log_rep s log' d rs"
  using nextid_loop_spec[OF assms, of 0] assms(1,2)
  by (auto simp: tpclog_init_def log_ok_def stat_def log_rep_def)

lemma tpclog_log_appends:
  assumes "log_rep s log d rs" "rec_adm r" "length rs < 2 ^ 64"
  shows "\<exists>s' log'. tpclog_log mem_ok s log (rec_type r) (rec_key r) (rec_val r) = Some (0, s', log') \<and>
    log_rep s' log' d (rs @ [r]) \<and> fault s' = fault s \<and> wlimit s' = wlimit s \<and> iterpos log' = iterpos log \<and>
    (\<forall>p. (\<forall>n. p \<noteq> log_path d n) \<longrightarrow> lookup s' p = lookup s p)"
proof -
  have ok: "log_ok s d" and at: "log_at s d rs" and log: "log_dirname log = Some d" "nextid log = length rs"
    using assms(1) by (auto simp: log_rep_def)
  let ?p = "log_path d (length rs)"
  let ?img = "entry_image (rec_entry r)"
  let ?s1 = "set_node ?p (File []) s"
  let ?s2 = "set_node ?p (File ?img) ?s1"
  have oc: "open_creat s ?p = Inr ?s1"
    using ok log_atD(1)[OF at, of "length rs"] by (simp add: open_creat_def log_ok_def)
  have wr: "write_fd ?s1 ?p ?img = (int (length ?img), ?s2)"
    using ok by (simp add: write_fd_def log_ok_def contents_def)
  have len: "length ?img = length (rec_data r) + 8" by (simp add: entry_image_def)
  have run: "tpclog_log mem_ok s log (rec_type r) (rec_key r) (rec_val r) =
      Some (0, ?s2, log\<lparr>nextid := length rs + 1\<rparr>)"
    using log oc wr sprintf_log_ok[OF ok assms(3)] len
    by (cases r) (simp_all add: tpclog_log_def Let_def rec_entry_def sizeof_logentry_def add_ac)
  have "log_at ?s2 d (rs @ [r])"
    using at assms(2) by (auto simp: log_at_def nth_append less_Suc_eq)
  then have "log_rep ?s2 (log\<lparr>nextid := length rs + 1\<rparr>) d (rs @ [r])"
    using ok log by (simp add: log_rep_def log_ok_def)
  with run show ?thesis by auto
qed

lemma log_clear_loop_spec:
  assumes "log_ok s d" "n \<le> length rs" "length rs < 2 ^ 64" "list_all rec_adm rs"
    "\<And>i. lookup s (log_path d i) =
       (if n \<le> i \<and> i < length rs then Some (File (entry_image (rec_entry (rs ! i)))) else None)"
  shows "\<exists>s'. log_clear_loop s d n = Some (None, s') \<and> log_at s' d [] \<and> fault s' = fault s \<and> wlimit s' = wlimit s \<and>
    (\<forall>p. (\<forall>n. p \<noteq> log_path d n) \<longrightarrow> lookup s' p = lookup s p)"
  using assms
proof (induction "length rs - n" arbitrary: n s)
  case 0
  then show ?case
    using length_log_path[of d n]
    by (subst log_clear_loop.simps) (auto simp: log_ok_def stat_def not_le log_at_def)
next
  case (Suc j)
  then have n: "n < length rs" by simp
  let ?s = "del_node (log_path d n) s"
  have "log_clear_loop s d n = log_clear_loop ?s d (Suc n)"
    using n Suc.prems length_log_path[of d n]
    by (subst log_clear_loop.simps) (simp add: log_ok_def stat_def not_le remove_path_def)
  moreover have "\<exists>s'. log_clear_loop ?s d (Suc n) = Some (None, s') \<and> log_at s' d [] \<and> fault s' = fault ?s \<and>
    wlimit s' = wlimit ?s \<and> (\<forall>p. (\<forall>n. p \<noteq> log_path d n) \<longrightarrow> lookup s' p = lookup ?s p)"
    using Suc n by (intro Suc.hyps(1)) (auto simp: log_ok_def)
  ultimately show ?case by auto
qed

lemma tpclog_clear_log_ok:
  assumes "log_rep s log d rs" "length rs < 2 ^ 64"
  shows "\<exists>s' log'. tpclog_clear_log s log = Some (0, s', log') \<and> log_rep s' log' d [] \<and> fault s' = fault s \<and>
    wlimit s' = wlimit s \<and> (\<forall>p. (\<forall>n. p \<noteq> log_path d n) \<longrightarrow> lookup s' p = lookup s p)"
proof -
  have ok: "log_ok s d" and at: "log_at s d rs" and log: "log_dirname log = Some d"
    using assms(1) by (auto simp: log_rep_def)
  obtain s' where s': "log_clear_loop s d 0 = Some (None, s')" "log_at s' d []" "fault s' = fault s" "wlimit s' = wlimit s"
    "\<And>p. (\<forall>n. p \<noteq> log_path d n) \<Longrightarrow> lookup s' p = lookup s p"
    using log_clear_loop_spec[OF ok _ assms(2), of 0] at by (auto simp: log_at_def)
  have "log_ok s' d" using ok s'(3,4) s'(5)[of d] by (simp add: log_ok_def)
  then show ?thesis using s' log by (auto simp: tpclog_clear_log_def log_rep_def)
qed

section \<open>Iteration\<close>

text \<open>The loop \<^verbatim>\<open>while (tpclog_iterate_has_next(log)) entry = tpclog_iterate_next(log);\<close>: the values
  \<^verbatim>\<open>entry\<close> takes (\<^term>\<open>None\<close> for NULL) and the log it leaves.\<close>

function log_collect :: "(nat \<Rightarrow> bool) \<Rightarrow> os \<Rightarrow> tpclog \<Rightarrow> (logentry option list \<times> tpclog) option" where
  "log_collect mem s log =
     (case tpclog_iterate_has_next s log of None \<Rightarrow> None
      | Some b \<Rightarrow>
          if \<not> b then Some ([], log)
          else (case tpclog_iterate_next mem s log of None \<Rightarrow> None
                | Some (e, log1) \<Rightarrow> map_option (\<lambda>(es, log2). (e # es, log2)) (log_collect mem s log1)))"
  by pat_completeness auto
termination
proof (relation "measure (\<lambda>(_, s, log). files_left s (log_path (the (log_dirname log))) (iterpos log))", goal_cases)
  case (2 mem s log b x e log1)
  then obtain d where "log_dirname log = Some d" "stat s (log_path d (iterpos log))"
    by (auto simp: tpclog_iterate_has_next_def sprintf_log_def bind_eq_Some_conv split: if_splits)
  moreover have "log_dirname log1 = log_dirname log" "iterpos log1 = Suc (iterpos log)"
    using 2 by (auto simp: tpclog_iterate_next_def bind_eq_Some_conv split: if_splits)
  ultimately show ?case using files_left_less[OF inj_log_path] by simp
qed simp

declare log_collect.simps [simp del]

lemma iterate_has_next_spec:
  assumes "log_rep s log d rs" "length rs < 2 ^ 64" "iterpos log \<le> length rs"
  shows "tpclog_iterate_has_next s log = Some (iterpos log < length rs)"
  using assms log_atD(1)[of s d rs "iterpos log"] sprintf_log_ok[of s d "iterpos log"]
  by (auto simp: tpclog_iterate_has_next_def log_rep_def stat_def)

lemma iterate_next_spec:
  assumes "log_rep s log d rs" "length rs < 2 ^ 64" "iterpos log < length rs"
  shows "tpclog_iterate_next mem_ok s log =
    Some (Some (rec_entry (rs ! iterpos log)), log\<lparr>iterpos := iterpos log + 1\<rparr>)"
proof -
  have d: "log_dirname log = Some d" "log_ok s d" "log_at s d rs" using assms(1) by (auto simp: log_rep_def)
  have "tpclog_load_entry mem_ok s (log_path d (iterpos log)) = Some (0, Some (rec_entry (rs ! iterpos log)))"
    using log_atD[OF d(3), of "iterpos log"] assms(3) d(2) by (intro load_entry_image) (auto simp: log_ok_def)
  then show ?thesis
    using iterate_has_next_spec[OF assms(1,2)] assms(2,3) d sprintf_log_ok[OF d(2), of "iterpos log"]
    by (simp add: tpclog_iterate_next_def)
qed

lemma log_collect_spec:
  assumes "log_rep s log d rs" "length rs < 2 ^ 64" "iterpos log \<le> length rs"
  shows "log_collect mem_ok s log =
    Some (map (Some \<circ> rec_entry) (drop (iterpos log) rs), log\<lparr>iterpos := length rs\<rparr>)"
  using assms
proof (induction "length rs - iterpos log" arbitrary: log)
  case 0
  then have "log\<lparr>iterpos := length rs\<rparr> = log" by simp
  then show ?case using iterate_has_next_spec[OF 0(2-4)] 0 by (simp add: log_collect.simps)
next
  case (Suc j)
  then have n: "iterpos log < length rs" by simp
  let ?log = "log\<lparr>iterpos := iterpos log + 1\<rparr>"
  have "log_collect mem_ok s ?log =
      Some (map (Some \<circ> rec_entry) (drop (iterpos ?log) rs), ?log\<lparr>iterpos := length rs\<rparr>)"
    using Suc n by (intro Suc.hyps(1)) (auto simp: log_rep_def)
  then show ?case
    using iterate_has_next_spec[OF Suc.prems] iterate_next_spec[OF Suc.prems(1,2) n] n
    by (subst log_collect.simps) (simp flip: Cons_nth_drop_Suc)
qed

lemma log_collect_begin:
  assumes "log_rep s log d rs" "length rs < 2 ^ 64"
  shows "log_collect mem_ok s (tpclog_iterate_begin log) = Some (map (Some \<circ> rec_entry) rs, log\<lparr>iterpos := length rs\<rparr>)"
  using log_collect_spec[of s "tpclog_iterate_begin log" d rs] assms by (simp add: log_rep_def tpclog_iterate_begin_def)

section \<open>Store and log in one directory\<close>

lemma log_path_not_entry [simp]: "log_path d n \<noteq> entry_path d h m" "entry_path d h m \<noteq> log_path d n"
proof -
  have "CHR ''-'' \<in> set (dec (unat h) @ CHR ''-'' # dec m @ KVSTORE_FILETYPE)" by simp
  moreover have "CHR ''-'' \<notin> set (dec n @ TPCLOG_FILETYPE)" by (simp add: TPCLOG_FILETYPE_def)
  ultimately have "dec n @ TPCLOG_FILETYPE \<noteq> dec (unat h) @ CHR ''-'' # dec m @ KVSTORE_FILETYPE" by metis
  then show "log_path d n \<noteq> entry_path d h m" by (simp add: log_path_def entry_path_def)
  then show "entry_path d h m \<noteq> log_path d n" by metis
qed

lemma store_rep_frame:
  assumes "store_rep s d m" "fault s' = fault s" "wlimit s' = wlimit s"
    "\<And>p. (\<forall>n. p \<noteq> log_path d n) \<Longrightarrow> lookup s' p = lookup s p"
  shows "store_rep s' d m"
  using assms(1-3) assms(4)[of d] assms(4)[of "entry_path d _ _"]
  by (simp add: store_rep_def healthy_def chain_at_def chain_files_def)

lemma log_rep_frame:
  assumes "log_rep s log d rs" "fault s' = fault s" "wlimit s' = wlimit s" "lookup s' d = lookup s d"
    "\<And>n. lookup s' (log_path d n) = lookup s (log_path d n)"
  shows "log_rep s' log d rs"
  using assms by (simp add: log_rep_def log_ok_def log_at_def)

section \<open>Properties\<close>

fun log_all :: "os \<Rightarrow> tpclog \<Rightarrow> logrec list \<Rightarrow> (os \<times> tpclog) option" where
  "log_all s log [] = Some (s, log)"
| "log_all s log (r # rs) = do {
     (c, s1, log1) \<leftarrow> tpclog_log mem_ok s log (rec_type r) (rec_key r) (rec_val r);
     if c = 0 then log_all s1 log1 rs else None
   }"

lemma log_all_ok:
  assumes "log_rep s log d rs0" "list_all rec_adm rs" "length rs0 + length rs < 2 ^ 64"
  shows "\<exists>s' log'. log_all s log rs = Some (s', log') \<and> log_rep s' log' d (rs0 @ rs)"
  using assms
proof (induction rs arbitrary: s log rs0)
  case (Cons r rs)
  obtain s1 log1 where "tpclog_log mem_ok s log (rec_type r) (rec_key r) (rec_val r) = Some (0, s1, log1)"
    "log_rep s1 log1 d (rs0 @ [r])"
    using tpclog_log_appends[OF Cons.prems(1), of r] Cons.prems(2,3) by auto
  then show ?case using Cons.IH[of s1 log1 "rs0 @ [r]"] Cons.prems(2,3) by simp
qed simp

lemma ex_log: "log_ok (set_node ''store'' Dir ex_os) ''store''" "log_at (set_node ''store'' Dir ex_os) ''store'' []"
  using log_path_neq_dir(1)[of "''store''"] by (simp_all add: log_ok_def log_at_def)

text \<open>C23. The log survives a crash. Records logged in an empty directory are all found again, in order
  and unchanged, by a process that knows only the directory: \<^verbatim>\<open>tpclog_init\<close> sets \<^verbatim>\<open>nextid\<close> past the last
  one and iteration returns exactly the entries that were logged.\<close>

theorem tpclog_survives_crash:
  assumes "log_ok s d" "log_at s d []" "list_all rec_adm rs" "length rs < 2 ^ 64"
  shows "\<exists>log1 s2 log2 log3. tpclog_init mem_ok s log0 d = Some (0, s, log1) \<and>
    log_all s log1 rs = Some (s2, log2) \<and> tpclog_init mem_ok s2 log0' d = Some (0, s2, log3) \<and>
    nextid log3 = length rs \<and>
    map_option fst (log_collect mem_ok s2 (tpclog_iterate_begin log3)) = Some (map (Some \<circ> rec_entry) rs)"
proof -
  obtain log1 where l1: "tpclog_init mem_ok s log0 d = Some (0, s, log1)" "log_rep s log1 d []"
    using tpclog_init_recovers[OF assms(1,2)] by auto
  obtain s2 log2 where l2: "log_all s log1 rs = Some (s2, log2)" "log_rep s2 log2 d rs"
    using log_all_ok[OF l1(2) assms(3)] assms(4) by auto
  obtain log3 where l3: "tpclog_init mem_ok s2 log0' d = Some (0, s2, log3)" "log_rep s2 log3 d rs"
    using tpclog_init_recovers[of s2 d rs] l2(2) assms(4) by (auto simp: log_rep_def)
  have "map_option fst (log_collect mem_ok s2 (tpclog_iterate_begin log3)) = Some (map (Some \<circ> rec_entry) rs)"
    using log_collect_begin[OF l3(2) assms(4)] by simp
  moreover have "nextid log3 = length rs" using l3(2) by (simp add: log_rep_def)
  ultimately show ?thesis using l1(1) l2(1) l3(1) by blast
qed

theorem tpclog_survives_crash_witness:
  "\<exists>log1 s2 log2 log3. tpclog_init mem_ok (set_node ''store'' Dir ex_os) \<lparr>log_dirname = None, nextid = 9, iterpos = 9\<rparr>
       ''store'' = Some (0, set_node ''store'' Dir ex_os, log1) \<and>
     log_all (set_node ''store'' Dir ex_os) log1 [LPut ''a'' ''1'', LCommit, LDel ''a''] = Some (s2, log2) \<and>
     tpclog_init mem_ok s2 \<lparr>log_dirname = None, nextid = 7, iterpos = 5\<rparr> ''store'' = Some (0, s2, log3) \<and> nextid log3 = 3"
  using tpclog_survives_crash[OF ex_log, of "[LPut ''a'' ''1'', LCommit, LDel ''a'']"
      "\<lparr>log_dirname = None, nextid = 9, iterpos = 9\<rparr>" "\<lparr>log_dirname = None, nextid = 7, iterpos = 5\<rparr>"]
  by auto

text \<open>\<^verbatim>\<open>tpclog_clear_log\<close> removes every record and nothing else from the directory, and numbering
  starts again at 0.\<close>

theorem tpclog_clear_empties:
  assumes "log_rep s log d rs" "length rs < 2 ^ 64"
  shows "\<exists>s' log'. tpclog_clear_log s log = Some (0, s', log') \<and> nextid log' = 0 \<and>
    map_option fst (log_collect mem_ok s' (tpclog_iterate_begin log')) = Some [] \<and>
    (\<forall>p. lookup s' p = (if \<exists>n. p = log_path d n then None else lookup s p))"
proof -
  obtain s' log' where r: "tpclog_clear_log s log = Some (0, s', log')" "log_rep s' log' d []"
    "\<And>p. (\<forall>n. p \<noteq> log_path d n) \<Longrightarrow> lookup s' p = lookup s p"
    using tpclog_clear_log_ok[OF assms] by blast
  have "map_option fst (log_collect mem_ok s' (tpclog_iterate_begin log')) = Some []"
    using log_collect_begin[OF r(2)] by simp
  moreover have "lookup s' p = (if \<exists>n. p = log_path d n then None else lookup s p)" for p
    using r(2,3) log_atD(1)[of s' d "[]"] by (auto simp: log_rep_def)
  ultimately show ?thesis using r(1,2) by (auto simp: log_rep_def)
qed

theorem tpclog_clear_empties_witness:
  "\<exists>s' log'. tpclog_clear_log (set_node ''store'' Dir ex_os) \<lparr>log_dirname = Some ''store'', nextid = 0, iterpos = 0\<rparr>
     = Some (0, s', log') \<and> nextid log' = 0"
  using tpclog_clear_empties[of "set_node ''store'' Dir ex_os"
      "\<lparr>log_dirname = Some ''store'', nextid = 0, iterpos = 0\<rparr>" "''store''" "[]"] ex_log
  by (auto simp: log_rep_def)

text \<open>A failed \<^verbatim>\<open>write\<close> goes unnoticed: its result -1 is compared with an unsigned size. The call
  returns 0 and counts the record, but the file it leaves is empty and cannot be loaded.\<close>

theorem tpclog_log_write_error_lost:
  assumes "log_dirname log = Some d" "length (log_path d (nextid log)) < MAX_FILENAME" "lookup s d = Some Dir"
    "lookup s (log_path d (nextid log)) = None" "fault s (log_path d (nextid log)) = None"
    "wlimit s (log_path d (nextid log)) = Some l" "l < 0"
  shows "\<exists>s' log'. tpclog_log mem_ok s log COMMIT None None = Some (0, s', log') \<and> nextid log' = nextid log + 1 \<and>
    stat s' (log_path d (nextid log)) \<and> tpclog_load_entry mem_ok s' (log_path d (nextid log)) = Some (ERRFILACCESS, None)"
proof -
  have "\<not> (word_of_int (-1) :: 64 word) < word_of_nat 8" by code_simp
  then show ?thesis
    using assms by (simp add: tpclog_log_def sprintf_log_def open_creat_def write_fd_def Let_def entry_image_def
        sizeof_logentry_def stat_def tpclog_load_entry_def fopen_r_def)
qed

theorem tpclog_log_write_error_lost_witness:
  "\<exists>s' log'. tpclog_log mem_ok (set_node ''store'' Dir (ex_os\<lparr>wlimit := \<lambda>_. Some (-1)\<rparr>))
     \<lparr>log_dirname = Some ''store'', nextid = 0, iterpos = 0\<rparr> COMMIT None None = Some (0, s', log') \<and>
     nextid log' = 1"
proof -
  have "length (log_path ''store'' 0) < MAX_FILENAME" by (rule length_log_path) simp_all
  then show ?thesis
    using tpclog_log_write_error_lost[of "\<lparr>log_dirname = Some ''store'', nextid = 0, iterpos = 0\<rparr>" "''store''"
        "set_node ''store'' Dir (ex_os\<lparr>wlimit := \<lambda>_. Some (-1)\<rparr>)" "-1"] log_path_neq_dir(1)[of "''store''" 0]
    by (auto simp: lookup_def ex_os_def set_node_def)
qed

end
