(* ===== verification/KVMessage.thy ===== *)
theory KVMessage
  imports KVConstants
begin

text \<open>
  \<^verbatim>\<open>kvmessage.c\<close>: messages on a socket, a four-byte big-endian size followed by a JSON object. The
  JSON library is a parameter of the model: a record of the calls the code makes, with what it
  relies on in \<open>json_ok\<close>. A socket delivers its input in segments, one per \<^verbatim>\<open>read\<close> at most, and takes
  every byte that is written. Allocations succeed here.
\<close>

section \<open>Sockets\<close>

record sock =
  rx :: "char list list"
  tx :: "char list"

definition sock_read :: "sock \<Rightarrow> nat \<Rightarrow> char list \<times> sock" where
  "sock_read sk n =
     (case rx sk of
        [] \<Rightarrow> ([], sk)
      | seg # segs \<Rightarrow> (take n seg, sk\<lparr>rx := (if n < length seg then drop n seg # segs else segs)\<rparr>))"

definition sock_write :: "sock \<Rightarrow> char list \<Rightarrow> int \<times> sock" where
  "sock_write sk bs = (int (length bs), sk\<lparr>tx := tx sk @ bs\<rparr>)"

text \<open>\<^verbatim>\<open>htonl\<close> and \<^verbatim>\<open>ntohl\<close> on a little-endian machine: the bytes of an integer in network order.\<close>

definition be32 :: "32 word \<Rightarrow> char list" where
  "be32 w = rev (le32 w)"

definition un_be32 :: "char list \<Rightarrow> 32 word" where
  "un_be32 bs = un_le32 (rev (take 4 bs))"

lemma un_be32_be32 [simp]: "un_be32 (be32 w) = w" "length (be32 w) = 4"
  using un_le32_le32[of w "[]"] by (simp_all add: un_be32_def be32_def)

section \<open>JSON\<close>

datatype json = JInt int | JString string | JNull | JOther string

text \<open>\<open>print_object\<close> is \<^verbatim>\<open>json_object_to_json_string\<close> of an object with these fields, \<open>parse_object\<close> is
  \<^verbatim>\<open>json_tokener_parse\<close> of a C string (\<^term>\<open>None\<close> for NULL), \<open>get_int\<close> and
  \<open>get_string\<close> are \<^verbatim>\<open>json_object_get_int\<close> and \<^verbatim>\<open>json_object_get_string\<close> (\<^term>\<open>None\<close> for NULL).\<close>

record json_lib =
  print_object :: "(string \<times> json) list \<Rightarrow> string"
  parse_object :: "string \<Rightarrow> (string \<times> json) list option"
  get_int :: "json \<Rightarrow> int"
  get_string :: "json \<Rightarrow> string option"

text \<open>The tokener stops behind the closing brace, but not before it has skipped white space and looked for a
  comment: text behind an object is ignored, unless it begins with a slash that starts no comment, which
  is an error. Of text that starts with a comment nothing is said here.\<close>

definition c_space :: "char \<Rightarrow> bool" where
  "c_space c \<longleftrightarrow> c \<in> {CHR '' '', CHR 0x09, CHR 0x0A, CHR 0x0B, CHR 0x0C, CHR 0x0D}"

definition harmless :: "string \<Rightarrow> bool" where
  "harmless rest \<longleftrightarrow> (case dropWhile c_space rest of [] \<Rightarrow> True | c # _ \<Rightarrow> c \<noteq> CHR ''/'')"

definition spoiling :: "string \<Rightarrow> bool" where
  "spoiling rest \<longleftrightarrow> (case dropWhile c_space rest of [] \<Rightarrow> False
     | c # r \<Rightarrow> c = CHR ''/'' \<and> (case r of [] \<Rightarrow> True | d # _ \<Rightarrow> d \<notin> {CHR ''*'', CHR ''/''}))"

text \<open>What the code relies on: the printed form of an object with distinct field names is a C string that parses back
  to the object when harmless text follows it, and does not parse when spoiling text follows it, in texts of
  less than 2 GB; integers and strings are returned as they were stored, and a null has no string.\<close>

fun plain_json :: "json \<Rightarrow> bool" where
  "plain_json (JInt i) \<longleftrightarrow> - (2 ^ 31) \<le> i \<and> i < 2 ^ 31"
| "plain_json (JString s) \<longleftrightarrow> cstr s"
| "plain_json _ \<longleftrightarrow> False"

definition plain_object :: "(string \<times> json) list \<Rightarrow> bool" where
  "plain_object fs \<longleftrightarrow> distinct (map fst fs) \<and> list_all (\<lambda>(n, j). cstr n \<and> plain_json j) fs"

definition json_ok :: "json_lib \<Rightarrow> bool" where
  "json_ok lib \<longleftrightarrow>
     (\<forall>fs. plain_object fs \<longrightarrow> cstr (print_object lib fs) \<and> print_object lib fs \<noteq> [] \<and>
        (\<forall>rest. cstr rest \<and> length (print_object lib fs @ rest) < 2 ^ 31 \<longrightarrow>
           (harmless rest \<longrightarrow> parse_object lib (print_object lib fs @ rest) = Some fs) \<and>
           (spoiling rest \<longrightarrow> parse_object lib (print_object lib fs @ rest) = None))) \<and>
     (\<forall>i. - (2 ^ 31) \<le> i \<longrightarrow> i < 2 ^ 31 \<longrightarrow> get_int lib (JInt i) = i) \<and>
     (\<forall>s. cstr s \<longrightarrow> get_string lib (JString s) = Some s) \<and> get_string lib JNull = None"

section \<open>Messages\<close>

record kvmessage =
  mtype :: int
  mkey :: "string option"
  mvalue :: "string option"
  mmessage :: "string option"

definition blank_message :: kvmessage where
  "blank_message = \<lparr>mtype = 0, mkey = None, mvalue = None, mmessage = None\<rparr>"

text \<open>A text field: \<^term>\<open>Some None\<close> when it is absent; \<^term>\<open>None\<close> when it is present without a string,
  where \<^verbatim>\<open>strlen\<close> dereferences NULL.\<close>

definition text_field :: "json_lib \<Rightarrow> (string \<times> json) list option \<Rightarrow> string \<Rightarrow> string option option" where
  "text_field lib obj name =
     (case obj of None \<Rightarrow> Some None
      | Some fs \<Rightarrow> (case map_of fs name of None \<Rightarrow> Some None
          | Some j \<Rightarrow> map_option Some (get_string lib j)))"

text \<open>The first component of the result is \<^term>\<open>None\<close> for a NULL message; \<open>beyond\<close> is what the stack
  holds after the buffer, which has no terminator: the parser reads on until it finds one. A buffer of no or
  negative size is undefined.\<close>

definition kvmessage_parse ::
    "json_lib \<Rightarrow> char list \<Rightarrow> sock \<Rightarrow> (kvmessage option \<times> sock) option" where
  "kvmessage_parse lib beyond sk =
     (let (hdr, sk1) = sock_read sk 4 in
      if length hdr < 4 then Some (None, sk1)
      else let size = sint (un_be32 hdr) in
        if size \<le> 0 then None
        else let (buffer, sk2) = sock_read sk1 (nat size) in
          if int (length buffer) < size then Some (None, sk2)
          else do {
            txt \<leftarrow> c_string (buffer @ beyond);
            let new_obj = parse_object lib txt;
            let type = (case new_obj of None \<Rightarrow> 0
              | Some fs \<Rightarrow> (case map_of fs ''type'' of None \<Rightarrow> 0 | Some j \<Rightarrow> get_int lib j));
            key \<leftarrow> text_field lib new_obj ''key'';
            val \<leftarrow> text_field lib new_obj ''value'';
            msg \<leftarrow> text_field lib new_obj ''message'';
            Some (Some \<lparr>mtype = type, mkey = key, mvalue = val, mmessage = msg\<rparr>, sk2)
          })"

definition opt_field :: "string \<Rightarrow> string option \<Rightarrow> (string \<times> json) list" where
  "opt_field name s = (case s of None \<Rightarrow> [] | Some t \<Rightarrow> [(name, JString t)])"

definition message_fields :: "kvmessage \<Rightarrow> (string \<times> json) list" where
  "message_fields m = (''type'', JInt (mtype m)) # opt_field ''key'' (mkey m) @
     opt_field ''value'' (mvalue m) @ opt_field ''message'' (mmessage m)"

definition kvmessage_send :: "json_lib \<Rightarrow> kvmessage \<Rightarrow> sock \<Rightarrow> int \<times> sock" where
  "kvmessage_send lib m sk =
     (let js = print_object lib (message_fields m);
          (n1, sk1) = sock_write sk (be32 (word_of_nat (length js)));
          (n2, sk2) = sock_write sk1 js
      in (n1 + n2, sk2))"

section \<open>Round trip\<close>

definition message_ok :: "kvmessage \<Rightarrow> bool" where
  "message_ok m \<longleftrightarrow> - (2 ^ 31) \<le> mtype m \<and> mtype m < 2 ^ 31 \<and> pred_option cstr (mkey m) \<and>
     pred_option cstr (mvalue m) \<and> pred_option cstr (mmessage m)"

lemma message_fields_plain: "message_ok m \<Longrightarrow> plain_object (message_fields m)"
  by (auto simp: message_ok_def message_fields_def opt_field_def plain_object_def split: option.splits)

lemma message_fields_of:
  "map_of (message_fields m) ''type'' = Some (JInt (mtype m))"
  "map_of (message_fields m) ''key'' = map_option JString (mkey m)"
  "map_of (message_fields m) ''value'' = map_option JString (mvalue m)"
  "map_of (message_fields m) ''message'' = map_option JString (mmessage m)"
  by (auto simp: message_fields_def opt_field_def map_add_def split: option.splits)

lemma text_field_string:
  assumes "json_ok lib" "pred_option cstr x" "map_of fs name = map_option JString x"
  shows "text_field lib (Some fs) name = Some x"
  using assms by (cases x) (auto simp: text_field_def json_ok_def)

lemma c_string_follow: "cstr s \<Longrightarrow> c_string (s @ bs) = map_option ((@) s) (c_string bs)"
  by (auto simp: c_string_def cstr_def takeWhile_append2 intro: takeWhile_append2)

text \<open>A printed message in the buffer: what follows decides what becomes of it.\<close>

lemma parse_printed:
  assumes "json_ok lib" "message_ok m" "length (print_object lib (message_fields m)) < 2 ^ 31"
    "sock_read sk 4 = (be32 (word_of_nat (length (print_object lib (message_fields m)))), sk')"
    "sock_read sk' (length (print_object lib (message_fields m))) = (print_object lib (message_fields m), sk'')"
  shows "c_string beyond = None \<Longrightarrow> kvmessage_parse lib beyond sk = None"
    "c_string beyond = Some rest \<Longrightarrow> length (print_object lib (message_fields m)) + length rest < 2 ^ 31 \<Longrightarrow> harmless rest \<Longrightarrow>
      kvmessage_parse lib beyond sk = Some (Some m, sk'')"
    "c_string beyond = Some rest \<Longrightarrow> length (print_object lib (message_fields m)) + length rest < 2 ^ 31 \<Longrightarrow> spoiling rest \<Longrightarrow>
      kvmessage_parse lib beyond sk = Some (Some blank_message, sk'')"
proof -
  let ?js = "print_object lib (message_fields m)"
  have js: "cstr ?js" "?js \<noteq> []" using assms(1) message_fields_plain[OF assms(2)] unfolding json_ok_def by blast+
  have size: "sint (word_of_nat (length ?js) :: 32 word) = int (length ?js)" by (rule small_word(2)[OF assms(3)])
  show "kvmessage_parse lib beyond sk = None" if "c_string beyond = None"
    using that assms(4,5) size js by (simp add: kvmessage_parse_def c_string_follow)
  have int: "get_int lib (JInt (mtype m)) = mtype m" using assms(1,2) by (simp add: json_ok_def message_ok_def)
  have fl: "pred_option cstr (mkey m)" "pred_option cstr (mvalue m)" "pred_option cstr (mmessage m)"
    using assms(2) by (auto simp: message_ok_def)
  assume r: "c_string beyond = Some rest" "length ?js + length rest < 2 ^ 31"
  then have p: "harmless rest \<longrightarrow> parse_object lib (?js @ rest) = Some (message_fields m)" "spoiling rest \<longrightarrow> parse_object lib (?js @ rest) = None"
    using assms(1) message_fields_plain[OF assms(2)] c_string_cstr[OF r(1)] unfolding json_ok_def by auto
  show "kvmessage_parse lib beyond sk = Some (Some m, sk'')" if "harmless rest"
    using that assms(4,5) size js int text_field_string[OF assms(1) fl(1) message_fields_of(2)] p(1) r(1)
      text_field_string[OF assms(1) fl(2) message_fields_of(3)] text_field_string[OF assms(1) fl(3) message_fields_of(4)]
    by (simp add: kvmessage_parse_def message_fields_of(1) c_string_follow)
  show "kvmessage_parse lib beyond sk = Some (Some blank_message, sk'')" if "spoiling rest"
    using that assms(4,5) size js p(2) r(1) by (simp add: kvmessage_parse_def c_string_follow text_field_def blank_message_def)
qed

lemma send_bytes:
  "tx (snd (kvmessage_send lib m sk)) = tx sk @
     be32 (word_of_nat (length (print_object lib (message_fields m)))) @ print_object lib (message_fields m)"
  "fst (kvmessage_send lib m sk) = 4 + int (length (print_object lib (message_fields m)))"
  by (simp_all add: kvmessage_send_def sock_write_def Let_def)

section \<open>A JSON library for the examples\<close>

text \<open>Fields are printed as a tag and two length-prefixed strings.\<close>

definition net_str :: "string \<Rightarrow> string" where
  "net_str t = dec (length t) @ CHR '':'' # t"

definition un_net :: "char list \<Rightarrow> string \<times> char list" where
  "un_net bs = (let ds = takeWhile (\<lambda>c. c \<noteq> CHR '':'') bs; n = undec_acc 0 ds; r = drop (length ds + 1) bs in
     (take n r, drop n r))"

lemma un_net_net_str [simp]: "un_net (net_str t @ rest) = (t, rest)"
proof -
  have "takeWhile (\<lambda>c. c \<noteq> CHR '':'') (dec (length t) @ CHR '':'' # t @ rest) = dec (length t)"
    by (subst takeWhile_append2) (use dec_not_in[of "CHR '':''" "length t"] in auto)
  then show ?thesis by (simp add: un_net_def net_str_def Let_def)
qed

fun print_json :: "json \<Rightarrow> string" where
  "print_json (JInt i) = (if i < 0 then CHR ''m'' # net_str (dec (nat (- i))) else CHR ''p'' # net_str (dec (nat i)))"
| "print_json (JString t) = CHR ''s'' # net_str t"
| "print_json _ = ''n''"

fun print_fields :: "(string \<times> json) list \<Rightarrow> string" where
  "print_fields [] = ''e''"
| "print_fields ((n, j) # fs) = CHR ''f'' # net_str n @ print_json j @ print_fields fs"

definition un_json :: "char list \<Rightarrow> json \<times> char list" where
  "un_json bs =
     (case bs of
        c # r \<Rightarrow>
          if c = CHR ''m'' then apfst (\<lambda>t. JInt (- int (undec_acc 0 t))) (un_net r)
          else if c = CHR ''p'' then apfst (\<lambda>t. JInt (int (undec_acc 0 t))) (un_net r)
          else if c = CHR ''s'' then apfst JString (un_net r)
          else (JNull, r)
      | [] \<Rightarrow> (JNull, []))"

fun un_fields :: "nat \<Rightarrow> char list \<Rightarrow> (string \<times> json) list option" where
  "un_fields 0 bs = None"
| "un_fields (Suc n) bs =
     (case bs of
        c # r \<Rightarrow>
          if c = CHR ''e'' then (if spoiling r then None else Some [])
          else if c = CHR ''f'' then
            (let (name, r1) = un_net r; (j, r2) = un_json r1 in map_option (\<lambda>fs. (name, j) # fs) (un_fields n r2))
          else None
      | [] \<Rightarrow> None)"

definition ex_lib :: json_lib where
  "ex_lib = \<lparr>print_object = print_fields, parse_object = (\<lambda>bs. un_fields (length bs) bs),
     get_int = (\<lambda>j. case j of JInt i \<Rightarrow> i | _ \<Rightarrow> 0),
     get_string = (\<lambda>j. case j of JString t \<Rightarrow> Some t | _ \<Rightarrow> None)\<rparr>"

lemma un_json_print [simp]: "plain_json j \<Longrightarrow> un_json (print_json j @ rest) = (j, rest)"
  by (cases j) (simp_all add: un_json_def)

lemma un_fields_print:
  "list_all (\<lambda>(n, j). cstr n \<and> plain_json j) fs \<Longrightarrow> length (print_fields fs) \<le> k \<Longrightarrow>
    un_fields k (print_fields fs @ rest) = (if spoiling rest then None else Some fs)"
proof (induction fs arbitrary: k)
  case Nil
  then show ?case by (cases k) simp_all
next
  case (Cons f fs)
  obtain n j where f: "f = (n, j)" by (cases f)
  obtain k' where k: "k = Suc k'" "length (print_fields fs) \<le> k'" using Cons.prems(2) f by (cases k) auto
  then show ?case using Cons f by simp
qed

lemma net_str_cstr: "cstr t \<Longrightarrow> cstr (net_str t)"
  by (simp add: net_str_def cstr_def)

lemma ex_lib_ok: "json_ok ex_lib"
proof -
  have dec: "cstr (dec n)" for n by (simp add: cstr_def)
  have "cstr (print_json j)" if "plain_json j" for j using that dec net_str_cstr by (cases j) auto
  then have c: "cstr (print_fields fs)" if "list_all (\<lambda>(n, j). cstr n \<and> plain_json j) fs" for fs
    using that by (induction fs) (auto simp: net_str_cstr)
  have "parse_object ex_lib (print_object ex_lib fs @ rest) = (if spoiling rest then None else Some fs)"
    if "list_all (\<lambda>(n, j). cstr n \<and> plain_json j) fs" for fs rest
    using un_fields_print[OF that, of "length (print_fields fs @ rest)" rest] by (simp add: ex_lib_def)
  moreover have "print_fields fs \<noteq> []" for fs by (cases fs) auto
  moreover have "\<not> spoiling rest" if "harmless rest" for rest
    using that unfolding harmless_def spoiling_def by (simp split: list.splits del: dropWhile_eq_Nil_conv)
  ultimately show ?thesis using c by (simp add: json_ok_def plain_object_def ex_lib_def)
qed

section \<open>Properties\<close>

definition ex_message :: kvmessage where
  "ex_message = \<lparr>mtype = 1, mkey = Some ''a'', mvalue = Some ''1'', mmessage = None\<rparr>"

lemma ex_message_short: "length (print_object ex_lib (message_fields ex_message)) < 2 ^ 31"
proof -
  have "length (print_object ex_lib (message_fields ex_message)) < 60" by code_simp
  then show ?thesis by simp
qed

lemma ex_message_ok: "message_ok ex_message"
  by (simp add: message_ok_def ex_message_def)

text \<open>C24. What \<^verbatim>\<open>kvmessage_send\<close> writes arrives at \<^verbatim>\<open>kvmessage_parse\<close> in one segment. The buffer it is read into has no
  terminator, so what the stack holds behind it decides: with no terminator there the parser reads outside
  the memory; with harmless text before the first terminator the same message is read back, with exactly the fields that
  were present; with text that begins with a slash and no comment the message is read as one without any
  field. Nothing of what follows on the socket is consumed.\<close>

theorem kvmessage_round_trip:
  assumes "json_ok lib" "message_ok m" "length (print_object lib (message_fields m)) < 2 ^ 31" "tx sk = []"
  shows "\<exists>n sk1. kvmessage_send lib m sk = (n, sk1) \<and> n = int (length (tx sk1)) \<and>
    (let r = kvmessage_parse lib beyond \<lparr>rx = tx sk1 # later, tx = []\<rparr> in
     case c_string beyond of None \<Rightarrow> r = None
     | Some rest \<Rightarrow> length (print_object lib (message_fields m)) + length rest < 2 ^ 31 \<longrightarrow>
         (harmless rest \<longrightarrow> r = Some (Some m, \<lparr>rx = later, tx = []\<rparr>)) \<and>
         (spoiling rest \<longrightarrow> r = Some (Some blank_message, \<lparr>rx = later, tx = []\<rparr>)))"
proof -
  let ?js = "print_object lib (message_fields m)" and ?sk1 = "snd (kvmessage_send lib m sk)"
  let ?in = "\<lparr>rx = tx ?sk1 # later, tx = []\<rparr>" and ?mid = "\<lparr>rx = ?js # later, tx = []\<rparr>" and ?out = "\<lparr>rx = later, tx = []\<rparr>"
  have tx: "tx ?sk1 = be32 (word_of_nat (length ?js)) @ ?js" using send_bytes(1) assms(4) by simp
  have ne: "?js \<noteq> []" using assms(1) message_fields_plain[OF assms(2)] unfolding json_ok_def by blast
  have rd: "sock_read ?in 4 = (be32 (word_of_nat (length ?js)), ?mid)" "sock_read ?mid (length ?js) = (?js, ?out)"
    using ne tx by (simp_all add: sock_read_def)
  note parse = parse_printed[OF assms(1-3) rd]
  have "fst (kvmessage_send lib m sk) = int (length (tx ?sk1))" using tx by (simp add: send_bytes(2))
  moreover have "kvmessage_send lib m sk = (fst (kvmessage_send lib m sk), ?sk1)" by simp
  moreover have "let r = kvmessage_parse lib beyond ?in in
     case c_string beyond of None \<Rightarrow> r = None
     | Some rest \<Rightarrow> length ?js + length rest < 2 ^ 31 \<longrightarrow>
         (harmless rest \<longrightarrow> r = Some (Some m, ?out)) \<and> (spoiling rest \<longrightarrow> r = Some (Some blank_message, ?out))"
  proof (cases "c_string beyond")
    case None
    then show ?thesis using parse(1) by simp
  next
    case (Some rest)
    show ?thesis unfolding Some Let_def option.case using parse(2,3)[OF Some] by blast
  qed
  ultimately show ?thesis by blast
qed

theorem kvmessage_round_trip_witness:
  "\<exists>n sk1. kvmessage_send ex_lib ex_message \<lparr>rx = [], tx = []\<rparr> = (n, sk1) \<and>
     kvmessage_parse ex_lib (''garbage'' @ [NUL]) \<lparr>rx = [tx sk1], tx = []\<rparr> = Some (Some ex_message, \<lparr>rx = [], tx = []\<rparr>) \<and>
     kvmessage_parse ex_lib (''/x'' @ [NUL]) \<lparr>rx = [tx sk1], tx = []\<rparr> = Some (Some blank_message, \<lparr>rx = [], tx = []\<rparr>)"
proof -
  have l: "length (print_object ex_lib (message_fields ex_message)) + 10 < 2 ^ 31"
  proof -
    have "length (print_object ex_lib (message_fields ex_message)) < 60" by code_simp
    then show ?thesis by simp
  qed
  have t: "harmless ''garbage''" "spoiling ''/x''" by (simp_all add: harmless_def spoiling_def c_space_def)
  have c: "c_string (''garbage'' @ [NUL]) = Some ''garbage''" "c_string (''/x'' @ [NUL]) = Some ''/x''" by (simp_all add: c_string_def)
  let ?sk = "\<lparr>rx = [], tx = []\<rparr>"
  note th = kvmessage_round_trip[OF ex_lib_ok ex_message_ok ex_message_short, of ?sk, where later = "[]"]
  show ?thesis using th[of "''garbage'' @ [NUL]"] th[of "''/x'' @ [NUL]"] l t unfolding c by (auto simp: Let_def)
qed

text \<open>\<^verbatim>\<open>kvmessage_parse\<close> takes a short \<^verbatim>\<open>read\<close> for an error: a message whose body arrives in two segments
  is refused as NULL, and the rest of it stays on the socket in front of whatever comes next.\<close>

theorem kvmessage_parse_split:
  assumes "json_ok lib" "message_ok m" "length (print_object lib (message_fields m)) < 2 ^ 31"
    "print_object lib (message_fields m) = as @ bs" "as \<noteq> []" "bs \<noteq> []"
  shows "kvmessage_parse lib beyond
      \<lparr>rx = (be32 (word_of_nat (length (print_object lib (message_fields m)))) @ as) # bs # later, tx = out\<rparr> =
    Some (None, \<lparr>rx = bs # later, tx = out\<rparr>)"
proof -
  let ?js = "print_object lib (message_fields m)"
  have "sint (word_of_nat (length ?js) :: 32 word) = int (length ?js)" by (rule small_word(2)[OF assms(3)])
  moreover have "length ?js = length as + length bs" "0 < length as" "0 < length bs" using assms(4-6) by simp_all
  ultimately show ?thesis by (auto simp: kvmessage_parse_def sock_read_def Let_def simp del: of_nat_add)
qed

theorem kvmessage_parse_split_witness:
  "kvmessage_parse ex_lib [] \<lparr>rx = [be32 (word_of_nat (length (print_object ex_lib (message_fields ex_message)))) @
     take 3 (print_object ex_lib (message_fields ex_message)), drop 3 (print_object ex_lib (message_fields ex_message))],
     tx = []\<rparr> = Some (None, \<lparr>rx = [drop 3 (print_object ex_lib (message_fields ex_message))], tx = []\<rparr>)"
proof -
  let ?js = "print_object ex_lib (message_fields ex_message)"
  have "take 3 ?js \<noteq> []" "drop 3 ?js \<noteq> []" by code_simp+
  then show ?thesis
    using kvmessage_parse_split[OF ex_lib_ok ex_message_ok ex_message_short, of "take 3 ?js" "drop 3 ?js" "[]" "[]" "[]"] by simp
qed

end
