(* ===== verification/KVServer.thy ===== *)
theory KVServer
  imports KVCache TPCLog KVMessage
begin

text \<open>
  \<^verbatim>\<open>kvserver.c\<close>: a server, its two request handlers and its recovery. The operating system is passed
  through every call. \<open>cenv\<close> holds what a C program does not control: whether allocations succeed, how
  many bytes of a block of a given size may be written (\<open>usable\<close>), the bytes that follow a block
  (\<open>beyond\<close>), what an uninitialised \<^verbatim>\<open>err\<close> happens to be (\<open>junk\<close>), and what a string pointer in a message for
  a slave holds that came from \<^verbatim>\<open>malloc\<close> and was never set (\<open>uninit\<close>). A request is handled from beginning to end; the interleavings the locks allow are
  treated where the store is. The theory first gives the operations, then the coherence of cache and
  store, then the two-phase-commit participant as a refinement of an abstract one, then recovery.
\<close>

section \<open>Data\<close>

record kvserver =
  cache :: kvcache
  store :: kvstore
  tlog :: tpclog
  use_tpc :: bool
  max_threads :: "32 word"
  port :: int
  hostname :: "string option" \<comment> \<open>\<^term>\<open>None\<close> is a NULL pointer\<close>
  tpcstate :: tpc_state

text \<open>A pointer nobody set may be NULL, may point to a string, or may point nowhere; reading it is undefined in
  the last case.\<close>

datatype cptr = Null | Str string | Wild

fun read_ptr :: "cptr \<Rightarrow> string option option" where
  "read_ptr Null = Some None"
| "read_ptr (Str t) = Some (Some t)"
| "read_ptr Wild = None"

text \<open>\<open>uninit env x f\<close> is the field \<open>f\<close> of a message for the slave \<open>x\<close>.\<close>

record cenv =
  cmem :: "nat \<Rightarrow> bool"
  usable :: "nat \<Rightarrow> nat"
  beyond :: "char list"
  junk :: int
  uninit :: "64 word \<Rightarrow> string \<Rightarrow> cptr"

section \<open>Operations\<close>

definition kvserver_init ::
    "(nat \<Rightarrow> bool) \<Rightarrow> (nat \<Rightarrow> int) \<Rightarrow> os \<Rightarrow> kvserver \<Rightarrow> string \<Rightarrow> 32 word \<Rightarrow> 32 word \<Rightarrow> 32 word \<Rightarrow> string \<Rightarrow> int \<Rightarrow>
     bool \<Rightarrow> (int \<times> os \<times> kvserver) option" where
  "kvserver_init mem lockret s srv dirname nsets n nthreads host pt tpc = do {
     let srv0 = srv\<lparr>tpcstate := TPC_INIT\<rparr>;
     let (ret, c) = kvcache_init mem lockret (cache srv0) nsets n;
     let srv1 = srv0\<lparr>cache := c\<rparr>;
     if ret < 0 then Some (ret, s, srv1)
     else do {
       (ret, s1, st) \<leftarrow> kvstore_init s (store srv1) dirname;
       let srv2 = srv1\<lparr>store := st\<rparr>;
       if ret < 0 then Some (ret, s1, srv2)
       else do {
         (ret, s2, log) \<leftarrow> (if tpc then tpclog_init mem s1 (tlog srv2) dirname else Some (0, s1, tlog srv2));
         let srv3 = srv2\<lparr>tlog := log\<rparr>;
         if ret < 0 then Some (ret, s2, srv3)
         else if \<not> mem (length host + 1) then Some (ENOMEM, s2, srv3\<lparr>hostname := None\<rparr>)
         else Some (0, s2, srv3\<lparr>hostname := Some host, port := pt, use_tpc := tpc, max_threads := nthreads\<rparr>)
       }
     }
   }"

text \<open>The second component is the value handed back. After a store hit \<^verbatim>\<open>*value\<close> is dereferenced.\<close>

definition kvserver_get ::
    "(nat \<Rightarrow> bool) \<Rightarrow> os \<Rightarrow> kvserver \<Rightarrow> string \<Rightarrow> (int \<times> string option \<times> kvserver) option" where
  "kvserver_get mem s srv key =
     (if length key > MAX_KEYLEN then Some (ERRKEYLEN, None, srv)
      else do {
        (outcome, v, c) \<leftarrow> kvcache_get mem (cache srv) key;
        let srv1 = srv\<lparr>cache := c\<rparr>;
        if outcome < 0 then do {
          (outcome, v) \<leftarrow> kvstore_get mem s (store srv1) key;
          if outcome = 0 then do {
            val \<leftarrow> v;
            (_, c2) \<leftarrow> kvcache_put mem (cache srv1) key val;
            Some (outcome, v, srv1\<lparr>cache := c2\<rparr>)
          } else Some (outcome, v, srv1)
        } else Some (outcome, v, srv1)
      })"

definition kvserver_put_check :: "os \<Rightarrow> kvserver \<Rightarrow> string \<Rightarrow> string \<Rightarrow> int" where
  "kvserver_put_check s srv key val = kvstore_put_check s (store srv) key val"

definition kvserver_put ::
    "(nat \<Rightarrow> bool) \<Rightarrow> os \<Rightarrow> kvserver \<Rightarrow> string \<Rightarrow> string \<Rightarrow> (int \<times> os \<times> kvserver) option" where
  "kvserver_put mem s srv key val =
     (let err = kvserver_put_check s srv key val in
      if err < 0 then Some (err, s, srv)
      else do {
        (err, s1) \<leftarrow> kvstore_put mem s (store srv) key val;
        if err < 0 then Some (err, s1, srv)
        else do {
          lock \<leftarrow> kvcache_getlock (cache srv) key;
          if lock = None then None
          else do {
            (err, c) \<leftarrow> kvcache_put mem (cache srv) key val;
            Some (err, s1, srv\<lparr>cache := c\<rparr>)
          }
        }
      })"

definition kvserver_del_check :: "(nat \<Rightarrow> bool) \<Rightarrow> os \<Rightarrow> kvserver \<Rightarrow> string \<Rightarrow> int option" where
  "kvserver_del_check mem s srv key = kvstore_del_check mem s (store srv) key"

text \<open>Taking a NULL lock is undefined.\<close>

definition kvserver_del ::
    "(nat \<Rightarrow> bool) \<Rightarrow> os \<Rightarrow> kvserver \<Rightarrow> string \<Rightarrow> (int \<times> os \<times> kvserver) option" where
  "kvserver_del mem s srv key = do {
     lock \<leftarrow> kvcache_getlock (cache srv) key;
     if lock = None then None
     else do {
       (outcome, c) \<leftarrow> kvcache_del (cache srv) key;
       let srv1 = srv\<lparr>cache := c\<rparr>;
       check \<leftarrow> kvserver_del_check mem s srv1 key;
       if check = 0 then do {
         (outcome, s1) \<leftarrow> kvstore_del mem s (store srv1) key;
         Some (outcome, s1, srv1)
       } else Some (outcome, s, srv1)
     }
   }"

text \<open>\<open>now\<close> is the text of \<^verbatim>\<open>asctime\<close>; the copy needs one byte more than is allocated.\<close>

definition kvserver_get_info_message :: "cenv \<Rightarrow> string \<Rightarrow> kvserver \<Rightarrow> string option" where
  "kvserver_get_info_message env now srv = do {
     host \<leftarrow> hostname srv;
     let pt = (if port srv < 0 then CHR ''-'' # dec (nat (- port srv)) else dec (nat (port srv)));
     let buf = CHR ''{'' # host @ '', '' @ pt @ ''}'';
     let info = now @ buf;
     if length now + 1 > 1024 \<or> length buf + 1 > 256 \<or> length info + 1 > 1024 then None
     else if \<not> cmem env (length info) then None
     else if length info + 1 > usable env (length info) then None
     else Some info
   }"

section \<open>Handlers\<close>

definition set_outcome :: "int \<Rightarrow> kvmessage \<Rightarrow> kvmessage" where
  "set_outcome err resp = resp\<lparr>mmessage := Some (if err \<noteq> 0 then GETMSG err else MSG_SUCCESS)\<rparr>"

definition req_type :: "kvmessage \<Rightarrow> msgtype option" where
  "req_type req = (if mtype req < 0 then None else msgtype_of (nat (mtype req)))"

definition code :: "msgtype \<Rightarrow> int" where
  "code t = int (msgtype_code t)"

definition handle_getreq ::
    "cenv \<Rightarrow> os \<Rightarrow> kvserver \<Rightarrow> kvmessage \<Rightarrow> kvmessage \<Rightarrow> (kvmessage \<times> kvserver) option" where
  "handle_getreq env s srv req resp = do {
     key \<leftarrow> mkey req;
     (err, v, srv1) \<leftarrow> kvserver_get (cmem env) s srv key;
     Some (set_outcome err (if err = 0 then resp\<lparr>mtype := code GETRESP, mkey := Some key, mvalue := v\<rparr> else resp), srv1)
   }"

text \<open>The strings an entry's \<^verbatim>\<open>data\<close> is read as: the key and, behind it, the value, which is copied into
  a buffer of \<^const>\<open>MAX_VALLEN\<close> bytes. Reading past the entry sees \<open>beyond\<close>.\<close>

definition entry_strings :: "char list \<Rightarrow> logentry \<Rightarrow> (string \<times> string) option" where
  "entry_strings bs e = do {
     key \<leftarrow> c_string (le_data e @ bs);
     val \<leftarrow> c_string (drop (length key + 1) (le_data e @ bs));
     if length val + 1 > MAX_VALLEN then None else Some (key, val)
   }"

text \<open>\<^verbatim>\<open>COMMIT\<close>: the last entry of the log is redone. With no entry the pointer is uninitialised.\<close>

definition handle_commit ::
    "cenv \<Rightarrow> os \<Rightarrow> kvserver \<Rightarrow> kvmessage \<Rightarrow> (kvmessage \<times> os \<times> kvserver) option" where
  "handle_commit env s srv resp = do {
     (es, log) \<leftarrow> log_collect (cmem env) s (tpclog_iterate_begin (tlog srv));
     (_, s1, log1) \<leftarrow> tpclog_log (cmem env) s log COMMIT None None;
     let srv1 = srv\<lparr>tlog := log1\<rparr>;
     entry \<leftarrow> (if es = [] then None else last es);
     (key, val) \<leftarrow> entry_strings (beyond env) entry;
     (err, s2, srv2) \<leftarrow>
       (if unat (le_type entry) = msgtype_code PUTREQ then kvserver_put (cmem env) s1 srv1 key val
        else Some (junk env, s1, srv1));
     (err, s3, srv3) \<leftarrow>
       (if unat (le_type entry) = msgtype_code DELREQ then kvserver_del (cmem env) s2 srv2 key
        else Some (err, s2, srv2));
     Some (set_outcome err (resp\<lparr>mtype := code ACK\<rparr>), s3, srv3\<lparr>tpcstate := TPC_READY\<rparr>)
   }"

definition kvserver_handle_tpc ::
    "cenv \<Rightarrow> os \<Rightarrow> kvserver \<Rightarrow> kvmessage \<Rightarrow> kvmessage \<Rightarrow> (kvmessage \<times> os \<times> kvserver) option" where
  "kvserver_handle_tpc env s srv req resp0 =
     (let resp = resp0\<lparr>mtype := code RESP\<rparr> in
      case req_type req of
        Some GETREQ \<Rightarrow> map_option (\<lambda>(r, srv1). (r, s, srv1)) (handle_getreq env s srv req resp)
      | Some PUTREQ \<Rightarrow>
          if tpcstate srv = TPC_WAIT then Some (resp\<lparr>mmessage := Some ERRMSG_INVALID_REQUEST\<rparr>, s, srv)
          else do {
            (_, s1, log) \<leftarrow> tpclog_log (cmem env) s (tlog srv) PUTREQ (mkey req) (mvalue req);
            let srv1 = srv\<lparr>tlog := log\<rparr>;
            key \<leftarrow> mkey req;
            val \<leftarrow> mvalue req;
            let err = kvserver_put_check s1 srv1 key val;
            let resp1 = resp\<lparr>mkey := Some key, mvalue := Some val\<rparr>;
            Some (if err = 0
              then (set_outcome err (resp1\<lparr>mtype := code VOTE_COMMIT\<rparr>), s1, srv1\<lparr>tpcstate := TPC_WAIT\<rparr>)
              else (set_outcome err (resp1\<lparr>mtype := code VOTE_ABORT\<rparr>), s1, srv1\<lparr>tpcstate := TPC_READY\<rparr>))
          }
      | Some DELREQ \<Rightarrow>
          if tpcstate srv = TPC_WAIT then Some (resp\<lparr>mmessage := Some ERRMSG_INVALID_REQUEST\<rparr>, s, srv)
          else do {
            (_, s1, log) \<leftarrow> tpclog_log (cmem env) s (tlog srv) DELREQ (mkey req) None;
            let srv1 = srv\<lparr>tlog := log\<rparr>;
            key \<leftarrow> mkey req;
            err \<leftarrow> kvserver_del_check (cmem env) s1 srv1 key;
            let resp1 = resp\<lparr>mkey := Some key\<rparr>;
            Some (if err = 0
              then (set_outcome err (resp1\<lparr>mtype := code VOTE_COMMIT\<rparr>), s1, srv1\<lparr>tpcstate := TPC_WAIT\<rparr>)
              else (set_outcome err (resp1\<lparr>mtype := code VOTE_ABORT\<rparr>), s1, srv1\<lparr>tpcstate := TPC_READY\<rparr>))
          }
      | Some COMMIT \<Rightarrow> handle_commit env s srv resp
      | Some ABORT \<Rightarrow> do {
          (_, s1, log) \<leftarrow> tpclog_log (cmem env) s (tlog srv) ABORT None None;
          Some (set_outcome (junk env) (resp\<lparr>mtype := code ACK\<rparr>), s1, srv\<lparr>tlog := log, tpcstate := TPC_READY\<rparr>)
        }
      | _ \<Rightarrow> Some (set_outcome (junk env) resp, s, srv))"

definition kvserver_handle_no_tpc ::
    "cenv \<Rightarrow> os \<Rightarrow> kvserver \<Rightarrow> kvmessage \<Rightarrow> kvmessage \<Rightarrow> (kvmessage \<times> os \<times> kvserver) option" where
  "kvserver_handle_no_tpc env s srv req resp0 =
     (let resp = resp0\<lparr>mtype := code RESP\<rparr> in
      case req_type req of
        Some GETREQ \<Rightarrow> map_option (\<lambda>(r, srv1). (r, s, srv1)) (handle_getreq env s srv req resp)
      | Some PUTREQ \<Rightarrow> do {
          key \<leftarrow> mkey req;
          val \<leftarrow> mvalue req;
          (err, s1, srv1) \<leftarrow> kvserver_put (cmem env) s srv key val;
          Some (set_outcome err resp, s1, srv1)
        }
      | Some DELREQ \<Rightarrow> do {
          key \<leftarrow> mkey req;
          (err, s1, srv1) \<leftarrow> kvserver_del (cmem env) s srv key;
          Some (set_outcome err resp, s1, srv1)
        }
      | _ \<Rightarrow> Some (set_outcome (junk env) resp, s, srv))"

definition kvserver_handle ::
    "json_lib \<Rightarrow> cenv \<Rightarrow> os \<Rightarrow> kvserver \<Rightarrow> sock \<Rightarrow> (os \<times> kvserver \<times> sock) option" where
  "kvserver_handle lib env s srv sk = do {
     (req, sk1) \<leftarrow> kvmessage_parse lib (beyond env) sk;
     (resp, s1, srv1) \<leftarrow>
       (case req of
          None \<Rightarrow> Some (blank_message\<lparr>mtype := code RESP, mmessage := Some ERRMSG_INVALID_REQUEST\<rparr>, s, srv)
        | Some r \<Rightarrow>
            if use_tpc srv then kvserver_handle_tpc env s srv r blank_message
            else kvserver_handle_no_tpc env s srv r blank_message);
     Some (s1, srv1, snd (kvmessage_send lib resp sk1))
   }"

section \<open>Recovery and registration\<close>

text \<open>A connection is \<^term>\<open>None\<close> for the descriptor -1, on which nothing is sent.\<close>

definition send_msg :: "json_lib \<Rightarrow> sock option \<Rightarrow> msgtype \<Rightarrow> sock option" where
  "send_msg lib conn t = map_option (\<lambda>sk. snd (kvmessage_send lib (blank_message\<lparr>mtype := code t\<rparr>) sk)) conn"

definition is_decision :: "logentry \<Rightarrow> bool" where
  "is_decision e \<longleftrightarrow> unat (le_type e) = msgtype_code COMMIT \<or> unat (le_type e) = msgtype_code ABORT"

text \<open>\<open>conn\<close> is what \<^verbatim>\<open>connect_to\<close> returns for the host and port of the server itself. A NULL entry is dereferenced inside the loop; without
  entries the pointer is uninitialised, as is \<^verbatim>\<open>prev\<close> when there was no request.\<close>

definition kvserver_rebuild_state ::
    "json_lib \<Rightarrow> cenv \<Rightarrow> os \<Rightarrow> kvserver \<Rightarrow> sock option \<Rightarrow> (int \<times> os \<times> kvserver \<times> sock option) option" where
  "kvserver_rebuild_state lib env s srv conn = do {
     (es, log) \<leftarrow> log_collect (cmem env) s (tpclog_iterate_begin (tlog srv));
     let srv1 = srv\<lparr>tlog := log\<rparr>;
     if None \<in> set es \<or> es = [] then None
     else do {
       _ \<leftarrow> hostname srv1;
       entry \<leftarrow> last es;
       let reqs = filter (\<lambda>e. \<not> is_decision e) (map the es);
       if unat (le_type entry) = msgtype_code DELREQ then do {
         key \<leftarrow> c_string (le_data entry @ beyond env);
         check \<leftarrow> kvserver_del_check (cmem env) s srv1 key;
         Some (if check = 0 then (1, s, srv1\<lparr>tpcstate := TPC_WAIT\<rparr>, send_msg lib conn VOTE_COMMIT)
               else (1, s, srv1\<lparr>tpcstate := TPC_READY\<rparr>, send_msg lib conn VOTE_ABORT))
       }
       else if unat (le_type entry) = msgtype_code PUTREQ then do {
         (key, val) \<leftarrow> entry_strings (beyond env) entry;
         Some (if kvserver_put_check s srv1 key val = 0
               then (1, s, srv1\<lparr>tpcstate := TPC_WAIT\<rparr>, send_msg lib conn VOTE_COMMIT)
               else (1, s, srv1\<lparr>tpcstate := TPC_READY\<rparr>, send_msg lib conn VOTE_ABORT))
       }
       else if unat (le_type entry) = msgtype_code COMMIT then do {
         prev \<leftarrow> (if reqs = [] then None else Some (last reqs));
         (key, val) \<leftarrow> entry_strings (beyond env) prev;
         (_, s1, srv2) \<leftarrow>
           (if unat (le_type prev) = msgtype_code PUTREQ then kvserver_put (cmem env) s srv1 key val
            else Some (0, s, srv1));
         (_, s2, srv3) \<leftarrow>
           (if unat (le_type prev) = msgtype_code DELREQ then kvserver_del (cmem env) s1 srv2 key
            else Some (0, s1, srv2));
         Some (1, s2, srv3, send_msg lib conn ACK)
       }
       else Some (1, s, srv1, conn)
     }
   }"

definition kvserver_register_master ::
    "json_lib \<Rightarrow> cenv \<Rightarrow> kvserver \<Rightarrow> sock \<Rightarrow> (int \<times> sock) option" where
  "kvserver_register_master lib env srv sk = do {
     host \<leftarrow> hostname srv;
     let pt = (if port srv < 0 then CHR ''-'' # dec (nat (- port srv)) else dec (nat (port srv)));
     if length pt + 1 > 6 then None
     else do {
       let sk1 = snd (kvmessage_send lib
         \<lparr>mtype = code REGISTER, mkey = Some host, mvalue = Some pt, mmessage = None\<rparr> sk);
       (response, sk2) \<leftarrow> kvmessage_parse lib (beyond env) sk1;
       case response of
         None \<Rightarrow> Some (ERRINVLDMSG, sk2)
       | Some r \<Rightarrow> do {
           txt \<leftarrow> mmessage r;
           Some (if txt \<noteq> MSG_SUCCESS then ERRINVLDMSG else 0, sk2)
         }
     }
   }"

definition kvserver_clean :: "os \<Rightarrow> kvserver \<Rightarrow> (int \<times> os) option" where
  "kvserver_clean s srv = kvstore_clean s (store srv)"

section \<open>Cache and store\<close>

lemma store_rep_adm:
  assumes "store_rep s d m" "m k = Some v"
  shows "adm_key k" "adm_val v"
proof -
  obtain es where es: "chain_at s d (hash k) es" "m k = map_of es k" using store_repD[OF assms(1)] by metis
  then have "(k, v) \<in> set es" using assms(2) by (simp add: map_of_SomeD)
  then show "adm_key k" "adm_val v" using es(1) by (auto simp: chain_at_def chain_files_def)
qed

interpretation wt: write_through kc_map kc_wf kc_key kc_val "kvcache_get mem_ok" "kvcache_put mem_ok" kvcache_del
    "\<lambda>s. store_rep s (ks_dirname st)" adm_key adm_val "2 ^ 31 - 1"
    "\<lambda>s. kvstore_get mem_ok s st" "\<lambda>s. kvstore_put mem_ok s st" "\<lambda>s. kvstore_del mem_ok s st" for st
  by unfold_locales (auto simp: adm_key_def adm_val_def kc_key_def kc_val_def dest: store_rep_adm(2))

text \<open>The map a server stands for: its store's, of which the cache holds a part.\<close>

definition srv_rep :: "os \<Rightarrow> kvserver \<Rightarrow> (string \<rightharpoonup> string) \<Rightarrow> bool" where
  "srv_rep s srv m \<longleftrightarrow> kc_wf (cache srv) \<and> store_rep s (ks_dirname (store srv)) m \<and> kc_map (cache srv) \<subseteq>\<^sub>m m \<and>
     card (dom m) < 2 ^ 31 - 1"

lemma srv_rep_coherent: "srv_rep s srv m \<longleftrightarrow> wt.coherent (store srv) (cache srv) s m"
  unfolding srv_rep_def wt.coherent_def by blast

lemma kvserver_get_ok:
  assumes "srv_rep s srv m" "adm_key k"
  shows "\<exists>c. kvserver_get mem_ok s srv k = Some (if m k = None then ERRNOKEY else 0, m k, srv\<lparr>cache := c\<rparr>) \<and>
    srv_rep s (srv\<lparr>cache := c\<rparr>) m"
proof -
  note g = wt.coherent_get[OF assms(1)[unfolded srv_rep_coherent] assms(2)]
  have k: "\<not> length k > MAX_KEYLEN" using assms(2) by (simp add: adm_key_def)
  have same: "srv\<lparr>cache := cache srv\<rparr> = srv" by simp
  show ?thesis
  proof (cases "kc_map (cache srv) k")
    case (Some v)
    then show ?thesis using g k by (auto simp: kvserver_get_def srv_rep_coherent)
  next
    case None
    show ?thesis
    proof (cases "m k")
      case None
      with \<open>kc_map (cache srv) k = None\<close> show ?thesis
        using g k assms(1) same
        by (intro exI[of _ "cache srv"]) (simp add: kvserver_get_def kv_simps)
    next
      case (Some v)
      with \<open>kc_map (cache srv) k = None\<close> show ?thesis
        using g k by (auto simp: kvserver_get_def kv_simps srv_rep_coherent)
    qed
  qed
qed

lemma kvserver_put_ok:
  assumes "srv_rep s srv m" "adm_key k" "adm_val v" "card (dom m) + 1 < 2 ^ 31 - 1"
  shows "\<exists>s' c. kvserver_put mem_ok s srv k v = Some (0, s', srv\<lparr>cache := c\<rparr>) \<and>
    srv_rep s' (srv\<lparr>cache := c\<rparr>) (m(k \<mapsto> v)) \<and> touches_chain (ks_dirname (store srv)) (hash k) s s'"
proof -
  obtain s' c where p: "kvstore_put mem_ok s (store srv) k v = Some (0, s')"
    "kvcache_put mem_ok (cache srv) k v = Some (0, c)" "wt.coherent (store srv) c s' (m(k \<mapsto> v))"
    using wt.coherent_put[OF assms(1)[unfolded srv_rep_coherent] assms(2-4)] by blast
  have "kvstore_put_check s (store srv) k v = 0"
    using assms(1-3) by (simp add: kvstore_put_check_def adm_key_def adm_val_def srv_rep_def store_rep_def healthy_def stat_def)
  moreover have "kvcache_getlock (cache srv) k = Some (Some (set_index (cache srv) k))"
    using assms(1,2) get_cache_set_ok(1) by (simp add: kvcache_getlock_def adm_key_def srv_rep_def)
  ultimately show ?thesis
    using p kvstore_put_frame[OF p(1)] by (auto simp: kvserver_put_def kvserver_put_check_def srv_rep_coherent)
qed

lemma kvstore_del_check_ok:
  assumes "store_rep s (ks_dirname st) m" "adm_key k" "card (dom m) < 2 ^ 31 - 1"
  shows "kvstore_del_check mem_ok s st k = Some (if m k = None then ERRNOKEY else 0)"
  using kvstore_haskey_spec[OF assms] assms(1,2)
  by (simp add: kvstore_del_check_def adm_key_def store_rep_def healthy_def stat_def)

lemma kvserver_del_ok:
  assumes "srv_rep s srv m" "adm_key k"
  shows "\<exists>s' c. kvserver_del mem_ok s srv k = Some (if m k = None then ERRNOKEY else 0, s', srv\<lparr>cache := c\<rparr>) \<and>
    srv_rep s' (srv\<lparr>cache := c\<rparr>) (m(k := None)) \<and> touches_chain (ks_dirname (store srv)) (hash k) s s'"
proof -
  obtain r c where d: "kvcache_del (cache srv) k = Some (r, c)"
    "m k = None \<longrightarrow> r = ERRNOKEY \<and> wt.coherent (store srv) c s m"
    "m k \<noteq> None \<longrightarrow> (\<exists>s'. kvstore_del mem_ok s (store srv) k = Some (0, s') \<and> wt.coherent (store srv) c s' (m(k := None)))"
    using wt.coherent_del[OF assms(1)[unfolded srv_rep_coherent] assms(2)] by metis
  have l: "kvcache_getlock (cache srv) k = Some (Some (set_index (cache srv) k))"
    using assms(1,2) get_cache_set_ok(1) by (simp add: kvcache_getlock_def adm_key_def srv_rep_def)
  have ck: "kvserver_del_check mem_ok s (srv\<lparr>cache := c\<rparr>) k = Some (if m k = None then ERRNOKEY else 0)"
    using kvstore_del_check_ok[of s "store srv" m k] assms by (simp add: kvserver_del_check_def srv_rep_def)
  show ?thesis
  proof (cases "m k")
    case None
    then show ?thesis using d(1,2) l ck by (auto simp: kvserver_del_def srv_rep_coherent kv_simps fun_upd_idem)
  next
    case (Some v)
    then obtain s' where "kvstore_del mem_ok s (store srv) k = Some (0, s')"
      "wt.coherent (store srv) c s' (m(k := None))" using d(3) by auto
    then show ?thesis using d(1) l ck Some kvstore_del_frame by (auto simp: kvserver_del_def srv_rep_coherent)
  qed
qed

section \<open>The server without two-phase commit\<close>

datatype creq = CGET string | CPUT string string | CDEL string

fun creq_msg :: "creq \<Rightarrow> kvmessage" where
  "creq_msg (CGET k) = \<lparr>mtype = code GETREQ, mkey = Some k, mvalue = None, mmessage = None\<rparr>"
| "creq_msg (CPUT k v) = \<lparr>mtype = code PUTREQ, mkey = Some k, mvalue = Some v, mmessage = None\<rparr>"
| "creq_msg (CDEL k) = \<lparr>mtype = code DELREQ, mkey = Some k, mvalue = None, mmessage = None\<rparr>"

fun creq_adm :: "creq \<Rightarrow> bool" where
  "creq_adm (CGET k) \<longleftrightarrow> cstr k"
| "creq_adm (CPUT k v) \<longleftrightarrow> cstr k \<and> cstr v"
| "creq_adm (CDEL k) \<longleftrightarrow> cstr k"

text \<open>A delete of a longer key takes a lock that does not exist.\<close>

fun short_delete :: "creq \<Rightarrow> bool" where
  "short_delete (CDEL k) \<longleftrightarrow> length k \<le> MAX_KEYLEN"
| "short_delete _ \<longleftrightarrow> True"

fun serve :: "cenv \<Rightarrow> os \<Rightarrow> kvserver \<Rightarrow> creq list \<Rightarrow> (kvmessage list \<times> os \<times> kvserver) option" where
  "serve env s srv [] = Some ([], s, srv)"
| "serve env s srv (r # rs) = do {
     (resp, s1, srv1) \<leftarrow> kvserver_handle_no_tpc env s srv (creq_msg r) blank_message;
     (resps, s2, srv2) \<leftarrow> serve env s1 srv1 rs;
     Some (resp # resps, s2, srv2)
   }"

text \<open>What a client may expect: the answer to one request and the dictionary after it.\<close>

definition resp_msg :: "string \<Rightarrow> kvmessage" where
  "resp_msg t = \<lparr>mtype = code RESP, mkey = None, mvalue = None, mmessage = Some t\<rparr>"

fun reply :: "(string \<rightharpoonup> string) \<Rightarrow> creq \<Rightarrow> kvmessage \<times> (string \<rightharpoonup> string)" where
  "reply m (CGET k) =
     (if length k > MAX_KEYLEN then (resp_msg ERRMSG_KEY_LEN, m)
      else case m k of
        None \<Rightarrow> (resp_msg ERRMSG_NO_KEY, m)
      | Some v \<Rightarrow> (\<lparr>mtype = code GETRESP, mkey = Some k, mvalue = Some v, mmessage = Some MSG_SUCCESS\<rparr>, m))"
| "reply m (CPUT k v) =
     (if length k > MAX_KEYLEN then (resp_msg ERRMSG_KEY_LEN, m)
      else if length v > MAX_VALLEN then (resp_msg ERRMSG_VAL_LEN, m)
      else (resp_msg MSG_SUCCESS, m(k \<mapsto> v)))"
| "reply m (CDEL k) =
     (if m k = None then (resp_msg ERRMSG_NO_KEY, m) else (resp_msg MSG_SUCCESS, m(k := None)))"

fun replies :: "(string \<rightharpoonup> string) \<Rightarrow> creq list \<Rightarrow> kvmessage list \<times> (string \<rightharpoonup> string)" where
  "replies m [] = ([], m)"
| "replies m (r # rs) = (let (a, m1) = reply m r; (as, m2) = replies m1 rs in (a # as, m2))"

lemma req_type_code [simp]: "mtype req = code t \<Longrightarrow> req_type req = Some t"
  by (simp add: req_type_def code_def)

lemma set_outcome_resp:
  "set_outcome err (blank_message\<lparr>mtype := code RESP\<rparr>) = resp_msg (if err \<noteq> 0 then GETMSG err else MSG_SUCCESS)"
  by (simp add: set_outcome_def resp_msg_def blank_message_def)

lemma card_dom_upd: "finite (dom m) \<Longrightarrow> card (dom (m(k \<mapsto> v))) \<le> Suc (card (dom m))"
  by (simp add: card_insert_if)

lemma card_dom_del: "finite (dom m) \<Longrightarrow> card (dom (m(k := None))) \<le> card (dom m)"
  by (intro card_mono) auto

lemma srv_rep_finite: "srv_rep s srv m \<Longrightarrow> finite (dom m)"
  unfolding srv_rep_def using store_rep_finite by blast

lemma handle_no_tpc_ok:
  assumes "srv_rep s srv m" "creq_adm r" "cmem env = mem_ok" "card (dom m) + 1 < 2 ^ 31 - 1" "short_delete r"
  shows "\<exists>s' srv'. kvserver_handle_no_tpc env s srv (creq_msg r) blank_message = Some (fst (reply m r), s', srv') \<and>
    srv_rep s' srv' (snd (reply m r)) \<and> card (dom (snd (reply m r))) \<le> card (dom m) + 1"
proof (cases r)
  case (CGET k)
  show ?thesis
  proof (cases "length k > MAX_KEYLEN")
    case True
    then show ?thesis using CGET assms
      by (simp add: kvserver_handle_no_tpc_def handle_getreq_def kvserver_get_def set_outcome_resp GETMSG_def kv_simps)
  next
    case False
    then have "adm_key k" using assms(2) CGET by (simp add: adm_key_def)
    then obtain c where c: "kvserver_get mem_ok s srv k = Some (if m k = None then ERRNOKEY else 0, m k, srv\<lparr>cache := c\<rparr>)"
      "srv_rep s (srv\<lparr>cache := c\<rparr>) m" using kvserver_get_ok[OF assms(1)] by blast
    have "kvserver_handle_no_tpc env s srv (creq_msg r) blank_message = Some (fst (reply m r), s, srv\<lparr>cache := c\<rparr>)"
      using c(1) assms(3) CGET False
      by (cases "m k") (simp_all add: kvserver_handle_no_tpc_def handle_getreq_def set_outcome_resp GETMSG_def
          kv_simps, simp add: set_outcome_def blank_message_def)
    then show ?thesis using c(2) CGET False by (cases "m k") auto
  qed
next
  case (CPUT k v)
  show ?thesis
  proof (cases "length k > MAX_KEYLEN \<or> length v > MAX_VALLEN")
    case True
    then show ?thesis using CPUT assms
      by (auto simp: kvserver_handle_no_tpc_def kvserver_put_def kvserver_put_check_def kvstore_put_check_def
          set_outcome_resp GETMSG_def kv_simps)
  next
    case False
    then have "adm_key k" "adm_val v" using assms(2) CPUT by (simp_all add: adm_key_def adm_val_def)
    then obtain s' c where "kvserver_put mem_ok s srv k v = Some (0, s', srv\<lparr>cache := c\<rparr>)"
      "srv_rep s' (srv\<lparr>cache := c\<rparr>) (m(k \<mapsto> v))" using kvserver_put_ok[OF assms(1) _ _ assms(4)] by blast
    then show ?thesis
      using assms(3) CPUT False card_dom_upd[OF srv_rep_finite[OF assms(1)], of k v]
      by (simp add: kvserver_handle_no_tpc_def set_outcome_resp)
  qed
next
  case (CDEL k)
  then have "adm_key k" using assms(2,5) by (simp add: adm_key_def)
  then obtain s' c where c: "kvserver_del mem_ok s srv k = Some (if m k = None then ERRNOKEY else 0, s', srv\<lparr>cache := c\<rparr>)"
    "srv_rep s' (srv\<lparr>cache := c\<rparr>) (m(k := None))" using kvserver_del_ok[OF assms(1)] by blast
  have "card (dom (snd (reply m r))) \<le> card (dom m) + 1"
    using CDEL card_dom_del[OF srv_rep_finite[OF assms(1)], of k] by simp
  moreover have "snd (reply m r) = m(k := None)" using CDEL by (simp add: fun_upd_idem)
  ultimately show ?thesis
    using c assms(3) CDEL
    by (cases "m k") (simp_all add: kvserver_handle_no_tpc_def set_outcome_resp GETMSG_def kv_simps)
qed

lemma handle_long_delete: "\<not> short_delete r \<Longrightarrow> kvserver_handle_no_tpc env s srv (creq_msg r) resp = None"
  by (cases r) (simp_all add: kvserver_handle_no_tpc_def kvserver_del_def kvcache_getlock_def)

lemma serve_ok:
  assumes "srv_rep s srv m" "list_all creq_adm rs" "cmem env = mem_ok" "card (dom m) + length rs < 2 ^ 31 - 1"
  shows "if list_all short_delete rs
    then \<exists>s' srv'. serve env s srv rs = Some (fst (replies m rs), s', srv') \<and> srv_rep s' srv' (snd (replies m rs))
    else serve env s srv rs = None"
  using assms
proof (induction rs arbitrary: s srv m)
  case (Cons r rs)
  show ?case
  proof (cases "short_delete r")
    case True
    obtain s1 srv1 where h: "kvserver_handle_no_tpc env s srv (creq_msg r) blank_message = Some (fst (reply m r), s1, srv1)"
      "srv_rep s1 srv1 (snd (reply m r))" "card (dom (snd (reply m r))) \<le> card (dom m) + 1"
      using handle_no_tpc_ok[OF Cons.prems(1) _ _ _ True, of env] Cons.prems by auto
    have "if list_all short_delete rs
      then \<exists>s2 srv2. serve env s1 srv1 rs = Some (fst (replies (snd (reply m r)) rs), s2, srv2) \<and> srv_rep s2 srv2 (snd (replies (snd (reply m r)) rs))
      else serve env s1 srv1 rs = None"
      using Cons.IH[OF h(2)] Cons.prems h(3) by simp
    then show ?thesis using h(1) True by (auto simp: case_prod_beta Let_def split: if_splits)
  qed (simp add: handle_long_delete)
qed simp

section \<open>The two-phase-commit participant\<close>

text \<open>The abstract participant: a dictionary and at most one prepared request.\<close>

datatype phase = Idle | Prepared logrec

fun can_commit :: "(string \<rightharpoonup> string) \<Rightarrow> logrec \<Rightarrow> bool" where
  "can_commit m (LPut k v) \<longleftrightarrow> length k \<le> MAX_KEYLEN \<and> length v \<le> MAX_VALLEN"
| "can_commit m (LDel k) \<longleftrightarrow> length k \<le> MAX_KEYLEN \<and> m k \<noteq> None"
| "can_commit m _ \<longleftrightarrow> False"

fun apply_rec :: "(string \<rightharpoonup> string) \<Rightarrow> logrec \<Rightarrow> (string \<rightharpoonup> string)" where
  "apply_rec m (LPut k v) = m(k \<mapsto> v)"
| "apply_rec m (LDel k) = m(k := None)"
| "apply_rec m _ = m"

fun rec_msg :: "logrec \<Rightarrow> kvmessage" where
  "rec_msg (LPut k v) = \<lparr>mtype = code PUTREQ, mkey = Some k, mvalue = Some v, mmessage = None\<rparr>"
| "rec_msg (LDel k) = \<lparr>mtype = code DELREQ, mkey = Some k, mvalue = None, mmessage = None\<rparr>"
| "rec_msg LAbort = \<lparr>mtype = code ABORT, mkey = None, mvalue = None, mmessage = None\<rparr>"
| "rec_msg LCommit = \<lparr>mtype = code COMMIT, mkey = None, mvalue = None, mmessage = None\<rparr>"

fun is_request :: "logrec \<Rightarrow> bool" where
  "is_request (LPut _ _) \<longleftrightarrow> True"
| "is_request (LDel _) \<longleftrightarrow> True"
| "is_request _ \<longleftrightarrow> False"

definition part_rep :: "os \<Rightarrow> kvserver \<Rightarrow> (string \<rightharpoonup> string) \<Rightarrow> phase \<Rightarrow> logrec list \<Rightarrow> bool" where
  "part_rep s srv m ph rs \<longleftrightarrow> srv_rep s srv m \<and> log_rep s (tlog srv) (ks_dirname (store srv)) rs \<and>
     (case ph of Idle \<Rightarrow> tpcstate srv \<noteq> TPC_WAIT
      | Prepared r \<Rightarrow> tpcstate srv = TPC_WAIT \<and> rs \<noteq> [] \<and> last rs = r \<and> can_commit m r)"

text \<open>What the commit of a logged request needs: a value that fits the buffer, and readable memory
  with a terminator behind the entry of a delete, which is read although it has no value.\<close>

fun commit_safe :: "char list \<Rightarrow> logrec \<Rightarrow> bool" where
  "commit_safe bs (LPut k v) \<longleftrightarrow> length v < MAX_VALLEN"
| "commit_safe bs (LDel k) \<longleftrightarrow> (case c_string bs of None \<Rightarrow> False | Some u \<Rightarrow> length u < MAX_VALLEN)"
| "commit_safe bs _ \<longleftrightarrow> False"

lemma srv_rep_tlog [simp]:
  "srv_rep s (srv\<lparr>tlog := l\<rparr>) m = srv_rep s srv m" "srv_rep s (srv\<lparr>tpcstate := t\<rparr>) m = srv_rep s srv m"
  by (simp_all add: srv_rep_def)

lemma log_step:
  assumes "srv_rep s srv m" "log_rep s log (ks_dirname (store srv)) rs" "rec_adm r" "length rs < 2 ^ 64"
  shows "\<exists>s' log'. tpclog_log mem_ok s log (rec_type r) (rec_key r) (rec_val r) = Some (0, s', log') \<and>
    log_rep s' log' (ks_dirname (store srv)) (rs @ [r]) \<and> srv_rep s' srv m"
proof -
  let ?d = "ks_dirname (store srv)"
  obtain s' log' where l: "tpclog_log mem_ok s log (rec_type r) (rec_key r) (rec_val r) = Some (0, s', log')"
    "log_rep s' log' ?d (rs @ [r])" "fault s' = fault s" "wlimit s' = wlimit s"
    "\<And>p. (\<forall>n. p \<noteq> log_path ?d n) \<Longrightarrow> lookup s' p = lookup s p"
    using tpclog_log_appends[OF assms(2-4)] by blast
  have "store_rep s' ?d m"
    using store_rep_frame[OF _ l(3,4,5)] assms(1) unfolding srv_rep_def by blast
  then show ?thesis using l(1,2) assms(1) unfolding srv_rep_def by blast
qed

lemma log_rep_chain:
  assumes "log_rep s log d rs" "touches_chain d h s s'"
  shows "log_rep s' log d rs"
  using assms by (intro log_rep_frame[OF assms(1)]) (auto simp: touches_chain_def)

lemma put_check_iff:
  assumes "srv_rep s srv m"
  shows "kvserver_put_check s srv k v = 0 \<longleftrightarrow> can_commit m (LPut k v)"
  using assms by (auto simp: kvserver_put_check_def kvstore_put_check_def srv_rep_def store_rep_def healthy_def
      stat_def kv_simps)

lemma del_check_iff:
  assumes "srv_rep s srv m" "cstr k"
  shows "\<exists>r. kvserver_del_check mem_ok s srv k = Some r \<and> (r = 0 \<longleftrightarrow> can_commit m (LDel k))"
proof (cases "length k \<le> MAX_KEYLEN")
  case True
  then have "adm_key k" using assms(2) by (simp add: adm_key_def)
  then show ?thesis
    using kvstore_del_check_ok[of s "store srv" m k] assms(1) True
    by (auto simp: kvserver_del_check_def srv_rep_def kv_simps)
qed (simp add: kvserver_del_check_def kvstore_del_check_def kv_simps)

lemma handle_prepare:
  assumes "part_rep s srv m Idle rs" "is_request r" "rec_adm r" "length rs < 2 ^ 64" "cmem env = mem_ok"
  shows "\<exists>resp s' srv'. kvserver_handle_tpc env s srv (rec_msg r) blank_message = Some (resp, s', srv') \<and>
    part_rep s' srv' m (if can_commit m r then Prepared r else Idle) (rs @ [r]) \<and>
    mtype resp = code (if can_commit m r then VOTE_COMMIT else VOTE_ABORT) \<and> store srv' = store srv"
proof -
  have st: "tpcstate srv \<noteq> TPC_WAIT" "srv_rep s srv m" "log_rep s (tlog srv) (ks_dirname (store srv)) rs"
    using assms(1) by (auto simp: part_rep_def)
  obtain s' log' where l: "tpclog_log mem_ok s (tlog srv) (rec_type r) (rec_key r) (rec_val r) = Some (0, s', log')"
    "log_rep s' log' (ks_dirname (store srv)) (rs @ [r])" "srv_rep s' srv m"
    using log_step[OF st(2,3) assms(3,4)] by blast
  have l3: "srv_rep s' (srv\<lparr>tlog := log'\<rparr>) m" using l(3) by simp
  show ?thesis
  proof (cases r)
    case (LPut k v)
    then show ?thesis
      using l st(1) assms(5) put_check_iff[OF l3, of k v]
      by (auto simp: kvserver_handle_tpc_def part_rep_def set_outcome_def Let_def)
  next
    case (LDel k)
    then obtain c where "kvserver_del_check mem_ok s' (srv\<lparr>tlog := log'\<rparr>) k = Some c" "c = 0 \<longleftrightarrow> can_commit m r"
      using del_check_iff[OF l3, of k] assms(3) by auto
    then show ?thesis
      using LDel l st(1) assms(5)
      by (auto simp: kvserver_handle_tpc_def part_rep_def set_outcome_def Let_def simp del: can_commit.simps)
  qed (use assms(2) in auto)
qed

lemma entry_strings_rec:
  assumes "commit_safe bs r" "rec_adm r"
  shows "\<exists>v. entry_strings bs (rec_entry r) = Some (the (rec_key r), v) \<and> (\<forall>w. rec_val r = Some w \<longrightarrow> v = w)"
proof (cases r)
  case (LPut k v)
  have "c_string ((k @ NUL # v @ [NUL]) @ bs) = Some k" "c_string (drop (length k + 1) ((k @ NUL # v @ [NUL]) @ bs)) = Some v"
    using assms(2) LPut c_string_append[of k "v @ NUL # bs"] c_string_append[of v bs] by simp_all
  then show ?thesis using LPut assms(1) by (simp add: entry_strings_def del: append_assoc)
next
  case (LDel k)
  have "c_string ((k @ [NUL]) @ bs) = Some k" "drop (length k + 1) ((k @ [NUL]) @ bs) = bs"
    using assms(2) LDel c_string_append[of k bs] by simp_all
  then show ?thesis
    using LDel assms(1) by (auto simp: entry_strings_def simp del: append_assoc split: option.splits)
qed (use assms in auto)

lemma entry_strings_unsafe:
  assumes "\<not> commit_safe bs r" "rec_adm r" "is_request r"
  shows "entry_strings bs (rec_entry r) = None"
proof (cases r)
  case (LPut k v)
  have "c_string ((k @ NUL # v @ [NUL]) @ bs) = Some k" "c_string (drop (length k + 1) ((k @ NUL # v @ [NUL]) @ bs)) = Some v"
    using assms(2) LPut c_string_append[of k "v @ NUL # bs"] c_string_append[of v bs] by simp_all
  then show ?thesis using LPut assms(1) by (simp add: entry_strings_def del: append_assoc)
next
  case (LDel k)
  have "c_string ((k @ [NUL]) @ bs) = Some k" "drop (length k + 1) ((k @ [NUL]) @ bs) = bs"
    using assms(2) LDel c_string_append[of k bs] by simp_all
  then show ?thesis using LDel assms(1) by (auto simp: entry_strings_def simp del: append_assoc split: option.splits)
qed (use assms(3) in auto)

definition adm_request :: "logrec \<Rightarrow> bool" where
  "adm_request r \<longleftrightarrow> (case r of LPut k v \<Rightarrow> adm_key k \<and> adm_val v | LDel k \<Rightarrow> adm_key k | _ \<Rightarrow> False)"

lemma can_commit_adm: "can_commit m r \<Longrightarrow> rec_adm r \<Longrightarrow> adm_request r"
  by (cases r) (simp_all add: adm_request_def adm_key_def adm_val_def)

text \<open>Doing (or redoing) a logged request.\<close>

definition redo :: "(nat \<Rightarrow> bool) \<Rightarrow> os \<Rightarrow> kvserver \<Rightarrow> logrec \<Rightarrow> (int \<times> os \<times> kvserver) option" where
  "redo mem s srv r = (case r of LPut k v \<Rightarrow> kvserver_put mem s srv k v | LDel k \<Rightarrow> kvserver_del mem s srv k | _ \<Rightarrow> None)"

lemma redo_ok:
  assumes "srv_rep s srv m" "adm_request r" "card (dom m) + 1 < 2 ^ 31 - 1" "log_rep s log (ks_dirname (store srv)) rs"
  shows "\<exists>e s' c. redo mem_ok s srv r = Some (e, s', srv\<lparr>cache := c\<rparr>) \<and> srv_rep s' (srv\<lparr>cache := c\<rparr>) (apply_rec m r) \<and>
    log_rep s' log (ks_dirname (store srv)) rs \<and> (can_commit m r \<longrightarrow> e = 0)"
proof (cases r)
  case (LPut k v)
  then have "adm_key k" "adm_val v" using assms(2) by (simp_all add: adm_request_def)
  then show ?thesis
    using kvserver_put_ok[OF assms(1) _ _ assms(3)] log_rep_chain[OF assms(4)] LPut by (fastforce simp: redo_def)
next
  case (LDel k)
  then have "adm_key k" using assms(2) by (simp add: adm_request_def)
  then show ?thesis
    using kvserver_del_ok[OF assms(1), of k] log_rep_chain[OF assms(4)] LDel by (fastforce simp: redo_def)
qed (use assms in \<open>auto simp: adm_request_def\<close>)

lemma log_rep_adm: "log_rep s log d rs \<Longrightarrow> r \<in> set rs \<Longrightarrow> rec_adm r"
  by (auto simp: log_rep_def log_at_def list_all_iff)

lemma log_rep_iterpos [simp]: "log_rep s (log\<lparr>iterpos := n\<rparr>) d rs = log_rep s log d rs"
  by (simp add: log_rep_def)

lemma rec_type_request:
  "is_request r \<Longrightarrow> (msgtype_code (rec_type r) = msgtype_code PUTREQ \<longleftrightarrow> (\<exists>k v. r = LPut k v)) \<and>
    (msgtype_code (rec_type r) = msgtype_code DELREQ \<longleftrightarrow> (\<exists>k. r = LDel k))"
  by (cases r) auto

lemma handle_commit_ok:
  assumes "part_rep s srv m (Prepared r) rs" "commit_safe (beyond env) r" "length rs < 2 ^ 64"
    "card (dom m) + 1 < 2 ^ 31 - 1" "cmem env = mem_ok"
  shows "\<exists>s' srv'. kvserver_handle_tpc env s srv (rec_msg LCommit) blank_message =
      Some (\<lparr>mtype = code ACK, mkey = None, mvalue = None, mmessage = Some MSG_SUCCESS\<rparr>, s', srv') \<and>
    part_rep s' srv' (apply_rec m r) Idle (rs @ [LCommit])"
proof -
  let ?d = "ks_dirname (store srv)"
  have p: "srv_rep s srv m" "log_rep s (tlog srv) ?d rs" "rs \<noteq> []" "last rs = r" "can_commit m r"
    using assms(1) by (auto simp: part_rep_def)
  have adm: "rec_adm r" using log_rep_adm[OF p(2), of r] p(3,4) by auto
  let ?log = "(tlog srv)\<lparr>iterpos := length rs\<rparr>"
  obtain s1 log1 where l: "tpclog_log mem_ok s ?log COMMIT None None = Some (0, s1, log1)"
    "log_rep s1 log1 ?d (rs @ [LCommit])" "srv_rep s1 srv m"
    using log_step[OF p(1), of ?log rs LCommit] p(2) assms(3) by auto
  let ?srv = "srv\<lparr>tlog := log1\<rparr>"
  obtain v where v: "entry_strings (beyond env) (rec_entry r) = Some (the (rec_key r), v)"
    "\<And>w. rec_val r = Some w \<Longrightarrow> v = w" using entry_strings_rec[OF assms(2) adm] by blast
  obtain s2 c where r: "redo mem_ok s1 ?srv r = Some (0, s2, ?srv\<lparr>cache := c\<rparr>)"
    "srv_rep s2 (?srv\<lparr>cache := c\<rparr>) (apply_rec m r)" "log_rep s2 log1 ?d (rs @ [LCommit])"
    using redo_ok[of s1 ?srv m r log1 "rs @ [LCommit]"] l(2,3) can_commit_adm[OF p(5) adm] assms(4) p(5) by auto
  have last: "last (map (Some \<circ> rec_entry) rs) = Some (rec_entry r)" using p(3,4) by (simp add: last_map)
  let ?srv' = "?srv\<lparr>cache := c, tpcstate := TPC_READY\<rparr>"
  have "kvserver_handle_tpc env s srv (rec_msg LCommit) blank_message =
      Some (set_outcome 0 (blank_message\<lparr>mtype := code ACK\<rparr>), s2, ?srv')"
    using log_collect_begin[OF p(2) assms(3)] l(1) v r(1) last p(3,5) assms(5)
    by (cases r) (simp_all add: kvserver_handle_tpc_def handle_commit_def redo_def Let_def)
  moreover have "part_rep s2 ?srv' (apply_rec m r) Idle (rs @ [LCommit])"
    using r(2,3) by (simp add: part_rep_def srv_rep_def)
  ultimately show ?thesis by (simp add: set_outcome_def blank_message_def)
qed

lemma handle_commit_unsafe:
  assumes "part_rep s srv m (Prepared r) rs" "\<not> commit_safe (beyond env) r" "length rs < 2 ^ 64" "cmem env = mem_ok" "req_type req = Some COMMIT"
  shows "kvserver_handle_tpc env s srv req blank_message = None"
proof -
  have p: "log_rep s (tlog srv) (ks_dirname (store srv)) rs" "rs \<noteq> []" "last rs = r" "can_commit m r"
    using assms(1) by (auto simp: part_rep_def)
  have "rec_adm r" using log_rep_adm[OF p(1), of r] p(3) last_in_set[OF p(2)] by simp
  moreover have "is_request r" using p(4) by (cases r) simp_all
  ultimately have "entry_strings (beyond env) (rec_entry r) = None" by (rule entry_strings_unsafe[OF assms(2)])
  moreover have "last (map (Some \<circ> rec_entry) rs) = Some (rec_entry r)" using p(2,3) by (simp add: last_map)
  ultimately show ?thesis
    using log_collect_begin[OF p(1) assms(3)] assms(4,5) by (auto simp: kvserver_handle_tpc_def handle_commit_def bind_eq_None_conv)
qed

lemma handle_abort_ok:
  assumes "part_rep s srv m ph rs" "length rs < 2 ^ 64" "cmem env = mem_ok"
  shows "\<exists>resp s' srv'. kvserver_handle_tpc env s srv (rec_msg LAbort) blank_message = Some (resp, s', srv') \<and>
    mtype resp = code ACK \<and> part_rep s' srv' m Idle (rs @ [LAbort])"
proof -
  have p: "srv_rep s srv m" "log_rep s (tlog srv) (ks_dirname (store srv)) rs" using assms(1) by (auto simp: part_rep_def)
  obtain s1 log1 where l: "tpclog_log mem_ok s (tlog srv) ABORT None None = Some (0, s1, log1)"
    "log_rep s1 log1 (ks_dirname (store srv)) (rs @ [LAbort])" "srv_rep s1 srv m"
    using log_step[OF p, of LAbort] assms(2) by auto
  then show ?thesis using assms(3) by (simp add: kvserver_handle_tpc_def part_rep_def set_outcome_def srv_rep_def)
qed

lemma handle_prepare_busy:
  assumes "part_rep s srv m (Prepared r) rs" "is_request r'"
  shows "\<exists>resp. kvserver_handle_tpc env s srv (rec_msg r') blank_message = Some (resp, s, srv) \<and> mtype resp = code RESP"
  using assms by (cases r') (auto simp: kvserver_handle_tpc_def part_rep_def)

text \<open>The abstract participant answers each message of the coordinator with a message type.\<close>

fun part_step :: "(string \<rightharpoonup> string) \<times> phase \<Rightarrow> logrec \<Rightarrow> msgtype \<times> (string \<rightharpoonup> string) \<times> phase" where
  "part_step (m, Prepared r) LCommit = (ACK, apply_rec m r, Idle)"
| "part_step (m, Idle) LCommit = (ACK, m, Idle)"
| "part_step (m, ph) LAbort = (ACK, m, Idle)"
| "part_step (m, Idle) r = (if can_commit m r then (VOTE_COMMIT, m, Prepared r) else (VOTE_ABORT, m, Idle))"
| "part_step (m, Prepared r') r = (RESP, m, Prepared r')"

fun part_run :: "(string \<rightharpoonup> string) \<times> phase \<Rightarrow> logrec list \<Rightarrow> msgtype list \<times> (string \<rightharpoonup> string) \<times> phase" where
  "part_run st [] = ([], st)"
| "part_run st (i # is) = (let (t, st1) = part_step st i; (ts, st2) = part_run st1 is in (t # ts, st2))"

text \<open>Inputs a coordinator that follows the protocol sends: a commit only to a prepared participant.\<close>

fun protocol :: "(string \<rightharpoonup> string) \<times> phase \<Rightarrow> logrec list \<Rightarrow> bool" where
  "protocol st [] \<longleftrightarrow> True"
| "protocol st (i # is) \<longleftrightarrow> rec_adm i \<and> (i = LCommit \<longrightarrow> snd st \<noteq> Idle) \<and> protocol (snd (part_step st i)) is"

text \<open>Whether all the commits among them are safe.\<close>

fun commits_safe :: "char list \<Rightarrow> (string \<rightharpoonup> string) \<times> phase \<Rightarrow> logrec list \<Rightarrow> bool" where
  "commits_safe bs st [] \<longleftrightarrow> True"
| "commits_safe bs st (i # is) \<longleftrightarrow>
     (i = LCommit \<longrightarrow> (case snd st of Idle \<Rightarrow> True | Prepared r \<Rightarrow> commit_safe bs r)) \<and> commits_safe bs (snd (part_step st i)) is"

fun tpc_serve :: "cenv \<Rightarrow> os \<Rightarrow> kvserver \<Rightarrow> logrec list \<Rightarrow> (kvmessage list \<times> os \<times> kvserver) option" where
  "tpc_serve env s srv [] = Some ([], s, srv)"
| "tpc_serve env s srv (i # is) = do {
     (resp, s1, srv1) \<leftarrow> kvserver_handle_tpc env s srv (rec_msg i) blank_message;
     (resps, s2, srv2) \<leftarrow> tpc_serve env s1 srv1 is;
     Some (resp # resps, s2, srv2)
   }"

lemma part_rep_finite: "part_rep s srv m ph rs \<Longrightarrow> finite (dom m)"
  unfolding part_rep_def using srv_rep_finite by blast

lemma card_apply_rec: "finite (dom m) \<Longrightarrow> card (dom (apply_rec m r)) \<le> card (dom m) + 1"
proof (cases r)
  case (LPut k v)
  then show ?thesis if "finite (dom m)" using card_dom_upd[OF that, of k v] by simp
next
  case (LDel k)
  then show ?thesis if "finite (dom m)" using card_dom_del[OF that, of k] by simp
qed simp_all

lemma part_sim:
  assumes "part_rep s srv m ph rs" "protocol (m, ph) [i]" "length rs < 2 ^ 64"
    "card (dom m) + 1 < 2 ^ 31 - 1" "cmem env = mem_ok" "part_step (m, ph) i = (t, m', ph')" "commits_safe (beyond env) (m, ph) [i]"
  shows "\<exists>resp s' srv' rs'. kvserver_handle_tpc env s srv (rec_msg i) blank_message = Some (resp, s', srv') \<and>
    mtype resp = code t \<and> part_rep s' srv' m' ph' rs' \<and> length rs' \<le> length rs + 1 \<and> card (dom m') \<le> card (dom m) + 1"
proof (cases i)
  case LCommit
  then obtain r where r: "ph = Prepared r" "commit_safe (beyond env) r"
    using assms(2,7) by (cases ph) auto
  then show ?thesis
    using handle_commit_ok[OF assms(1)[unfolded r(1)] r(2) assms(3-5)] LCommit assms(6)
      card_apply_rec[OF part_rep_finite[OF assms(1)], of r] by (fastforce intro: exI[of _ "rs @ [LCommit]"])
next
  case LAbort
  then have "m' = m" "ph' = Idle" "t = ACK" using assms(6) by (cases ph; simp)+
  then show ?thesis using handle_abort_ok[OF assms(1,3,5)] LAbort by (fastforce intro: exI[of _ "rs @ [LAbort]"])
next
  case (LPut k v)
  then show ?thesis
    using handle_prepare[of s srv m rs i env] handle_prepare_busy[of s srv m _ rs i env] assms
    by (cases ph) (fastforce intro: exI[of _ "rs @ [i]"] split: if_splits)+
next
  case (LDel k)
  then show ?thesis
    using handle_prepare[of s srv m rs i env] handle_prepare_busy[of s srv m _ rs i env] assms
    by (cases ph) (fastforce intro: exI[of _ "rs @ [i]"] split: if_splits)+
qed

lemma part_run_sim:
  assumes "part_rep s srv m ph rs" "protocol (m, ph) is" "length rs + length is < 2 ^ 64"
    "card (dom m) + length is < 2 ^ 31 - 1" "cmem env = mem_ok" "part_run (m, ph) is = (ts, m', ph')"
  shows "if commits_safe (beyond env) (m, ph) is
    then \<exists>resps s' srv' rs'. tpc_serve env s srv is = Some (resps, s', srv') \<and> map mtype resps = map code ts \<and> part_rep s' srv' m' ph' rs'
    else tpc_serve env s srv is = None"
  using assms
proof (induction "is" arbitrary: s srv m ph rs ts)
  case Nil
  then show ?case by auto
next
  case (Cons i js)
  obtain t m1 ph1 where st: "part_step (m, ph) i = (t, m1, ph1)" by (metis prod_cases3)
  obtain ts' where ts: "part_run (m1, ph1) js = (ts', m', ph')" "ts = t # ts'"
    using Cons.prems(6) st by (cases "part_run (m1, ph1) js") (auto simp: Let_def)
  have pr: "protocol (m, ph) [i]" "protocol (m1, ph1) js" using Cons.prems(2) st by auto
  have b: "length rs < 2 ^ 64" "card (dom m) + 1 < 2 ^ 31 - 1" using Cons.prems(3,4) by simp_all
  show ?case
  proof (cases "commits_safe (beyond env) (m, ph) [i]")
    case True
    obtain resp s1 srv1 rs1 where h: "kvserver_handle_tpc env s srv (rec_msg i) blank_message = Some (resp, s1, srv1)"
      "mtype resp = code t" "part_rep s1 srv1 m1 ph1 rs1" "length rs1 \<le> length rs + 1" "card (dom m1) \<le> card (dom m) + 1"
      using part_sim[OF Cons.prems(1) pr(1) b Cons.prems(5) st True] by blast
    have "if commits_safe (beyond env) (m1, ph1) js
      then \<exists>resps s' srv' rs'. tpc_serve env s1 srv1 js = Some (resps, s', srv') \<and> map mtype resps = map code ts' \<and> part_rep s' srv' m' ph' rs'
      else tpc_serve env s1 srv1 js = None"
      using Cons.IH[OF h(3) pr(2) _ _ Cons.prems(5) ts(1)] Cons.prems(3,4) h(4,5) by simp
    then show ?thesis using h(1,2) ts(2) True st by (auto split: if_splits)
  next
    case False
    then obtain r where r: "i = LCommit" "ph = Prepared r" "\<not> commit_safe (beyond env) r" by (auto split: phase.splits)
    have "kvserver_handle_tpc env s srv (rec_msg i) blank_message = None"
      using handle_commit_unsafe[OF Cons.prems(1)[unfolded r(2)] r(3) b(1) Cons.prems(5)] r(1) by simp
    then show ?thesis using False by simp
  qed
qed

section \<open>Restart\<close>

lemma kvserver_init_restart:
  assumes "store_rep s d m" "log_ok s d" "log_at s d rs" "length rs < 2 ^ 64" "nsets \<noteq> 0" "2 \<le> n"
    "\<forall>i. 0 \<le> lockret i" "card (dom m) < 2 ^ 31 - 1"
  shows "\<exists>srv. kvserver_init mem_ok lockret s srv0 d nsets n nt host pt True = Some (0, s, srv) \<and>
    part_rep s srv m Idle rs \<and> ks_dirname (store srv) = d \<and> hostname srv = Some host"
proof -
  obtain c where c: "kvcache_init mem_ok lockret (cache srv0) nsets n = (0, c)" "kc_wf c" "kc_map c = Map.empty"
    using kvcache_init_ok[OF assms(5-7)] by blast
  obtain log where l: "tpclog_init mem_ok s (tlog srv0) d = Some (0, s, log)" "log_rep s log d rs"
    using tpclog_init_recovers[OF assms(2-4)] by blast
  show ?thesis
    using c l kvstore_init_reopen[OF assms(1)] assms(1,8) by (auto simp: kvserver_init_def part_rep_def srv_rep_def)
qed

lemma rec_entry_decision: "is_decision (rec_entry r) \<longleftrightarrow> \<not> is_request r"
  by (cases r) (simp_all add: is_decision_def)

lemma None_not_Some [simp]: "None \<notin> (\<lambda>x. Some (f x)) ` A"
  by auto

text \<open>A prepared request that the recovery can read: a put whose value fits the buffer, and every delete.\<close>

fun rebuild_safe :: "logrec \<Rightarrow> bool" where
  "rebuild_safe (LPut k v) \<longleftrightarrow> length v < MAX_VALLEN"
| "rebuild_safe _ \<longleftrightarrow> True"

lemma rebuild_prepared:
  assumes "part_rep s srv m Idle rs" "rs \<noteq> []" "last rs = r" "can_commit m r" "length rs < 2 ^ 64" "cmem env = mem_ok" "hostname srv = Some host"
  shows "if rebuild_safe r
    then \<exists>srv'. kvserver_rebuild_state lib env s srv conn = Some (1, s, srv', send_msg lib conn VOTE_COMMIT) \<and> part_rep s srv' m (Prepared r) rs
    else kvserver_rebuild_state lib env s srv conn = None"
proof -
  have p: "srv_rep s srv m" "log_rep s (tlog srv) (ks_dirname (store srv)) rs" using assms(1) by (auto simp: part_rep_def)
  have adm: "rec_adm r" using log_rep_adm[OF p(2), of r] assms(2,3) by auto
  let ?srv = "srv\<lparr>tlog := (tlog srv)\<lparr>iterpos := length rs\<rparr>\<rparr>"
  have p1: "srv_rep s ?srv m" using p(1) by simp
  have last: "last (map (Some \<circ> rec_entry) rs) = Some (rec_entry r)" using assms(2,3) by (simp add: last_map)
  note col = log_collect_begin[OF p(2) assms(5)] last
  have wait: "part_rep s (?srv\<lparr>tpcstate := TPC_WAIT\<rparr>) m (Prepared r) rs" using p assms(2-4) by (auto simp: part_rep_def)
  show ?thesis
  proof (cases r)
    case (LPut k w)
    show ?thesis
    proof (cases "length w < MAX_VALLEN")
      case True
      then have "entry_strings (beyond env) (rec_entry r) = Some (k, w)" using entry_strings_rec[of "beyond env" r] adm LPut by auto
      then have "kvserver_rebuild_state lib env s srv conn = Some (1, s, ?srv\<lparr>tpcstate := TPC_WAIT\<rparr>, send_msg lib conn VOTE_COMMIT)"
        using col put_check_iff[OF p1, of k w] assms(2,4,6,7) LPut by (auto simp: kvserver_rebuild_state_def Let_def)
      then show ?thesis using wait LPut True by auto
    next
      case False
      then have "entry_strings (beyond env) (rec_entry r) = None" using entry_strings_unsafe[of "beyond env" r] adm LPut by simp
      then show ?thesis using col assms(2,6,7) LPut False by (auto simp: kvserver_rebuild_state_def Let_def)
    qed
  next
    case (LDel k)
    have "c_string ((k @ [NUL]) @ beyond env) = Some k"
      using LDel adm c_string_append[of k "beyond env"] by simp
    moreover have "kvserver_del_check mem_ok s ?srv k = Some 0"
      using del_check_iff[OF p1, of k] adm assms(4) LDel by auto
    ultimately have "kvserver_rebuild_state lib env s srv conn = Some (1, s, ?srv\<lparr>tpcstate := TPC_WAIT\<rparr>, send_msg lib conn VOTE_COMMIT)"
      using col LDel assms(2,6,7) by (auto simp: kvserver_rebuild_state_def Let_def simp del: append_assoc)
    then show ?thesis using wait LDel by auto
  qed (use assms(4) in auto)
qed

lemma rebuild_committed:
  assumes "part_rep s srv m Idle (rs @ [r, LCommit])" "adm_request r"
    "length rs + 2 < 2 ^ 64" "card (dom m) + 1 < 2 ^ 31 - 1" "cmem env = mem_ok" "hostname srv = Some host"
  shows "if commit_safe (beyond env) r
    then \<exists>s' srv'. kvserver_rebuild_state lib env s srv conn = Some (1, s', srv', send_msg lib conn ACK) \<and>
      part_rep s' srv' (apply_rec m r) Idle (rs @ [r, LCommit])
    else kvserver_rebuild_state lib env s srv conn = None"
proof -
  let ?rs = "rs @ [r, LCommit]" and ?d = "ks_dirname (store srv)"
  have p: "srv_rep s srv m" "log_rep s (tlog srv) ?d ?rs" "tpcstate srv \<noteq> TPC_WAIT"
    using assms(1) by (auto simp: part_rep_def)
  have adm: "rec_adm r" "is_request r" using log_rep_adm[OF p(2), of r] assms(2)
    by (auto simp: adm_request_def split: logrec.splits)
  let ?log = "(tlog srv)\<lparr>iterpos := length ?rs\<rparr>"
  let ?srv = "srv\<lparr>tlog := ?log\<rparr>"
  have reqs: "last (filter (\<lambda>e. \<not> is_decision e) (map the (map (Some \<circ> rec_entry) ?rs))) = rec_entry r"
    "filter (\<lambda>e. \<not> is_decision e) (map the (map (Some \<circ> rec_entry) ?rs)) \<noteq> []"
    using adm(2) by (simp_all add: rec_entry_decision)
  show ?thesis
  proof (cases "commit_safe (beyond env) r")
    case True
    obtain v where v: "entry_strings (beyond env) (rec_entry r) = Some (the (rec_key r), v)"
      "\<And>w. rec_val r = Some w \<Longrightarrow> v = w" using entry_strings_rec[OF True adm(1)] by blast
    obtain e s2 c where r: "redo mem_ok s ?srv r = Some (e, s2, ?srv\<lparr>cache := c\<rparr>)"
      "srv_rep s2 (?srv\<lparr>cache := c\<rparr>) (apply_rec m r)" "log_rep s2 ?log ?d ?rs"
      using redo_ok[of s ?srv m r ?log ?rs] p(1,2) assms(2,4) by auto
    have "kvserver_rebuild_state lib env s srv conn = Some (1, s2, ?srv\<lparr>cache := c\<rparr>, send_msg lib conn ACK)"
      using log_collect_begin[OF p(2)] assms(3,5,6) v r(1) reqs adm(2)
      by (cases r) (auto simp: kvserver_rebuild_state_def redo_def rec_entry_decision Let_def)
    moreover have "part_rep s2 (?srv\<lparr>cache := c\<rparr>) (apply_rec m r) Idle ?rs"
      using r(2,3) p(3) by (simp add: part_rep_def)
    ultimately show ?thesis using True by auto
  next
    case False
    then have "entry_strings (beyond env) (rec_entry r) = None" by (rule entry_strings_unsafe[OF _ adm])
    then show ?thesis
      using log_collect_begin[OF p(2)] assms(3,5,6) reqs adm(2) False
      by (cases r) (auto simp: kvserver_rebuild_state_def rec_entry_decision Let_def)
  qed
qed

section \<open>Properties\<close>

definition ex_server :: kvserver where
  "ex_server = \<lparr>cache = \<lparr>num_sets = 0, kc_elem_per_set = 0, sets = []\<rparr>, store = \<lparr>ks_dirname = ''''\<rparr>,
     tlog = \<lparr>log_dirname = None, nextid = 0, iterpos = 0\<rparr>, use_tpc = False, max_threads = 0, port = 0,
     hostname = None, tpcstate = TPC_INIT\<rparr>"

text \<open>In the examples blocks have some room at their end and a terminator follows them.\<close>

definition ex_env :: cenv where
  "ex_env = \<lparr>cmem = mem_ok, usable = (\<lambda>n. n + 8), beyond = [NUL], junk = 0, uninit = (\<lambda>_ _. Null)\<rparr>"

lemma ex_env_simps [simp]: "cmem ex_env = mem_ok" "beyond ex_env = [NUL]" "uninit ex_env x f = Null"
  by (simp_all add: ex_env_def)

lemma ex_participant:
  obtains srv where "kvserver_init mem_ok (\<lambda>_. 0) (set_node ''store'' Dir ex_os) ex_server ''store'' 4 4 2 ''host'' 9000 True =
      Some (0, set_node ''store'' Dir ex_os, srv)"
    "part_rep (set_node ''store'' Dir ex_os) srv Map.empty Idle []"
  using kvserver_init_restart[OF ex_fresh ex_log, of 4 4 "\<lambda>_. 0" ex_server 2 "''host''" 9000] by auto

lemma ex_prepared:
  obtains s srv where "part_rep s srv Map.empty (Prepared (LPut ''a'' ''1'')) [LPut ''a'' ''1'']"
    "ks_dirname (store srv) = ''store''"
proof -
  obtain srv where srv: "part_rep (set_node ''store'' Dir ex_os) srv Map.empty Idle []" "ks_dirname (store srv) = ''store''"
    using kvserver_init_restart[OF ex_fresh ex_log, of 4 4 "\<lambda>_. 0" ex_server 2 "''host''" 9000] by auto
  then show thesis
    using that handle_prepare[OF srv(1), of "LPut ''a'' ''1''" ex_env] by (auto simp: kv_simps)
qed

lemma ex_logged:
  obtains s log where "log_all (set_node ''store'' Dir ex_os) \<lparr>log_dirname = Some ''store'', nextid = 0, iterpos = 0\<rparr>
      [LPut ''a'' ''1'', LCommit] = Some (s, log)" "log_rep s log ''store'' [LPut ''a'' ''1'', LCommit]"
    "store_rep s ''store'' Map.empty"
proof -
  let ?s = "set_node ''store'' Dir ex_os" and ?log = "\<lparr>log_dirname = Some ''store'', nextid = 0, iterpos = 0\<rparr>"
  have 0: "log_rep ?s ?log ''store'' []" using ex_log by (simp add: log_rep_def)
  obtain s1 log1 where 1: "tpclog_log mem_ok ?s ?log PUTREQ (Some ''a'') (Some ''1'') = Some (0, s1, log1)"
    "log_rep s1 log1 ''store'' [LPut ''a'' ''1'']" "fault s1 = fault ?s" "wlimit s1 = wlimit ?s"
    "\<And>p. (\<forall>n. p \<noteq> log_path ''store'' n) \<Longrightarrow> lookup s1 p = lookup ?s p"
    using tpclog_log_appends[OF 0, of "LPut ''a'' ''1''"] by auto
  obtain s2 log2 where 2: "tpclog_log mem_ok s1 log1 COMMIT None None = Some (0, s2, log2)"
    "log_rep s2 log2 ''store'' [LPut ''a'' ''1'', LCommit]" "fault s2 = fault s1" "wlimit s2 = wlimit s1"
    "\<And>p. (\<forall>n. p \<noteq> log_path ''store'' n) \<Longrightarrow> lookup s2 p = lookup s1 p"
    using tpclog_log_appends[OF 1(2), of LCommit] by auto
  have "store_rep s2 ''store'' Map.empty" using store_rep_frame[OF store_rep_frame[OF ex_fresh 1(3-5)] 2(3-5)] .
  then show thesis using that[of s2 log2] 1(1) 2(1,2) by simp
qed

text \<open>C1. A server without two-phase commit is a dictionary. Started on a fresh directory, it answers
  any sequence of get, put and delete requests exactly as a dictionary would, error messages
  included, whatever its cache evicts on the way, as long as no key to delete is longer than
  \<^const>\<open>MAX_KEYLEN\<close>. A delete of a longer key, anywhere in the sequence, makes it lock a lock that does not exist.\<close>

theorem kvserver_serves_dictionary:
  assumes "lookup s d = None" "fault s d = None" "parent_ok s d" "length d \<le> 985"
    "\<And>h n. fault s (entry_path d h n) = None \<and> wlimit s (entry_path d h n) = None"
    "\<And>h n. lookup s (entry_path d h n) = None" "nsets \<noteq> 0" "2 \<le> n" "\<forall>i. 0 \<le> lockret i"
    "list_all creq_adm reqs" "length reqs < 2 ^ 31 - 1" "cmem env = mem_ok"
  shows "\<exists>s1 srv. kvserver_init mem_ok lockret s srv0 d nsets n nt host pt False = Some (0, s1, srv) \<and>
    (if list_all short_delete reqs then \<exists>s2 srv2. serve env s1 srv reqs = Some (fst (replies Map.empty reqs), s2, srv2)
     else serve env s1 srv reqs = None)"
proof -
  obtain c where c: "kvcache_init mem_ok lockret (cache srv0) nsets n = (0, c)" "kc_wf c" "kc_map c = Map.empty"
    using kvcache_init_ok[OF assms(7-9)] by blast
  let ?s1 = "set_node d Dir s"
  let ?srv = "srv0\<lparr>tpcstate := TPC_INIT, cache := c, store := (store srv0)\<lparr>ks_dirname := d\<rparr>, tlog := tlog srv0,
     hostname := Some host, port := pt, use_tpc := False, max_threads := nt\<rparr>"
  note i = kvstore_init_fresh[OF assms(1-6), of "store srv0"]
  have init: "kvserver_init mem_ok lockret s srv0 d nsets n nt host pt False = Some (0, ?s1, ?srv)"
    using c(1) i by (simp add: kvserver_init_def)
  have "srv_rep ?s1 ?srv Map.empty" using i c(2,3) by (simp add: srv_rep_def)
  then show ?thesis using serve_ok[OF _ assms(10,12), of ?s1 ?srv Map.empty] assms(11) init by (auto split: if_splits)
qed

theorem kvserver_serves_dictionary_witness:
  "\<exists>s1 srv s2 srv2. kvserver_init mem_ok (\<lambda>_. 0) ex_os ex_server ''store'' 4 4 2 ''host'' 9000 False = Some (0, s1, srv) \<and>
     serve ex_env s1 srv [CPUT ''a'' ''1'', CGET ''a'', CDEL ''a'', CGET ''a''] =
       Some ([resp_msg MSG_SUCCESS,
         \<lparr>mtype = code GETRESP, mkey = Some ''a'', mvalue = Some ''1'', mmessage = Some MSG_SUCCESS\<rparr>,
         resp_msg MSG_SUCCESS, resp_msg ERRMSG_NO_KEY], s2, srv2)"
  using kvserver_serves_dictionary[of ex_os "''store''" 4 4 "\<lambda>_. 0" "[CPUT ''a'' ''1'', CGET ''a'', CDEL ''a'', CGET ''a'']"
      ex_env ex_server 2 "''host''" 9000]
  by (simp add: parent_ok_def kv_simps)

text \<open>C4. A two-phase-commit server refines the abstract participant: to a coordinator that follows the
  protocol it votes to commit exactly when it can, refuses new requests while one is prepared,
  applies the prepared request on commit and nothing on abort, and keeps the log of what it did, as long as
  every commit is safe. A commit that is not, of a value of \<^const>\<open>MAX_VALLEN\<close> characters or of a delete whose log
  entry is followed by a longer text or by no terminator, overruns a buffer or the memory.\<close>

theorem kvserver_participant_refines:
  assumes "part_rep s srv m ph rs" "protocol (m, ph) is" "length rs + length is < 2 ^ 64"
    "card (dom m) + length is < 2 ^ 31 - 1" "cmem env = mem_ok"
  shows "if commits_safe (beyond env) (m, ph) is
    then \<exists>resps s' srv' rs'. tpc_serve env s srv is = Some (resps, s', srv') \<and>
      map mtype resps = map code (fst (part_run (m, ph) is)) \<and>
      part_rep s' srv' (fst (snd (part_run (m, ph) is))) (snd (snd (part_run (m, ph) is))) rs'
    else tpc_serve env s srv is = None"
proof -
  obtain ts m' ph' where r: "part_run (m, ph) is = (ts, m', ph')" by (metis prod_cases3)
  show ?thesis using part_run_sim[OF assms r] unfolding r by (simp only: fst_conv snd_conv)
qed

theorem kvserver_participant_refines_witness:
  "\<exists>s srv resps s' srv'. tpc_serve ex_env s srv [LPut ''a'' ''1'', LCommit, LDel ''a'', LDel ''a'', LAbort, LDel ''b''] =
       Some (resps, s', srv') \<and>
     map mtype resps = map code [VOTE_COMMIT, ACK, VOTE_COMMIT, RESP, ACK, VOTE_ABORT]"
proof -
  let ?is = "[LPut ''a'' ''1'', LCommit, LDel ''a'', LDel ''a'', LAbort, LDel ''b'']"
  obtain srv where srv: "part_rep (set_node ''store'' Dir ex_os) srv Map.empty Idle []" using ex_participant by metis
  have "protocol (Map.empty, Idle) ?is" "commits_safe (beyond ex_env) (Map.empty, Idle) ?is" by (simp_all add: kv_simps c_string_def)
  with kvserver_participant_refines[OF srv this(1), of ex_env] show ?thesis by (fastforce simp: kv_simps)
qed

text \<open>C13. A participant that crashes while a request is prepared is prepared again after restart:
  initialising on its directory and rebuilding from the log leaves the dictionary as it was and the
  same request pending, and sends the vote again on the connection, when it could be opened. A prepared
  value of \<^const>\<open>MAX_VALLEN\<close> characters overruns the buffer of the recovery.\<close>

theorem kvserver_restart_prepared:
  assumes "part_rep s srv m (Prepared r) rs" "length rs < 2 ^ 64" "cmem env = mem_ok"
    "nsets \<noteq> 0" "2 \<le> n" "\<forall>i. 0 \<le> lockret i"
  shows "\<exists>srv1. kvserver_init mem_ok lockret s srv0 (ks_dirname (store srv)) nsets n nt host pt True = Some (0, s, srv1) \<and>
    (if rebuild_safe r
     then \<exists>srv2. kvserver_rebuild_state lib env s srv1 conn = Some (1, s, srv2, send_msg lib conn VOTE_COMMIT) \<and>
       part_rep s srv2 m (Prepared r) rs
     else kvserver_rebuild_state lib env s srv1 conn = None)"
proof -
  have p: "srv_rep s srv m" "log_rep s (tlog srv) (ks_dirname (store srv)) rs" "rs \<noteq> []" "last rs = r" "can_commit m r"
    using assms(1) by (auto simp: part_rep_def)
  obtain srv1 where i: "kvserver_init mem_ok lockret s srv0 (ks_dirname (store srv)) nsets n nt host pt True = Some (0, s, srv1)"
    "part_rep s srv1 m Idle rs" "hostname srv1 = Some host"
    using kvserver_init_restart[OF _ _ _ assms(2,4-6), of s "ks_dirname (store srv)" m srv0 nt host pt] p(1,2)
    unfolding srv_rep_def log_rep_def by blast
  show ?thesis using i(1) rebuild_prepared[OF i(2) p(3-5) assms(2,3) i(3), of lib conn] by blast
qed

theorem kvserver_restart_prepared_witness:
  "\<exists>s srv1 srv2. kvserver_init mem_ok (\<lambda>_. 0) s ex_server ''store'' 4 4 2 ''host'' 9000 True = Some (0, s, srv1) \<and>
     kvserver_rebuild_state ex_lib ex_env s srv1 (Some \<lparr>rx = [], tx = []\<rparr>) =
       Some (1, s, srv2, send_msg ex_lib (Some \<lparr>rx = [], tx = []\<rparr>) VOTE_COMMIT) \<and> tpcstate srv2 = TPC_WAIT"
proof -
  obtain s srv where h: "part_rep s srv Map.empty (Prepared (LPut ''a'' ''1'')) [LPut ''a'' ''1'']" "ks_dirname (store srv) = ''store''"
    using ex_prepared by metis
  then show ?thesis
    using kvserver_restart_prepared[OF h(1), of ex_env 4 4 "\<lambda>_. 0" ex_server 2 "''host''" 9000 ex_lib "Some \<lparr>rx = [], tx = []\<rparr>"]
    by (auto simp: kv_simps part_rep_def)
qed

text \<open>C12. A logged commit is finished after a crash: whether the crash came before or after the store was
  written, initialising and rebuilding leave the store with the request applied, and acknowledge it on the
  connection, when it could be opened. When the commit is not safe, the recovery overruns a buffer or
  the memory, as the commit itself did.\<close>

theorem kvserver_restart_committed:
  assumes "store_rep s d m" "m = m0 \<or> m = apply_rec m0 r" "log_ok s d" "log_at s d (rs @ [r, LCommit])" "adm_request r"
    "length rs + 2 < 2 ^ 64" "card (dom m) + 1 < 2 ^ 31 - 1" "cmem env = mem_ok"
    "nsets \<noteq> 0" "2 \<le> n" "\<forall>i. 0 \<le> lockret i"
  shows "\<exists>srv1. kvserver_init mem_ok lockret s srv0 d nsets n nt host pt True = Some (0, s, srv1) \<and>
    (if commit_safe (beyond env) r
     then \<exists>s2 srv2. kvserver_rebuild_state lib env s srv1 conn = Some (1, s2, srv2, send_msg lib conn ACK) \<and>
       part_rep s2 srv2 (apply_rec m0 r) Idle (rs @ [r, LCommit])
     else kvserver_rebuild_state lib env s srv1 conn = None)"
proof -
  obtain srv1 where i: "kvserver_init mem_ok lockret s srv0 d nsets n nt host pt True = Some (0, s, srv1)"
    "part_rep s srv1 m Idle (rs @ [r, LCommit])" "hostname srv1 = Some host"
    using kvserver_init_restart[OF assms(1,3,4) _ assms(9-11), of srv0 nt host pt] assms(6,7) by auto
  have "apply_rec m r = apply_rec m0 r" using assms(2) by (cases r) auto
  then show ?thesis using i(1) rebuild_committed[OF i(2) assms(5-8) i(3), of lib conn] by auto
qed

theorem kvserver_restart_committed_witness:
  "\<exists>s d srv1 s2 srv2. kvserver_init mem_ok (\<lambda>_. 0) s ex_server d 4 4 2 ''host'' 9000 True = Some (0, s, srv1) \<and>
     kvserver_rebuild_state ex_lib ex_env s srv1 None = Some (1, s2, srv2, None) \<and>
     kvserver_get mem_ok s2 srv2 ''a'' \<noteq> None"
proof -
  obtain s log where l: "log_all (set_node ''store'' Dir ex_os) \<lparr>log_dirname = Some ''store'', nextid = 0, iterpos = 0\<rparr>
      [LPut ''a'' ''1'', LCommit] = Some (s, log)" "log_rep s log ''store'' [LPut ''a'' ''1'', LCommit]"
    "store_rep s ''store'' Map.empty"
    using ex_logged by metis
  have "\<exists>srv1 s2 srv2. kvserver_init mem_ok (\<lambda>_. 0) s ex_server ''store'' 4 4 2 ''host'' 9000 True = Some (0, s, srv1) \<and>
      kvserver_rebuild_state ex_lib ex_env s srv1 None = Some (1, s2, srv2, None) \<and>
      part_rep s2 srv2 [''a'' \<mapsto> ''1''] Idle [LPut ''a'' ''1'', LCommit]"
    using kvserver_restart_committed[OF l(3), of Map.empty "LPut ''a'' ''1''" "[]" ex_env 4 4 "\<lambda>_. 0" ex_server 2 "''host''" 9000
        ex_lib None] l(2)
    by (auto simp: log_rep_def adm_request_def adm_key_def adm_val_def kv_simps send_msg_def)
  then show ?thesis using kvserver_get_ok[of _ _ "[''a'' \<mapsto> ''1'']" "''a''"]
    by (fastforce simp: part_rep_def adm_key_def kv_simps)
qed

text \<open>A value of exactly \<^const>\<open>MAX_VALLEN\<close> characters is accepted and voted for, but its commit copies
  it, with its terminator, into a buffer of \<^const>\<open>MAX_VALLEN\<close> bytes.\<close>

theorem kvserver_commit_overflow:
  assumes "part_rep s srv m Idle rs" "adm_key k" "cstr v" "length v = MAX_VALLEN" "length rs + 1 < 2 ^ 64"
    "cmem env = mem_ok"
  shows "\<exists>resp s' srv'. kvserver_handle_tpc env s srv (rec_msg (LPut k v)) blank_message = Some (resp, s', srv') \<and>
    mtype resp = code VOTE_COMMIT \<and> kvserver_handle_tpc env s' srv' (rec_msg LCommit) blank_message = None"
proof -
  have adm: "rec_adm (LPut k v)" "can_commit m (LPut k v)"
    using assms(2-4) by (simp_all add: adm_key_def kv_simps)
  obtain resp s' srv' where h: "kvserver_handle_tpc env s srv (rec_msg (LPut k v)) blank_message = Some (resp, s', srv')"
    "part_rep s' srv' m (Prepared (LPut k v)) (rs @ [LPut k v])" "mtype resp = code VOTE_COMMIT"
    using handle_prepare[OF assms(1) _ adm(1) _ assms(6)] adm(2) assms(5) by auto
  have l: "log_rep s' (tlog srv') (ks_dirname (store srv')) (rs @ [LPut k v])" using h(2) by (simp add: part_rep_def)
  have "c_string ((k @ NUL # v @ [NUL]) @ beyond env) = Some k"
    "c_string (drop (length k + 1) ((k @ NUL # v @ [NUL]) @ beyond env)) = Some v"
    using adm(1) c_string_append[of k "v @ NUL # beyond env"] c_string_append[of v "beyond env"] by simp_all
  then have "entry_strings (beyond env) (rec_entry (LPut k v)) = None"
    using assms(4) by (simp add: entry_strings_def del: append_assoc)
  then have "kvserver_handle_tpc env s' srv' (rec_msg LCommit) blank_message = None"
    using log_collect_begin[OF l] assms(5,6)
    by (auto simp: kvserver_handle_tpc_def handle_commit_def bind_eq_None_conv)
  then show ?thesis using h by blast
qed

theorem kvserver_commit_overflow_witness:
  "\<exists>s srv resp s' srv'. kvserver_handle_tpc ex_env s srv (rec_msg (LPut ''a'' (replicate 1024 CHR ''x''))) blank_message =
       Some (resp, s', srv') \<and> mtype resp = code VOTE_COMMIT \<and>
     kvserver_handle_tpc ex_env s' srv' (rec_msg LCommit) blank_message = None"
proof -
  obtain srv where srv: "part_rep (set_node ''store'' Dir ex_os) srv Map.empty Idle []" using ex_participant by metis
  have "adm_key ''a''" "cstr (replicate 1024 CHR ''x'')" "length (replicate 1024 CHR ''x'') = MAX_VALLEN"
    by (simp_all add: adm_key_def kv_simps cstr_def)
  from kvserver_commit_overflow[OF srv this _ ex_env_simps(1)] show ?thesis by (simp, blast)
qed

text \<open>The commit of a delete reads a value behind the key, where the log entry has none: when the heap
  block of the entry ends at its last byte, every such commit reads outside it.\<close>

theorem kvserver_commit_delete_overread:
  assumes "part_rep s srv m (Prepared (LDel k)) rs" "beyond env = []" "length rs < 2 ^ 64" "cmem env = mem_ok"
  shows "kvserver_handle_tpc env s srv (rec_msg LCommit) blank_message = None"
proof -
  have p: "log_rep s (tlog srv) (ks_dirname (store srv)) rs" "rs \<noteq> []" "last rs = LDel k"
    using assms(1) by (auto simp: part_rep_def)
  have "cstr k" using log_rep_adm[OF p(1), of "LDel k"] p(2,3) last_in_set[of rs] by auto
  then have "entry_strings [] (rec_entry (LDel k)) = None"
    using c_string_append[of k "[]"] by (simp add: entry_strings_def c_string_def)
  moreover have "last (map (Some \<circ> rec_entry) rs) = Some (rec_entry (LDel k))" using p(2,3) by (simp add: last_map)
  ultimately show ?thesis
    using log_collect_begin[OF p(1) assms(3)] assms(2,4)
    by (auto simp: kvserver_handle_tpc_def handle_commit_def bind_eq_None_conv)
qed

lemma ex_prepared_delete:
  obtains s srv rs where "part_rep s srv [''a'' \<mapsto> ''1''] (Prepared (LDel ''a'')) rs" "length rs < 2 ^ 64"
proof -
  obtain srv where srv: "part_rep (set_node ''store'' Dir ex_os) srv Map.empty Idle []" using ex_participant by metis
  obtain s1 srv1 where 1: "part_rep s1 srv1 Map.empty (Prepared (LPut ''a'' ''1'')) [LPut ''a'' ''1'']"
    using ex_prepared by metis
  obtain s2 srv2 where 2: "part_rep s2 srv2 [''a'' \<mapsto> ''1''] Idle [LPut ''a'' ''1'', LCommit]"
    using handle_commit_ok[OF 1, of ex_env] by (auto simp: kv_simps)
  show thesis using that handle_prepare[OF 2, of "LDel ''a''" ex_env] by (auto simp: kv_simps)
qed

theorem kvserver_commit_delete_overread_witness:
  "\<exists>s srv. kvserver_handle_tpc (ex_env\<lparr>beyond := []\<rparr>) s srv (rec_msg LCommit) blank_message = None \<and>
     tpcstate srv = TPC_WAIT"
proof -
  obtain s srv rs where r: "part_rep s srv [''a'' \<mapsto> ''1''] (Prepared (LDel ''a'')) rs" "length rs < 2 ^ 64"
    using ex_prepared_delete by metis
  from kvserver_commit_delete_overread[OF r(1), of "ex_env\<lparr>beyond := []\<rparr>"] r show ?thesis
    by (auto simp: part_rep_def)
qed

text \<open>A delete request whose key is longer than \<^const>\<open>MAX_KEYLEN\<close> takes the lock \<^verbatim>\<open>kvcache_getlock\<close>
  returned without looking at it: for such a key that is NULL, in every state of the server.\<close>

theorem kvserver_delete_long_key:
  assumes "length k > MAX_KEYLEN"
  shows "kvserver_handle_no_tpc env s srv (creq_msg (CDEL k)) resp = None"
  using assms by (simp add: handle_long_delete del: creq_msg.simps)

theorem kvserver_delete_long_key_witness:
  "kvserver_handle_no_tpc ex_env ex_os ex_server (creq_msg (CDEL (replicate 1025 CHR ''x''))) blank_message = None"
  using kvserver_delete_long_key[of "replicate 1025 CHR ''x''"] by (simp add: kv_simps)

text \<open>With an empty log both the recovery and a commit use an uninitialised pointer.\<close>

theorem kvserver_empty_log_undefined:
  assumes "part_rep s srv m Idle []" "cmem env = mem_ok"
  shows "kvserver_rebuild_state lib env s srv conn = None \<and>
    kvserver_handle_tpc env s srv (rec_msg LCommit) blank_message = None"
proof -
  have l: "log_rep s (tlog srv) (ks_dirname (store srv)) []" using assms(1) by (simp add: part_rep_def)
  from log_collect_begin[OF l] assms(2) show ?thesis
    by (auto simp: kvserver_rebuild_state_def kvserver_handle_tpc_def handle_commit_def bind_eq_None_conv)
qed

theorem kvserver_empty_log_undefined_witness:
  "\<exists>s srv. kvserver_init mem_ok (\<lambda>_. 0) s ex_server ''store'' 4 4 2 ''host'' 9000 True = Some (0, s, srv) \<and>
     kvserver_rebuild_state ex_lib ex_env s srv (Some \<lparr>rx = [], tx = []\<rparr>) = None"
proof -
  obtain srv where "kvserver_init mem_ok (\<lambda>_. 0) (set_node ''store'' Dir ex_os) ex_server ''store'' 4 4 2 ''host'' 9000 True =
      Some (0, set_node ''store'' Dir ex_os, srv)" "part_rep (set_node ''store'' Dir ex_os) srv Map.empty Idle []"
    using ex_participant by metis
  then show ?thesis using kvserver_empty_log_undefined by fastforce
qed

text \<open>A request that is not JSON is taken for a get without a key, and handling it passes NULL to
  \<^verbatim>\<open>strlen\<close>: one malformed message stops the server.\<close>

theorem kvserver_malformed_request:
  assumes "c_string (body @ beyond env) = Some txt" "parse_object lib txt = None" "body \<noteq> []" "length body < 2 ^ 31"
  shows "kvserver_handle lib env s srv \<lparr>rx = [be32 (word_of_nat (length body)) @ body], tx = []\<rparr> = None"
proof -
  have "sint (word_of_nat (length body) :: 32 word) = int (length body)" by (rule small_word(2)[OF assms(4)])
  then have "kvmessage_parse lib (beyond env) \<lparr>rx = [be32 (word_of_nat (length body)) @ body], tx = []\<rparr> =
      Some (Some blank_message, \<lparr>rx = [], tx = []\<rparr>)"
    using assms(1-3) by (simp add: kvmessage_parse_def sock_read_def text_field_def blank_message_def)
  moreover have "req_type blank_message = Some GETREQ" by (simp add: blank_message_def req_type_def msgtype_of_def msgtypes_def)
  moreover have "handle_getreq env s srv blank_message resp = None" for resp
    by (simp add: handle_getreq_def blank_message_def)
  ultimately show ?thesis by (simp add: kvserver_handle_def kvserver_handle_tpc_def kvserver_handle_no_tpc_def)
qed

theorem kvserver_malformed_request_witness:
  "kvserver_handle ex_lib ex_env ex_os ex_server \<lparr>rx = [be32 5 @ ''hello''], tx = []\<rparr> = None"
  using kvserver_malformed_request[of "''hello''" ex_env "''hello''" ex_lib ex_os ex_server] by (simp add: ex_lib_def c_string_def)

end
