(* ===== verification/TPCMaster.thy ===== *)
theory TPCMaster
  imports KVServer
begin

text \<open>
  \<^verbatim>\<open>tpcmaster.c\<close>: the coordinator. The linked list of slaves is a list, a slave pointer an index into
  it. The network is a parameter: a record with the connection attempt and the exchange of a message
  for its reply on an open connection, over an arbitrary state. The second phase may wait for an
  acknowledgement forever, which is the value \<^term>\<open>None\<close> of a partial function. Requests run with a
  NULL callback, as the server runs them.
\<close>

section \<open>Data\<close>

record tpcslave =
  sid :: "64 word"
  shost :: string
  sport :: "32 word"

record tpcmaster =
  slave_capacity :: "32 word"
  slave_count :: "32 word"
  redundancy :: "32 word"
  slaves :: "tpcslave list"
  mcache :: kvcache

definition sizeof_tpcslave :: nat where
  "sizeof_tpcslave = 40"

definition sizeof_kvmessage :: nat where
  "sizeof_kvmessage = 32"

text \<open>\<open>net_connect\<close> is \<^verbatim>\<open>connect_to\<close> (\<^term>\<open>False\<close> for -1), \<open>net_call\<close> is \<^verbatim>\<open>kvmessage_send\<close> followed by
  \<^verbatim>\<open>kvmessage_parse\<close> on an open connection.\<close>

record 'n network =
  net_connect :: "'n \<Rightarrow> tpcslave \<Rightarrow> bool \<times> 'n"
  net_call :: "'n \<Rightarrow> tpcslave \<Rightarrow> kvmessage \<Rightarrow> kvmessage option \<times> 'n"

text \<open>On the descriptor -1 nothing is sent and the reply is NULL.\<close>

definition exchange :: "'n network \<Rightarrow> 'n \<Rightarrow> bool \<Rightarrow> tpcslave \<Rightarrow> kvmessage \<Rightarrow> kvmessage option \<times> 'n" where
  "exchange net n ok sl msg = (if ok then net_call net n sl msg else (None, n))"

section \<open>Slaves\<close>

text \<open>\<open>lockret\<close> is what \<^verbatim>\<open>pthread_rwlock_init\<close> returns for the sets of the cache and for the slave
  list.\<close>

definition tpcmaster_init ::
    "(nat \<Rightarrow> bool) \<Rightarrow> (nat \<Rightarrow> int) \<Rightarrow> int \<Rightarrow> tpcmaster \<Rightarrow> 32 word \<Rightarrow> 32 word \<Rightarrow> 32 word \<Rightarrow> 32 word \<Rightarrow> int \<times> tpcmaster" where
  "tpcmaster_init mem lockret slockret ma capac redun nsets n =
     (let (ret, c) = kvcache_init mem lockret (mcache ma) nsets n; ma1 = ma\<lparr>mcache := c\<rparr> in
      if ret < 0 then (ret, ma1)
      else if slockret < 0 then (slockret, ma1)
      else (0, ma1\<lparr>slave_count := 0, slave_capacity := capac,
              redundancy := (if redun > capac then capac else redun), slaves := []\<rparr>))"

text \<open>The arithmetic wraps; ids are compared as signed numbers.\<close>

definition hash_64_bit :: "string \<Rightarrow> 64 word" where
  "hash_64_bit str = fold (\<lambda>c h. 31 * h + scast (of_char c :: 8 word)) str 1125899906842597"

definition is_digit :: "char \<Rightarrow> bool" where
  "is_digit c \<longleftrightarrow> c \<in> set ''0123456789''"

definition atoi :: "string \<Rightarrow> int" where
  "atoi str =
     (let t = dropWhile (\<lambda>c. c \<in> {CHR '' '', CHR 0x09, CHR 0x0A, CHR 0x0B, CHR 0x0C, CHR 0x0D}) str in
      case t of
        CHR ''-'' # u \<Rightarrow> - int (undec_acc 0 (takeWhile is_digit u))
      | CHR ''+'' # u \<Rightarrow> int (undec_acc 0 (takeWhile is_digit u))
      | _ \<Rightarrow> int (undec_acc 0 (takeWhile is_digit t)))"

text \<open>The position at which the loop of \<^verbatim>\<open>tpcmaster_register\<close> leaves \<^verbatim>\<open>current\<close>, and whether it saw the
  id. The loop is entered with a non-empty list.\<close>

fun register_loop :: "tpcslave list \<Rightarrow> 64 word \<Rightarrow> bool \<Rightarrow> nat \<Rightarrow> bool \<times> nat" where
  "register_loop (cur # nxt # rest) h ex i =
     (if sint (sid cur) < sint h
      then register_loop (nxt # rest) h (if sid cur = h then True else ex) (i + 1)
      else (ex, i))"
| "register_loop _ h ex i = (ex, i)"

definition tpcmaster_register ::
    "cenv \<Rightarrow> tpcmaster \<Rightarrow> kvmessage \<Rightarrow> kvmessage \<Rightarrow> (tpcmaster \<times> kvmessage) option" where
  "tpcmaster_register env ma req resp = do {
     val \<leftarrow> mvalue req;
     key \<leftarrow> mkey req;
     if \<not> cmem env (length key + 1) \<or> \<not> cmem env (length val + 1 + length key + 1) then None
     else do {
       let h = hash_64_bit (val @ CHR '':'' # key);
       (err, ma1) \<leftarrow>
         (if slave_count ma \<ge> slave_capacity ma then Some (-1, ma)
          else if \<not> cmem env sizeof_tpcslave then None
          else let slave = \<lparr>sid = h, shost = key, sport = word_of_int (atoi val)\<rparr> in
            (case slaves ma of
               [] \<Rightarrow> Some (0, ma\<lparr>slaves := [slave], slave_count := slave_count ma + 1\<rparr>)
             | head # _ \<Rightarrow>
                 if sint h < sint (sid head)
                 then Some (0, ma\<lparr>slaves := slave # slaves ma, slave_count := slave_count ma + 1\<rparr>)
                 else let (ex, i) = register_loop (slaves ma) h False 0 in
                   if ex then Some (0, ma)
                   else Some (0, ma\<lparr>slaves := take (i + 1) (slaves ma) @ slave # drop (i + 1) (slaves ma),
                          slave_count := slave_count ma + 1\<rparr>)));
       Some (ma1,
         if err = (0 :: int)
         then resp\<lparr>mtype := code RESP, mkey := None, mvalue := None, mmessage := Some MSG_SUCCESS\<rparr>
         else resp\<lparr>mmessage := Some ERRMSG_GENERIC_ERROR\<rparr>)
     }
   }"

fun primary_loop :: "tpcslave list \<Rightarrow> 64 word \<Rightarrow> nat \<Rightarrow> nat" where
  "primary_loop (cur # nxt # rest) h i =
     (if sint (sid cur) \<le> sint h then primary_loop (nxt # rest) h (i + 1) else i)"
| "primary_loop _ h i = i"

definition tpcmaster_get_primary :: "tpcmaster \<Rightarrow> string \<Rightarrow> nat option" where
  "tpcmaster_get_primary ma key =
     (if slaves ma = [] then None
      else let h = hash_64_bit key; cur = primary_loop (slaves ma) h 0 in
        if cur + 1 = length (slaves ma) \<and> sint (sid (slaves ma ! cur)) \<le> sint h then Some 0 else Some cur)"

definition tpcmaster_get_successor :: "tpcmaster \<Rightarrow> nat \<Rightarrow> nat" where
  "tpcmaster_get_successor ma predecessor =
     (if predecessor + 1 < length (slaves ma) then predecessor + 1 else 0)"

section \<open>Requests\<close>

text \<open>The value and the text of the request come from \<^verbatim>\<open>malloc\<close> and are never set, but \<^verbatim>\<open>kvmessage_send\<close> reads them, whether
  there is a connection or not.\<close>

definition tpcmaster_send_get ::
    "cenv \<Rightarrow> 'n network \<Rightarrow> 'n \<Rightarrow> tpcslave \<Rightarrow> string \<Rightarrow> ((int \<times> string option) \<times> 'n) option" where
  "tpcmaster_send_get env net n sl key =
     (if \<not> cmem env sizeof_kvmessage then None
      else do {
        let (ok, n1) = net_connect net n sl;
        v \<leftarrow> read_ptr (uninit env (sid sl) ''value'');
        t \<leftarrow> read_ptr (uninit env (sid sl) ''message'');
        let (resp, n2) = exchange net n1 ok sl \<lparr>mtype = code GETREQ, mkey = Some key, mvalue = v, mmessage = t\<rparr>;
        Some (case resp of
           None \<Rightarrow> ((-1, None), n2)
         | Some r \<Rightarrow> if mtype r \<noteq> code GETRESP then ((-1, None), n2) else ((0, mvalue r), n2))
      })"

text \<open>The search along the ring. The first component is the last \<^verbatim>\<open>err\<close>.\<close>

fun get_loop ::
    "cenv \<Rightarrow> 'n network \<Rightarrow> tpcmaster \<Rightarrow> string \<Rightarrow> nat \<Rightarrow> 'n \<Rightarrow> nat \<Rightarrow> int \<times> string option \<Rightarrow>
     ((int \<times> string option) \<times> 'n) option" where
  "get_loop env net ma key 0 n node acc = Some (acc, n)"
| "get_loop env net ma key (Suc k) n node acc = do {
     let node' = tpcmaster_get_successor ma node;
     (r, n1) \<leftarrow> tpcmaster_send_get env net n (slaves ma ! node') key;
     if fst r = 0 then Some (r, n1) else get_loop env net ma key k n1 node' r
   }"

definition tpcmaster_handle_get ::
    "cenv \<Rightarrow> 'n network \<Rightarrow> 'n \<Rightarrow> tpcmaster \<Rightarrow> kvmessage \<Rightarrow> kvmessage \<Rightarrow> (kvmessage \<times> tpcmaster \<times> 'n) option" where
  "tpcmaster_handle_get env net n ma req resp = do {
     key \<leftarrow> mkey req;
     (err, v, c) \<leftarrow> kvcache_get (cmem env) (mcache ma) key;
     let ma1 = ma\<lparr>mcache := c\<rparr>;
     let resp1 = resp\<lparr>mtype := code GETRESP, mkey := Some key\<rparr>;
     if err = 0 then Some (resp1\<lparr>mvalue := v\<rparr>, ma1, n)
     else do {
       node \<leftarrow> tpcmaster_get_primary ma1 key;
       (r, n1) \<leftarrow> tpcmaster_send_get env net n (slaves ma1 ! node) key;
       if fst r = 0 then Some (resp1\<lparr>mvalue := snd r\<rparr>, ma1, n1)
       else do {
         (r2, n2) \<leftarrow> get_loop env net ma1 key (unat (redundancy ma1) - 1) n1 node r;
         Some (if fst r2 < 0
               then resp1\<lparr>mtype := code RESP, mmessage := Some ERRMSG_NO_KEY, mkey := None, mvalue := None\<rparr>
               else resp1\<lparr>mvalue := snd r2\<rparr>, ma1, n2)
       }
     }
   }"

text \<open>Phase one: every slave gets the request, a vote to abort is remembered. The text of the message is not set.\<close>

fun phase1 :: "cenv \<Rightarrow> 'n network \<Rightarrow> kvmessage \<Rightarrow> tpcslave list \<Rightarrow> nat \<Rightarrow> bool \<Rightarrow> 'n \<Rightarrow> (bool \<times> 'n) option" where
  "phase1 env net req [] k abort n = Some (abort, n)"
| "phase1 env net req (sl # sls) 0 abort n = Some (abort, n)"
| "phase1 env net req (sl # sls) (Suc k) abort n =
     (let (ok, n1) = net_connect net n sl in
      if \<not> cmem env sizeof_kvmessage then None
      else do {
        t \<leftarrow> read_ptr (uninit env (sid sl) ''message'');
        let (resp, n2) = exchange net n1 ok sl \<lparr>mtype = mtype req, mkey = mkey req, mvalue = mvalue req, mmessage = t\<rparr>;
        let abort' = (case resp of None \<Rightarrow> abort | Some r \<Rightarrow> if mtype r = code VOTE_ABORT then True else abort);
        phase1 env net req sls k abort' n2
      })"

text \<open>Phase two: the decision \<open>ty\<close> is repeated on the same connection until an acknowledgement arrives, each
  time in a new message of which only the type is set.\<close>

partial_function (option) ack_loop ::
    "cenv \<Rightarrow> 'n network \<Rightarrow> bool \<Rightarrow> tpcslave \<Rightarrow> int \<Rightarrow> kvmessage option \<Rightarrow> 'n \<Rightarrow> 'n option" where
  "ack_loop env net ok sl ty resp n =
     (if (case resp of None \<Rightarrow> False | Some r \<Rightarrow> mtype r = code ACK) then Some n
      else if \<not> cmem env sizeof_kvmessage then None
      else do {
        k \<leftarrow> read_ptr (uninit env (sid sl) ''key'');
        v \<leftarrow> read_ptr (uninit env (sid sl) ''value'');
        t \<leftarrow> read_ptr (uninit env (sid sl) ''message'');
        let r = exchange net n ok sl \<lparr>mtype = ty, mkey = k, mvalue = v, mmessage = t\<rparr>;
        ack_loop env net ok sl ty (fst r) (snd r)
      })"

declare ack_loop.simps [code]

fun phase2 :: "cenv \<Rightarrow> 'n network \<Rightarrow> bool \<Rightarrow> tpcslave list \<Rightarrow> nat \<Rightarrow> 'n \<Rightarrow> 'n option" where
  "phase2 env net abort [] k n = Some n"
| "phase2 env net abort (sl # sls) 0 n = Some n"
| "phase2 env net abort (sl # sls) (Suc k) n = do {
     let (ok, n1) = net_connect net n sl;
     _ \<leftarrow> (if cmem env sizeof_kvmessage then Some () else None);
     let ty = code (if abort then ABORT else COMMIT);
     let (resp, n2) = exchange net n1 ok sl \<lparr>mtype = ty, mkey = None, mvalue = None, mmessage = None\<rparr>;
     n3 \<leftarrow> ack_loop env net ok sl ty resp n2;
     phase2 env net abort sls k n3
   }"

definition tpcmaster_handle_tpc ::
    "cenv \<Rightarrow> 'n network \<Rightarrow> 'n \<Rightarrow> tpcmaster \<Rightarrow> kvmessage \<Rightarrow> kvmessage \<Rightarrow> (kvmessage \<times> 'n) option" where
  "tpcmaster_handle_tpc env net n ma req resp = do {
     (abort, n1) \<leftarrow> phase1 env net req (slaves ma) (unat (slave_count ma)) False n;
     n2 \<leftarrow> phase2 env net abort (slaves ma) (unat (slave_count ma)) n1;
     Some (resp\<lparr>mtype := code RESP, mmessage := Some MSG_SUCCESS\<rparr>, n2)
   }"

text \<open>The slaves that can be reached, each on a line, appended to a buffer of 1024 bytes.\<close>

fun info_loop :: "'n network \<Rightarrow> tpcmaster \<Rightarrow> nat \<Rightarrow> nat \<Rightarrow> string \<Rightarrow> 'n \<Rightarrow> (string \<times> 'n) option" where
  "info_loop net ma 0 node temp n = Some (temp, n)"
| "info_loop net ma (Suc k) node temp n =
     (let sl = slaves ma ! node; (ok, n1) = net_connect net n sl;
          temp' = (if ok then temp @ [CHR 0x0A] @ ''{'' @ shost sl @ '', '' @
            (let p = sint (sport sl) in if p < 0 then CHR ''-'' # dec (nat (- p)) else dec (nat p)) @ ''}'' else temp)
      in if length temp' + 1 > 1024 then None
         else info_loop net ma k (tpcmaster_get_successor ma node) temp' n1)"

definition tpcmaster_info ::
    "'n network \<Rightarrow> string \<Rightarrow> 'n \<Rightarrow> tpcmaster \<Rightarrow> kvmessage \<Rightarrow> (string \<times> 'n) option" where
  "tpcmaster_info net now n ma req =
     (if length now + 8 > 1024 then None
      else do {
        key \<leftarrow> mkey req;
        node \<leftarrow> tpcmaster_get_primary ma key;
        info_loop net ma (unat (slave_count ma)) node (now @ ''Slaves:'') n
      })"

text \<open>The entry point, from the parsed request (\<^term>\<open>None\<close> for NULL) to the response. The copy of the key
  needs one byte more than is allocated; the text of \<^verbatim>\<open>tpcmaster_info\<close> is a buffer of a frame that has
  returned, so a response to it is undefined. The response to a get that is answered has the key of
  the request itself, which is freed with the request and then once more. The callback, which only
  the tests pass, is not modelled.\<close>

definition tpcmaster_handle ::
    "cenv \<Rightarrow> 'n network \<Rightarrow> string \<Rightarrow> 'n \<Rightarrow> tpcmaster \<Rightarrow> kvmessage option \<Rightarrow> (kvmessage \<times> tpcmaster \<times> 'n) option" where
  "tpcmaster_handle env net now n ma reqmsg = do {
     req \<leftarrow> reqmsg;
     resp \<leftarrow> (case mkey req of
         None \<Rightarrow> Some (blank_message\<lparr>mtype := code RESP\<rparr>)
       | Some k \<Rightarrow>
           if \<not> cmem env (length k) \<or> length k + 1 > usable env (length k) then None
           else Some (blank_message\<lparr>mtype := code RESP, mkey := Some k\<rparr>));
     if mtype req = code INFO then do { _ \<leftarrow> tpcmaster_info net now n ma req; None }
     else if mkey req = None then Some (resp\<lparr>mmessage := Some ERRMSG_INVALID_REQUEST\<rparr>, ma, n)
     else if mtype req = code REGISTER
     then map_option (\<lambda>(ma1, r). (r, ma1, n)) (tpcmaster_register env ma req resp)
     else if mtype req = code GETREQ then do {
       (r, ma1, n1) \<leftarrow> tpcmaster_handle_get env net n ma req resp;
       if mkey r \<noteq> None then None else Some (r, ma1, n1)
     }
     else map_option (\<lambda>(r, n1). (r, ma, n1)) (tpcmaster_handle_tpc env net n ma req resp)
   }"

definition tpcmaster_clear_cache :: "tpcmaster \<Rightarrow> tpcmaster option" where
  "tpcmaster_clear_cache ma = map_option (\<lambda>c. ma\<lparr>mcache := c\<rparr>) (kvcache_clear (mcache ma))"

section \<open>The ring of slaves\<close>

abbreviation ids :: "tpcslave list \<Rightarrow> int list" where
  "ids sls \<equiv> map (\<lambda>sl. sint (sid sl)) sls"

lemma primary_loop_spec:
  assumes "sls \<noteq> []"
  shows "\<exists>j < length sls. primary_loop sls h i = i + j \<and> (\<forall>k < j. sint (sid (sls ! k)) \<le> sint h) \<and>
    (j + 1 < length sls \<longrightarrow> sint h < sint (sid (sls ! j)))"
  using assms
proof (induction sls h i rule: primary_loop.induct)
  case (1 cur nxt rest h i)
  show ?case
  proof (cases "sint (sid cur) \<le> sint h")
    case True
    then obtain j where j: "j < length (nxt # rest)" "primary_loop (nxt # rest) h (i + 1) = i + 1 + j"
      "\<forall>k < j. sint (sid ((nxt # rest) ! k)) \<le> sint h"
      "j + 1 < length (nxt # rest) \<longrightarrow> sint h < sint (sid ((nxt # rest) ! j))" using 1 by auto
    have "sint (sid ((cur # nxt # rest) ! k)) \<le> sint h" if "k < Suc j" for k
      using that j(3) True by (cases k) auto
    then show ?thesis using True j(1,2,4) by (intro exI[of _ "Suc j"]) simp
  qed simp
qed auto

lemma register_loop_spec:
  assumes "sls \<noteq> []"
  shows "\<exists>j < length sls. register_loop sls h ex i = (ex, i + j) \<and> (\<forall>k < j. sint (sid (sls ! k)) < sint h) \<and>
    (j + 1 < length sls \<longrightarrow> sint h \<le> sint (sid (sls ! j)))"
  using assms
proof (induction sls h ex i rule: register_loop.induct)
  case (1 cur nxt rest h ex i)
  show ?case
  proof (cases "sint (sid cur) < sint h")
    case True
    then have ne: "sid cur \<noteq> h" by auto
    obtain j where j: "j < length (nxt # rest)" "register_loop (nxt # rest) h ex (i + 1) = (ex, i + 1 + j)"
      "\<forall>k < j. sint (sid ((nxt # rest) ! k)) < sint h"
      "j + 1 < length (nxt # rest) \<longrightarrow> sint h \<le> sint (sid ((nxt # rest) ! j))" using 1 True ne by auto
    have "sint (sid ((cur # nxt # rest) ! k)) < sint h" if "k < Suc j" for k
      using that j(3) True by (cases k) auto
    then show ?thesis using True ne j(1,2,4) by (intro exI[of _ "Suc j"]) simp
  qed simp
qed auto

text \<open>Below the capacity a registration always inserts, one position behind the first slave with an id
  that is not smaller (or at the end).\<close>

lemma register_inserts:
  assumes "slave_count ma < slave_capacity ma" "mkey req = Some host" "mvalue req = Some prt" "cmem env = mem_ok"
  shows "\<exists>ma' resp' as bs. tpcmaster_register env ma req resp = Some (ma', resp') \<and> mmessage resp' = Some MSG_SUCCESS \<and>
    slaves ma = as @ bs \<and>
    slaves ma' = as @ \<lparr>sid = hash_64_bit (prt @ CHR '':'' # host), shost = host, sport = word_of_int (atoi prt)\<rparr> # bs \<and>
    slave_count ma' = slave_count ma + 1 \<and> slave_capacity ma' = slave_capacity ma \<and>
    (as \<noteq> [] \<longrightarrow> sint (sid (hd as)) \<le> sint (hash_64_bit (prt @ CHR '':'' # host)) \<and>
      (\<forall>x \<in> set (butlast as). sint (sid x) < sint (hash_64_bit (prt @ CHR '':'' # host))) \<and>
      (bs \<noteq> [] \<longrightarrow> sint (hash_64_bit (prt @ CHR '':'' # host)) \<le> sint (sid (last as)))) \<and>
    (as = [] \<longrightarrow> bs \<noteq> [] \<longrightarrow> sint (hash_64_bit (prt @ CHR '':'' # host)) < sint (sid (hd bs)))"
proof -
  let ?h = "hash_64_bit (prt @ CHR '':'' # host)"
  let ?sl = "\<lparr>sid = ?h, shost = host, sport = word_of_int (atoi prt)\<rparr>"
  consider "slaves ma = []" | "slaves ma \<noteq> []" "sint ?h < sint (sid (hd (slaves ma)))"
    | "slaves ma \<noteq> []" "\<not> sint ?h < sint (sid (hd (slaves ma)))" by blast
  then show ?thesis
  proof cases
    case 1
    then show ?thesis using assms by (simp add: tpcmaster_register_def not_le[symmetric])
  next
    case 2
    then obtain x xs where x: "slaves ma = x # xs" by (cases "slaves ma") auto
    let ?ma = "ma\<lparr>slaves := ?sl # slaves ma, slave_count := slave_count ma + 1\<rparr>"
    have "tpcmaster_register env ma req resp =
        Some (?ma, resp\<lparr>mtype := code RESP, mkey := None, mvalue := None, mmessage := Some MSG_SUCCESS\<rparr>)"
      using 2 x assms by (simp add: tpcmaster_register_def not_le[symmetric])
    then show ?thesis using 2 by (intro exI[of _ ?ma] exI exI[of _ "[]"] exI[of _ "slaves ma"] conjI) auto
  next
    case 3
    then obtain x xs where x: "slaves ma = x # xs" by (cases "slaves ma") auto
    obtain j where j: "j < length (slaves ma)" "register_loop (slaves ma) ?h False 0 = (False, j)"
      "\<forall>k < j. sint (sid (slaves ma ! k)) < sint ?h" "j + 1 < length (slaves ma) \<longrightarrow> sint ?h \<le> sint (sid (slaves ma ! j))"
      using register_loop_spec[OF 3(1), of ?h False 0] by auto
    let ?as = "take (j + 1) (slaves ma)" and ?bs = "drop (j + 1) (slaves ma)"
    let ?ma = "ma\<lparr>slaves := ?as @ ?sl # ?bs, slave_count := slave_count ma + 1\<rparr>"
    let ?resp = "resp\<lparr>mtype := code RESP, mkey := None, mvalue := None, mmessage := Some MSG_SUCCESS\<rparr>"
    have run: "tpcmaster_register env ma req resp = Some (?ma, ?resp)"
      using 3 x j(2) assms by (simp add: tpcmaster_register_def not_le[symmetric])
    have last: "last ?as = slaves ma ! j" using take_Suc_conv_app_nth[OF j(1)] by simp
    have as: "?as \<noteq> []" "hd ?as = hd (slaves ma)" using x by simp_all
    have "butlast ?as = take j (slaves ma)" using j(1) by (simp add: butlast_take)
    then have "\<forall>y \<in> set (butlast ?as). sint (sid y) < sint ?h" using j(1,3) by (auto simp: in_set_conv_nth)
    then show ?thesis using run as last 3(2) j(4)
      by (intro exI[of _ ?ma] exI[of _ ?resp] exI[of _ ?as] exI[of _ ?bs]) auto
  qed
qed


section \<open>A cluster of servers\<close>

text \<open>The network of participants that are all reachable: a message is handled by the slave's
  \<^const>\<open>kvserver_handle_tpc\<close>, and a slave that fails does not answer. The state maps ids to servers.\<close>

type_synonym cluster = "64 word \<Rightarrow> os \<times> kvserver"

definition cluster_net :: "cenv \<Rightarrow> cluster network" where
  "cluster_net env = \<lparr>net_connect = (\<lambda>n sl. (True, n)),
     net_call = (\<lambda>n sl msg. case kvserver_handle_tpc env (fst (n (sid sl))) (snd (n (sid sl))) msg blank_message of
         None \<Rightarrow> (None, n)
       | Some (resp, s, srv) \<Rightarrow> (Some resp, n(sid sl := (s, srv))))\<rparr>"

definition node_rep :: "nat \<Rightarrow> cluster \<Rightarrow> 64 word \<Rightarrow> (string \<rightharpoonup> string) \<Rightarrow> phase \<Rightarrow> bool" where
  "node_rep b n x m ph \<longleftrightarrow> (\<exists>rs. part_rep (fst (n x)) (snd (n x)) m ph rs \<and> length rs \<le> b)"

lemma handle_tpc_mmessage:
  "kvserver_handle_tpc env s srv (req\<lparr>mmessage := t\<rparr>) resp = kvserver_handle_tpc env s srv req resp"
  by (simp add: kvserver_handle_tpc_def req_type_def handle_getreq_def Let_def split: option.split msgtype.split)

lemma handle_commit_fields:
  "kvserver_handle_tpc env s srv \<lparr>mtype = code COMMIT, mkey = k, mvalue = v, mmessage = t\<rparr> resp = kvserver_handle_tpc env s srv (rec_msg LCommit) resp"
  by (simp add: kvserver_handle_tpc_def Let_def)

lemma node_rep_other [simp]: "y \<noteq> x \<Longrightarrow> node_rep b (n(x := p)) y m ph = node_rep b n y m ph"
  by (simp add: node_rep_def)

lemma phase1_wild: "sl \<in> set (take k sls) \<Longrightarrow> uninit env (sid sl) ''message'' = Wild \<Longrightarrow> phase1 env net req sls k ab n = None"
proof (induction sls arbitrary: k n ab)
  case (Cons x sls)
  then obtain j where k: "k = Suc j" by (cases k) auto
  show ?case
  proof (cases "x = sl")
    case True
    then show ?thesis using Cons.prems(2) k by (simp add: case_prod_beta Let_def)
  next
    case False
    then have "phase1 env net req sls j ab1 n1 = None" for ab1 n1 using Cons k by auto
    then show ?thesis using k by (simp add: case_prod_beta Let_def bind_eq_None_conv)
  qed
qed simp

lemma phase1_cluster:
  assumes "distinct (map sid sls)" "is_request r" "rec_adm r" "b < 2 ^ 64" "cmem env = mem_ok" "\<forall>sl \<in> set sls. uninit env (sid sl) ''message'' \<noteq> Wild"
    "\<And>sl. sl \<in> set sls \<Longrightarrow> node_rep b n (sid sl) (ms (sid sl)) Idle"
  shows "\<exists>n'. phase1 env (cluster_net env) (rec_msg r) sls (length sls) ab n =
      Some (ab \<or> (\<exists>sl \<in> set sls. \<not> can_commit (ms (sid sl)) r), n') \<and>
    (\<forall>x. x \<notin> sid ` set sls \<longrightarrow> n' x = n x) \<and>
    (\<forall>sl \<in> set sls. node_rep (b + 1) n' (sid sl) (ms (sid sl)) (if can_commit (ms (sid sl)) r then Prepared r else Idle))"
  using assms(1,6,7)
proof (induction sls arbitrary: n ab)
  case (Cons sl sls)
  let ?x = "sid sl"
  obtain rs where rs: "part_rep (fst (n ?x)) (snd (n ?x)) (ms ?x) Idle rs" "length rs \<le> b"
    using Cons.prems(3)[of sl] by (auto simp: node_rep_def)
  obtain t where t: "read_ptr (uninit env ?x ''message'') = Some t" using Cons.prems(2) by (cases "uninit env ?x ''message''") auto
  obtain resp s' srv' where h: "kvserver_handle_tpc env (fst (n ?x)) (snd (n ?x)) (rec_msg r) blank_message = Some (resp, s', srv')"
    "part_rep s' srv' (ms ?x) (if can_commit (ms ?x) r then Prepared r else Idle) (rs @ [r])"
    "mtype resp = code (if can_commit (ms ?x) r then VOTE_COMMIT else VOTE_ABORT)"
    using handle_prepare[OF rs(1) assms(2,3) _ assms(5)] rs(2) assms(4) by auto
  have d: "distinct (map sid sls)" "\<forall>sl \<in> set sls. uninit env (sid sl) ''message'' \<noteq> Wild" using Cons.prems(1,2) by simp_all
  let ?n = "n(?x := (s', srv'))"
  let ?ab = "ab \<or> \<not> can_commit (ms ?x) r"
  have msg: "\<lparr>mtype = mtype (rec_msg r), mkey = mkey (rec_msg r), mvalue = mvalue (rec_msg r), mmessage = t\<rparr> =
      (rec_msg r)\<lparr>mmessage := t\<rparr>" for t by (cases r) simp_all
  have step: "phase1 env (cluster_net env) (rec_msg r) (sl # sls) (length (sl # sls)) ab n =
      phase1 env (cluster_net env) (rec_msg r) sls (length sls) ?ab ?n"
    using h(1,3) assms(5) t by (simp add: cluster_net_def exchange_def msg handle_tpc_mmessage code_def)
  have "node_rep b ?n (sid y) (ms (sid y)) Idle" if "y \<in> set sls" for y
    using Cons.prems that by (metis distinct.simps(2) image_eqI list.set_intros(2) list.set_map list.simps(9) node_rep_other)
  then obtain n' where n': "phase1 env (cluster_net env) (rec_msg r) sls (length sls) ?ab ?n =
      Some (?ab \<or> (\<exists>sl \<in> set sls. \<not> can_commit (ms (sid sl)) r), n')" "\<forall>x. x \<notin> sid ` set sls \<longrightarrow> n' x = ?n x"
    "\<forall>sl \<in> set sls. node_rep (b + 1) n' (sid sl) (ms (sid sl)) (if can_commit (ms (sid sl)) r then Prepared r else Idle)"
    using Cons.IH[OF d(1,2), of ?n ?ab] by (metis (no_types, lifting))
  have "n' ?x = (s', srv')" using n'(2) Cons.prems(1) by auto
  then have "node_rep (b + 1) n' ?x (ms ?x) (if can_commit (ms ?x) r then Prepared r else Idle)"
    using h(2) rs(2) by (auto simp: node_rep_def intro!: exI[of _ "rs @ [r]"])
  then show ?case using step n' by auto
qed simp

lemma phase2_cluster:
  assumes "distinct (map sid sls)" "\<not> ab \<Longrightarrow> commit_safe (beyond env) r" "b < 2 ^ 64" "cmem env = mem_ok"
    "\<And>sl. sl \<in> set sls \<Longrightarrow> node_rep b n (sid sl) (ms (sid sl)) (ph (sid sl)) \<and> card (dom (ms (sid sl))) + 1 < 2 ^ 31 - 1"
    "\<not> ab \<Longrightarrow> \<forall>sl \<in> set sls. ph (sid sl) = Prepared r"
  shows "\<exists>n'. phase2 env (cluster_net env) ab sls (length sls) n = Some n' \<and>
    (\<forall>x. x \<notin> sid ` set sls \<longrightarrow> n' x = n x) \<and>
    (\<forall>sl \<in> set sls. node_rep (b + 1) n' (sid sl) (if ab then ms (sid sl) else apply_rec (ms (sid sl)) r) Idle)"
  using assms(1,5,6)
proof (induction sls arbitrary: n)
  case (Cons sl sls)
  let ?x = "sid sl" and ?d = "if ab then LAbort else LCommit"
  let ?m = "if ab then ms ?x else apply_rec (ms ?x) r"
  obtain rs where rs: "part_rep (fst (n ?x)) (snd (n ?x)) (ms ?x) (ph ?x) rs" "length rs \<le> b"
    using Cons.prems(2)[of sl] by (auto simp: node_rep_def)
  have "\<exists>resp s' srv'. kvserver_handle_tpc env (fst (n ?x)) (snd (n ?x)) (rec_msg ?d) blank_message = Some (resp, s', srv') \<and>
      part_rep s' srv' ?m Idle (rs @ [?d]) \<and> mtype resp = code ACK"
  proof (cases ab)
    case True
    then show ?thesis using handle_abort_ok[OF rs(1) _ assms(4)] rs(2) assms(3) by auto
  next
    case False
    then have "ph ?x = Prepared r" using Cons.prems(3) by simp
    then show ?thesis
      using handle_commit_ok[OF _ assms(2)[OF False] _ _ assms(4), of "fst (n ?x)" "snd (n ?x)" "ms ?x" rs] rs assms(3) Cons.prems(2)[of sl] False
      by auto
  qed
  then obtain resp s' srv' where h: "kvserver_handle_tpc env (fst (n ?x)) (snd (n ?x)) (rec_msg ?d) blank_message = Some (resp, s', srv')"
    "part_rep s' srv' ?m Idle (rs @ [?d])" "mtype resp = code ACK" by blast
  have d: "distinct (map sid sls)" using Cons.prems(1) by simp
  let ?n = "n(?x := (s', srv'))"
  have ack: "ack_loop env net ok sl' msg (Some resp) n1 = Some n1" for env and net :: "cluster network" and ok sl' msg n1
    using h(3) by (subst ack_loop.simps) simp
  have step: "phase2 env (cluster_net env) ab (sl # sls) (length (sl # sls)) n = phase2 env (cluster_net env) ab sls (length sls) ?n"
    using h(1) ack assms(4) by (cases ab) (simp_all add: cluster_net_def exchange_def)
  have "node_rep b ?n (sid y) (ms (sid y)) (ph (sid y)) \<and> card (dom (ms (sid y))) + 1 < 2 ^ 31 - 1" if "y \<in> set sls" for y
    using Cons.prems that by (metis distinct.simps(2) image_eqI list.set_intros(2) list.set_map list.simps(9) node_rep_other)
  then obtain n' where n': "phase2 env (cluster_net env) ab sls (length sls) ?n = Some n'" "\<forall>x. x \<notin> sid ` set sls \<longrightarrow> n' x = ?n x"
    "\<forall>sl \<in> set sls. node_rep (b + 1) n' (sid sl) (if ab then ms (sid sl) else apply_rec (ms (sid sl)) r) Idle"
    using Cons.IH[OF d, of ?n] Cons.prems(3) by (metis (no_types, lifting) list.set_intros(2))
  have "n' ?x = (s', srv')" using n'(2) Cons.prems(1) by auto
  then have "node_rep (b + 1) n' ?x ?m Idle"
    using h(2) rs(2) by (auto simp: node_rep_def intro!: exI[of _ "rs @ [?d]"])
  then show ?case using step n' by auto
qed simp

text \<open>A slave whose commit runs over a buffer never acknowledges, and the master never stops asking.\<close>

lemma ack_loop_silent:
  assumes "\<And>k v t. exchange net n ok sl \<lparr>mtype = ty, mkey = k, mvalue = v, mmessage = t\<rparr> = (None, n)"
  shows "ack_loop env net ok sl ty None n = None"
proof (rule ccontr)
  assume "ack_loop env net ok sl ty None n \<noteq> None"
  then obtain y where y: "ack_loop env net ok sl ty None n = Some y" by blast
  define stuck where "stuck = (\<lambda>net' ok' sl' ty' resp n'. net' = net \<and> ok' = ok \<and> sl' = sl \<and> ty' = ty \<and> resp = (None :: kvmessage option) \<and> n' = n)"
  have "\<not> stuck net ok sl ty None n"
  proof (rule ack_loop.raw_induct[where P = "\<lambda>env net ok sl ty resp n y. \<not> stuck net ok sl ty resp n", OF _ y])
    fix f env' and net' :: "'a network" and ok' sl' ty' and resp :: "kvmessage option" and n' y'
    assume IH: "\<And>env net ok sl ty resp n y. f env net ok sl ty resp n = Some y \<Longrightarrow> \<not> stuck net ok sl ty resp n"
      and f: "(if case resp of None \<Rightarrow> False | Some r \<Rightarrow> mtype r = code ACK then Some n'
        else if \<not> cmem env' sizeof_kvmessage then None
        else do {
          k \<leftarrow> read_ptr (uninit env' (sid sl') ''key'');
          v \<leftarrow> read_ptr (uninit env' (sid sl') ''value'');
          t \<leftarrow> read_ptr (uninit env' (sid sl') ''message'');
          let r = exchange net' n' ok' sl' \<lparr>mtype = ty', mkey = k, mvalue = v, mmessage = t\<rparr>;
          f env' net' ok' sl' ty' (fst r) (snd r)
        }) = Some y'"
    show "\<not> stuck net' ok' sl' ty' resp n'"
    proof
      assume st: "stuck net' ok' sl' ty' resp n'"
      then have "f env' net' ok' sl' ty' None n' = Some y'"
        using f assms by (auto simp: stuck_def bind_eq_Some_conv Let_def split: if_splits)
      from IH[OF this] st show False by (auto simp: stuck_def)
    qed
  qed
  then show False by (simp add: stuck_def)
qed

lemma phase2_unsafe:
  assumes "\<not> commit_safe (beyond env) r" "b < 2 ^ 64" "cmem env = mem_ok" "node_rep b n (sid sl) m (Prepared r)"
  shows "phase2 env (cluster_net env) False (sl # sls) (Suc k) n = None"
proof -
  obtain rs where rs: "part_rep (fst (n (sid sl))) (snd (n (sid sl))) m (Prepared r) rs" "length rs \<le> b"
    using assms(4) by (auto simp: node_rep_def)
  have "kvserver_handle_tpc env (fst (n (sid sl))) (snd (n (sid sl))) \<lparr>mtype = code COMMIT, mkey = k, mvalue = v, mmessage = t\<rparr> blank_message = None" for k v t
    by (rule handle_commit_unsafe[OF rs(1) assms(1) _ assms(3)]) (use rs(2) assms(2) in simp_all)
  then have ex: "exchange (cluster_net env) n True sl \<lparr>mtype = code COMMIT, mkey = k, mvalue = v, mmessage = t\<rparr> = (None, n)" for k v t
    by (simp add: exchange_def cluster_net_def)
  have c: "net_connect (cluster_net env) n sl = (True, n)" by (simp add: cluster_net_def)
  show ?thesis using ack_loop_silent[of "cluster_net env" n True sl "code COMMIT" env, OF ex] assms(3) by (simp add: c ex Let_def)
qed

lemma handle_getreq_ok:
  assumes "part_rep s srv m ph rs" "adm_key k" "cmem env = mem_ok"
  shows "\<exists>resp srv'. kvserver_handle_tpc env s srv \<lparr>mtype = code GETREQ, mkey = Some k, mvalue = v, mmessage = t\<rparr> blank_message =
      Some (resp, s, srv') \<and> part_rep s srv' m ph rs \<and>
    (if m k = None then mtype resp \<noteq> code GETRESP else mtype resp = code GETRESP \<and> mvalue resp = m k)"
proof -
  have "srv_rep s srv m" using assms(1) by (simp add: part_rep_def)
  then obtain c where c: "kvserver_get mem_ok s srv k = Some (if m k = None then ERRNOKEY else 0, m k, srv\<lparr>cache := c\<rparr>)"
    "srv_rep s (srv\<lparr>cache := c\<rparr>) m" using kvserver_get_ok assms(2) by blast
  have "part_rep s (srv\<lparr>cache := c\<rparr>) m ph rs" using assms(1) c(2) by (auto simp: part_rep_def split: phase.splits)
  moreover have "code RESP \<noteq> code GETRESP" by (simp add: code_def kv_simps)
  ultimately show ?thesis using c(1) assms(3)
    by (cases "m k") (simp_all add: kvserver_handle_tpc_def handle_getreq_def set_outcome_def blank_message_def ERRNOKEY_def Let_def)
qed

text \<open>A get asks the first slave in the list with an id above the hash, or the first slave of all, and then its
  successors around the list.\<close>

definition key_home :: "tpcmaster \<Rightarrow> string \<Rightarrow> nat" where
  "key_home ma key = (case List.find (\<lambda>i. sint (hash_64_bit key) < sint (sid (slaves ma ! i))) [0..<length (slaves ma)] of
     None \<Rightarrow> 0 | Some i \<Rightarrow> i)"

definition replicas :: "tpcmaster \<Rightarrow> nat \<Rightarrow> nat \<Rightarrow> tpcslave list" where
  "replicas ma i k = map (\<lambda>j. slaves ma ! ((i + j) mod length (slaves ma))) [0..<k]"

lemma primary_home:
  assumes "slaves ma \<noteq> []"
  shows "tpcmaster_get_primary ma key = Some (key_home ma key)" "key_home ma key < length (slaves ma)"
proof -
  let ?h = "hash_64_bit key" and ?l = "slaves ma"
  obtain j where j: "j < length ?l" "primary_loop ?l ?h 0 = j" "\<forall>k < j. sint (sid (?l ! k)) \<le> sint ?h"
    "j + 1 < length ?l \<longrightarrow> sint ?h < sint (sid (?l ! j))"
    using primary_loop_spec[OF assms, of ?h 0] by auto
  have "tpcmaster_get_primary ma key = Some (key_home ma key) \<and> key_home ma key < length (slaves ma)"
  proof (cases "sint ?h < sint (sid (?l ! j))")
    case True
    have "List.find (\<lambda>i. sint ?h < sint (sid (?l ! i))) [0..<length ?l] = Some j"
      unfolding find_Some_iff using j(1,3) True by (intro exI[of _ j]) (auto simp: not_less)
    then show ?thesis using True j assms by (simp add: key_home_def tpcmaster_get_primary_def Let_def)
  next
    case False
    then have last: "j + 1 = length ?l" using j(1,4) by auto
    then have "List.find (\<lambda>i. sint ?h < sint (sid (?l ! i))) [0..<length ?l] = None"
      using j(3) False by (auto simp: find_None_iff not_less less_Suc_eq simp flip: last)
    then show ?thesis using False last j(2) assms by (simp add: key_home_def tpcmaster_get_primary_def Let_def)
  qed
  then show "tpcmaster_get_primary ma key = Some (key_home ma key)" "key_home ma key < length (slaves ma)" by blast+
qed

lemma successor_ring: "i < length (slaves ma) \<Longrightarrow> tpcmaster_get_successor ma i = (i + 1) mod length (slaves ma)"
  by (cases "Suc i = length (slaves ma)") (auto simp: tpcmaster_get_successor_def)

lemma replicas_Suc: "slaves ma \<noteq> [] \<Longrightarrow> replicas ma i (Suc k) = slaves ma ! (i mod length (slaves ma)) # replicas ma ((i + 1) mod length (slaves ma)) k"
  by (simp add: replicas_def upt_rec[of 0] map_Suc_upt[symmetric] mod_add_left_eq del: upt_Suc) 

text \<open>What the slaves stand for, each with a dictionary of its own.\<close>

definition cluster_rep :: "nat \<Rightarrow> cluster \<Rightarrow> tpcslave list \<Rightarrow> (64 word \<Rightarrow> string \<rightharpoonup> string) \<Rightarrow> (64 word \<Rightarrow> phase) \<Rightarrow> bool" where
  "cluster_rep b n sls ms ph \<longleftrightarrow> (\<forall>sl \<in> set sls. node_rep b n (sid sl) (ms (sid sl)) (ph (sid sl)))"

definition get_readable :: "cenv \<Rightarrow> tpcslave list \<Rightarrow> bool" where
  "get_readable env sls \<longleftrightarrow> (\<forall>sl \<in> set sls. uninit env (sid sl) ''value'' \<noteq> Wild \<and> uninit env (sid sl) ''message'' \<noteq> Wild)"

definition get_result :: "(64 word \<Rightarrow> string \<rightharpoonup> string) \<Rightarrow> string \<Rightarrow> tpcslave list \<Rightarrow> string option" where
  "get_result ms k sls = (case List.find (\<lambda>sl. ms (sid sl) k \<noteq> None) sls of None \<Rightarrow> None | Some sl \<Rightarrow> ms (sid sl) k)"

definition get_answer :: "string option \<Rightarrow> int \<times> string option" where
  "get_answer v = (if v = None then (-1, None) else (0, v))"

lemma get_result_Cons: "get_result ms k (sl # sls) = (if ms (sid sl) k \<noteq> None then ms (sid sl) k else get_result ms k sls)"
  by (simp add: get_result_def)

lemma send_get_cluster:
  assumes "cluster_rep b n sls ms ph" "sl \<in> set sls" "adm_key k" "cmem env = mem_ok" "get_readable env sls"
  shows "\<exists>n'. tpcmaster_send_get env (cluster_net env) n sl k = Some (get_answer (ms (sid sl) k), n') \<and> cluster_rep b n' sls ms ph"
proof -
  let ?x = "sid sl"
  obtain rs where rs: "part_rep (fst (n ?x)) (snd (n ?x)) (ms ?x) (ph ?x) rs" "length rs \<le> b"
    using assms(1,2) by (auto simp: node_rep_def cluster_rep_def)
  obtain v t where p: "read_ptr (uninit env ?x ''value'') = Some v" "read_ptr (uninit env ?x ''message'') = Some t"
    using assms(2,5) unfolding get_readable_def by (cases "uninit env ?x ''value''"; cases "uninit env ?x ''message''") force+
  obtain resp srv' where h: "kvserver_handle_tpc env (fst (n ?x)) (snd (n ?x))
      \<lparr>mtype = code GETREQ, mkey = Some k, mvalue = v, mmessage = t\<rparr> blank_message = Some (resp, fst (n ?x), srv')"
    "part_rep (fst (n ?x)) srv' (ms ?x) (ph ?x) rs"
    "if ms ?x k = None then mtype resp \<noteq> code GETRESP else mtype resp = code GETRESP \<and> mvalue resp = ms ?x k"
    using handle_getreq_ok[OF rs(1) assms(3,4)] by blast
  let ?n = "n(?x := (fst (n ?x), srv'))"
  have "node_rep b ?n (sid y) (ms (sid y)) (ph (sid y))" if "y \<in> set sls" for y
    using assms(1) that h(2) rs(2) unfolding cluster_rep_def by (cases "sid y = ?x") (auto simp: node_rep_def)
  moreover have "tpcmaster_send_get env (cluster_net env) n sl k = Some (get_answer (ms ?x k), ?n)"
    using h(1,3) assms(4) p by (simp add: tpcmaster_send_get_def cluster_net_def exchange_def get_answer_def split: if_splits)
  ultimately show ?thesis by (auto simp: cluster_rep_def)
qed

lemma get_loop_cluster:
  assumes "cluster_rep b n (slaves ma) ms ph" "slaves ma \<noteq> []" "adm_key k" "cmem env = mem_ok" "get_readable env (slaves ma)" "node < length (slaves ma)"
  shows "\<exists>n'. get_loop env (cluster_net env) ma k j n node (-1, None) =
      Some (get_answer (get_result ms k (replicas ma ((node + 1) mod length (slaves ma)) j)), n') \<and> cluster_rep b n' (slaves ma) ms ph"
  using assms(1,6)
proof (induction j arbitrary: n node)
  case 0
  then show ?case by (simp add: replicas_def get_result_def get_answer_def)
next
  case (Suc j)
  let ?next = "(node + 1) mod length (slaves ma)"
  have nx: "tpcmaster_get_successor ma node = ?next" "?next < length (slaves ma)" using successor_ring[OF Suc.prems(2)] assms(2) by simp_all
  obtain n1 where n1: "tpcmaster_send_get env (cluster_net env) n (slaves ma ! ?next) k = Some (get_answer (ms (sid (slaves ma ! ?next)) k), n1)"
    "cluster_rep b n1 (slaves ma) ms ph"
    using send_get_cluster[OF Suc.prems(1) nth_mem[OF nx(2)] assms(3-5)] by blast
  have r: "get_result ms k (replicas ma ?next (Suc j)) =
      (if ms (sid (slaves ma ! ?next)) k \<noteq> None then ms (sid (slaves ma ! ?next)) k else get_result ms k (replicas ma ((?next + 1) mod length (slaves ma)) j))"
    using assms(2) by (simp add: replicas_Suc get_result_Cons)
  show ?case
  proof (cases "ms (sid (slaves ma ! ?next)) k")
    case None
    then show ?thesis using n1 Suc.IH[OF n1(2) nx(2)] unfolding r get_loop.simps nx(1) by (simp add: get_answer_def)
  next
    case (Some v)
    then show ?thesis using n1 unfolding r get_loop.simps nx(1) by (simp add: get_answer_def)
  qed
qed

lemma handle_get_cluster:
  assumes "slaves ma \<noteq> []" "cluster_rep b n (slaves ma) ms ph" "kc_wf (mcache ma)" "mkey req = Some k" "adm_key k" "cmem env = mem_ok"
    "get_readable env (slaves ma)"
    "found = (case kc_map (mcache ma) k of Some v \<Rightarrow> Some v | None \<Rightarrow> get_result ms k (replicas ma (key_home ma k) (max 1 (unat (redundancy ma)))))"
  shows "\<exists>resp' ma' n'. tpcmaster_handle_get env (cluster_net env) n ma req resp = Some (resp', ma', n') \<and>
    (case found of
       Some v \<Rightarrow> mtype resp' = code GETRESP \<and> mkey resp' = Some k \<and> mvalue resp' = Some v
     | None \<Rightarrow> mtype resp' = code RESP \<and> mkey resp' = None \<and> mmessage resp' = Some ERRMSG_NO_KEY) \<and>
    cluster_rep b n' (slaves ma) ms ph \<and> slaves ma' = slaves ma \<and> kc_wf (mcache ma') \<and> kc_map (mcache ma') = kc_map (mcache ma)"
proof (cases "kc_map (mcache ma) k")
  case (Some v)
  then obtain c where "kvcache_get mem_ok (mcache ma) k = Some (0, Some v, c)" "kc_wf c" "kc_map c = kc_map (mcache ma)"
    using kc.get_hit[OF assms(3) _ Some] assms(5) by (auto simp: adm_key_def kc_key_def)
  then show ?thesis using Some assms(2,4,6) by (simp add: assms(8) tpcmaster_handle_get_def)
next
  case None
  have c: "kvcache_get mem_ok (mcache ma) k = Some (ERRNOKEY, None, mcache ma)"
    using kc.get_miss[OF assms(3) _ None] assms(5) by (simp add: adm_key_def kc_key_def)
  have same: "ma\<lparr>mcache := mcache ma\<rparr> = ma" by simp
  let ?i = "key_home ma k" and ?red = "unat (redundancy ma)"
  note i = primary_home[OF assms(1), of k]
  obtain n1 where n1: "tpcmaster_send_get env (cluster_net env) n (slaves ma ! ?i) k = Some (get_answer (ms (sid (slaves ma ! ?i)) k), n1)"
    "cluster_rep b n1 (slaves ma) ms ph"
    using send_get_cluster[OF assms(2) nth_mem[OF i(2)] assms(5-7)] by blast
  obtain n2 where n2: "get_loop env (cluster_net env) ma k (?red - 1) n1 ?i (-1, None) =
      Some (get_answer (get_result ms k (replicas ma ((?i + 1) mod length (slaves ma)) (?red - 1))), n2)" "cluster_rep b n2 (slaves ma) ms ph"
    using get_loop_cluster[OF n1(2) assms(1,5-7) i(2)] by blast
  have mx: "max 1 ?red = Suc (?red - 1)" by simp
  have r: "found = (if ms (sid (slaves ma ! ?i)) k \<noteq> None then ms (sid (slaves ma ! ?i)) k
      else get_result ms k (replicas ma ((?i + 1) mod length (slaves ma)) (?red - 1)))"
    unfolding assms(8) None option.case mx replicas_Suc[OF assms(1)] get_result_Cons mod_less[OF i(2)] by (rule refl)
  show ?thesis
  proof (cases "ms (sid (slaves ma ! ?i)) k")
    case None
    then have g: "get_result ms k (replicas ma ((?i + 1) mod length (slaves ma)) (?red - 1)) = found" using r by simp
    show ?thesis using c i(1) n1(1) n2[unfolded g] assms(3,4,6) same None
      by (cases found) (simp_all add: tpcmaster_handle_get_def ERRNOKEY_def get_answer_def)
  next
    case (Some v)
    then show ?thesis using c i(1) n1 assms(3,4,6) same r by (simp add: tpcmaster_handle_get_def ERRNOKEY_def get_answer_def)
  qed
qed

section \<open>Properties\<close>

definition ex_master :: "tpcslave list \<Rightarrow> tpcmaster" where
  "ex_master sls = \<lparr>slave_capacity = 4, slave_count = word_of_nat (length sls), redundancy = 2, slaves = sls,
     mcache = \<lparr>num_sets = 0, kc_elem_per_set = 0, sets = []\<rparr>\<rparr>"

definition ex_slave :: "64 word \<Rightarrow> tpcslave" where
  "ex_slave x = \<lparr>sid = x, shost = ''h'', sport = 9000\<rparr>"

text \<open>C3. Two-phase commit is atomic when every slave answers: a put or delete sent through the master
  is applied by all slaves if all of them can commit it, and by none otherwise; in both cases the
  protocol ends, no slave is left prepared, and the client is told that it succeeded. There are two exceptions, in which
  the master does not answer at all. The text of the messages of the first phase is never set: when it holds a wild
  pointer, sending the message is undefined. And when all slaves can commit a request but the commit is not
  safe, the first slave runs over its buffer and never acknowledges.\<close>

theorem tpcmaster_atomic_commit:
  assumes "is_request r" "rec_adm r" "cmem env = mem_ok"
    "distinct (map sid (slaves ma))" "unat (slave_count ma) = length (slaves ma)" "b + 1 < 2 ^ 64"
    "\<And>sl. sl \<in> set (slaves ma) \<Longrightarrow> node_rep b n (sid sl) (ms (sid sl)) Idle \<and> card (dom (ms (sid sl))) + 1 < 2 ^ 31 - 1"
  shows "let all = (\<forall>sl \<in> set (slaves ma). can_commit (ms (sid sl)) r);
      result = tpcmaster_handle_tpc env (cluster_net env) n ma (rec_msg r) resp in
    if (\<exists>sl \<in> set (slaves ma). uninit env (sid sl) ''message'' = Wild) \<or> slaves ma \<noteq> [] \<and> all \<and> \<not> commit_safe (beyond env) r
    then result = None
    else \<exists>resp' n'. result = Some (resp', n') \<and> mmessage resp' = Some MSG_SUCCESS \<and>
      (\<forall>sl \<in> set (slaves ma). node_rep (b + 2) n' (sid sl) (if all then apply_rec (ms (sid sl)) r else ms (sid sl)) Idle)"
proof (cases "\<exists>sl \<in> set (slaves ma). uninit env (sid sl) ''message'' = Wild")
  case True
  then obtain sl where "sl \<in> set (slaves ma)" "uninit env (sid sl) ''message'' = Wild" by blast
  then have "tpcmaster_handle_tpc env (cluster_net env) n ma (rec_msg r) resp = None"
    using phase1_wild[of sl "length (slaves ma)" "slaves ma" env "cluster_net env"] assms(5) by (simp add: tpcmaster_handle_tpc_def)
  then show ?thesis using True by (simp add: Let_def)
next
  case False
  let ?all = "\<forall>sl \<in> set (slaves ma). can_commit (ms (sid sl)) r"
  let ?ph = "\<lambda>x. if can_commit (ms x) r then Prepared r else Idle"
  have rd: "\<forall>sl \<in> set (slaves ma). uninit env (sid sl) ''message'' \<noteq> Wild" using False by blast
  have b: "b < 2 ^ 64" using assms(6) by simp
  have idle: "node_rep b n (sid sl) (ms (sid sl)) Idle" if "sl \<in> set (slaves ma)" for sl using assms(7)[OF that] by blast
  obtain n1 where n1: "phase1 env (cluster_net env) (rec_msg r) (slaves ma) (length (slaves ma)) False n = Some (\<not> ?all, n1)"
    "\<forall>sl \<in> set (slaves ma). node_rep (b + 1) n1 (sid sl) (ms (sid sl)) (?ph (sid sl))"
    using phase1_cluster[OF assms(4,1,2) b assms(3) rd idle, of False] by auto
  show ?thesis
  proof (cases "slaves ma \<noteq> [] \<and> ?all \<and> \<not> commit_safe (beyond env) r")
    case True
    then obtain sl sls where sl: "slaves ma = sl # sls" by (cases "slaves ma") auto
    have "node_rep (b + 1) n1 (sid sl) (ms (sid sl)) (Prepared r)" using n1(2) True sl by simp
    then have "phase2 env (cluster_net env) False (slaves ma) (length (slaves ma)) n1 = None"
      using phase2_unsafe[of env r "b + 1"] True assms(3,6) sl by simp
    then show ?thesis using n1(1) True assms(5) by (simp add: tpcmaster_handle_tpc_def Let_def)
  next
    case safe: False
    have "node_rep (b + 1) n1 (sid sl) (ms (sid sl)) (?ph (sid sl)) \<and> card (dom (ms (sid sl))) + 1 < 2 ^ 31 - 1"
      if "sl \<in> set (slaves ma)" for sl using n1(2) assms(7) that by blast
    moreover have "slaves ma = [] \<or> (\<not> \<not> ?all \<longrightarrow> commit_safe (beyond env) r)" using safe by blast
    ultimately obtain n2 where n2: "phase2 env (cluster_net env) (\<not> ?all) (slaves ma) (length (slaves ma)) n1 = Some n2"
      "\<forall>sl \<in> set (slaves ma). node_rep (b + 2) n2 (sid sl) (if \<not> ?all then ms (sid sl) else apply_rec (ms (sid sl)) r) Idle"
      using phase2_cluster[OF assms(4) _ assms(6,3), of "\<not> ?all" r n1 ms ?ph] by (cases "slaves ma = []") auto
    have "tpcmaster_handle_tpc env (cluster_net env) n ma (rec_msg r) resp =
        Some (resp\<lparr>mtype := code RESP, mmessage := Some MSG_SUCCESS\<rparr>, n2)"
      using n1(1) n2(1) assms(5) by (simp add: tpcmaster_handle_tpc_def)
    moreover have "node_rep (b + 2) n2 (sid sl) (if ?all then apply_rec (ms (sid sl)) r else ms (sid sl)) Idle"
      if "sl \<in> set (slaves ma)" for sl using n2(2) that by (cases ?all) auto
    ultimately show ?thesis using False safe by (simp add: Let_def)
  qed
qed

theorem tpcmaster_atomic_commit_witness:
  "\<exists>n resp' n'. tpcmaster_handle_tpc ex_env (cluster_net ex_env) n (ex_master [ex_slave 1, ex_slave 2])
       (rec_msg (LPut ''a'' ''1'')) blank_message = Some (resp', n') \<and> mmessage resp' = Some MSG_SUCCESS \<and>
     node_rep 2 n' 1 [''a'' \<mapsto> ''1''] Idle \<and> node_rep 2 n' 2 [''a'' \<mapsto> ''1''] Idle"
proof -
  obtain srv where srv: "part_rep (set_node ''store'' Dir ex_os) srv Map.empty Idle []" using ex_participant by metis
  let ?n = "\<lambda>_ :: 64 word. (set_node ''store'' Dir ex_os, srv)"
  have 0: "node_rep 0 ?n x Map.empty Idle" for x using srv by (simp add: node_rep_def)
  let ?ma = "ex_master [ex_slave 1, ex_slave 2]" and ?r = "LPut ''a'' ''1''"
  have c: "is_request ?r" "rec_adm ?r" "cmem ex_env = mem_ok" "distinct (map sid (slaves ?ma))" "unat (slave_count ?ma) = length (slaves ?ma)" "0 + 1 < (2 ^ 64 :: nat)"
    by (simp_all add: ex_master_def ex_slave_def)
  have i: "node_rep 0 ?n (sid sl) Map.empty Idle \<and> card (dom (Map.empty :: string \<rightharpoonup> string)) + 1 < 2 ^ 31 - 1" for sl using 0 by simp
  note t = tpcmaster_atomic_commit[OF c i, of blank_message, unfolded Let_def]
  have all: "can_commit Map.empty ?r" "commit_safe (beyond ex_env) ?r" "set (slaves ?ma) = {ex_slave 1, ex_slave 2}" "sid (ex_slave x) = x" for x
    by (simp_all add: ex_master_def ex_slave_def kv_simps)
  from t obtain resp' n' where "tpcmaster_handle_tpc ex_env (cluster_net ex_env) ?n ?ma (rec_msg ?r) blank_message = Some (resp', n')"
    "mmessage resp' = Some MSG_SUCCESS" "\<forall>sl \<in> set (slaves ?ma). node_rep (0 + 2) n' (sid sl) (apply_rec Map.empty ?r) Idle"
    using all(1,2) by (auto simp del: can_commit.simps commit_safe.simps rec_msg.simps)
  then show ?thesis unfolding all(3) by (auto simp: all(4) numeral_2_eq_2)
qed

lemma ack_loop_dead: "ack_loop env net False sl ty None n = None"
  by (rule ack_loop_silent) (simp add: exchange_def)

lemma phase2_dead:
  assumes "\<And>n. \<not> fst (net_connect net n sl)" "sl \<in> set (take k sls)"
  shows "phase2 env net ab sls k n = None"
  using assms(2)
proof (induction sls arbitrary: k n)
  case (Cons y sls)
  then obtain j where k: "k = Suc j" by (cases k) auto
  show ?case
  proof (cases "y = sl")
    case True
    then show ?thesis using assms(1)[of n] by (simp add: k exchange_def case_prod_beta Let_def ack_loop_dead bind_eq_None_conv)
  next
    case False
    then have "phase2 env net ab sls j n1 = None" for n1 using Cons k by auto
    then show ?thesis using k by (simp add: case_prod_beta Let_def bind_eq_None_conv)
  qed
qed simp

text \<open>A slave that cannot be reached is never given up and never tried again: if the connection to one
  of the slaves fails, the master repeats its decision on the dead descriptor and never answers.\<close>

theorem tpcmaster_unreachable_slave:
  assumes "\<And>n. \<not> fst (net_connect net n sl)" "sl \<in> set (take (unat (slave_count ma)) (slaves ma))"
  shows "tpcmaster_handle_tpc env net n ma req resp = None"
  using phase2_dead[OF assms] by (simp add: tpcmaster_handle_tpc_def case_prod_beta bind_eq_None_conv)


definition ex_dead :: "unit network" where
  "ex_dead = \<lparr>net_connect = (\<lambda>n _. (False, n)), net_call = (\<lambda>n _ _. (None, n))\<rparr>"

theorem tpcmaster_unreachable_slave_witness:
  "tpcmaster_handle_tpc ex_env ex_dead () (ex_master [ex_slave 1]) (rec_msg (LPut ''a'' ''1'')) blank_message = None"
  by (rule tpcmaster_unreachable_slave[of ex_dead "ex_slave 1"]) (simp_all add: ex_dead_def ex_master_def)

text \<open>C38. A missing vote counts as a vote to commit: as long as no slave answers \<^const>\<open>VOTE_ABORT\<close>, the first
  phase decides to commit, whether the slaves voted, answered something else, or could not be
  reached at all. It returns unless the text of a message it sends, which is never set, is a wild pointer.\<close>

theorem tpcmaster_missing_vote_commits:
  assumes "\<And>n sl msg r n'. net_call net n sl msg = (Some r, n') \<Longrightarrow> mtype r \<noteq> code VOTE_ABORT"
    "cmem env = mem_ok"
  shows "if \<exists>sl \<in> set (take k sls). uninit env (sid sl) ''message'' = Wild then phase1 env net req sls k False n = None
    else \<exists>n'. phase1 env net req sls k False n = Some (False, n')"
proof (cases "\<exists>sl \<in> set (take k sls). uninit env (sid sl) ''message'' = Wild")
  case True
  then show ?thesis using phase1_wild by auto
next
  case False
  have "\<exists>n'. phase1 env net req sls k False n = Some (False, n')" using False
  proof (induction sls arbitrary: k n)
    case (Cons sl sls)
    have no_abort: "mtype r \<noteq> code VOTE_ABORT" if "fst (exchange net n1 ok sl m) = Some r" for n1 ok m r
      using that assms(1)[of n1 sl m r "snd (net_call net n1 sl m)"]
      by (auto simp: exchange_def prod_eq_iff split: if_splits)
    show ?case
    proof (cases k)
      case (Suc j)
      obtain t where "read_ptr (uninit env (sid sl) ''message'') = Some t"
        using Cons.prems Suc by (cases "uninit env (sid sl) ''message''") auto
      then show ?thesis using Cons Suc assms(2) by (auto simp: case_prod_beta Let_def no_abort split: option.split)
    qed simp
  qed simp
  then show ?thesis using False by simp
qed

theorem tpcmaster_missing_vote_commits_witness:
  "\<exists>n'. phase1 ex_env ex_dead (rec_msg (LPut ''a'' ''1'')) [ex_slave 1, ex_slave 2] 2 False () = Some (False, n')"
  using tpcmaster_missing_vote_commits[of ex_dead ex_env 2 "[ex_slave 1, ex_slave 2]" "rec_msg (LPut ''a'' ''1'')" "()"]
  by (simp add: ex_dead_def)

text \<open>C36. On a list of slaves sorted by id, \<^verbatim>\<open>tpcmaster_get_primary\<close> returns the slave with the smallest id
  above the hash of the key, and the first slave when there is none.\<close>

theorem tpcmaster_primary_correct:
  assumes "slaves ma \<noteq> []" "sorted (ids (slaves ma))"
  shows "\<exists>i < length (slaves ma). tpcmaster_get_primary ma key = Some i \<and>
    (if \<exists>sl \<in> set (slaves ma). sint (hash_64_bit key) < sint (sid sl)
     then sint (hash_64_bit key) < sint (sid (slaves ma ! i)) \<and>
       (\<forall>sl \<in> set (slaves ma). sint (hash_64_bit key) < sint (sid sl) \<longrightarrow> sint (sid (slaves ma ! i)) \<le> sint (sid sl))
     else i = 0)"
proof -
  let ?h = "hash_64_bit key" and ?l = "slaves ma"
  obtain j where j: "j < length ?l" "primary_loop ?l ?h 0 = j" "\<forall>k < j. sint (sid (?l ! k)) \<le> sint ?h"
    "j + 1 < length ?l \<longrightarrow> sint ?h < sint (sid (?l ! j))"
    using primary_loop_spec[OF assms(1), of ?h 0] by auto
  have mono: "sint (sid (?l ! a)) \<le> sint (sid (?l ! b))" if "a \<le> b" "b < length ?l" for a b
    using sorted_nth_mono[OF assms(2) that(1)] that by simp
  show ?thesis
  proof (cases "sint (sid (?l ! j)) \<le> sint ?h")
    case True
    then have last: "j + 1 = length ?l" using j(1,4) by auto
    have "sint (sid sl) \<le> sint ?h" if sl: "sl \<in> set ?l" for sl
    proof -
      obtain k where "k < length ?l" "sl = ?l ! k" using sl unfolding in_set_conv_nth by blast
      then show ?thesis using mono[of k j] last True by auto
    qed
    then have "\<not> (\<exists>sl \<in> set ?l. sint ?h < sint (sid sl))" by force
    then show ?thesis using True last j(2) assms(1) by (simp add: tpcmaster_get_primary_def Let_def)
  next
    case False
    have "sint (sid (?l ! j)) \<le> sint (sid sl)" if sl: "sl \<in> set ?l" "sint ?h < sint (sid sl)" for sl
    proof -
      obtain k where "k < length ?l" "sl = ?l ! k" using sl(1) unfolding in_set_conv_nth by blast
      then show ?thesis using mono[of j k] j(3) sl(2) by (cases "k < j") auto
    qed
    moreover have "\<exists>sl \<in> set ?l. sint ?h < sint (sid sl)" using False j(1) by (intro bexI[of _ "?l ! j"]) auto
    moreover have "tpcmaster_get_primary ma key = Some j"
      using False j(2) assms(1) by (simp add: tpcmaster_get_primary_def Let_def)
    ultimately show ?thesis using False j(1) by auto
  qed
qed

theorem tpcmaster_primary_correct_witness:
  "\<exists>i < 2. tpcmaster_get_primary (ex_master [ex_slave 1, ex_slave 2]) ''a'' = Some i"
  using tpcmaster_primary_correct[of "ex_master [ex_slave 1, ex_slave 2]" "''a''"]
  by (auto simp: ex_master_def ex_slave_def)

text \<open>Registration does not keep the list sorted: a slave whose id lies between those of two
  registered slaves is inserted behind the larger one.\<close>

theorem tpcmaster_register_unsorted:
  assumes "sorted (ids (slaves ma))" "slave_count ma < slave_capacity ma" "mkey req = Some host" "mvalue req = Some prt"
    "cmem env = mem_ok" "h = hash_64_bit (prt @ CHR '':'' # host)" "slaves ma \<noteq> []"
    "sint (sid (hd (slaves ma))) < sint h" "sl \<in> set (slaves ma)" "sint h < sint (sid sl)"
    "h \<notin> sid ` set (slaves ma)"
  shows "\<exists>ma' resp'. tpcmaster_register env ma req resp = Some (ma', resp') \<and> \<not> sorted (ids (slaves ma'))"
proof -
  obtain ma' resp' as bs where r: "tpcmaster_register env ma req resp = Some (ma', resp')" "slaves ma = as @ bs"
    "slaves ma' = as @ \<lparr>sid = h, shost = host, sport = word_of_int (atoi prt)\<rparr> # bs"
    "as \<noteq> [] \<longrightarrow> (\<forall>x \<in> set (butlast as). sint (sid x) < sint h) \<and> (bs \<noteq> [] \<longrightarrow> sint h \<le> sint (sid (last as)))"
    "as = [] \<longrightarrow> bs \<noteq> [] \<longrightarrow> sint h < sint (sid (hd bs))"
    using register_inserts[OF assms(2-5), of resp] unfolding assms(6) by blast
  have as: "as \<noteq> []" using r(2,5) assms(7,8) by auto
  have "\<not> sorted (ids (slaves ma'))"
  proof
    assume "sorted (ids (slaves ma'))"
    then have le: "\<forall>x \<in> set as. sint (sid x) \<le> sint h" "\<forall>x \<in> set bs. sint h \<le> sint (sid x)"
      unfolding r(3) by (simp_all add: sorted_append)
    have "sl \<in> set bs" using assms(9,10) r(2) le(1) by auto
    then have "sint h \<le> sint (sid (last as))" "bs \<noteq> []" using r(4) as by auto
    then have "sint (sid (last as)) = sint h" using le(1) as by (meson antisym last_in_set)
    then show False using assms(11) as r(2) by (auto dest!: signed_word_eqI[THEN sym])
  qed
  then show ?thesis using r(1) by blast
qed

theorem tpcmaster_register_unsorted_witness:
  "\<exists>ma' resp'. tpcmaster_register ex_env (ex_master [ex_slave (- (2 ^ 63)), ex_slave (2 ^ 63 - 1)])
     (blank_message\<lparr>mkey := Some ''h'', mvalue := Some ''9000''\<rparr>) blank_message = Some (ma', resp') \<and> \<not> sorted (ids (slaves ma'))"
proof (rule tpcmaster_register_unsorted[of _ _ "''h''" "''9000''" _ "hash_64_bit ''9000:h''" "ex_slave (2 ^ 63 - 1)"])
  have "sint (- (2 ^ 63) :: 64 word) < sint (hash_64_bit ''9000:h'')" by code_simp
  then show "sint (sid (hd (slaves (ex_master [ex_slave (- (2 ^ 63)), ex_slave (2 ^ 63 - 1)])))) < sint (hash_64_bit ''9000:h'')"
    by (simp add: ex_master_def ex_slave_def)
  have "sint (hash_64_bit ''9000:h'') < sint (2 ^ 63 - 1 :: 64 word)" by code_simp
  then show "sint (hash_64_bit ''9000:h'') < sint (sid (ex_slave (2 ^ 63 - 1)))"
    by (simp add: ex_slave_def)
  have "hash_64_bit ''9000:h'' \<notin> {- (2 ^ 63), 2 ^ 63 - 1}" by code_simp
  then show "hash_64_bit ''9000:h'' \<notin> sid ` set (slaves (ex_master [ex_slave (- (2 ^ 63)), ex_slave (2 ^ 63 - 1)]))"
    by (simp add: ex_master_def ex_slave_def)
qed (simp_all add: ex_master_def ex_slave_def kv_simps)


definition ex_cached :: "tpcslave list \<Rightarrow> tpcmaster" where
  "ex_cached sls = (ex_master sls)\<lparr>mcache := snd (kvcache_init mem_ok (\<lambda>_. 0) \<lparr>num_sets = 0, kc_elem_per_set = 0, sets = []\<rparr> 1 2)\<rparr>"

lemma ex_cached_ok: "kc_wf (mcache (ex_cached sls))" "kc_map (mcache (ex_cached sls)) = Map.empty"
  using kvcache_init_ok[of 1 2 "\<lambda>_. 0" "\<lparr>num_sets = 0, kc_elem_per_set = 0, sets = []\<rparr>"] by (auto simp: ex_cached_def)

lemma ex_committed:
  obtains s srv where "part_rep s srv [''a'' \<mapsto> ''1''] Idle [LPut ''a'' ''1'', LCommit]"
proof -
  obtain s0 srv0 where "part_rep s0 srv0 Map.empty (Prepared (LPut ''a'' ''1'')) [LPut ''a'' ''1'']" by (rule ex_prepared)
  then show thesis using that handle_commit_ok[of s0 srv0 Map.empty "LPut ''a'' ''1''" "[LPut ''a'' ''1'']" ex_env] by (auto simp: kv_simps)
qed


text \<open>A get that finds its key frees the key twice: \<^verbatim>\<open>tpcmaster_handle_get\<close> lets the response point to
  the request's key, and \<^verbatim>\<open>tpcmaster_handle\<close> frees both. The handler answers with the value and the
  process is then in an undefined state; a get of a key that does not exist is served.\<close>

theorem tpcmaster_handle_double_free:
  assumes "slaves ma \<noteq> []" "cluster_rep b n (slaves ma) ms ph" "kc_wf (mcache ma)" "mkey req = Some k" "adm_key k" "cmem env = mem_ok"
    "get_readable env (slaves ma)" "mtype req = code GETREQ" "length k < usable env (length k)"
    "found = (case kc_map (mcache ma) k of Some v \<Rightarrow> Some v | None \<Rightarrow> get_result ms k (replicas ma (key_home ma k) (max 1 (unat (redundancy ma)))))"
  shows "if found = None
    then \<exists>resp' ma' n'. tpcmaster_handle env (cluster_net env) now n ma (Some req) = Some (resp', ma', n') \<and>
      mmessage resp' = Some ERRMSG_NO_KEY
    else tpcmaster_handle env (cluster_net env) now n ma (Some req) = None"
proof -
  let ?resp = "blank_message\<lparr>mtype := code RESP, mkey := Some k\<rparr>"
  obtain resp' ma' n' where h: "tpcmaster_handle_get env (cluster_net env) n ma req ?resp = Some (resp', ma', n')"
    "case found of Some v \<Rightarrow> mtype resp' = code GETRESP \<and> mkey resp' = Some k \<and> mvalue resp' = Some v
     | None \<Rightarrow> mtype resp' = code RESP \<and> mkey resp' = None \<and> mmessage resp' = Some ERRMSG_NO_KEY"
    using handle_get_cluster[OF assms(1-7,10)] by blast
  have "code GETREQ \<noteq> code INFO" "code GETREQ \<noteq> code REGISTER" by (simp_all add: code_def kv_simps)
  then have "tpcmaster_handle env (cluster_net env) now n ma (Some req) =
      (if mkey resp' \<noteq> None then None else Some (resp', ma', n'))"
    using h(1) assms(4,6,8,9) by (simp add: tpcmaster_handle_def)
  then show ?thesis using h(2) by (cases found) auto
qed

theorem tpcmaster_handle_double_free_witness:
  "\<exists>n. tpcmaster_handle ex_env (cluster_net ex_env) [] n (ex_cached [ex_slave 1]) (Some (blank_message\<lparr>mtype := code GETREQ, mkey := Some ''a''\<rparr>)) = None"
proof -
  let ?ma = "ex_cached [ex_slave 1]" and ?req = "blank_message\<lparr>mtype := code GETREQ, mkey := Some ''a''\<rparr>" and ?ms = "\<lambda>_. [''a'' \<mapsto> ''1'']"
  obtain s srv where srv: "part_rep s srv [''a'' \<mapsto> ''1''] Idle [LPut ''a'' ''1'', LCommit]" by (rule ex_committed)
  let ?n = "\<lambda>_ :: 64 word. (s, srv)"
  have 0: "cluster_rep 2 ?n (slaves ?ma) ?ms (\<lambda>_. Idle)" using srv by (auto simp: node_rep_def cluster_rep_def)
  have "get_result ?ms ''a'' (replicas ?ma (key_home ?ma ''a'') (max 1 (unat (redundancy ?ma)))) = Some ''1''"
    by (simp add: get_result_def replicas_def upt_rec)
  then have "tpcmaster_handle ex_env (cluster_net ex_env) [] ?n ?ma (Some ?req) = None"
    using tpcmaster_handle_double_free[of ?ma 2 ?n ?ms "\<lambda>_. Idle" ?req "''a''" ex_env "Some ''1''" "[]"] 0 ex_cached_ok
    by (simp add: ex_cached_def ex_master_def adm_key_def kv_simps ex_env_def get_readable_def)
  then show ?thesis by blast
qed

text \<open>Below the capacity a registration never recognises a slave that is already registered: the
  flag \<^verbatim>\<open>exists\<close> stays 0, and registering the same address twice leaves two slaves with the same id.\<close>

theorem tpcmaster_register_duplicate:
  assumes "slave_count ma + 1 < slave_capacity ma" "slave_count ma < slave_count ma + 1"
    "mkey req = Some host" "mvalue req = Some prt" "cmem env = mem_ok"
  shows "\<exists>ma1 r1 ma2 r2. tpcmaster_register env ma req resp = Some (ma1, r1) \<and>
    tpcmaster_register env ma1 req resp = Some (ma2, r2) \<and> mmessage r2 = Some MSG_SUCCESS \<and>
    length (slaves ma2) = length (slaves ma) + 2 \<and> slave_count ma2 = slave_count ma + 2 \<and>
    count_list (map sid (slaves ma2)) (hash_64_bit (prt @ CHR '':'' # host)) \<ge> 2"
proof -
  let ?h = "hash_64_bit (prt @ CHR '':'' # host)"
  have lt: "slave_count ma < slave_capacity ma" using assms(1,2) by simp
  obtain ma1 r1 as bs where 1: "tpcmaster_register env ma req resp = Some (ma1, r1)" "slaves ma = as @ bs"
    "slaves ma1 = as @ \<lparr>sid = ?h, shost = host, sport = word_of_int (atoi prt)\<rparr> # bs"
    "slave_count ma1 = slave_count ma + 1" "slave_capacity ma1 = slave_capacity ma"
    using register_inserts[OF lt assms(3-5), of resp] by blast
  have "slave_count ma1 < slave_capacity ma1" using 1(4,5) assms(1) by simp
  from register_inserts[OF this assms(3-5), of resp]
  obtain ma2 r2 cs ds where 2: "tpcmaster_register env ma1 req resp = Some (ma2, r2)" "slaves ma1 = cs @ ds"
    "mmessage r2 = Some MSG_SUCCESS"
    "slaves ma2 = cs @ \<lparr>sid = ?h, shost = host, sport = word_of_int (atoi prt)\<rparr> # ds"
    "slave_count ma2 = slave_count ma1 + 1" by blast
  have "count_list (map sid (cs @ ds)) ?h \<ge> 1" unfolding 2(2)[symmetric] 1(3) by simp
  then have "count_list (map sid (slaves ma2)) ?h \<ge> 2" using 2(4) by simp
  moreover have "length (slaves ma2) = length (slaves ma) + 2"
    using arg_cong[OF 1(3), of length] arg_cong[OF 2(4), of length] 1(2) 2(2) by simp
  moreover have "slave_count ma2 = slave_count ma + 2" using 2(5) 1(4) by simp
  ultimately show ?thesis using 1(1) 2(1,3) by blast
qed

theorem tpcmaster_register_duplicate_witness:
  "\<exists>ma1 r1 ma2 r2. tpcmaster_register ex_env (ex_master []) (blank_message\<lparr>mkey := Some ''h'', mvalue := Some ''9000''\<rparr>) blank_message =
     Some (ma1, r1) \<and> tpcmaster_register ex_env ma1 (blank_message\<lparr>mkey := Some ''h'', mvalue := Some ''9000''\<rparr>) blank_message =
     Some (ma2, r2) \<and> length (slaves ma2) = 2"
  using tpcmaster_register_duplicate[of "ex_master []" "blank_message\<lparr>mkey := Some ''h'', mvalue := Some ''9000''\<rparr>" "''h''" "''9000''" ex_env blank_message]
  by (auto simp: ex_master_def kv_simps)

end
