(* ===== verification/WQ.thy ===== *)
theory WQ
  imports Prelude
begin

text \<open>
  The work queue of \<^verbatim>\<open>wq.c\<close> and the worker threads of \<^verbatim>\<open>socket_server.c\<close> that share it. A thread's
  position in \<^verbatim>\<open>wq_pop\<close> or \<^verbatim>\<open>wq_push\<close> is a \<open>pc\<close>; one step takes one thread past one call of the
  pthread library or past the statements between two of them, and the threads interleave freely.
  \<^verbatim>\<open>pthread_cond_wait\<close> releases the mutex and sleeps in one step, a signal wakes a sleeping thread if
  there is one, and a thread may wake without a signal, as POSIX allows. The list of \<^verbatim>\<open>utlist.h\<close> is the
  sequence of its items.
\<close>

section \<open>State\<close>

datatype 'a pc =
    Outside
  | PopLock | PopTest | PopSleep | PopWake | PopUnlock 'a
  | PushLock 'a | PushAppend 'a | PushSignal | PushUnlock

text \<open>\<open>pushed\<close> and \<open>popped\<close> record, in order, the items appended and the items taken with the thread
  that took each.\<close>

record 'a wq =
  head :: "'a list"
  lock :: "nat option"
  pcs :: "'a pc list"
  pushed :: "'a list"
  popped :: "(nat \<times> 'a) list"

definition sizeof_wq_item :: nat where
  "sizeof_wq_item = 24"

definition wq_init :: "nat \<Rightarrow> 'a wq" where
  "wq_init n = \<lparr>head = [], lock = None, pcs = replicate n Outside, pushed = [], popped = []\<rparr>"

section \<open>Steps\<close>

definition at :: "'a wq \<Rightarrow> nat \<Rightarrow> 'a pc \<Rightarrow> 'a wq" where
  "at q t p = q\<lparr>pcs := (pcs q)[t := p]\<rparr>"

text \<open>A thread that waits for the mutex does not move while another thread holds it.\<close>

definition acquire :: "'a wq \<Rightarrow> nat \<Rightarrow> 'a pc \<Rightarrow> 'a wq" where
  "acquire q t p = (if lock q = None then at (q\<lparr>lock := Some t\<rparr>) t p else q)"

definition release :: "'a wq \<Rightarrow> nat \<Rightarrow> 'a pc \<Rightarrow> 'a wq" where
  "release q t p = at (q\<lparr>lock := None\<rparr>) t p"

text \<open>The thread a signal wakes: the one the library prefers if it sleeps, else some sleeping thread.\<close>

definition signalled :: "'a wq \<Rightarrow> nat \<Rightarrow> nat option" where
  "signalled q w = List.find (\<lambda>i. i < length (pcs q) \<and> pcs q ! i = PopSleep) (w # [0..<length (pcs q)])"

definition pop_step :: "'a wq \<Rightarrow> nat \<Rightarrow> 'a wq" where
  "pop_step q t = (case pcs q ! t of
     PopLock \<Rightarrow> acquire q t PopTest
   | PopWake \<Rightarrow> acquire q t PopTest
   | PopTest \<Rightarrow> (case head q of
         [] \<Rightarrow> release q t PopSleep
       | job # rest \<Rightarrow> at (q\<lparr>head := rest, popped := popped q @ [(t, job)]\<rparr>) t (PopUnlock job))
   | PopUnlock job \<Rightarrow> release q t Outside
   | _ \<Rightarrow> q)"

text \<open>The result of \<^verbatim>\<open>calloc\<close> is not checked: without memory the step is undefined.\<close>

definition push_step :: "(nat \<Rightarrow> bool) \<Rightarrow> 'a wq \<Rightarrow> nat \<Rightarrow> nat \<Rightarrow> 'a wq option" where
  "push_step mem q t w = (case pcs q ! t of
     PushLock item \<Rightarrow> Some (acquire q t (PushAppend item))
   | PushAppend item \<Rightarrow>
       if \<not> mem sizeof_wq_item then None
       else Some (at (q\<lparr>head := head q @ [item], pushed := pushed q @ [item]\<rparr>) t PushSignal)
   | PushSignal \<Rightarrow> Some (at (case signalled q w of None \<Rightarrow> q | Some v \<Rightarrow> at q v PopWake) t PushUnlock)
   | PushUnlock \<Rightarrow> Some (release q t Outside)
   | _ \<Rightarrow> Some q)"

text \<open>The states that \<open>n\<close> threads can reach, each calling \<^verbatim>\<open>wq_pop\<close> and \<^verbatim>\<open>wq_push\<close> as it likes.\<close>

inductive wq_reach :: "(nat \<Rightarrow> bool) \<Rightarrow> nat \<Rightarrow> 'a wq \<Rightarrow> bool" for mem n where
  init: "wq_reach mem n (wq_init n)"
| wq_pop: "wq_reach mem n q \<Longrightarrow> t < n \<Longrightarrow> pcs q ! t = Outside \<Longrightarrow> wq_reach mem n (at q t PopLock)"
| wq_push: "wq_reach mem n q \<Longrightarrow> t < n \<Longrightarrow> pcs q ! t = Outside \<Longrightarrow> wq_reach mem n (at q t (PushLock item))"
| pop: "wq_reach mem n q \<Longrightarrow> t < n \<Longrightarrow> wq_reach mem n (pop_step q t)"
| push: "wq_reach mem n q \<Longrightarrow> t < n \<Longrightarrow> push_step mem q t w = Some q' \<Longrightarrow> wq_reach mem n q'"
| spurious: "wq_reach mem n q \<Longrightarrow> t < n \<Longrightarrow> pcs q ! t = PopSleep \<Longrightarrow> wq_reach mem n (at q t PopWake)"

section \<open>Invariant\<close>

fun holds :: "'a pc \<Rightarrow> bool" where
  "holds PopTest = True"
| "holds (PopUnlock _) = True"
| "holds (PushAppend _) = True"
| "holds PushSignal = True"
| "holds PushUnlock = True"
| "holds _ = False"

text \<open>The threads that will still look at the queue, or wake one that will.\<close>

fun awake :: "'a pc \<Rightarrow> bool" where
  "awake PopLock = True"
| "awake PopTest = True"
| "awake PopWake = True"
| "awake PushSignal = True"
| "awake _ = False"

definition wq_inv :: "nat \<Rightarrow> 'a wq \<Rightarrow> bool" where
  "wq_inv n q \<longleftrightarrow> length (pcs q) = n \<and>
     (\<forall>i < n. holds (pcs q ! i) \<longleftrightarrow> lock q = Some i) \<and> (\<forall>i. lock q = Some i \<longrightarrow> i < n) \<and>
     pushed q = map snd (popped q) @ head q \<and>
     (PopSleep \<in> set (pcs q) \<longrightarrow> length (head q) \<le> length (filter awake (pcs q)))"

lemma filter_update:
  assumes "i < length xs"
  shows "int (length (filter P (xs[i := x]))) = int (length (filter P xs)) + of_bool (P x) - of_bool (P (xs ! i))"
  using assms
proof (induction xs arbitrary: i)
  case (Cons y ys)
  then show ?case by (cases i) auto
qed simp

lemma at_sel [simp]:
  "head (at q t p) = head q" "lock (at q t p) = lock q" "pushed (at q t p) = pushed q"
  "popped (at q t p) = popped q" "pcs (at q t p) = (pcs q)[t := p]"
  by (simp_all add: at_def)

lemma wq_inv_at:
  assumes "wq_inv n q" "t < n" "holds p = holds (pcs q ! t)" "p = PopSleep \<longrightarrow> pcs q ! t = PopSleep"
    "awake (pcs q ! t) \<longrightarrow> awake p"
  shows "wq_inv n (at q t p)"
proof -
  have len: "t < length (pcs q)" using assms(1,2) by (simp add: wq_inv_def)
  have "PopSleep \<in> set (pcs q)" if "PopSleep \<in> set ((pcs q)[t := p])"
    using that assms(4) len by (metis insertE nth_mem set_update_subset_insert subset_iff)
  moreover have "length (filter awake (pcs q)) \<le> length (filter awake ((pcs q)[t := p]))"
    using filter_update[OF len, of awake p] assms(5) by (cases "awake p"; cases "awake (pcs q ! t)") auto
  ultimately show ?thesis using assms(1,3) len unfolding wq_inv_def
    by (auto simp: nth_list_update)
qed


lemma wq_inv_acquire:
  assumes "wq_inv n q" "t < n" "holds p" "\<not> holds (pcs q ! t)" "awake (pcs q ! t) \<longrightarrow> awake p"
  shows "wq_inv n (acquire q t p)"
proof (cases "lock q = None")
  case True
  have len: "length (pcs q) = n" using assms(1) by (simp add: wq_inv_def)
  have p: "p \<noteq> PopSleep" using assms(3) by auto
  then have "PopSleep \<in> set (pcs q)" if "PopSleep \<in> set ((pcs q)[t := p])"
    using that set_update_subset_insert[of "pcs q" t p] by auto
  moreover have "length (filter awake (pcs q)) \<le> length (filter awake ((pcs q)[t := p]))"
    using filter_update[of t "pcs q" awake p] assms(2,5) len by (cases "awake p"; cases "awake (pcs q ! t)") auto
  ultimately show ?thesis using assms(1-3) True len unfolding wq_inv_def acquire_def
    by (auto simp: nth_list_update)
qed (auto simp: acquire_def assms(1))

lemma wq_inv_release:
  assumes "wq_inv n q" "t < n" "\<not> holds p" "lock q = Some t" "awake (pcs q ! t) \<longrightarrow> awake p \<or> head q = []"
    "p = PopSleep \<longrightarrow> head q = []"
  shows "wq_inv n (release q t p)"
proof -
  have len: "length (pcs q) = n" using assms(1) by (simp add: wq_inv_def)
  have "length (head q) \<le> length (filter awake ((pcs q)[t := p]))" if "PopSleep \<in> set ((pcs q)[t := p])"
  proof (cases "head q = []")
    case False
    then have "PopSleep \<in> set (pcs q)" using that assms(6) set_update_subset_insert[of "pcs q" t p] by auto
    then have "length (head q) \<le> length (filter awake (pcs q))" using assms(1) by (simp add: wq_inv_def)
    then show ?thesis using filter_update[of t "pcs q" awake p] assms(2,5) len False
      by (cases "awake p"; cases "awake (pcs q ! t)") auto
  qed simp
  moreover have "holds ((pcs q)[t := p] ! i) = False" if "i < n" for i
    using assms(1-4) that len by (auto simp: wq_inv_def nth_list_update)
  ultimately show ?thesis using assms(1) unfolding wq_inv_def release_def by simp
qed

lemma wq_inv_lock: "wq_inv n q \<Longrightarrow> t < n \<Longrightarrow> holds (pcs q ! t) \<Longrightarrow> lock q = Some t"
  by (simp add: wq_inv_def)

lemma wq_inv_take:
  assumes "wq_inv n q" "t < n" "pcs q ! t = PopTest" "head q = job # rest"
  shows "wq_inv n (at (q\<lparr>head := rest, popped := popped q @ [(t, job)]\<rparr>) t (PopUnlock job))"
proof -
  have len: "length (pcs q) = n" using assms(1) by (simp add: wq_inv_def)
  have "PopSleep \<in> set (pcs q)" if "PopSleep \<in> set ((pcs q)[t := PopUnlock job])"
    using that set_update_subset_insert[of "pcs q" t "PopUnlock job"] by auto
  then show ?thesis using assms len filter_update[of t "pcs q" awake "PopUnlock job"] unfolding wq_inv_def
    by (auto simp: nth_list_update)
qed

lemma wq_inv_append:
  assumes "wq_inv n q" "t < n" "pcs q ! t = PushAppend item"
  shows "wq_inv n (at (q\<lparr>head := head q @ [item], pushed := pushed q @ [item]\<rparr>) t PushSignal)"
proof -
  have len: "length (pcs q) = n" using assms(1) by (simp add: wq_inv_def)
  have "PopSleep \<in> set (pcs q)" if "PopSleep \<in> set ((pcs q)[t := PushSignal])"
    using that set_update_subset_insert[of "pcs q" t PushSignal] by auto
  then show ?thesis using assms len filter_update[of t "pcs q" awake PushSignal] unfolding wq_inv_def
    by (auto simp: nth_list_update)
qed

lemma signalled_None: "signalled q w = None \<Longrightarrow> PopSleep \<notin> set (pcs q)"
  by (auto simp: signalled_def find_None_iff in_set_conv_nth split: if_splits)

lemma signalled_Some: "signalled q w = Some v \<Longrightarrow> v < length (pcs q) \<and> pcs q ! v = PopSleep"
  by (auto simp: signalled_def find_Some_iff split: if_splits)

lemma wq_inv_signal:
  assumes "wq_inv n q" "t < n" "pcs q ! t = PushSignal"
  shows "wq_inv n (at (case signalled q w of None \<Rightarrow> q | Some v \<Rightarrow> at q v PopWake) t PushUnlock)"
proof (cases "signalled q w")
  case None
  have len: "length (pcs q) = n" using assms(1) by (simp add: wq_inv_def)
  have "PopSleep \<notin> set ((pcs q)[t := PushUnlock])"
    using signalled_None[OF None] set_update_subset_insert[of "pcs q" t PushUnlock] by auto
  then show ?thesis using None assms len unfolding wq_inv_def by (auto simp: nth_list_update)
next
  case (Some v)
  have len: "length (pcs q) = n" using assms(1) by (simp add: wq_inv_def)
  have v: "v < n" "pcs q ! v = PopSleep" "v \<noteq> t" using signalled_Some[OF Some] len assms(3) by auto
  let ?ps = "(pcs q)[v := PopWake]"
  have "length (filter awake (?ps[t := PushUnlock])) = length (filter awake (pcs q))"
    using filter_update[of t ?ps awake PushUnlock] filter_update[of v "pcs q" awake PopWake] v assms(2,3) len by simp
  moreover have "PopSleep \<in> set (pcs q)" using v len by (metis nth_mem)
  ultimately show ?thesis using Some assms len v unfolding wq_inv_def by (auto simp: nth_list_update)
qed

lemma wq_inv_pop_step:
  assumes "wq_inv n q" "t < n"
  shows "wq_inv n (pop_step q t)"
proof (cases "pcs q ! t")
  case PopTest
  then show ?thesis using assms wq_inv_take[OF assms PopTest] wq_inv_lock[OF assms]
    by (cases "head q") (auto simp: pop_step_def intro: wq_inv_release)
next
  case (PopUnlock job)
  then show ?thesis using assms wq_inv_lock[OF assms] by (auto simp: pop_step_def intro: wq_inv_release)
qed (auto simp: pop_step_def assms intro: wq_inv_acquire)

lemma wq_inv_push_step:
  assumes "wq_inv n q" "t < n" "push_step mem q t w = Some q'"
  shows "wq_inv n q'"
proof (cases "pcs q ! t")
  case (PushLock item)
  then show ?thesis using assms by (auto simp: push_step_def intro: wq_inv_acquire)
next
  case (PushAppend item)
  then show ?thesis using assms wq_inv_append by (auto simp: push_step_def split: if_splits)
next
  case PushSignal
  then show ?thesis using assms wq_inv_signal[OF assms(1,2)] by (auto simp: push_step_def)
next
  case PushUnlock
  then show ?thesis using assms wq_inv_lock[OF assms(1,2)] by (auto simp: push_step_def intro: wq_inv_release)
qed (use assms in \<open>auto simp: push_step_def\<close>)

lemma wq_reach_inv: "wq_reach mem n q \<Longrightarrow> wq_inv n q"
proof (induction rule: wq_reach.induct)
  case init
  then show ?case by (simp add: wq_inv_def wq_init_def)
next
  case (push q t w q')
  then show ?case using wq_inv_push_step by blast
qed (simp_all add: wq_inv_at wq_inv_pop_step)

text \<open>Two threads: thread 1 waits for an item, thread 0 has appended one and not signalled yet.\<close>

definition ex_wq :: "nat wq" where
  "ex_wq = \<lparr>head = [7], lock = Some 0, pcs = [PushSignal, PopSleep], pushed = [7], popped = []\<rparr>"

lemma ex_wq_reach: "wq_reach mem_ok 2 ex_wq"
proof -
  let ?a = "at (wq_init 2) 1 PopLock :: nat wq"
  let ?b = "pop_step (pop_step ?a 1) 1"
  let ?c = "at ?b 0 (PushLock 7)"
  let ?d = "acquire ?c 0 (PushAppend 7)"
  have "wq_reach mem_ok 2 ?a" by (rule wq_reach.wq_pop[OF wq_reach.init]) (simp_all add: wq_init_def)
  then have "wq_reach mem_ok 2 ?b" by (intro wq_reach.pop) simp_all
  then have "wq_reach mem_ok 2 ?c"
    by (rule wq_reach.wq_push) (simp_all add: wq_init_def pop_step_def acquire_def release_def numeral_2_eq_2)
  then have "wq_reach mem_ok 2 ?d"
    by (rule wq_reach.push[where t = 0 and w = 0]) (simp_all add: push_step_def wq_init_def pop_step_def acquire_def release_def numeral_2_eq_2)
  then show ?thesis
    by (rule wq_reach.push[where t = 0 and w = 0])
      (simp_all add: push_step_def wq_init_def pop_step_def acquire_def release_def numeral_2_eq_2 ex_wq_def at_def)
qed

section \<open>Properties\<close>

text \<open>C16. Each item pushed is taken at most once, by one thread, and in the order of the pushes: however
  the threads interleave, the items taken so far followed by the items in the queue are
  the items pushed; and two threads are never inside the mutex at once.\<close>

theorem wq_exactly_once:
  assumes "wq_reach mem n q"
  shows "pushed q = map snd (popped q) @ head q \<and>
    (\<forall>i < n. \<forall>j < n. holds (pcs q ! i) \<and> holds (pcs q ! j) \<longrightarrow> i = j)"
  using wq_reach_inv[OF assms] by (auto simp: wq_inv_def)

theorem wq_exactly_once_witness: "pushed ex_wq = map snd (popped ex_wq) @ head ex_wq"
  using wq_exactly_once[OF ex_wq_reach] by blast

text \<open>C34. No wake-up is lost: whenever the queue holds an item and a thread waits for one, some
  thread that is not asleep can take a step, and that step brings it further.\<close>

theorem wq_no_lost_wakeup:
  assumes "wq_reach mem_ok n q" "head q \<noteq> []" "t < n" "pcs q ! t \<in> {PopLock, PopSleep, PopWake}"
  shows "\<exists>i < n. pop_step q i \<noteq> q \<or> push_step mem_ok q i w \<noteq> Some q"
proof -
  have inv: "wq_inv n q" using wq_reach_inv[OF assms(1)] .
  have len: "length (pcs q) = n" using inv by (simp add: wq_inv_def)
  have move: "at q' i p \<noteq> q" if "i < n" "pcs q ! i \<noteq> p" for q' i p
  proof
    assume "at q' i p = q"
    then have "pcs q = (pcs q')[i := p]" by auto
    then show False using that len by auto
  qed
  show ?thesis
  proof (cases "lock q")
    case None
    have "\<exists>i < n. awake (pcs q ! i)"
    proof (cases "PopSleep \<in> set (pcs q)")
      case True
      then have "filter awake (pcs q) \<noteq> []" using inv assms(2) by (auto simp: wq_inv_def)
      then show ?thesis using len by (auto simp: filter_empty_conv in_set_conv_nth)
    next
      case False
      then have "pcs q ! t \<noteq> PopSleep" using assms(3) len by (metis nth_mem)
      then show ?thesis using assms(3,4) by auto
    qed
    then obtain i where i: "i < n" "awake (pcs q ! i)" by blast
    moreover have "\<not> holds (pcs q ! i)" using inv i None by (auto simp: wq_inv_def)
    ultimately have "pop_step q i \<noteq> q" using None move
      by (cases "pcs q ! i") (auto simp: pop_step_def acquire_def)
    then show ?thesis using i by blast
  next
    case (Some i)
    then have i: "i < n" "holds (pcs q ! i)" using inv by (auto simp: wq_inv_def)
    have "pop_step q i \<noteq> q \<or> push_step mem_ok q i w \<noteq> Some q"
      using i move by (cases "pcs q ! i"; cases "head q") (auto simp: pop_step_def push_step_def release_def)
    then show ?thesis using i by blast
  qed
qed

theorem wq_no_lost_wakeup_witness: "\<exists>i < 2. pop_step ex_wq i \<noteq> ex_wq \<or> push_step mem_ok ex_wq i 0 \<noteq> Some ex_wq"
  by (rule wq_no_lost_wakeup[OF ex_wq_reach, of 1]) (simp_all add: ex_wq_def)

end
