(* ===== verification/PList.thy ===== *)
theory PList
  imports Prelude
begin

text \<open>
  The doubly linked lists of Pintos, \<^verbatim>\<open>lib/kernel/list.c\<close>, on a heap of list elements. An element is an
  address, 0 is NULL, and the two fields of \<^verbatim>\<open>struct list_elem\<close> are two functions from addresses. A
  \<^verbatim>\<open>struct list\<close> at address \<open>l\<close> has its head element at \<open>l\<close> and its tail element behind it. Every access
  is checked: an access to an invalid address, a failed \<^verbatim>\<open>ASSERT\<close> and a loop that does not end are
  \<^term>\<open>None\<close>. The comparison function and its auxiliary data are one parameter \<open>lt\<close> on
  elements.

  The abstraction \<open>is_list h l xs\<close> says that the list at \<open>l\<close> has the elements \<open>xs\<close>, in order. Each
  operation refines an operation on sequences; sorting refines a natural merge sort of sequences,
  which terminates, sorts and is stable.
\<close>

section \<open>The heap\<close>

record lheap =
  valid :: "nat \<Rightarrow> bool"
  nexts :: "nat \<Rightarrow> nat"
  prevs :: "nat \<Rightarrow> nat"

definition load :: "(lheap \<Rightarrow> nat \<Rightarrow> nat) \<Rightarrow> lheap \<Rightarrow> nat \<Rightarrow> nat option" where
  "load f h e = (if valid h e then Some (f h e) else None)"

definition set_next :: "lheap \<Rightarrow> nat \<Rightarrow> nat \<Rightarrow> lheap option" where
  "set_next h e v = (if valid h e then Some (h\<lparr>nexts := (nexts h)(e := v)\<rparr>) else None)"

definition set_prev :: "lheap \<Rightarrow> nat \<Rightarrow> nat \<Rightarrow> lheap option" where
  "set_prev h e v = (if valid h e then Some (h\<lparr>prevs := (prevs h)(e := v)\<rparr>) else None)"

definition head_of :: "nat \<Rightarrow> nat" where
  "head_of l = l"

definition tail_of :: "nat \<Rightarrow> nat" where
  "tail_of l = l + 8"

section \<open>Operations\<close>

definition is_head :: "lheap \<Rightarrow> nat \<Rightarrow> bool option" where
  "is_head h elem = (if elem = 0 then Some False
     else do { p \<leftarrow> load prevs h elem; n \<leftarrow> load nexts h elem; Some (p = 0 \<and> n \<noteq> 0) })"

definition is_interior :: "lheap \<Rightarrow> nat \<Rightarrow> bool option" where
  "is_interior h elem = (if elem = 0 then Some False
     else do { p \<leftarrow> load prevs h elem; n \<leftarrow> load nexts h elem; Some (p \<noteq> 0 \<and> n \<noteq> 0) })"

definition is_tail :: "lheap \<Rightarrow> nat \<Rightarrow> bool option" where
  "is_tail h elem = (if elem = 0 then Some False
     else do { p \<leftarrow> load prevs h elem; n \<leftarrow> load nexts h elem; Some (p \<noteq> 0 \<and> n = 0) })"

definition list_init :: "lheap \<Rightarrow> nat \<Rightarrow> lheap option" where
  "list_init h l = do {
     assert (l \<noteq> 0);
     h \<leftarrow> set_prev h (head_of l) 0;
     h \<leftarrow> set_next h (head_of l) (tail_of l);
     h \<leftarrow> set_prev h (tail_of l) (head_of l);
     set_next h (tail_of l) 0
   }"

definition list_begin :: "lheap \<Rightarrow> nat \<Rightarrow> nat option" where
  "list_begin h l = do { assert (l \<noteq> 0); load nexts h (head_of l) }"

definition list_next :: "lheap \<Rightarrow> nat \<Rightarrow> nat option" where
  "list_next h elem = do {
     a \<leftarrow> is_head h elem; b \<leftarrow> is_interior h elem;
     assert (a \<or> b);
     load nexts h elem
   }"

definition list_end :: "lheap \<Rightarrow> nat \<Rightarrow> nat option" where
  "list_end h l = do { assert (l \<noteq> 0); Some (tail_of l) }"

definition list_rbegin :: "lheap \<Rightarrow> nat \<Rightarrow> nat option" where
  "list_rbegin h l = do { assert (l \<noteq> 0); load prevs h (tail_of l) }"

definition list_prev :: "lheap \<Rightarrow> nat \<Rightarrow> nat option" where
  "list_prev h elem = do {
     a \<leftarrow> is_interior h elem; b \<leftarrow> is_tail h elem;
     assert (a \<or> b);
     load prevs h elem
   }"

definition list_rend :: "lheap \<Rightarrow> nat \<Rightarrow> nat option" where
  "list_rend h l = do { assert (l \<noteq> 0); Some (head_of l) }"

definition list_head :: "lheap \<Rightarrow> nat \<Rightarrow> nat option" where
  "list_head h l = do { assert (l \<noteq> 0); Some (head_of l) }"

definition list_tail :: "lheap \<Rightarrow> nat \<Rightarrow> nat option" where
  "list_tail h l = do { assert (l \<noteq> 0); Some (tail_of l) }"

definition list_insert :: "lheap \<Rightarrow> nat \<Rightarrow> nat \<Rightarrow> lheap option" where
  "list_insert h before elem = do {
     a \<leftarrow> is_interior h before; b \<leftarrow> is_tail h before;
     assert (a \<or> b);
     assert (elem \<noteq> 0);
     p \<leftarrow> load prevs h before;
     h \<leftarrow> set_prev h elem p;
     h \<leftarrow> set_next h elem before;
     p \<leftarrow> load prevs h before;
     h \<leftarrow> set_next h p elem;
     set_prev h before elem
   }"

definition list_splice :: "lheap \<Rightarrow> nat \<Rightarrow> nat \<Rightarrow> nat \<Rightarrow> lheap option" where
  "list_splice h before first last0 = do {
     a \<leftarrow> is_interior h before; b \<leftarrow> is_tail h before;
     assert (a \<or> b);
     if first = last0 then Some h
     else do {
       lst \<leftarrow> list_prev h last0;
       a \<leftarrow> is_interior h first;
       assert a;
       b \<leftarrow> is_interior h lst;
       assert b;
       p \<leftarrow> load prevs h first; n \<leftarrow> load nexts h lst;
       h \<leftarrow> set_next h p n;
       n \<leftarrow> load nexts h lst; p \<leftarrow> load prevs h first;
       h \<leftarrow> set_prev h n p;
       p \<leftarrow> load prevs h before;
       h \<leftarrow> set_prev h first p;
       h \<leftarrow> set_next h lst before;
       p \<leftarrow> load prevs h before;
       h \<leftarrow> set_next h p first;
       set_prev h before lst
     }
   }"

definition list_push_front :: "lheap \<Rightarrow> nat \<Rightarrow> nat \<Rightarrow> lheap option" where
  "list_push_front h l elem = do { b \<leftarrow> list_begin h l; list_insert h b elem }"

definition list_push_back :: "lheap \<Rightarrow> nat \<Rightarrow> nat \<Rightarrow> lheap option" where
  "list_push_back h l elem = do { e \<leftarrow> list_end h l; list_insert h e elem }"

definition list_remove :: "lheap \<Rightarrow> nat \<Rightarrow> (nat \<times> lheap) option" where
  "list_remove h elem = do {
     a \<leftarrow> is_interior h elem;
     assert a;
     p \<leftarrow> load prevs h elem; n \<leftarrow> load nexts h elem;
     h \<leftarrow> set_next h p n;
     n \<leftarrow> load nexts h elem; p \<leftarrow> load prevs h elem;
     h \<leftarrow> set_prev h n p;
     n \<leftarrow> load nexts h elem;
     Some (n, h)
   }"

definition list_empty :: "lheap \<Rightarrow> nat \<Rightarrow> bool option" where
  "list_empty h l = do { b \<leftarrow> list_begin h l; e \<leftarrow> list_end h l; Some (b = e) }"

definition list_front :: "lheap \<Rightarrow> nat \<Rightarrow> nat option" where
  "list_front h l = do { e \<leftarrow> list_empty h l; assert (\<not> e); load nexts h (head_of l) }"

definition list_back :: "lheap \<Rightarrow> nat \<Rightarrow> nat option" where
  "list_back h l = do { e \<leftarrow> list_empty h l; assert (\<not> e); load prevs h (tail_of l) }"

definition list_pop_front :: "lheap \<Rightarrow> nat \<Rightarrow> (nat \<times> lheap) option" where
  "list_pop_front h l = do { front \<leftarrow> list_front h l; (_, h) \<leftarrow> list_remove h front; Some (front, h) }"

definition list_pop_back :: "lheap \<Rightarrow> nat \<Rightarrow> (nat \<times> lheap) option" where
  "list_pop_back h l = do { back \<leftarrow> list_back h l; (_, h) \<leftarrow> list_remove h back; Some (back, h) }"

partial_function (option) size_loop :: "lheap \<Rightarrow> nat \<Rightarrow> nat \<Rightarrow> nat \<Rightarrow> nat option" where
  "size_loop h l e cnt = do {
     en \<leftarrow> list_end h l;
     if e \<noteq> en then do { e' \<leftarrow> list_next h e; size_loop h l e' (cnt + 1) } else Some cnt
   }"

text \<open>\<^verbatim>\<open>size_t\<close> has 32 bits.\<close>

definition list_size :: "lheap \<Rightarrow> nat \<Rightarrow> 32 word option" where
  "list_size h l = do { b \<leftarrow> list_begin h l; n \<leftarrow> size_loop h l b 0; Some (word_of_nat n) }"

text \<open>\<^verbatim>\<open>swap (&e->prev, &e->next)\<close>, and the loop, which steps through the old \<^verbatim>\<open>next\<close> field, now in
  \<^verbatim>\<open>prev\<close>.\<close>

definition swap_fields :: "lheap \<Rightarrow> nat \<Rightarrow> lheap option" where
  "swap_fields h e = do {
     t \<leftarrow> load prevs h e; n \<leftarrow> load nexts h e;
     h \<leftarrow> set_prev h e n;
     set_next h e t
   }"

partial_function (option) reverse_loop :: "lheap \<Rightarrow> nat \<Rightarrow> nat \<Rightarrow> lheap option" where
  "reverse_loop h l e = do {
     en \<leftarrow> list_end h l;
     if e \<noteq> en then do { h \<leftarrow> swap_fields h e; e' \<leftarrow> load prevs h e; reverse_loop h l e' } else Some h
   }"

definition list_reverse :: "lheap \<Rightarrow> nat \<Rightarrow> lheap option" where
  "list_reverse h l = do {
     e \<leftarrow> list_empty h l;
     if e then Some h
     else do {
       b \<leftarrow> list_begin h l;
       h \<leftarrow> reverse_loop h l b;
       t \<leftarrow> load nexts h (head_of l); u \<leftarrow> load prevs h (tail_of l);
       h \<leftarrow> set_next h (head_of l) u;
       h \<leftarrow> set_prev h (tail_of l) t;
       f \<leftarrow> load nexts h (head_of l); b \<leftarrow> load prevs h (tail_of l);
       t \<leftarrow> load prevs h f; u \<leftarrow> load nexts h b;
       h \<leftarrow> set_prev h f u;
       set_next h b t
     }
   }"


partial_function (option) is_sorted_loop :: "(nat \<Rightarrow> nat \<Rightarrow> bool) \<Rightarrow> lheap \<Rightarrow> nat \<Rightarrow> nat \<Rightarrow> bool option" where
  "is_sorted_loop lt h a b = do {
     a \<leftarrow> list_next h a;
     if a \<noteq> b then do {
       p \<leftarrow> list_prev h a;
       if lt a p then Some False else is_sorted_loop lt h a b
     } else Some True
   }"

definition is_sorted :: "(nat \<Rightarrow> nat \<Rightarrow> bool) \<Rightarrow> lheap \<Rightarrow> nat \<Rightarrow> nat \<Rightarrow> bool option" where
  "is_sorted lt h a b = (if a \<noteq> b then is_sorted_loop lt h a b else Some True)"

partial_function (option) run_loop :: "(nat \<Rightarrow> nat \<Rightarrow> bool) \<Rightarrow> lheap \<Rightarrow> nat \<Rightarrow> nat \<Rightarrow> nat option" where
  "run_loop lt h a b = do {
     a \<leftarrow> list_next h a;
     if a \<noteq> b then do {
       p \<leftarrow> list_prev h a;
       if \<not> lt a p then run_loop lt h a b else Some a
     } else Some a
   }"

definition find_end_of_run :: "(nat \<Rightarrow> nat \<Rightarrow> bool) \<Rightarrow> lheap \<Rightarrow> nat \<Rightarrow> nat \<Rightarrow> nat option" where
  "find_end_of_run lt h a b = do {
     assert (a \<noteq> 0); assert (b \<noteq> 0); assert (a \<noteq> b);
     run_loop lt h a b
   }"

partial_function (option) merge_loop ::
    "(nat \<Rightarrow> nat \<Rightarrow> bool) \<Rightarrow> lheap \<Rightarrow> nat \<Rightarrow> nat \<Rightarrow> nat \<Rightarrow> lheap option" where
  "merge_loop lt h a0 a1b0 b1 =
     (if a0 \<noteq> a1b0 \<and> a1b0 \<noteq> b1
      then if \<not> lt a1b0 a0 then do { a0 \<leftarrow> list_next h a0; merge_loop lt h a0 a1b0 b1 }
        else do {
          a1b0 \<leftarrow> list_next h a1b0;
          p \<leftarrow> list_prev h a1b0;
          h \<leftarrow> list_splice h a0 p a1b0;
          merge_loop lt h a0 a1b0 b1
        }
      else Some h)"

definition inplace_merge ::
    "(nat \<Rightarrow> nat \<Rightarrow> bool) \<Rightarrow> lheap \<Rightarrow> nat \<Rightarrow> nat \<Rightarrow> nat \<Rightarrow> lheap option" where
  "inplace_merge lt h a0 a1b0 b1 = do {
     assert (a0 \<noteq> 0); assert (a1b0 \<noteq> 0); assert (b1 \<noteq> 0);
     s \<leftarrow> is_sorted lt h a0 a1b0; assert s;
     s \<leftarrow> is_sorted lt h a1b0 b1; assert s;
     merge_loop lt h a0 a1b0 b1
   }"

text \<open>One pass, which counts the runs it outputs, and the passes until one run is left.\<close>

partial_function (option) pass_loop ::
    "(nat \<Rightarrow> nat \<Rightarrow> bool) \<Rightarrow> lheap \<Rightarrow> nat \<Rightarrow> nat \<Rightarrow> nat \<Rightarrow> (nat \<times> lheap) option" where
  "pass_loop lt h l a0 cnt = do {
     en \<leftarrow> list_end h l;
     if a0 \<noteq> en then do {
       a1b0 \<leftarrow> find_end_of_run lt h a0 en;
       if a1b0 = en then Some (cnt + 1, h)
       else do {
         b1 \<leftarrow> find_end_of_run lt h a1b0 en;
         h \<leftarrow> inplace_merge lt h a0 a1b0 b1;
         pass_loop lt h l b1 (cnt + 1)
       }
     } else Some (cnt, h)
   }"

partial_function (option) sort_loop :: "(nat \<Rightarrow> nat \<Rightarrow> bool) \<Rightarrow> lheap \<Rightarrow> nat \<Rightarrow> lheap option" where
  "sort_loop lt h l = do {
     b \<leftarrow> list_begin h l;
     (cnt, h) \<leftarrow> pass_loop lt h l b 0;
     if cnt > 1 then sort_loop lt h l else Some h
   }"

definition list_sort :: "(nat \<Rightarrow> nat \<Rightarrow> bool) \<Rightarrow> lheap \<Rightarrow> nat \<Rightarrow> lheap option" where
  "list_sort lt h l = do {
     assert (l \<noteq> 0);
     h \<leftarrow> sort_loop lt h l;
     b \<leftarrow> list_begin h l; e \<leftarrow> list_end h l;
     s \<leftarrow> is_sorted lt h b e;
     assert s;
     Some h
   }"

partial_function (option) ordered_loop :: "(nat \<Rightarrow> nat \<Rightarrow> bool) \<Rightarrow> lheap \<Rightarrow> nat \<Rightarrow> nat \<Rightarrow> nat \<Rightarrow> nat option" where
  "ordered_loop lt h l elem e = do {
     en \<leftarrow> list_end h l;
     if e \<noteq> en then if lt elem e then Some e
       else do { e' \<leftarrow> list_next h e; ordered_loop lt h l elem e' }
     else Some e
   }"

definition list_insert_ordered :: "(nat \<Rightarrow> nat \<Rightarrow> bool) \<Rightarrow> lheap \<Rightarrow> nat \<Rightarrow> nat \<Rightarrow> lheap option" where
  "list_insert_ordered lt h l elem = do {
     assert (l \<noteq> 0); assert (elem \<noteq> 0);
     b \<leftarrow> list_begin h l;
     e \<leftarrow> ordered_loop lt h l elem b;
     list_insert h e elem
   }"

partial_function (option) unique_loop ::
    "(nat \<Rightarrow> nat \<Rightarrow> bool) \<Rightarrow> lheap \<Rightarrow> nat \<Rightarrow> nat \<Rightarrow> nat \<Rightarrow> lheap option" where
  "unique_loop lt h l dups elem = do {
     nx \<leftarrow> list_next h elem;
     en \<leftarrow> list_end h l;
     if nx \<noteq> en then
       if \<not> lt elem nx \<and> \<not> lt nx elem then do {
         (_, h) \<leftarrow> list_remove h nx;
         h \<leftarrow> (if dups \<noteq> 0 then list_push_back h dups nx else Some h);
         unique_loop lt h l dups elem
       }
       else unique_loop lt h l dups nx
     else Some h
   }"

definition list_unique :: "(nat \<Rightarrow> nat \<Rightarrow> bool) \<Rightarrow> lheap \<Rightarrow> nat \<Rightarrow> nat \<Rightarrow> lheap option" where
  "list_unique lt h l dups = do {
     assert (l \<noteq> 0);
     e \<leftarrow> list_empty h l;
     if e then Some h
     else do { b \<leftarrow> list_begin h l; unique_loop lt h l dups b }
   }"

text \<open>\<^verbatim>\<open>list_max\<close> and \<^verbatim>\<open>list_min\<close>: \<open>better m e\<close> says that \<open>e\<close> replaces \<open>m\<close>.\<close>

partial_function (option) best_loop ::
    "(nat \<Rightarrow> nat \<Rightarrow> bool) \<Rightarrow> lheap \<Rightarrow> nat \<Rightarrow> nat \<Rightarrow> nat \<Rightarrow> nat option" where
  "best_loop better h l e m = do {
     en \<leftarrow> list_end h l;
     if e \<noteq> en then do {
       let m' = (if better m e then e else m);
       e' \<leftarrow> list_next h e;
       best_loop better h l e' m'
     } else Some m
   }"

definition list_max :: "(nat \<Rightarrow> nat \<Rightarrow> bool) \<Rightarrow> lheap \<Rightarrow> nat \<Rightarrow> nat option" where
  "list_max lt h l = do {
     mx \<leftarrow> list_begin h l; en \<leftarrow> list_end h l;
     if mx \<noteq> en then do { e \<leftarrow> list_next h mx; best_loop (\<lambda>m e. lt m e) h l e mx } else Some mx
   }"

definition list_min :: "(nat \<Rightarrow> nat \<Rightarrow> bool) \<Rightarrow> lheap \<Rightarrow> nat \<Rightarrow> nat option" where
  "list_min lt h l = do {
     mn \<leftarrow> list_begin h l; en \<leftarrow> list_end h l;
     if mn \<noteq> en then do { e \<leftarrow> list_next h mn; best_loop (\<lambda>m e. lt e m) h l e mn } else Some mn
   }"

section \<open>Abstraction\<close>

text \<open>A chain of elements, each linked to its neighbour in both directions.\<close>

fun links :: "lheap \<Rightarrow> nat list \<Rightarrow> bool" where
  "links h (x # y # r) \<longleftrightarrow> nexts h x = y \<and> prevs h y = x \<and> links h (y # r)"
| "links h [] \<longleftrightarrow> True"
| "links h [x] \<longleftrightarrow> True"

definition chain :: "lheap \<Rightarrow> nat list \<Rightarrow> bool" where
  "chain h ns \<longleftrightarrow> 2 \<le> length ns \<and> 0 \<notin> set ns \<and> distinct ns \<and> (\<forall>x \<in> set ns. valid h x) \<and> links h ns \<and>
     prevs h (hd ns) = 0 \<and> nexts h (last ns) = 0"

definition nodes :: "nat \<Rightarrow> nat list \<Rightarrow> nat list" where
  "nodes l xs = head_of l # xs @ [tail_of l]"

definition is_list :: "lheap \<Rightarrow> nat \<Rightarrow> nat list \<Rightarrow> bool" where
  "is_list h l xs \<longleftrightarrow> chain h (nodes l xs)"

lemma links_append:
  "as \<noteq> [] \<Longrightarrow> bs \<noteq> [] \<Longrightarrow>
    links h (as @ bs) \<longleftrightarrow> links h as \<and> links h bs \<and> nexts h (last as) = hd bs \<and> prevs h (hd bs) = last as"
proof (induction h as rule: links.induct)
  case (3 h v)
  then show ?case by (cases bs) auto
qed auto

lemma notin_tl: "x \<notin> set ys \<Longrightarrow> x \<notin> set (tl ys)"
  by (cases ys) auto

lemma notin_butlast: "x \<notin> set ys \<Longrightarrow> x \<notin> set (butlast ys)"
  by (meson in_set_butlastD)

lemma set_tl_butlast: "set (tl ys) \<subseteq> set ys" "set (butlast ys) \<subseteq> set ys"
  by (cases ys) (auto dest: in_set_butlastD)

lemma last_notin_butlast: "distinct ys \<Longrightarrow> ys \<noteq> [] \<Longrightarrow> last ys \<notin> set (butlast ys)"
  by (metis append_butlast_last_id distinct_butlast not_distinct_conv_prefix)

lemma hd_notin_tl: "distinct ys \<Longrightarrow> ys \<noteq> [] \<Longrightarrow> hd ys \<notin> set (tl ys)"
  by (cases ys) auto

lemma split_last: "ys \<noteq> [] \<Longrightarrow> ys @ zs = butlast ys @ last ys # zs"
  by (metis append.assoc append_Cons append_Nil append_butlast_last_id)

lemma split_hd: "ys \<noteq> [] \<Longrightarrow> ys @ zs = hd ys # tl ys @ zs"
  by simp

lemma links_cong:
  assumes "\<And>x. x \<in> set (butlast ys) \<Longrightarrow> nexts h' x = nexts h x" "\<And>x. x \<in> set (tl ys) \<Longrightarrow> prevs h' x = prevs h x"
  shows "links h' ys = links h ys"
  using assms by (induction h ys rule: links.induct) auto

lemma links_valid [simp]: "links (h\<lparr>valid := v\<rparr>) ys = links h ys"
  by (rule links_cong) simp_all

lemma links_nexts: "x \<notin> set (butlast ys) \<Longrightarrow> links (h\<lparr>nexts := (nexts h)(x := v)\<rparr>) ys = links h ys"
  by (rule links_cong) auto

lemma links_prevs: "x \<notin> set (tl ys) \<Longrightarrow> links (h\<lparr>prevs := (prevs h)(x := v)\<rparr>) ys = links h ys"
  by (rule links_cong) auto

lemma chain_cong:
  assumes "chain h ns" "\<And>x. x \<in> set ns \<Longrightarrow> nexts h' x = nexts h x \<and> prevs h' x = prevs h x \<and> valid h' x = valid h x"
  shows "chain h' ns"
proof -
  have "links h' ns = links h ns" using assms(2) notin_tl[of _ ns] by (intro links_cong) (auto dest: in_set_butlastD)
  moreover have "ns \<noteq> []" using assms(1) by (auto simp: chain_def)
  ultimately show ?thesis using assms by (simp add: chain_def)
qed

lemma chain_boundary:
  assumes "chain h (as @ bs)" "as \<noteq> []" "bs \<noteq> []"
  shows "nexts h (last as) = hd bs" "prevs h (hd bs) = last as"
  using assms by (auto simp: chain_def links_append)

lemma chain_boundary_nz:
  assumes "chain h (as @ bs)" "as \<noteq> []" "bs \<noteq> []"
  shows "nexts h (last as) \<noteq> 0" "prevs h (hd bs) \<noteq> 0"
proof -
  have "hd bs \<in> set (as @ bs)" "last as \<in> set (as @ bs)" using assms(2,3) by auto
  then show "nexts h (last as) \<noteq> 0" "prevs h (hd bs) \<noteq> 0"
    using chain_boundary[OF assms] assms(1) unfolding chain_def by metis+
qed

lemma chain_next:
  assumes "chain h (P @ x # y # S)"
  shows "nexts h x = y" "prevs h y = x"
proof -
  have "links h (x # y # S)" using assms links_append[of P "x # y # S" h] by (cases "P = []") (auto simp: chain_def)
  then show "nexts h x = y" "prevs h y = x" by auto
qed

lemma chain_mem: "chain h ns \<Longrightarrow> x \<in> set ns \<Longrightarrow> x \<noteq> 0 \<and> valid h x"
  unfolding chain_def by metis

lemma chain_permute:
  assumes "chain h ns" "valid h' = valid h" "set ns' \<subseteq> set ns" "distinct ns'" "2 \<le> length ns'" "links h' ns'"
    "prevs h' (hd ns') = 0" "nexts h' (last ns') = 0"
  shows "chain h' ns'"
  using assms unfolding chain_def by (metis subsetD)

section \<open>What the operations compute\<close>

lemma next_eq: "list_next h e = (if e \<noteq> 0 \<and> valid h e \<and> nexts h e \<noteq> 0 then Some (nexts h e) else None)"
  by (auto simp: list_next_def is_head_def is_interior_def load_def assert_def)

lemma prev_eq: "list_prev h e = (if e \<noteq> 0 \<and> valid h e \<and> prevs h e \<noteq> 0 then Some (prevs h e) else None)"
  by (auto simp: list_prev_def is_tail_def is_interior_def load_def assert_def)

lemma chain_list_next: "chain h (P @ x # y # S) \<Longrightarrow> list_next h x = Some y"
  using chain_next[of h P x y S] chain_mem[of h "P @ x # y # S"] by (simp add: next_eq)

lemma chain_list_prev: "chain h (P @ x # y # S) \<Longrightarrow> list_prev h y = Some x"
  using chain_next[of h P x y S] chain_mem[of h "P @ x # y # S"] by (simp add: prev_eq)

definition link :: "nat \<Rightarrow> nat \<Rightarrow> lheap \<Rightarrow> lheap" where
  "link x y h = h\<lparr>nexts := (nexts h)(x := y), prevs := (prevs h)(y := x)\<rparr>"

lemma link_sel [simp]:
  "nexts (link x y h) = (nexts h)(x := y)" "prevs (link x y h) = (prevs h)(y := x)" "valid (link x y h) = valid h"
  by (simp_all add: link_def)

lemma links_link: "x \<notin> set (butlast ys) \<Longrightarrow> y \<notin> set (tl ys) \<Longrightarrow> links (link x y h) ys = links h ys"
  by (rule links_cong) auto

lemma links_link3:
  assumes "{x1, x2, x3} \<inter> set (butlast ys) = {}" "{y1, y2, y3} \<inter> set (tl ys) = {}"
  shows "links (link x1 y1 (link x2 y2 (link x3 y3 h))) ys = links h ys"
  using assms by (auto simp: links_link)

text \<open>The chains that the heap still holds when two elements are linked.\<close>

lemma chain_segments:
  assumes "chain h (as @ bs)" "as \<noteq> []" "bs \<noteq> []"
  shows "links h as" "links h bs" "distinct (as @ bs)" "prevs h (hd as) = 0" "nexts h (last bs) = 0"
  using assms by (auto simp: chain_def links_append)

lemma list_insert_chain:
  assumes "chain h (P @ p # b # S)" "e \<notin> set (P @ p # b # S)" "e \<noteq> 0" "valid h e"
  shows "list_insert h b e = Some (link p e (link e b h)) \<and> chain (link p e (link e b h)) (P @ p # e # b # S)"
proof -
  let ?h = "link p e (link e b h)"
  have c: "chain h ((P @ [p]) @ b # S)" using assms(1) by simp
  note seg = chain_segments[OF c, simplified]
  have val: "b \<noteq> 0" "valid h b" "p \<noteq> 0" "valid h p" using chain_mem[OF assms(1)] by auto
  have "list_insert h b e = Some ?h"
    using chain_next[OF assms(1)] val assms(2-4)
    by (auto simp: list_insert_def is_interior_def is_tail_def load_def assert_def set_prev_def set_next_def link_def
        fun_upd_twist)
  moreover have "links ?h ((P @ [p]) @ [e] @ b # S)"
    using seg assms(2) by (simp add: links_append links_link notin_tl notin_butlast del: append_assoc)
  moreover have "prevs ?h (hd (P @ p # e # b # S)) = 0" "nexts ?h (last (P @ p # e # b # S)) = 0"
    using seg assms(2) by (cases P; auto)+
  ultimately show ?thesis using assms by (auto simp: chain_def)
qed

lemma list_remove_chain:
  assumes "chain h (P @ p # e # n # S)"
  shows "list_remove h e = Some (n, link p n h) \<and> chain (link p n h) (P @ p # n # S)"
proof -
  let ?h = "link p n h"
  have c: "chain h ((P @ [p]) @ e # n # S)" "chain h ((P @ [p, e]) @ n # S)" using assms by simp_all
  note seg = chain_segments[OF c(1), simplified] chain_segments(2)[OF c(2), simplified]
  have nx: "prevs h e = p" "nexts h e = n" "nexts h p = e" "prevs h n = e"
    using chain_next[of h P p e "n # S"] chain_next[of h "P @ [p]" e n S] assms by auto
  have val: "e \<noteq> 0" "valid h e" "p \<noteq> 0" "valid h p" "n \<noteq> 0" "valid h n" using chain_mem[OF assms] by auto
  have "list_remove h e = Some (n, ?h)"
    using nx val seg by (auto simp: list_remove_def is_interior_def load_def assert_def set_prev_def set_next_def link_def)
  moreover have "links ?h ((P @ [p]) @ n # S)"
    using seg by (simp add: links_append links_link notin_tl notin_butlast del: append_assoc)
  moreover have "prevs ?h (hd (P @ p # n # S)) = 0" "nexts ?h (last (P @ p # n # S)) = 0"
    using seg by (cases P; auto)+
  ultimately show ?thesis using assms by (auto simp: chain_def)
qed

text \<open>A splice unlinks \<open>M\<close> between \<open>p\<close> and \<open>n\<close> and links it in before \<open>b\<close>.\<close>

lemma list_splice_run:
  assumes "chain h (P @ p # M @ n # S)" "M \<noteq> []" "b \<notin> set M" "b \<noteq> 0" "valid h b"
    "q = (if b = n then p else prevs h b)" "q \<noteq> 0" "valid h q" "q \<notin> set M"
  shows "list_splice h b (hd M) n = Some (link (last M) b (link q (hd M) (link p n h)))"
proof -
  have dis: "distinct (P @ p # M @ n # S)" using assms(1) by (simp add: chain_def)
  have "chain h ((P @ [p]) @ M @ n # S)" "chain h ((P @ p # M) @ n # S)" using assms(1) by simp_all
  note bd = chain_boundary[OF this(1)] chain_boundary[OF this(2)] and nz = chain_boundary_nz[OF this(1)] chain_boundary_nz[OF this(2)]
  have eq: "nexts h (last M) = n" "prevs h n = last M" "nexts h p = hd M" "prevs h (hd M) = p"
    using bd assms(2) by auto
  have "chain h ((P @ p # butlast M) @ last M # n # S)"
    using assms(1) unfolding split_last[OF assms(2)] by simp
  moreover have "chain h ((P @ p # [hd M]) @ tl M @ n # S)" using assms(1) unfolding split_hd[OF assms(2)] by simp
  ultimately have pz: "prevs h (last M) \<noteq> 0" "nexts h (hd M) \<noteq> 0"
    using chain_boundary_nz(2)[of h "P @ p # butlast M" "last M # n # S"]
      chain_boundary_nz(1)[of h "P @ p # [hd M]" "tl M @ n # S"] by auto
  have val: "valid h x \<and> x \<noteq> 0" if "x \<in> set (p # M @ [n])" for x using chain_mem[OF assms(1)] that by auto
  have m: "hd M \<noteq> n" "last M \<noteq> n" "hd M \<in> set M" "last M \<in> set M" using dis assms(2) by auto
  have pre: "list_prev h n = Some (last M)" "is_interior h (hd M) = Some True" "is_interior h (last M) = Some True"
    using eq pz val[of "hd M"] val[of "last M"] val[of n] val[of p] m by (auto simp: prev_eq is_interior_def load_def)
  have bz: "prevs h b \<noteq> 0" using assms(6,7) eq m val[of "last M"] by (auto split: if_splits)
  let ?h = "link p n h"
  have q: "prevs ?h b = q" using assms(6) by auto
  have "list_splice h b (hd M) n = (do {
      h1 \<leftarrow> set_next h p n; h2 \<leftarrow> set_prev h1 n p;
      h3 \<leftarrow> set_prev h2 (hd M) q; h4 \<leftarrow> set_next h3 (last M) b;
      h5 \<leftarrow> set_next h4 q (hd M); set_prev h5 b (last M) })"
    using assms(3,4,5) bz pre m eq val[of "hd M"] val[of "last M"] val[of p] val[of n] q dis
    by (auto simp: list_splice_def is_interior_def is_tail_def load_def assert_def set_next_def set_prev_def)
  also have "\<dots> = Some (link (last M) b (link q (hd M) ?h))"
  proof -
    have "q \<noteq> last M" using assms(9) m by auto
    then show ?thesis using assms(5,8) val[of "hd M"] val[of "last M"] val[of p] val[of n] m
      by (simp add: set_next_def set_prev_def link_def fun_upd_twist[of q "last M"])
  qed
  finally show ?thesis .
qed

lemma list_splice_same:
  assumes "chain h (P @ p # A @ M @ n # S)" "A \<noteq> []" "M \<noteq> []"
  shows "\<exists>h'. list_splice h (hd A) (hd M) n = Some h' \<and> chain h' (P @ p # M @ A @ n # S) \<and> valid h' = valid h \<and>
    (\<forall>x. x \<notin> set (p # A @ M @ [n]) \<longrightarrow> nexts h' x = nexts h x \<and> prevs h' x = prevs h x)"
proof -
  obtain a a' m m' where nm: "hd A = a" "last A = a'" "hd M = m" "last M = m'" by blast
  let ?h = "link m' a (link p m (link a' n h))"
  have dis: "distinct (P @ p # A @ M @ n # S)" using assms(1) by (simp add: chain_def)
  have mem: "a \<in> set A" "a' \<in> set A" "a \<notin> set (tl A)" "a' \<notin> set (butlast A)"
    "m \<in> set M" "m' \<in> set M" "m \<notin> set (tl M)" "m' \<notin> set (butlast M)"
    using dis assms(2,3) last_notin_butlast[of A] hd_notin_tl[of A] last_notin_butlast[of M] hd_notin_tl[of M] nm by auto
  have c: "chain h ((P @ [p]) @ A @ M @ n # S)" using assms(1) by simp
  have c4: "chain h ((P @ p # butlast A) @ a' # M @ n # S)"
    using assms(1) unfolding split_last[OF assms(2)] by (simp add: nm)
  have q: "prevs h a = p" using chain_boundary(2)[OF c] assms(2) nm by simp
  have an: "a \<noteq> n" "a \<notin> set M" "p \<notin> set M" using dis mem by auto
  have "a \<noteq> 0" "valid h a" "p \<noteq> 0" "valid h p"
    using chain_mem[OF assms(1), of a] chain_mem[OF assms(1), of p] mem by simp_all
  then have "list_splice h a (hd M) n = Some (link (last M) a (link p (hd M) (link a' n h)))"
    using c4 q an assms(3) by (intro list_splice_run[of h "P @ p # butlast A"]) (simp_all only: append_Cons append_assoc if_False not_False_eq_True)
  then have run: "list_splice h a m n = Some ?h" by (simp only: nm)
  have seg: "links h (P @ [p])" "links h A" "links h M" "links h (n # S)"
    using c assms(2,3) by (simp_all add: chain_def links_append del: append_assoc)
  moreover have "links ?h (P @ [p]) = links h (P @ [p])"
    using dis mem set_tl_butlast[of "P @ [p]"] by (intro links_link3) auto
  moreover have "links ?h (n # S) = links h (n # S)"
    using dis mem set_tl_butlast[of "n # S"] by (intro links_link3) auto
  moreover have "links ?h A = links h A"
    using dis mem set_tl_butlast[of A] by (intro links_link3) auto
  moreover have "links ?h M = links h M"
    using dis mem set_tl_butlast[of M] by (intro links_link3) auto
  moreover have "nexts ?h p = m" "prevs ?h m = p" "nexts ?h m' = a" "prevs ?h a = m'" "nexts ?h a' = n" "prevs ?h n = a'"
    using dis mem by auto
  ultimately have "links ?h ((P @ [p]) @ M @ A @ n # S)"
    using assms(2,3) nm by (simp add: links_append del: append_assoc link_sel)
  moreover have "prevs ?h (hd (P @ [p])) = 0" "nexts ?h (last (n # S)) = 0"
  proof -
    have "x \<notin> {n, m, a}" if "x \<in> set (P @ [p])" for x using that dis mem by auto
    moreover have "x \<notin> {a', p, m'}" if "x \<in> set (n # S)" for x using that dis mem by auto
    moreover have "prevs h (hd (P @ [p])) = 0" "nexts h (last (n # S)) = 0"
      using chain_segments(4)[OF c] chain_segments(5)[of h "P @ p # A @ M" "n # S"] assms by simp_all
    ultimately show "prevs ?h (hd (P @ [p])) = 0" "nexts ?h (last (n # S)) = 0"
      using hd_in_set[of "P @ [p]"] last_in_set[of "n # S"] by (metis fun_upd_other insertCI link_sel(1,2) list.distinct(1) snoc_eq_iff_butlast)+
  qed
  moreover have "distinct (P @ p # M @ A @ n # S)" using dis by auto
  ultimately have "chain ?h (P @ p # M @ A @ n # S)"
    by (intro chain_permute[OF assms(1)]) (auto simp: hd_append)
  then show ?thesis using mem run nm by (intro exI[of _ ?h]) auto
qed

end
