(* ===== verification/PListOps.thy ===== *)
theory PListOps
  imports PList
begin

text \<open>
  Every operation of \<^verbatim>\<open>lib/kernel/list.c\<close> refines an operation on the sequence of elements that the list
  holds, and leaves everything else in the heap as it was.
\<close>

section \<open>Walking through a list\<close>

definition frame :: "nat set \<Rightarrow> lheap \<Rightarrow> lheap \<Rightarrow> bool" where
  "frame X h h' \<longleftrightarrow> valid h' = valid h \<and> (\<forall>x. x \<notin> X \<longrightarrow> nexts h' x = nexts h x \<and> prevs h' x = prevs h x)"

lemma frame_refl [simp]: "frame X h h"
  by (simp add: frame_def)

lemma frame_trans: "frame X h h1 \<Longrightarrow> frame X h1 h2 \<Longrightarrow> frame X h h2"
  by (auto simp: frame_def)

lemma frame_mono: "frame X h h' \<Longrightarrow> X \<subseteq> Y \<Longrightarrow> frame Y h h'"
  by (auto simp: frame_def)

lemma frame_link: "frame X h g \<Longrightarrow> x \<in> X \<Longrightarrow> y \<in> X \<Longrightarrow> frame X h (link x y g)"
  by (auto simp: frame_def)

lemma is_list_frame: "is_list h l xs \<Longrightarrow> frame X h h' \<Longrightarrow> set (nodes l xs) \<inter> X = {} \<Longrightarrow> is_list h' l xs"
  unfolding is_list_def frame_def by (rule chain_cong) auto

lemma tail_neq_head [simp]: "tail_of l \<noteq> head_of l" "head_of l \<noteq> tail_of l" "tail_of l \<noteq> 0"
  by (simp_all add: tail_of_def head_of_def)

lemma is_list_nz:
  assumes "is_list h l xs"
  shows "l \<noteq> 0" "0 \<notin> set xs" "distinct xs" "head_of l \<notin> set xs" "tail_of l \<notin> set xs"
    "valid h (head_of l)" "valid h (tail_of l)" "x \<in> set xs \<Longrightarrow> valid h x"
  using assms by (auto simp: is_list_def nodes_def chain_def head_of_def)

lemma is_list_ends: "is_list h l xs \<Longrightarrow> prevs h (head_of l) = 0 \<and> nexts h (tail_of l) = 0"
  by (simp add: is_list_def nodes_def chain_def)

text \<open>The element behind a prefix of the list, and the element before a suffix.\<close>

abbreviation at_elem :: "nat \<Rightarrow> nat list \<Rightarrow> nat" where
  "at_elem l xs \<equiv> hd (xs @ [tail_of l])"

abbreviation up_elem :: "nat \<Rightarrow> nat list \<Rightarrow> nat" where
  "up_elem l xs \<equiv> last (head_of l # xs)"

lemma is_list_links:
  assumes "is_list h l (as @ bs)"
  shows "nexts h (up_elem l as) = at_elem l bs" "prevs h (at_elem l bs) = up_elem l as"
  using chain_boundary[of h "head_of l # as" "bs @ [tail_of l]"] assms by (simp_all add: is_list_def nodes_def)

lemma at_elem_tail: "is_list h l (as @ bs) \<Longrightarrow> at_elem l bs = tail_of l \<longleftrightarrow> bs = []"
  using is_list_nz(5)[of h l "as @ bs"] by (cases bs) auto

lemma up_elem_head: "is_list h l (as @ bs) \<Longrightarrow> up_elem l as = head_of l \<longleftrightarrow> as = []"
  using is_list_nz(4)[of h l "as @ bs"] last_in_set[of as] by (metis Un_iff last.simps set_append)

lemma is_list_next: "is_list h l (as @ x # bs) \<Longrightarrow> list_next h x = Some (at_elem l bs)"
  using chain_list_next[of h "head_of l # as" x "at_elem l bs" "tl (bs @ [tail_of l])"]
  by (cases bs) (simp_all add: is_list_def nodes_def)

lemma is_list_next_head: "is_list h l xs \<Longrightarrow> list_next h (head_of l) = Some (at_elem l xs)"
  using chain_list_next[of h "[]" "head_of l" "at_elem l xs" "tl (xs @ [tail_of l])"]
  by (cases xs) (simp_all add: is_list_def nodes_def)

lemma nodes_split:
  "nodes l (as @ bs) = butlast (head_of l # as) @ up_elem l as # at_elem l bs # tl (bs @ [tail_of l])"
  "nodes l (as @ e # bs) = butlast (head_of l # as) @ up_elem l as # e # at_elem l bs # tl (bs @ [tail_of l])"
  using split_last[of "head_of l # as" "bs @ [tail_of l]"] split_last[of "head_of l # as" "e # bs @ [tail_of l]"]
  by (simp_all add: nodes_def del: last.simps butlast.simps)

lemma elems_in_nodes: "at_elem l bs \<in> set (nodes l (as @ bs))" "up_elem l as \<in> set (nodes l (as @ bs))"
  unfolding nodes_split(1) by (simp_all only: set_append set_simps insertI1 insertI2 UnI2)

lemma is_list_prev: "is_list h l (as @ bs) \<Longrightarrow> list_prev h (at_elem l bs) = Some (up_elem l as)"
  using chain_list_prev[of h "butlast (head_of l # as)" "up_elem l as" "at_elem l bs" "tl (bs @ [tail_of l])"]
  by (simp add: is_list_def nodes_split(1) del: last.simps butlast.simps)

lemma is_list_begin: "is_list h l xs \<Longrightarrow> list_begin h l = Some (at_elem l xs)"
  using is_list_links(1)[of h l "[]" xs] is_list_nz(1,6)[of h l xs] by (simp add: list_begin_def assert_def load_def)

lemma is_list_end: "is_list h l xs \<Longrightarrow> list_end h' l = Some (tail_of l)"
  using is_list_nz(1)[of h l xs] by (simp add: list_end_def assert_def)

lemma is_list_rbegin: "is_list h l xs \<Longrightarrow> list_rbegin h l = Some (up_elem l xs)"
  using is_list_links(2)[of h l xs "[]"] is_list_nz(1,7)[of h l xs] by (simp add: list_rbegin_def assert_def load_def)

lemma is_list_empty: "is_list h l xs \<Longrightarrow> list_empty h l = Some (xs = [])"
  using at_elem_tail[of h l "[]" xs] by (simp add: list_empty_def is_list_begin is_list_end)

lemma is_list_front: "is_list h l (x # xs) \<Longrightarrow> list_front h l = Some x"
  using is_list_begin[of h l "x # xs"] by (simp add: list_front_def is_list_empty assert_def list_begin_def split: if_splits)

lemma is_list_back: "is_list h l (xs @ [x]) \<Longrightarrow> list_back h l = Some x"
  using is_list_rbegin[of h l "xs @ [x]"] by (simp add: list_back_def is_list_empty assert_def list_rbegin_def split: if_splits)

lemma is_list_size:
  assumes "is_list h l (as @ bs)"
  shows "size_loop h l (at_elem l bs) n = Some (n + length bs)"
  using assms
proof (induction bs arbitrary: as n)
  case Nil
  then show ?case by (subst size_loop.simps) (simp add: is_list_end)
next
  case (Cons b bs)
  then have "is_list h l ((as @ [b]) @ bs)" by simp
  then have IH: "size_loop h l (at_elem l bs) (n + 1) = Some (n + 1 + length bs)" by (rule Cons.IH)
  show ?case using Cons.prems at_elem_tail[OF Cons.prems] IH
    by (subst size_loop.simps) (simp add: is_list_end is_list_next)
qed

section \<open>Insertion and removal\<close>

lemma list_init_ok:
  assumes "l \<noteq> 0" "valid h (head_of l)" "valid h (tail_of l)"
  shows "\<exists>h'. list_init h l = Some h' \<and> is_list h' l [] \<and> frame {head_of l, tail_of l} h h'"
  using assms
  by (auto simp: list_init_def assert_def set_next_def set_prev_def is_list_def nodes_def chain_def frame_def head_of_def tail_of_def)

lemma list_insert_ok:
  assumes "is_list h l (as @ bs)" "e \<notin> set (nodes l (as @ bs))" "e \<noteq> 0" "valid h e"
  shows "\<exists>h'. list_insert h (at_elem l bs) e = Some h' \<and> is_list h' l (as @ e # bs) \<and>
    frame (insert e (set (nodes l (as @ bs)))) h h'"
proof -
  let ?h = "link (up_elem l as) e (link e (at_elem l bs) h)"
  have "list_insert h (at_elem l bs) e = Some ?h \<and> chain ?h (nodes l (as @ e # bs))"
    using list_insert_chain[of h "butlast (head_of l # as)" "up_elem l as" "at_elem l bs" "tl (bs @ [tail_of l])" e]
      assms unfolding is_list_def nodes_split(2)[of l as e bs] nodes_split(1)[of l as bs] by blast
  moreover have "frame (insert e (set (nodes l (as @ bs)))) h ?h"
    using elems_in_nodes[where l = l and bs = bs and as = as] by (intro frame_link) simp_all
  ultimately show ?thesis by (auto simp: is_list_def)
qed

lemma list_remove_ok:
  assumes "is_list h l (as @ e # bs)"
  shows "\<exists>h'. list_remove h e = Some (at_elem l bs, h') \<and> is_list h' l (as @ bs) \<and> frame (set (nodes l (as @ bs))) h h'"
proof -
  let ?h = "link (up_elem l as) (at_elem l bs) h"
  have "list_remove h e = Some (at_elem l bs, ?h) \<and> chain ?h (nodes l (as @ bs))"
    using list_remove_chain[of h "butlast (head_of l # as)" "up_elem l as" e "at_elem l bs" "tl (bs @ [tail_of l])"]
      assms unfolding is_list_def nodes_split(2)[of l as e bs] nodes_split(1)[of l as bs] by blast
  moreover have "frame (set (nodes l (as @ bs))) h ?h"
    using elems_in_nodes[where l = l and bs = bs and as = as] by (intro frame_link) simp_all
  ultimately show ?thesis by (auto simp: is_list_def)
qed

lemma list_push_back_ok:
  assumes "is_list h l xs" "e \<notin> set (nodes l xs)" "e \<noteq> 0" "valid h e"
  shows "\<exists>h'. list_push_back h l e = Some h' \<and> is_list h' l (xs @ [e]) \<and> frame (insert e (set (nodes l xs))) h h'"
  using list_insert_ok[of h l xs "[]" e] assms by (simp add: list_push_back_def is_list_end)

lemma list_push_front_ok:
  assumes "is_list h l xs" "e \<notin> set (nodes l xs)" "e \<noteq> 0" "valid h e"
  shows "\<exists>h'. list_push_front h l e = Some h' \<and> is_list h' l (e # xs) \<and> frame (insert e (set (nodes l xs))) h h'"
  using list_insert_ok[of h l "[]" xs e] assms by (simp add: list_push_front_def is_list_begin)

lemma list_pop_front_ok:
  assumes "is_list h l (x # xs)"
  shows "\<exists>h'. list_pop_front h l = Some (x, h') \<and> is_list h' l xs \<and> frame (set (nodes l xs)) h h'"
  using list_remove_ok[of h l "[]" x xs] assms by (auto simp: list_pop_front_def is_list_front)

lemma list_pop_back_ok:
  assumes "is_list h l (xs @ [x])"
  shows "\<exists>h'. list_pop_back h l = Some (x, h') \<and> is_list h' l xs \<and> frame (set (nodes l xs)) h h'"
  using list_remove_ok[of h l xs x "[]"] assms by (auto simp: list_pop_back_def is_list_back)

section \<open>Reversal\<close>

definition swapped :: "nat set \<Rightarrow> lheap \<Rightarrow> lheap" where
  "swapped X h = h\<lparr>nexts := (\<lambda>x. if x \<in> X then prevs h x else nexts h x),
     prevs := (\<lambda>x. if x \<in> X then nexts h x else prevs h x)\<rparr>"

lemma swapped_sel [simp]:
  "nexts (swapped X h) x = (if x \<in> X then prevs h x else nexts h x)"
  "prevs (swapped X h) x = (if x \<in> X then nexts h x else prevs h x)" "valid (swapped X h) = valid h"
  by (simp_all add: swapped_def)

lemma swap_fields_swapped:
  assumes "valid h x" "x \<notin> X"
  shows "swap_fields (swapped X h) x = Some (swapped (insert x X) h)"
  using assms by (auto simp: swap_fields_def load_def set_prev_def set_next_def swapped_def fun_eq_iff)

lemma reverse_loop_ok:
  assumes "is_list h l (as @ bs)"
  shows "reverse_loop (swapped (set as) h) l (at_elem l bs) = Some (swapped (set (as @ bs)) h)"
  using assms
proof (induction bs arbitrary: as)
  case Nil
  then show ?case by (subst reverse_loop.simps) (simp add: is_list_end)
next
  case (Cons b bs)
  have b: "valid h b" "b \<notin> set as" "b \<noteq> tail_of l" using is_list_nz[OF Cons.prems] by auto
  have "is_list h l ((as @ [b]) @ bs)" using Cons.prems by simp
  then have IH: "reverse_loop (swapped (insert b (set as)) h) l (at_elem l bs) = Some (swapped (insert b (set as \<union> set bs)) h)"
    using Cons.IH by fastforce
  have "nexts h b = at_elem l bs" using is_list_links(1)[of h l "as @ [b]" bs] Cons.prems by simp
  then show ?case using b Cons.prems swap_fields_swapped[of h b "set as"] IH
    by (subst reverse_loop.simps) (simp add: is_list_end load_def)
qed

lemma links_rev: "links h ys \<Longrightarrow> (\<And>x. x \<in> set ys \<Longrightarrow> nexts h' x = prevs h x \<and> prevs h' x = nexts h x) \<Longrightarrow> links h' (rev ys)"
proof (induction h ys rule: links.induct)
  case (1 h x y r)
  then have "links h' (rev (y # r))" by simp
  then show ?case using 1 links_append[of "rev (y # r)" "[x]" h'] by simp
qed auto

lemma list_reverse_ok:
  assumes "is_list h l xs"
  shows "\<exists>h'. list_reverse h l = Some h' \<and> is_list h' l (rev xs) \<and> frame (set (nodes l xs)) h h'"
proof (cases "xs = []")
  case True
  then show ?thesis using assms by (simp add: list_reverse_def is_list_empty)
next
  case False
  obtain f b where fb: "hd xs = f" "last xs = b" by blast
  let ?s = "swapped (set xs) h"
  let ?h = "link (head_of l) b (link f (tail_of l) ?s)"
  note nz = is_list_nz[OF assms]
  have mem: "f \<in> set xs" "b \<in> set xs" using False fb by auto
  have ends: "nexts h (head_of l) = f" "prevs h f = head_of l" "nexts h b = tail_of l" "prevs h (tail_of l) = b"
    using is_list_links[of h l "[]" xs] is_list_links[of h l xs "[]"] assms False fb by simp_all
  have loop: "reverse_loop h l f = Some ?s"
    using reverse_loop_ok[of h l "[]" xs] assms False fb by (simp add: swapped_def)
  have ne: "f \<noteq> head_of l" "f \<noteq> tail_of l" "b \<noteq> head_of l" "b \<noteq> tail_of l" using mem nz(4,5) by auto
  have run: "list_reverse h l = Some ?h"
    using assms False mem nz loop ends ne fb
    by (simp add: list_reverse_def is_list_empty is_list_begin load_def set_next_def set_prev_def link_def fun_upd_twist)
  have "links h xs" "links h [head_of l]"
    using assms links_append[of "head_of l # xs" "[tail_of l]" h] links_append[of "[head_of l]" xs h] False
    by (simp_all add: is_list_def nodes_def chain_def)
  then have "links ?s (rev xs)" by (rule_tac links_rev) auto
  moreover have "hd (rev xs) = b" "last (rev xs) = f" using False fb by (simp_all add: hd_rev last_rev)
  moreover have "b \<notin> set (tl (rev xs))" "f \<notin> set (butlast (rev xs))"
    using hd_notin_tl[of "rev xs"] last_notin_butlast[of "rev xs"] nz(3) False \<open>hd (rev xs) = b\<close> \<open>last (rev xs) = f\<close> by simp_all
  moreover have "head_of l \<notin> set (butlast (rev xs))" "tail_of l \<notin> set (tl (rev xs))"
    using nz(4,5) notin_tl[of _ "rev xs"] notin_butlast[of _ "rev xs"] by simp_all
  ultimately have "links ?h (rev xs)" by (simp add: links_link)
  then have "links ?h ([head_of l] @ rev xs @ [tail_of l])"
    using False ne \<open>hd (rev xs) = b\<close> \<open>last (rev xs) = f\<close> links_append[of "[head_of l]" "rev xs @ [tail_of l]" ?h]
      links_append[of "rev xs" "[tail_of l]" ?h] by simp
  then have links: "links ?h (nodes l (rev xs))" by (simp only: nodes_def append_Cons append_Nil)
  have "chain ?h (nodes l (rev xs))"
  proof (rule chain_permute[OF assms[unfolded is_list_def] _ _ _ _ links])
    show "prevs ?h (hd (nodes l (rev xs))) = 0" "nexts ?h (last (nodes l (rev xs))) = 0"
      using is_list_ends[OF assms] ne nz(4,5) by (auto simp: nodes_def)
    show "distinct (nodes l (rev xs))" using nz(3-5) by (auto simp: nodes_def)
  qed (auto simp: nodes_def)
  moreover have "frame (set (nodes l xs)) h ?h"
    using mem by (intro frame_link) (auto simp: nodes_def frame_def)
  ultimately show ?thesis using run by (auto simp: is_list_def)
qed

section \<open>Searching and ordered insertion\<close>

lemma ordered_loop_ok:
  assumes "is_list h l (as @ bs)"
  shows "ordered_loop lt h l e (at_elem l bs) = Some (at_elem l (dropWhile (\<lambda>x. \<not> lt e x) bs))"
  using assms
proof (induction bs arbitrary: as)
  case Nil
  then show ?case by (subst ordered_loop.simps) (simp add: is_list_end)
next
  case (Cons b bs)
  then have "is_list h l ((as @ [b]) @ bs)" by simp
  then have "ordered_loop lt h l e (at_elem l bs) = Some (at_elem l (dropWhile (\<lambda>x. \<not> lt e x) bs))" by (rule Cons.IH)
  then show ?case using Cons.prems at_elem_tail[OF Cons.prems]
    by (subst ordered_loop.simps) (simp add: is_list_end is_list_next)
qed

lemma list_insert_ordered_ok:
  assumes "is_list h l xs" "e \<notin> set (nodes l xs)" "e \<noteq> 0" "valid h e"
  shows "\<exists>h'. list_insert_ordered lt h l e = Some h' \<and>
    is_list h' l (takeWhile (\<lambda>x. \<not> lt e x) xs @ e # dropWhile (\<lambda>x. \<not> lt e x) xs) \<and> frame (insert e (set (nodes l xs))) h h'"
proof -
  let ?as = "takeWhile (\<lambda>x. \<not> lt e x) xs" and ?bs = "dropWhile (\<lambda>x. \<not> lt e x) xs"
  have xs: "?as @ ?bs = xs" by simp
  have "ordered_loop lt h l e (at_elem l xs) = Some (at_elem l ?bs)" using ordered_loop_ok[of h l "[]" xs] assms(1) by simp
  then show ?thesis using list_insert_ok[of h l ?as ?bs e] assms is_list_nz(1)[OF assms(1)] unfolding xs
    by (simp add: list_insert_ordered_def is_list_begin assert_def)
qed

lemma best_loop_ok:
  assumes "is_list h l (as @ bs)"
  shows "best_loop better h l (at_elem l bs) m = Some (fold (\<lambda>e m. if better m e then e else m) bs m)"
  using assms
proof (induction bs arbitrary: as m)
  case Nil
  then show ?case by (subst best_loop.simps) (simp add: is_list_end)
next
  case (Cons b bs)
  then have "is_list h l ((as @ [b]) @ bs)" by simp
  note IH = Cons.IH[OF this]
  show ?case using Cons.prems at_elem_tail[OF Cons.prems] IH
    by (subst best_loop.simps) (simp add: is_list_end is_list_next Let_def)
qed

lemma list_max_ok:
  assumes "is_list h l xs"
  shows "list_max lt h l = Some (case xs of [] \<Rightarrow> tail_of l | x # r \<Rightarrow> fold (\<lambda>e m. if lt m e then e else m) r x)"
  using best_loop_ok[of h l "[hd xs]" "tl xs"] at_elem_tail[of h l "[]" xs] is_list_next[of h l "[]" "hd xs" "tl xs"] assms
  by (cases xs) (simp_all add: list_max_def is_list_begin is_list_end)

lemma list_min_ok:
  assumes "is_list h l xs"
  shows "list_min lt h l = Some (case xs of [] \<Rightarrow> tail_of l | x # r \<Rightarrow> fold (\<lambda>e m. if lt e m then e else m) r x)"
  using best_loop_ok[of h l "[hd xs]" "tl xs"] at_elem_tail[of h l "[]" xs] is_list_next[of h l "[]" "hd xs" "tl xs"] assms
  by (cases xs) (simp_all add: list_min_def is_list_begin is_list_end)

section \<open>Removing duplicates\<close>

text \<open>What is kept of an element and those behind it, and what is removed.\<close>

fun uniq :: "(nat \<Rightarrow> nat \<Rightarrow> bool) \<Rightarrow> nat \<Rightarrow> nat list \<Rightarrow> nat list \<times> nat list" where
  "uniq lt x [] = ([x], [])"
| "uniq lt x (y # ys) =
     (if \<not> lt x y \<and> \<not> lt y x then (fst (uniq lt x ys), y # snd (uniq lt x ys))
      else (x # fst (uniq lt y ys), snd (uniq lt y ys)))"

lemma unique_loop_ok:
  assumes "is_list h l (as @ x # bs)" "d \<noteq> 0 \<longrightarrow> is_list h d ds \<and> set (nodes d ds) \<inter> set (nodes l (as @ x # bs)) = {}"
  shows "\<exists>h'. unique_loop lt h l d x = Some h' \<and> is_list h' l (as @ fst (uniq lt x bs)) \<and>
    (d \<noteq> 0 \<longrightarrow> is_list h' d (ds @ snd (uniq lt x bs)))"
  using assms
proof (induction bs arbitrary: as x ds h)
  case Nil
  then show ?case by (subst unique_loop.simps) (simp add: is_list_next is_list_end)
next
  case (Cons b bs)
  have nx: "list_next h x = Some b" "list_end h l = Some (tail_of l)" "b \<noteq> tail_of l"
    using is_list_next[OF Cons.prems(1)] is_list_end[OF Cons.prems(1)] is_list_nz(5)[OF Cons.prems(1)] by auto
  show ?case
  proof (cases "\<not> lt x b \<and> \<not> lt b x")
    case dup: True
    have "is_list h l ((as @ [x]) @ b # bs)" using Cons.prems(1) by simp
    then obtain h1 where h1: "list_remove h b = Some (at_elem l bs, h1)" "is_list h1 l (as @ x # bs)"
      "frame (set (nodes l (as @ x # bs))) h h1" using list_remove_ok[of h l "as @ [x]" b bs] by auto
    obtain h2 where h2: "(if d \<noteq> 0 then list_push_back h1 d b else Some h1) = Some h2" "is_list h2 l (as @ x # bs)"
      "d \<noteq> 0 \<longrightarrow> is_list h2 d (ds @ [b])"
    proof (cases "d = 0")
      case False
      have b: "b \<notin> set (nodes d ds)" "b \<noteq> 0" "valid h1 b" "b \<notin> set (nodes l (as @ x # bs))"
        using Cons.prems False is_list_nz[OF Cons.prems(1)] h1(3) by (auto simp: nodes_def frame_def)
      have disj: "set (nodes d ds) \<inter> set (nodes l (as @ x # bs)) = {}"
        using Cons.prems(2) False by (auto simp: nodes_def)
      have "is_list h1 d ds" using is_list_frame[OF _ h1(3) disj] Cons.prems(2) False by blast
      then obtain h2 where "list_push_back h1 d b = Some h2" "is_list h2 d (ds @ [b])" "frame (insert b (set (nodes d ds))) h1 h2"
        using list_push_back_ok b(1-3) by blast
      moreover from this(3) have "is_list h2 l (as @ x # bs)"
        using is_list_frame[OF h1(2)] disj b(4) by blast
      ultimately show ?thesis using that False by auto
    qed (use that h1 in auto)
    have "d \<noteq> 0 \<longrightarrow> is_list h2 d (ds @ [b]) \<and> set (nodes d (ds @ [b])) \<inter> set (nodes l (as @ x # bs)) = {}"
      using h2(3) Cons.prems(2) is_list_nz[OF Cons.prems(1)] by (auto simp: nodes_def)
    from Cons.IH[OF h2(2) this] show ?thesis using dup nx h1(1) h2(1)
      by (subst unique_loop.simps) simp
  next
    case False
    have "is_list h l ((as @ [x]) @ b # bs)" using Cons.prems(1) by simp
    moreover have "d \<noteq> 0 \<longrightarrow> is_list h d ds \<and> set (nodes d ds) \<inter> set (nodes l ((as @ [x]) @ b # bs)) = {}"
      using Cons.prems(2) by simp
    moreover have "unique_loop lt h l d x = unique_loop lt h l d b"
      using False nx by (subst unique_loop.simps) auto
    moreover have "uniq lt x (b # bs) = (x # fst (uniq lt b bs), snd (uniq lt b bs))" using False by auto
    ultimately show ?thesis using Cons.IH[of h "as @ [x]" b ds] by simp
  qed
qed

lemma list_unique_ok:
  assumes "is_list h l xs" "d \<noteq> 0 \<longrightarrow> is_list h d ds \<and> set (nodes d ds) \<inter> set (nodes l xs) = {}"
  shows "\<exists>h'. list_unique lt h l d = Some h' \<and>
    is_list h' l (case xs of [] \<Rightarrow> [] | x # r \<Rightarrow> fst (uniq lt x r)) \<and>
    (d \<noteq> 0 \<longrightarrow> is_list h' d (ds @ (case xs of [] \<Rightarrow> [] | x # r \<Rightarrow> snd (uniq lt x r))))"
proof (cases xs)
  case Nil
  then show ?thesis using assms is_list_nz(1)[OF assms(1)] by (simp add: list_unique_def is_list_empty assert_def)
next
  case (Cons x r)
  then show ?thesis
    using unique_loop_ok[of h l "[]" x r d ds lt] assms is_list_nz(1)[OF assms(1)]
    by (simp add: list_unique_def is_list_empty is_list_begin assert_def)
qed

section \<open>Moving a range to another list\<close>

lemma chain_intro:
  assumes "\<And>x. x \<in> set ns \<Longrightarrow> x \<noteq> 0 \<and> valid h x" "distinct ns" "2 \<le> length ns" "links h ns" "prevs h (hd ns) = 0" "nexts h (last ns) = 0"
  shows "chain h ns"
  using assms unfolding chain_def by metis

lemma list_splice_chain:
  assumes "chain h (A @ M @ B)" "chain h (C @ D)" "A \<noteq> []" "M \<noteq> []" "B \<noteq> []" "C \<noteq> []" "D \<noteq> []"
    "set (A @ M @ B) \<inter> set (C @ D) = {}"
  shows "\<exists>h'. list_splice h (hd D) (hd M) (hd B) = Some h' \<and> chain h' (A @ B) \<and> chain h' (C @ M @ D)"
proof -
  obtain p n q b m m' where nm: "last A = p" "hd B = n" "last C = q" "hd D = b" "hd M = m" "last M = m'" by blast
  let ?h = "link m' b (link q m (link p n h))"
  have dis: "distinct (A @ M @ B)" "distinct (C @ D)" using assms(1,2) by (simp_all add: chain_def)
  have mem: "p \<in> set A" "n \<in> set B" "q \<in> set C" "b \<in> set D" "m \<in> set M" "m' \<in> set M" using assms(3-7) nm by auto
  have nin: "p \<notin> set (butlast A)" "n \<notin> set (tl B)" "q \<notin> set (butlast C)" "b \<notin> set (tl D)" "m \<notin> set (tl M)" "m' \<notin> set (butlast M)"
    using dis assms(3-7) nm last_notin_butlast[of A] hd_notin_tl[of B] last_notin_butlast[of C] hd_notin_tl[of D]
      hd_notin_tl[of M] last_notin_butlast[of M] by auto
  have c: "chain h (butlast A @ p # M @ n # tl B)"
    using assms(1) unfolding split_last[OF assms(3)] using assms(5) nm by (cases B) simp_all
  have qb: "prevs h b = q" "b \<noteq> n" "b \<notin> set M" "q \<notin> set M" "b \<noteq> 0" "valid h b" "q \<noteq> 0" "valid h q"
    using chain_boundary(2)[OF assms(2,6,7)] nm mem assms(8) chain_mem[OF assms(2), of b] chain_mem[OF assms(2), of q] by auto
  have "list_splice h b (hd M) n = Some (link (last M) b (link q (hd M) (link p n h)))"
    using qb assms(4) by (intro list_splice_run[OF c]) (simp_all only: if_False not_False_eq_True)
  then have run: "list_splice h b m n = Some ?h" by (simp only: nm)
  have seg: "links h A" "links h M" "links h B" "links h C" "links h D"
    using assms(1-7) by (simp_all add: chain_def links_append)
  have "links ?h A = links h A" using dis mem nin assms(8) set_tl_butlast[of A] by (intro links_link3) auto
  moreover have "links ?h B = links h B" using dis mem nin assms(8) set_tl_butlast[of B] by (intro links_link3) auto
  moreover have "links ?h C = links h C" using dis mem nin assms(8) set_tl_butlast[of C] by (intro links_link3) auto
  moreover have "links ?h D = links h D" using dis mem nin assms(8) set_tl_butlast[of D] by (intro links_link3) auto
  moreover have "links ?h M = links h M" using dis mem nin assms(8) set_tl_butlast[of M] by (intro links_link3) auto
  moreover have "nexts ?h p = n" "prevs ?h n = p" "nexts ?h q = m" "prevs ?h m = q" "nexts ?h m' = b" "prevs ?h b = m'"
    using dis mem assms(8) by auto
  ultimately have l: "links ?h (A @ B)" "links ?h (C @ M @ D)"
    using seg assms(3-7) nm by (simp_all add: links_append del: link_sel)
  have hl: "hd A \<in> set A" "last B \<in> set B" "hd C \<in> set C" "last D \<in> set D" using assms(3-7) by simp_all
  have ends: "prevs h (hd A) = 0" "nexts h (last B) = 0" "prevs h (hd C) = 0" "nexts h (last D) = 0"
    using assms(1-7) by (simp_all add: chain_def)
  have out: "x \<notin> {n, m, b}" if "x \<in> set A \<union> set C" for x using that dis mem assms(8) by auto
  have out': "x \<notin> {p, q, m'}" if "x \<in> set B \<union> set D" for x using that dis mem assms(8) by auto
  have "chain ?h (A @ B)"
  proof (rule chain_intro)
    show "prevs ?h (hd (A @ B)) = 0" "nexts ?h (last (A @ B)) = 0"
      using ends out[of "hd A"] out'[of "last B"] hl assms(3,5) by simp_all
    show "distinct (A @ B)" using dis by auto
    show "2 \<le> length (A @ B)" using assms(3,5) by (cases A; cases B) auto
    show "x \<noteq> 0 \<and> valid ?h x" if "x \<in> set (A @ B)" for x using chain_mem[OF assms(1), of x] that by auto
  qed (rule l)
  moreover have "chain ?h (C @ M @ D)"
  proof (rule chain_intro)
    show "prevs ?h (hd (C @ M @ D)) = 0" "nexts ?h (last (C @ M @ D)) = 0"
      using ends out[of "hd C"] out'[of "last D"] hl assms(4,6,7) by simp_all
    show "distinct (C @ M @ D)" using dis assms(8) by auto
    show "2 \<le> length (C @ M @ D)" using assms(6,7) by (cases C; cases D) auto
    show "x \<noteq> 0 \<and> valid ?h x" if "x \<in> set (C @ M @ D)" for x
      using chain_mem[OF assms(1), of x] chain_mem[OF assms(2), of x] that by auto
  qed (rule l)
  ultimately show ?thesis using run nm by auto
qed

lemma list_splice_other:
  assumes "is_list h l1 (as @ M @ bs)" "is_list h l2 (cs @ ds)" "M \<noteq> []"
    "set (nodes l1 (as @ M @ bs)) \<inter> set (nodes l2 (cs @ ds)) = {}"
  shows "\<exists>h'. list_splice h (at_elem l2 ds) (hd M) (at_elem l1 bs) = Some h' \<and>
    is_list h' l1 (as @ bs) \<and> is_list h' l2 (cs @ M @ ds)"
  using list_splice_chain[of h "head_of l1 # as" M "bs @ [tail_of l1]" "head_of l2 # cs" "ds @ [tail_of l2]"] assms
  by (simp add: is_list_def nodes_def)

end
