(* ===== verification/PListSort.thy ===== *)
theory PListSort
  imports PListOps "HOL-Library.Multiset"
begin

text \<open>
  \<^verbatim>\<open>list_sort\<close> is a natural merge sort that works in place. On sequences it is the function \<open>msort\<close>: a
  pass merges adjacent nondecreasing runs in pairs, and passes are repeated until one run is left.
\<close>

section \<open>Merge sort of sequences\<close>

fun merge :: "(nat \<Rightarrow> nat \<Rightarrow> bool) \<Rightarrow> nat list \<Rightarrow> nat list \<Rightarrow> nat list" where
  "merge lt [] bs = bs"
| "merge lt as [] = as"
| "merge lt (a # as) (b # bs) = (if \<not> lt b a then a # merge lt as (b # bs) else b # merge lt (a # as) bs)"

text \<open>The first run and the rest.\<close>

fun run :: "(nat \<Rightarrow> nat \<Rightarrow> bool) \<Rightarrow> nat list \<Rightarrow> nat list" where
  "run lt (x # y # ys) = (if lt y x then [x] else x # run lt (y # ys))"
| "run lt [] = []"
| "run lt [x] = [x]"

fun rest :: "(nat \<Rightarrow> nat \<Rightarrow> bool) \<Rightarrow> nat list \<Rightarrow> nat list" where
  "rest lt (x # y # ys) = (if lt y x then y # ys else rest lt (y # ys))"
| "rest lt [] = []"
| "rest lt [x] = []"

lemma run_rest: "run lt xs @ rest lt xs = xs"
  by (induction lt xs rule: run.induct) auto

lemma run_Nil [simp]: "run lt xs = [] \<longleftrightarrow> xs = []"
  by (induction lt xs rule: run.induct) auto

lemma run_hd: "xs \<noteq> [] \<Longrightarrow> hd (run lt xs) = hd xs"
  by (induction lt xs rule: run.induct) auto

lemma rest_less: "xs \<noteq> [] \<Longrightarrow> length (rest lt xs) < length xs"
  using run_rest[of lt xs] by (metis length_append length_greater_0_conv less_add_same_cancel2 run_Nil)

function pass :: "(nat \<Rightarrow> nat \<Rightarrow> bool) \<Rightarrow> nat list \<Rightarrow> nat list \<times> nat" where
  "pass lt xs =
     (if xs = [] then ([], 0)
      else if rest lt xs = [] then (run lt xs, 1)
      else let r = rest lt xs; (ys, n) = pass lt (rest lt r) in (merge lt (run lt xs) (run lt r) @ ys, n + 1))"
  by pat_completeness auto
termination pass
  using rest_less by (relation "measure (\<lambda>(lt, xs). length xs)") (auto intro: less_trans)

declare pass.simps [simp del]

text \<open>The number of runs.\<close>

fun descents :: "(nat \<Rightarrow> nat \<Rightarrow> bool) \<Rightarrow> nat list \<Rightarrow> nat" where
  "descents lt (x # y # ys) = of_bool (lt y x) + descents lt (y # ys)"
| "descents lt [] = 0"
| "descents lt [x] = 0"

definition runs :: "(nat \<Rightarrow> nat \<Rightarrow> bool) \<Rightarrow> nat list \<Rightarrow> nat" where
  "runs lt xs = (if xs = [] then 0 else descents lt xs + 1)"

lemma descents_rest: "rest lt xs \<noteq> [] \<Longrightarrow> descents lt xs = Suc (descents lt (rest lt xs))"
  by (induction lt xs rule: rest.induct) auto

lemma descents_rest_Nil: "rest lt xs = [] \<Longrightarrow> descents lt xs = 0"
  by (induction lt xs rule: rest.induct) (auto split: if_splits)

lemma runs_rest: "xs \<noteq> [] \<Longrightarrow> runs lt xs = Suc (runs lt (rest lt xs))"
  using descents_rest[of lt xs] descents_rest_Nil[of lt xs] by (auto simp: runs_def)

lemma descents_append: "descents lt (xs @ ys) \<le> descents lt xs + descents lt ys + 1"
proof (induction lt xs rule: descents.induct)
  case (3 lt v)
  then show ?case by (cases ys) auto
qed auto

lemma runs_append: "runs lt (xs @ ys) \<le> runs lt xs + runs lt ys"
  using descents_append[of lt xs ys] by (auto simp: runs_def)

text \<open>In order: no element is smaller than an earlier one.\<close>

definition in_order :: "(nat \<Rightarrow> nat \<Rightarrow> bool) \<Rightarrow> nat list \<Rightarrow> bool" where
  "in_order lt xs \<longleftrightarrow> sorted_wrt (\<lambda>x y. \<not> lt y x) xs"

text \<open>The orders that the function may be called with.\<close>

definition weak_order :: "(nat \<Rightarrow> nat \<Rightarrow> bool) \<Rightarrow> bool" where
  "weak_order lt \<longleftrightarrow> (\<forall>x. \<not> lt x x) \<and> (\<forall>x y. lt x y \<longrightarrow> \<not> lt y x) \<and> (\<forall>x y z. \<not> lt y x \<and> \<not> lt z y \<longrightarrow> \<not> lt z x)"

lemma in_order_run:
  assumes "weak_order lt"
  shows "in_order lt (run lt xs)"
  using assms
proof (induction lt xs rule: run.induct)
  case (1 lt x y ys)
  show ?case
  proof (cases "lt y x")
    case False
    then have s: "in_order lt (run lt (y # ys))" using 1 by simp
    obtain zs where zs: "run lt (y # ys) = y # zs" using run_hd[of "y # ys" lt] run_Nil[of lt "y # ys"] by (metis hd_Cons_tl list.sel(1) neq_Nil_conv)
    have "\<not> lt z x" if "z \<in> set (y # zs)" for z
      using that s zs False 1(2) unfolding in_order_def weak_order_def by (metis set_ConsD sorted_wrt.simps(2))
    then show ?thesis using False s zs by (auto simp: in_order_def)
  qed (simp add: in_order_def)
qed (simp_all add: in_order_def)

lemma descents_in_order: "in_order lt xs \<Longrightarrow> descents lt xs = 0"
  by (induction lt xs rule: descents.induct) (auto simp: in_order_def)

lemma in_order_descents:
  assumes "weak_order lt" "descents lt xs = 0"
  shows "in_order lt xs"
proof -
  have "run lt xs = xs" using assms(2) by (induction lt xs rule: run.induct) auto
  then show ?thesis using in_order_run[OF assms(1), of xs] by simp
qed

lemma mset_merge [simp]: "mset (merge lt as bs) = mset as + mset bs"
  by (induction lt as bs rule: merge.induct) auto

lemma set_merge [simp]: "set (merge lt as bs) = set as \<union> set bs"
  using mset_merge[of lt as bs] by (metis set_mset_mset set_mset_union)

lemma in_order_merge:
  assumes "weak_order lt" "in_order lt as" "in_order lt bs"
  shows "in_order lt (merge lt as bs)"
  using assms
proof (induction lt as bs rule: merge.induct)
  case (3 lt a as b bs)
  then have w: "\<not> lt z x" if "\<not> lt y x" "\<not> lt z y" for x y z using that unfolding weak_order_def by blast
  show ?case
  proof (cases "lt b a")
    case True
    then have "in_order lt (merge lt (a # as) bs)" using 3 by (simp add: in_order_def)
    moreover have "\<not> lt z b" if "z \<in> set (merge lt (a # as) bs)" for z
    proof -
      have "\<not> lt a b" using True 3(3) unfolding weak_order_def by blast
      moreover have "z \<in> set bs \<or> z = a \<or> z \<in> set as" using that by auto
      moreover have "z \<in> set bs \<Longrightarrow> \<not> lt z b" "z \<in> set as \<Longrightarrow> \<not> lt z a" using 3(4,5) by (simp_all add: in_order_def)
      ultimately show ?thesis using w[of a b z] by blast
    qed
    ultimately show ?thesis using True by (simp add: in_order_def)
  next
    case False
    then have "in_order lt (merge lt as (b # bs))" using 3 by (simp add: in_order_def)
    moreover have "\<not> lt z a" if "z \<in> set (merge lt as (b # bs))" for z
    proof -
      have "z \<in> set as \<or> z = b \<or> z \<in> set bs" using that by auto
      moreover have "z \<in> set bs \<Longrightarrow> \<not> lt z b" "z \<in> set as \<Longrightarrow> \<not> lt z a" using 3(4,5) by (simp_all add: in_order_def)
      ultimately show ?thesis using w[of b a z] False by blast
    qed
    ultimately show ?thesis using False by (simp add: in_order_def)
  qed
qed simp_all

text \<open>Stability: the elements equivalent to a given one keep their order.\<close>

definition tied :: "(nat \<Rightarrow> nat \<Rightarrow> bool) \<Rightarrow> nat \<Rightarrow> nat \<Rightarrow> bool" where
  "tied lt x y \<longleftrightarrow> \<not> lt x y \<and> \<not> lt y x"

lemma filter_merge:
  assumes "weak_order lt" "in_order lt as" "in_order lt bs"
  shows "filter (tied lt x) (merge lt as bs) = filter (tied lt x) as @ filter (tied lt x) bs"
  using assms
proof (induction lt as bs rule: merge.induct)
  case (3 lt a as b bs)
  show ?case
  proof (cases "lt b a")
    case True
    have IH: "filter (tied lt x) (merge lt (a # as) bs) = filter (tied lt x) (a # as) @ filter (tied lt x) bs"
      using 3 True by (simp add: in_order_def)
    have "filter (tied lt x) (a # as) = []" if "tied lt x b"
    proof -
      have "lt b z" if "z \<in> set (a # as)" for z
      proof (rule ccontr)
        assume "\<not> lt b z"
        moreover have "\<not> lt a a" using 3(3) unfolding weak_order_def by blast
        then have "\<not> lt z a" using that 3(4) by (auto simp: in_order_def)
        ultimately show False using True 3(3) unfolding weak_order_def by blast
      qed
      then show ?thesis using that 3(3) unfolding tied_def weak_order_def filter_empty_conv by blast
    qed
    then show ?thesis using True IH by auto
  next
    case False
    then show ?thesis using 3 by (simp add: in_order_def)
  qed
qed simp_all

lemma pass_cases:
  obtains "xs = []" "pass lt xs = ([], 0)"
  | "xs \<noteq> []" "rest lt xs = []" "run lt xs = xs" "pass lt xs = (xs, 1)"
  | r where "xs \<noteq> []" "r = rest lt xs" "r \<noteq> []" "xs = run lt xs @ run lt r @ rest lt r"
    "pass lt xs = (merge lt (run lt xs) (run lt r) @ fst (pass lt (rest lt r)), Suc (snd (pass lt (rest lt r))))"
    "length (rest lt r) < length xs"
proof (cases "xs = []")
  case True
  then show ?thesis using that(1) by (simp add: pass.simps)
next
  case False
  show ?thesis
  proof (cases "rest lt xs = []")
    case True
    then show ?thesis using that(2) False run_rest[of lt xs] by (simp add: pass.simps)
  next
    case r: False
    have "length (rest lt (rest lt xs)) < length xs" using rest_less[OF False, of lt] rest_less[OF r, of lt] by simp
    then show ?thesis using that(3) False r run_rest[of lt xs] run_rest[of lt "rest lt xs"]
      by (simp add: pass.simps[of lt xs] case_prod_beta Let_def)
  qed
qed

lemma runs_merge: "weak_order lt \<Longrightarrow> runs lt (merge lt (run lt as) (run lt bs)) \<le> 1"
  using descents_in_order[OF in_order_merge[OF _ in_order_run in_order_run]] by (simp add: runs_def)

lemma pass_runs:
  assumes "weak_order lt"
  shows "runs lt (fst (pass lt xs)) \<le> snd (pass lt xs) \<and> 2 * snd (pass lt xs) \<le> runs lt xs + 1"
proof (induction xs rule: length_induct)
  case (1 xs)
  show ?case
  proof (cases rule: pass_cases[where xs = xs and lt = lt])
    case 2
    then show ?thesis using runs_rest[of xs lt] by (simp add: runs_def)
  next
    case (3 r)
    let ?p = "pass lt (rest lt r)"
    have IH: "runs lt (fst ?p) \<le> snd ?p \<and> 2 * snd ?p \<le> runs lt (rest lt r) + 1" using 1 3(6) by blast
    have "runs lt xs = Suc (Suc (runs lt (rest lt r)))" using runs_rest[OF 3(1), of lt] runs_rest[OF 3(3), of lt] 3(2) by simp
    moreover have "runs lt (merge lt (run lt xs) (run lt r) @ fst ?p) \<le> 1 + snd ?p"
      using runs_append[of lt "merge lt (run lt xs) (run lt r)" "fst ?p"] runs_merge[OF assms, of xs r] IH by linarith
    ultimately show ?thesis using 3(5) IH by simp
  qed (simp add: runs_def)
qed

lemma pass_mset: "mset (fst (pass lt xs)) = mset xs"
proof (induction xs rule: length_induct)
  case (1 xs)
  show ?case
  proof (cases rule: pass_cases[where xs = xs and lt = lt])
    case (3 r)
    then have "mset (fst (pass lt (rest lt r))) = mset (rest lt r)" using 1 by blast
    moreover have "mset xs = mset (run lt xs) + mset (run lt r) + mset (rest lt r)" using 3(4) by (metis mset_append add.assoc)
    ultimately show ?thesis using 3(5) by simp
  qed simp_all
qed

lemma pass_filter:
  assumes "weak_order lt"
  shows "filter (tied lt x) (fst (pass lt xs)) = filter (tied lt x) xs"
proof (induction xs rule: length_induct)
  case (1 xs)
  show ?case
  proof (cases rule: pass_cases[where xs = xs and lt = lt])
    case (3 r)
    have IH: "filter (tied lt x) (fst (pass lt (rest lt r))) = filter (tied lt x) (rest lt r)" using 1 3(6) by blast
    have "filter (tied lt x) xs = filter (tied lt x) (run lt xs) @ filter (tied lt x) (run lt r) @ filter (tied lt x) (rest lt r)"
      using arg_cong[OF 3(4), of "filter (tied lt x)"] by simp
    then show ?thesis using 3(5) IH filter_merge[OF assms in_order_run[OF assms] in_order_run[OF assms], of x xs r] by simp
  qed simp_all
qed

text \<open>The sort: each pass at least halves the number of runs, rounded up, so it ends.\<close>

function msort :: "(nat \<Rightarrow> nat \<Rightarrow> bool) \<Rightarrow> nat list \<Rightarrow> nat list" where
  "msort lt xs = (if weak_order lt \<and> snd (pass lt xs) > 1 then msort lt (fst (pass lt xs)) else fst (pass lt xs))"
  by pat_completeness auto
termination msort
proof (relation "measure (\<lambda>(lt, xs). runs lt xs)")
  fix lt xs
  assume "weak_order lt \<and> snd (pass lt xs) > 1"
  then show "((lt, fst (pass lt xs)), lt, xs) \<in> measure (\<lambda>(lt, xs). runs lt xs)"
    using pass_runs[of lt xs] by simp
qed simp

declare msort.simps [simp del]

lemma msort_sorts:
  assumes "weak_order lt"
  shows "in_order lt (msort lt xs) \<and> mset (msort lt xs) = mset xs \<and> filter (tied lt x) (msort lt xs) = filter (tied lt x) xs"
  using assms
proof (induction lt xs rule: msort.induct)
  case (1 lt xs)
  have p: "mset (fst (pass lt xs)) = mset xs" "filter (tied lt x) (fst (pass lt xs)) = filter (tied lt x) xs"
    using pass_mset pass_filter[OF 1(2)] by blast+
  show ?case
  proof (cases "snd (pass lt xs) > 1")
    case True
    then show ?thesis using 1 p by (simp add: msort.simps[of lt xs])
  next
    case False
    then have "runs lt (fst (pass lt xs)) \<le> 1" using pass_runs[OF 1(2), of xs] by linarith
    then have "in_order lt (fst (pass lt xs))"
      using in_order_descents[OF 1(2), of "fst (pass lt xs)"] by (auto simp: runs_def in_order_def split: if_splits)
    then show ?thesis using False p by (simp add: msort.simps[of lt xs])
  qed
qed

section \<open>Merge sort in place\<close>

lemma at_elem_nz: "is_list h l (as @ bs) \<Longrightarrow> at_elem l bs \<noteq> 0"
  using is_list_nz(2)[of h l "as @ bs"] by (cases bs) auto

text \<open>Two positions of a list are the same element only if nothing lies between them.\<close>

lemma at_elem_eq: "is_list h l (as @ xs @ bs) \<Longrightarrow> at_elem l (xs @ bs) = at_elem l bs \<longleftrightarrow> xs = []"
  using is_list_nz(3,5)[of h l "as @ xs @ bs"] by (cases xs; cases bs) auto

lemma run_loop_ok:
  assumes "is_list h l (as @ xs)" "xs \<noteq> []"
  shows "run_loop lt h (at_elem l xs) (tail_of l) = Some (at_elem l (rest lt xs))"
  using assms
proof (induction lt xs arbitrary: as rule: rest.induct)
  case (1 lt x y ys)
  have y: "y \<noteq> tail_of l" using is_list_nz(5)[OF 1(2)] by simp
  have nx: "list_next h x = Some y" "list_prev h y = Some x"
    using is_list_next[OF 1(2)] is_list_prev[of h l "as @ [x]" "y # ys"] 1(2) by simp_all
  have "is_list h l ((as @ [x]) @ y # ys)" using 1(2) by simp
  then have "\<not> lt y x \<Longrightarrow> run_loop lt h y (tail_of l) = Some (at_elem l (rest lt (y # ys)))" using 1(1) by fastforce
  then show ?case using nx y by (subst run_loop.simps) simp
next
  case (3 lt v)
  then show ?case using is_list_next[of h l as v "[]"] by (subst run_loop.simps) simp
qed simp

lemma find_end_of_run_ok:
  assumes "is_list h l (as @ xs)" "xs \<noteq> []"
  shows "find_end_of_run lt h (at_elem l xs) (tail_of l) = Some (at_elem l (rest lt xs))"
  using run_loop_ok[OF assms] at_elem_nz[OF assms(1)] at_elem_tail[OF assms(1)] assms(2)
  by (simp add: find_end_of_run_def assert_def)

lemma is_sorted_loop_ok:
  assumes "is_list h l (as @ xs @ bs)" "xs \<noteq> []"
  shows "is_sorted_loop lt h (hd xs) (at_elem l bs) = Some (descents lt xs = 0)"
  using assms
proof (induction lt xs arbitrary: as rule: descents.induct)
  case (1 lt x y ys)
  have ne: "y \<noteq> at_elem l bs" using at_elem_eq[of h l "as @ [x]" "y # ys" bs] 1(2) by simp
  have nx: "list_next h x = Some y" "list_prev h y = Some x"
    using is_list_next[of h l as x "y # ys @ bs"] is_list_prev[of h l "as @ [x]" "y # ys @ bs"] 1(2) by simp_all
  have "is_list h l ((as @ [x]) @ (y # ys) @ bs)" using 1(2) by simp
  then have "is_sorted_loop lt h y (at_elem l bs) = Some (descents lt (y # ys) = 0)" using 1(1) by fastforce
  then show ?case using nx ne by (subst is_sorted_loop.simps) simp
next
  case (3 lt v)
  then show ?case using is_list_next[of h l as v bs] by (subst is_sorted_loop.simps) simp
qed simp

lemma is_sorted_ok:
  assumes "is_list h l (as @ xs @ bs)"
  shows "is_sorted lt h (at_elem l (xs @ bs)) (at_elem l bs) = Some (descents lt xs = 0)"
  using is_sorted_loop_ok[OF assms, of lt] at_elem_eq[OF assms] by (cases xs) (auto simp: is_sorted_def)

lemma list_splice_move:
  assumes "is_list h l (as @ A @ M @ bs)" "A \<noteq> []" "M \<noteq> []"
  shows "\<exists>h'. list_splice h (hd A) (hd M) (at_elem l bs) = Some h' \<and> is_list h' l (as @ M @ A @ bs) \<and>
    frame (set (nodes l (as @ A @ M @ bs))) h h'"
proof -
  have eq: "nodes l (as @ X @ bs) = butlast (head_of l # as) @ up_elem l as # X @ at_elem l bs # tl (bs @ [tail_of l])" for X
    using split_last[of "head_of l # as" "X @ bs @ [tail_of l]"] by (simp add: nodes_def del: last.simps butlast.simps)
  have c: "chain h (butlast (head_of l # as) @ up_elem l as # A @ M @ at_elem l bs # tl (bs @ [tail_of l]))"
    using assms(1) eq[of "A @ M"] by (simp add: is_list_def del: last.simps butlast.simps)
  obtain h' where h': "list_splice h (hd A) (hd M) (at_elem l bs) = Some h'"
    "chain h' (butlast (head_of l # as) @ up_elem l as # M @ A @ at_elem l bs # tl (bs @ [tail_of l]))" "valid h' = valid h"
    "\<forall>x. x \<notin> set (up_elem l as # A @ M @ [at_elem l bs]) \<longrightarrow> nexts h' x = nexts h x \<and> prevs h' x = prevs h x"
    using list_splice_same[OF c assms(2,3)] by blast
  have "is_list h' l (as @ M @ A @ bs)" using h'(2) eq[of "M @ A"] by (simp add: is_list_def del: last.simps butlast.simps)
  moreover have "set (up_elem l as # A @ M @ [at_elem l bs]) \<subseteq> set (nodes l (as @ A @ M @ bs))"
    using elems_in_nodes[where l = l and bs = bs and as = "as @ A @ M"] elems_in_nodes(2)[where l = l and bs = "A @ M @ bs" and as = as]
    by (auto simp: nodes_def simp del: last.simps)
  ultimately show ?thesis using h' unfolding frame_def by blast
qed

lemma merge_loop_ok:
  assumes "is_list h l (P @ A @ B @ S)"
  shows "\<exists>h'. merge_loop lt h (at_elem l (A @ B @ S)) (at_elem l (B @ S)) (at_elem l S) = Some h' \<and>
    is_list h' l (P @ merge lt A B @ S) \<and> frame (set (nodes l (P @ A @ B @ S))) h h'"
  using assms
proof (induction lt A B arbitrary: P h rule: merge.induct)
  case (3 lt a A b B)
  have ne: "a \<noteq> b" "b \<noteq> at_elem l S"
    using at_elem_eq[of h l P "a # A" "b # B @ S"] at_elem_eq[of h l "P @ a # A" "b # B" S] 3(3) by simp_all
  show ?case
  proof (cases "lt b a")
    case False
    have "list_next h a = Some (at_elem l (A @ b # B @ S))" using is_list_next[of h l P a "A @ b # B @ S"] 3(3) by simp
    moreover have "is_list h l ((P @ [a]) @ A @ (b # B) @ S)" using 3(3) by simp
    ultimately show ?thesis using 3(1)[OF _ \<open>is_list h l ((P @ [a]) @ A @ (b # B) @ S)\<close>] False ne
      by (subst merge_loop.simps) simp
  next
    case True
    have n: "list_next h b = Some (at_elem l (B @ S))" "list_prev h (at_elem l (B @ S)) = Some b"
      using is_list_next[of h l "P @ a # A" b "B @ S"] is_list_prev[of h l "P @ a # A @ [b]" "B @ S"] 3(3) by simp_all
    obtain h1 where h1: "list_splice h a b (at_elem l (B @ S)) = Some h1" "is_list h1 l ((P @ [b]) @ (a # A) @ B @ S)"
      "frame (set (nodes l (P @ (a # A) @ (b # B) @ S))) h h1"
      using list_splice_move[of h l P "a # A" "[b]" "B @ S"] 3(3) by auto
    obtain h' where h': "merge_loop lt h1 a (at_elem l (B @ S)) (at_elem l S) = Some h'"
      "is_list h' l ((P @ [b]) @ merge lt (a # A) B @ S)" "frame (set (nodes l ((P @ [b]) @ (a # A) @ B @ S))) h1 h'"
      using 3(2)[OF _ h1(2)] True by auto
    have "set (nodes l ((P @ [b]) @ (a # A) @ B @ S)) = set (nodes l (P @ (a # A) @ (b # B) @ S))" by (auto simp: nodes_def)
    then have "frame (set (nodes l (P @ (a # A) @ (b # B) @ S))) h h'" using frame_trans[OF h1(3)] h'(3) by simp
    then show ?thesis using h'(1,2) n h1(1) ne True by (subst merge_loop.simps) simp
  qed
qed (subst merge_loop.simps; simp)+

lemma inplace_merge_ok:
  assumes "is_list h l (P @ A @ B @ S)" "descents lt A = 0" "descents lt B = 0"
  shows "\<exists>h'. inplace_merge lt h (at_elem l (A @ B @ S)) (at_elem l (B @ S)) (at_elem l S) = Some h' \<and>
    is_list h' l (P @ merge lt A B @ S) \<and> frame (set (nodes l (P @ A @ B @ S))) h h'"
  using merge_loop_ok[OF assms(1), of lt] is_sorted_ok[of h l P A "B @ S" lt] is_sorted_ok[of h l "P @ A" B S lt]
    at_elem_nz[of h l P "A @ B @ S"] at_elem_nz[of h l "P @ A" "B @ S"] at_elem_nz[of h l "P @ A @ B" S] assms
  by (simp add: inplace_merge_def assert_def)

lemma descents_run: "descents lt (run lt xs) = 0"
proof (induction lt xs rule: run.induct)
  case (1 lt x y ys)
  then show ?case using run_hd[of "y # ys" lt] by (cases "run lt (y # ys)") auto
qed simp_all

lemma pass_loop_ok:
  assumes "is_list h l (P @ xs)"
  shows "\<exists>h'. pass_loop lt h l (at_elem l xs) cnt = Some (cnt + snd (pass lt xs), h') \<and>
    is_list h' l (P @ fst (pass lt xs)) \<and> frame (set (nodes l (P @ xs))) h h'"
  using assms
proof (induction xs arbitrary: P h cnt rule: length_induct)
  case (1 xs)
  note en = is_list_end[OF 1(2)]
  show ?case
  proof (cases rule: pass_cases[where xs = xs and lt = lt])
    case 1
    then show ?thesis using en \<open>is_list h l (P @ xs)\<close> by (subst pass_loop.simps) simp
  next
    case 2
    then show ?thesis using en \<open>is_list h l (P @ xs)\<close> at_elem_tail[of h l P xs] find_end_of_run_ok[of h l P xs lt]
      by (subst pass_loop.simps) simp
  next
    case (3 r)
    let ?A = "run lt xs" and ?B = "run lt r" and ?S = "rest lt r"
    have L: "is_list h l (P @ ?A @ ?B @ ?S)" using 3(4) \<open>is_list h l (P @ xs)\<close> by simp
    have xs: "xs = ?A @ ?B @ ?S" and r: "r = ?B @ ?S" using 3(4) run_rest[of lt r] by simp_all
    have e: "at_elem l xs \<noteq> tail_of l" "at_elem l r \<noteq> tail_of l"
      using at_elem_tail[OF \<open>is_list h l (P @ xs)\<close>] at_elem_tail[of h l "P @ ?A" r] L r 3(1,3) by simp_all
    have f: "find_end_of_run lt h (at_elem l xs) (tail_of l) = Some (at_elem l r)"
      "find_end_of_run lt h (at_elem l r) (tail_of l) = Some (at_elem l ?S)"
      using find_end_of_run_ok[of h l P xs lt] find_end_of_run_ok[of h l "P @ ?A" r lt] L r \<open>is_list h l (P @ xs)\<close> 3(1-3) by simp_all
    have d: "descents lt ?A = 0" "descents lt ?B = 0" using descents_run by blast+
    obtain h1 where h1: "inplace_merge lt h (at_elem l xs) (at_elem l r) (at_elem l ?S) = Some h1"
      "is_list h1 l ((P @ merge lt ?A ?B) @ ?S)" "frame (set (nodes l (P @ xs))) h h1"
      using inplace_merge_ok[OF L d] xs r by (metis append.assoc)
    obtain h2 where h2: "pass_loop lt h1 l (at_elem l ?S) (cnt + 1) = Some (cnt + 1 + snd (pass lt ?S), h2)"
      "is_list h2 l ((P @ merge lt ?A ?B) @ fst (pass lt ?S))" "frame (set (nodes l ((P @ merge lt ?A ?B) @ ?S))) h1 h2"
      using 1(1) 3(6) h1(2) by blast
    have "set (nodes l ((P @ merge lt ?A ?B) @ ?S)) = set (nodes l (P @ xs))" using arg_cong[OF xs, of set] by (auto simp: nodes_def)
    then have "frame (set (nodes l (P @ xs))) h h2" using frame_trans[OF h1(3)] h2(3) by simp
    then show ?thesis using en e f h1(1) h2(1,2) 3(5) by (subst pass_loop.simps) simp
  qed
qed

lemma sort_loop_ok:
  assumes "weak_order lt" "is_list h l xs"
  shows "\<exists>h'. sort_loop lt h l = Some h' \<and> is_list h' l (msort lt xs) \<and> frame (set (nodes l xs)) h h'"
  using assms
proof (induction lt xs arbitrary: h rule: msort.induct)
  case (1 lt xs)
  obtain h1 where h1: "pass_loop lt h l (at_elem l xs) 0 = Some (snd (pass lt xs), h1)" "is_list h1 l (fst (pass lt xs))"
    "frame (set (nodes l xs)) h h1" using pass_loop_ok[of h l "[]" xs lt 0] 1(3) by auto
  show ?case
  proof (cases "snd (pass lt xs) > 1")
    case True
    obtain h2 where h2: "sort_loop lt h1 l = Some h2" "is_list h2 l (msort lt (fst (pass lt xs)))"
      "frame (set (nodes l (fst (pass lt xs)))) h1 h2" using 1(1)[OF _ 1(2) h1(2)] True 1(2) by blast
    have "set (nodes l (fst (pass lt xs))) = set (nodes l xs)"
      using pass_mset[of lt xs] by (metis mset_eq_setD nodes_def list.simps(15) set_append)
    then have "frame (set (nodes l xs)) h h2" using frame_trans[OF h1(3)] h2(3) by simp
    then show ?thesis using True 1(2,3) h1(1) h2 by (subst sort_loop.simps) (simp add: is_list_begin msort.simps[of lt xs])
  next
    case False
    then show ?thesis using 1(3) h1 by (subst sort_loop.simps) (simp add: is_list_begin msort.simps[of lt xs])
  qed
qed

lemma list_sort_ok:
  assumes "weak_order lt" "is_list h l xs"
  shows "\<exists>h'. list_sort lt h l = Some h' \<and> is_list h' l (msort lt xs) \<and> frame (set (nodes l xs)) h h'"
proof -
  obtain h' where h': "sort_loop lt h l = Some h'" "is_list h' l (msort lt xs)" "frame (set (nodes l xs)) h h'"
    using sort_loop_ok[OF assms] by blast
  have "descents lt (msort lt xs) = 0" using msort_sorts[OF assms(1)] descents_in_order by blast
  then show ?thesis using h' is_sorted_ok[of h' l "[]" "msort lt xs" "[]" lt] is_list_nz(1)[OF assms(2)]
    by (simp add: list_sort_def assert_def is_list_begin is_list_end)
qed

end
