(* ===== verification/PListSpec.thy ===== *)
theory PListSpec
  imports PListSort
begin

text \<open>
  What the clients of \<^verbatim>\<open>lib/kernel/list.c\<close> rely on. The locale \<open>elem_list\<close> is the contract of a list of
  elements that are owned by one list at a time; the operations on the heap interpret it. Programs
  of list operations, and the use of ordered insertion as a priority queue, are treated once in the
  locale.
\<close>

section \<open>The contract\<close>

datatype list_op = Push_Front nat | Push_Back nat | Pop_Front | Pop_Back | Remove nat | Insert_Ordered nat

text \<open>The operations on sequences: the new sequence and the elements that come out.\<close>

fun seq_op :: "(nat \<Rightarrow> nat \<Rightarrow> bool) \<Rightarrow> nat list \<Rightarrow> list_op \<Rightarrow> nat list \<times> nat list" where
  "seq_op lt xs (Push_Front e) = (e # xs, [])"
| "seq_op lt xs (Push_Back e) = (xs @ [e], [])"
| "seq_op lt xs Pop_Front = (tl xs, [hd xs])"
| "seq_op lt xs Pop_Back = (butlast xs, [last xs])"
| "seq_op lt xs (Remove e) = (remove1 e xs, [])"
| "seq_op lt xs (Insert_Ordered e) = (takeWhile (\<lambda>x. \<not> lt e x) xs @ e # dropWhile (\<lambda>x. \<not> lt e x) xs, [])"

text \<open>An element is inserted only while it is in no list, and removed only while it is in the list.\<close>

fun op_ok :: "(nat \<Rightarrow> bool) \<Rightarrow> nat list \<Rightarrow> list_op \<Rightarrow> bool" where
  "op_ok own xs (Push_Front e) \<longleftrightarrow> own e \<and> e \<notin> set xs"
| "op_ok own xs (Push_Back e) \<longleftrightarrow> own e \<and> e \<notin> set xs"
| "op_ok own xs Pop_Front \<longleftrightarrow> xs \<noteq> []"
| "op_ok own xs Pop_Back \<longleftrightarrow> xs \<noteq> []"
| "op_ok own xs (Remove e) \<longleftrightarrow> e \<in> set xs"
| "op_ok own xs (Insert_Ordered e) \<longleftrightarrow> own e \<and> e \<notin> set xs"

fun seq_run :: "(nat \<Rightarrow> nat \<Rightarrow> bool) \<Rightarrow> nat list \<Rightarrow> list_op list \<Rightarrow> nat list \<times> nat list" where
  "seq_run lt xs [] = (xs, [])"
| "seq_run lt xs (c # cs) =
     (let (ys, out) = seq_op lt xs c; (zs, out') = seq_run lt ys cs in (zs, out @ out'))"

fun run_ok :: "(nat \<Rightarrow> nat \<Rightarrow> bool) \<Rightarrow> (nat \<Rightarrow> bool) \<Rightarrow> nat list \<Rightarrow> list_op list \<Rightarrow> bool" where
  "run_ok lt own xs [] \<longleftrightarrow> True"
| "run_ok lt own xs (c # cs) \<longleftrightarrow> op_ok own xs c \<and> run_ok lt own (fst (seq_op lt xs c)) cs"

text \<open>The same program on an implementation.\<close>

fun exec_run :: "('s \<Rightarrow> list_op \<Rightarrow> (nat list \<times> 's) option) \<Rightarrow> 's \<Rightarrow> list_op list \<Rightarrow> (nat list \<times> 's) option" where
  "exec_run f s [] = Some ([], s)"
| "exec_run f s (c # cs) = do { (out, s1) \<leftarrow> f s c; (out', s2) \<leftarrow> exec_run f s1 cs; Some (out @ out', s2) }"

lemma ordered_split:
  assumes "weak_order lt" "in_order lt xs"
  obtains as bs where "xs = as @ bs" "takeWhile (\<lambda>x. \<not> lt e x) xs = as" "dropWhile (\<lambda>x. \<not> lt e x) xs = bs"
    "\<forall>x \<in> set as. \<not> lt e x" "\<forall>y \<in> set bs. lt e y"
proof -
  obtain as bs where ab: "takeWhile (\<lambda>x. \<not> lt e x) xs = as" "dropWhile (\<lambda>x. \<not> lt e x) xs = bs" "xs = as @ bs"
    by (metis takeWhile_dropWhile_id)
  have "\<forall>x \<in> set as. \<not> lt e x" using ab(1) set_takeWhileD[of _ "\<lambda>x. \<not> lt e x" xs] by blast
  moreover have "lt e y" if y: "y \<in> set bs" for y
  proof -
    obtain b cs where b: "bs = b # cs" using y by (cases bs) auto
    then have "lt e b" using hd_dropWhile[of "\<lambda>x. \<not> lt e x" xs] ab(2) by simp
    moreover have "y = b \<or> \<not> lt y b" using assms(2) ab(3) y b by (auto simp: in_order_def sorted_wrt_append)
    ultimately show ?thesis using assms(1) unfolding weak_order_def by blast
  qed
  ultimately show thesis using that ab by blast
qed

locale elem_list =
  fixes rep :: "'s \<Rightarrow> nat list \<Rightarrow> bool"
    and own :: "'s \<Rightarrow> nat \<Rightarrow> bool"
    and lt :: "nat \<Rightarrow> nat \<Rightarrow> bool"
    and exec :: "'s \<Rightarrow> list_op \<Rightarrow> (nat list \<times> 's) option"
  assumes exec_ok: "rep s xs \<Longrightarrow> op_ok (own s) xs c \<Longrightarrow>
      \<exists>s'. exec s c = Some (snd (seq_op lt xs c), s') \<and> rep s' (fst (seq_op lt xs c)) \<and> own s' = own s"
    and rep_distinct: "rep s xs \<Longrightarrow> distinct xs"
begin

lemma run_refines:
  assumes "rep s xs" "run_ok lt (own s) xs cs"
  shows "\<exists>s'. exec_run exec s cs = Some (snd (seq_run lt xs cs), s') \<and> rep s' (fst (seq_run lt xs cs))"
  using assms
proof (induction cs arbitrary: s xs)
  case (Cons c cs)
  obtain s1 where s1: "exec s c = Some (snd (seq_op lt xs c), s1)" "rep s1 (fst (seq_op lt xs c))" "own s1 = own s"
    using exec_ok[OF Cons.prems(1), of c] Cons.prems(2) by auto
  obtain s2 where "exec_run exec s1 cs = Some (snd (seq_run lt (fst (seq_op lt xs c)) cs), s2)"
    "rep s2 (fst (seq_run lt (fst (seq_op lt xs c)) cs))"
    using Cons.IH[OF s1(2)] Cons.prems(2) s1(3) by auto
  then show ?case using s1(1) by (simp add: case_prod_beta Let_def)
qed simp

text \<open>A queue in which elements are inserted in order hands them out sorted, and elements that tie in
  the order of their insertion.\<close>

lemma in_order_insert:
  assumes "weak_order lt" "in_order lt xs"
  shows "in_order lt (fst (seq_op lt xs (Insert_Ordered e)))"
proof -
  obtain as bs where ab: "xs = as @ bs" "takeWhile (\<lambda>x. \<not> lt e x) xs = as" "dropWhile (\<lambda>x. \<not> lt e x) xs = bs"
    "\<forall>x \<in> set as. \<not> lt e x" "\<forall>y \<in> set bs. lt e y" using ordered_split[OF assms] by blast
  have "\<forall>y \<in> set bs. \<not> lt y e" using ab(5) assms(1) unfolding weak_order_def by blast
  then have "in_order lt (as @ e # bs)" using assms(2) ab(1,4) by (auto simp: in_order_def sorted_wrt_append)
  then show ?thesis using ab(2,3) by simp
qed

lemma inserts_in_order:
  assumes "weak_order lt" "in_order lt xs" "rep s xs" "distinct es" "set es \<inter> set xs = {}" "\<forall>e \<in> set es. own s e"
  shows "\<exists>s' ys. exec_run exec s (map Insert_Ordered es) = Some ([], s') \<and> rep s' ys \<and> in_order lt ys \<and>
    mset ys = mset xs + mset es \<and> (\<forall>x. filter (tied lt x) ys = filter (tied lt x) xs @ filter (tied lt x) es)"
  using assms(2-6)
proof (induction es arbitrary: s xs)
  case (Cons e es)
  obtain as bs where ab: "xs = as @ bs" "takeWhile (\<lambda>x. \<not> lt e x) xs = as" "dropWhile (\<lambda>x. \<not> lt e x) xs = bs"
    "\<forall>x \<in> set as. \<not> lt e x" "\<forall>y \<in> set bs. lt e y" using ordered_split[OF assms(1) Cons.prems(1)] by blast
  let ?ys = "as @ e # bs"
  obtain s1 where s1: "exec s (Insert_Ordered e) = Some ([], s1)" "rep s1 ?ys" "own s1 = own s"
    using exec_ok[OF Cons.prems(2), of "Insert_Ordered e"] Cons.prems(4,5) ab(2,3) by auto
  have o: "in_order lt ?ys" using in_order_insert[OF assms(1) Cons.prems(1), of e] ab(2,3) by simp
  obtain s' ys where ys: "exec_run exec s1 (map Insert_Ordered es) = Some ([], s')" "rep s' ys" "in_order lt ys"
    "mset ys = mset ?ys + mset es" "\<forall>x. filter (tied lt x) ys = filter (tied lt x) ?ys @ filter (tied lt x) es"
    using Cons.IH[OF o s1(2)] Cons.prems(3-5) s1(3) ab(1) by auto
  have "filter (tied lt x) bs = []" if "tied lt x e" for x
    using that ab(5) assms(1) unfolding tied_def weak_order_def filter_empty_conv by blast
  then have "filter (tied lt x) ?ys = filter (tied lt x) xs @ filter (tied lt x) [e]" for x
    using ab(1) by (cases "tied lt x e") auto
  then show ?case using s1(1) ys ab(1) by auto
qed auto

end

section \<open>The heap implements the contract\<close>

fun list_exec :: "nat \<Rightarrow> (nat \<Rightarrow> nat \<Rightarrow> bool) \<Rightarrow> lheap \<Rightarrow> list_op \<Rightarrow> (nat list \<times> lheap) option" where
  "list_exec l lt h (Push_Front e) = map_option (Pair []) (list_push_front h l e)"
| "list_exec l lt h (Push_Back e) = map_option (Pair []) (list_push_back h l e)"
| "list_exec l lt h Pop_Front = map_option (\<lambda>(x, h'). ([x], h')) (list_pop_front h l)"
| "list_exec l lt h Pop_Back = map_option (\<lambda>(x, h'). ([x], h')) (list_pop_back h l)"
| "list_exec l lt h (Remove e) = map_option (\<lambda>(_, h'). ([], h')) (list_remove h e)"
| "list_exec l lt h (Insert_Ordered e) = map_option (Pair []) (list_insert_ordered lt h l e)"

definition owned :: "nat \<Rightarrow> lheap \<Rightarrow> nat \<Rightarrow> bool" where
  "owned l h e \<longleftrightarrow> e \<noteq> 0 \<and> valid h e \<and> e \<noteq> head_of l \<and> e \<noteq> tail_of l"

interpretation pl: elem_list "\<lambda>h xs. is_list h l xs" "owned l" lt "list_exec l lt" for l lt
proof unfold_locales
  fix h xs c
  assume L: "is_list h l xs" and ok: "op_ok (owned l h) xs c"
  have fin: "\<exists>s'. list_exec l lt h c = Some (snd (seq_op lt xs c), s') \<and> is_list s' l (fst (seq_op lt xs c)) \<and> owned l s' = owned l h"
    if "list_exec l lt h c = Some (snd (seq_op lt xs c), h')" "is_list h' l (fst (seq_op lt xs c))" "frame X h h'" for h' X
  proof -
    have "owned l h' = owned l h" using that(3) by (auto simp: owned_def frame_def)
    then show ?thesis using that by blast
  qed
  have new: "e \<notin> set (nodes l xs)" "e \<noteq> 0" "valid h e" if "owned l h e" "e \<notin> set xs" for e
    using that by (auto simp: owned_def nodes_def)
  show "\<exists>s'. list_exec l lt h c = Some (snd (seq_op lt xs c), s') \<and> is_list s' l (fst (seq_op lt xs c)) \<and> owned l s' = owned l h"
  proof (cases c)
    case (Push_Front e)
    then obtain h' where "list_push_front h l e = Some h'" "is_list h' l (e # xs)" "frame (insert e (set (nodes l xs))) h h'"
      using list_push_front_ok[OF L new] ok by auto
    then show ?thesis using Push_Front fin by simp
  next
    case (Push_Back e)
    then obtain h' where "list_push_back h l e = Some h'" "is_list h' l (xs @ [e])" "frame (insert e (set (nodes l xs))) h h'"
      using list_push_back_ok[OF L new] ok by auto
    then show ?thesis using Push_Back fin by simp
  next
    case Pop_Front
    then obtain x r where xs: "xs = x # r" using ok by (cases xs) auto
    then obtain h' where "list_pop_front h l = Some (x, h')" "is_list h' l r" "frame (set (nodes l r)) h h'"
      using list_pop_front_ok[of h l x r] L by blast
    then show ?thesis using Pop_Front fin xs by simp
  next
    case Pop_Back
    then obtain x r where xs: "xs = r @ [x]" using ok by (cases xs rule: rev_cases) auto
    then obtain h' where "list_pop_back h l = Some (x, h')" "is_list h' l r" "frame (set (nodes l r)) h h'"
      using list_pop_back_ok[of h l r x] L by blast
    then show ?thesis using Pop_Back fin xs by simp
  next
    case (Remove e)
    then obtain as bs where xs: "xs = as @ e # bs" "e \<notin> set as" using ok by (metis op_ok.simps(5) split_list_first)
    then obtain h' where "list_remove h e = Some (at_elem l bs, h')" "is_list h' l (as @ bs)" "frame (set (nodes l (as @ bs))) h h'"
      using list_remove_ok[of h l as e bs] L by blast
    then show ?thesis using Remove fin xs by (simp add: remove1_append)
  next
    case (Insert_Ordered e)
    let ?ys = "takeWhile (\<lambda>x. \<not> lt e x) xs @ e # dropWhile (\<lambda>x. \<not> lt e x) xs"
    from Insert_Ordered obtain h' where "list_insert_ordered lt h l e = Some h'" "is_list h' l ?ys" "frame (insert e (set (nodes l xs))) h h'"
      using list_insert_ordered_ok[OF L new, of e lt] ok by auto
    then show ?thesis using Insert_Ordered fin by simp
  qed
next
  show "is_list s l xs \<Longrightarrow> distinct xs" for s xs by (rule is_list_nz(3))
qed

section \<open>Properties\<close>

text \<open>The heap of the examples: three elements, of which two are in the list at 8, and the comparison of
  elements by a key.\<close>

definition ex_heap :: lheap where
  "ex_heap = \<lparr>valid = (\<lambda>_. True), nexts = (\<lambda>_. 0)(8 := 40, 40 := 24, 24 := 16), prevs = (\<lambda>_. 0)(16 := 24, 24 := 40, 40 := 8)\<rparr>"

lemma ex_heap_list: "is_list ex_heap 8 [40, 24]"
  by (simp add: ex_heap_def is_list_def chain_def nodes_def head_of_def tail_of_def)

lemma weak_order_key: "weak_order (\<lambda>x y. (f x :: nat) < f y)"
  by (auto simp: weak_order_def)

text \<open>C27. Every program of list operations that inserts an element only while it is in no list, and
  removes or pops only what is there, runs on the heap without a failed assertion, hands out what
  the operations on sequences hand out, and leaves the list that they leave.\<close>

theorem list_is_deque:
  assumes "is_list h l xs" "run_ok lt (owned l h) xs cs"
  shows "\<exists>h'. exec_run (list_exec l lt) h cs = Some (snd (seq_run lt xs cs), h') \<and> is_list h' l (fst (seq_run lt xs cs))"
  using assms by (rule pl.run_refines)

theorem list_is_deque_witness:
  "\<exists>h'. exec_run (list_exec 8 (<)) ex_heap [Push_Back 32, Pop_Front, Remove 32, Push_Front 40, Pop_Back] = Some ([40, 24], h') \<and>
    is_list h' 8 [40]"
  using list_is_deque[OF ex_heap_list, of "(<)" "[Push_Back 32, Pop_Front, Remove 32, Push_Front 40, Pop_Back]"]
  by (simp add: owned_def ex_heap_def head_of_def tail_of_def)

text \<open>C17. \<^verbatim>\<open>list_sort\<close> ends, passes every assertion on the way, and leaves a list of the same elements that
  is sorted, in which elements that compare equal keep their order; it writes to no other element.\<close>

theorem list_sort_correct:
  assumes "weak_order lt" "is_list h l xs"
  shows "\<exists>h' ys. list_sort lt h l = Some h' \<and> is_list h' l ys \<and> in_order lt ys \<and> mset ys = mset xs \<and>
    (\<forall>x. filter (tied lt x) ys = filter (tied lt x) xs) \<and> frame (set (nodes l xs)) h h'"
  using list_sort_ok[OF assms] msort_sorts[OF assms(1)] by blast

theorem list_sort_correct_witness:
  "\<exists>h'. list_sort (<) ex_heap 8 = Some h' \<and> is_list h' 8 [24, 40]"
proof -
  have "weak_order ((<) :: nat \<Rightarrow> nat \<Rightarrow> bool)" using weak_order_key[of "\<lambda>x. x"] by simp
  from list_sort_correct[OF this ex_heap_list] obtain h' ys where
    h': "list_sort (<) ex_heap 8 = Some h'" "is_list h' 8 ys" "in_order (<) ys" "mset ys = mset [40, 24]" by blast
  have "sorted ys" using h'(3) by (simp add: in_order_def not_less)
  then have "ys = sort [40, 24]" using h'(4) by (metis properties_for_sort)
  then show ?thesis using h'(1,2) by auto
qed

text \<open>Elements inserted with \<^verbatim>\<open>list_insert_ordered\<close> into an ordered list leave it ordered, with all of
  them in it, and those that compare equal in the order of their arrival: the list is a stable
  priority queue.\<close>

theorem list_insert_ordered_queue:
  assumes "weak_order lt" "is_list h l xs" "in_order lt xs" "distinct es" "set es \<inter> set xs = {}" "\<forall>e \<in> set es. owned l h e"
  shows "\<exists>h' ys. exec_run (list_exec l lt) h (map Insert_Ordered es) = Some ([], h') \<and> is_list h' l ys \<and> in_order lt ys \<and>
    mset ys = mset xs + mset es \<and> (\<forall>x. filter (tied lt x) ys = filter (tied lt x) xs @ filter (tied lt x) es)"
  using pl.inserts_in_order[OF assms(1,3,2,4-6)] .

theorem list_insert_ordered_queue_witness:
  "\<exists>h' ys. exec_run (list_exec 8 (>)) ex_heap [Insert_Ordered 64, Insert_Ordered 32] = Some ([], h') \<and> is_list h' 8 ys \<and>
     in_order (>) ys \<and> mset ys = mset [40, 24, 64, 32]"
proof -
  have "weak_order ((>) :: nat \<Rightarrow> nat \<Rightarrow> bool)" by (auto simp: weak_order_def)
  from list_insert_ordered_queue[OF this ex_heap_list, of "[64, 32]"] show ?thesis
    by (simp add: in_order_def owned_def ex_heap_def head_of_def tail_of_def add_mset_commute) blast
qed

end
