(* ===== verification/Bitmap.thy ===== *)
theory Bitmap
  imports Prelude
begin

text \<open>
  The bitmaps of \<^verbatim>\<open>lib/kernel/bitmap.c\<close>: an array of 32-bit elements that simulates an array of bits.
  Indices and counts are \<^verbatim>\<open>size_t\<close>, natural numbers whose sums wrap at 4294967296. An access outside the
  array of elements and a failed assertion are \<^term>\<open>None\<close>.

  The abstraction \<open>bools b\<close> is the list of the bits, and every operation is shown to be the operation on
  that list; the scan finds the first group of equal bits. Scanning and flipping is a first-fit
  allocator of ranges, and the locale \<open>extent_alloc\<close> shows once what its clients need: the ranges
  that are handed out and not given back never overlap.
\<close>

unbundle bit_operations_syntax

section \<open>Representation\<close>

record bitmap =
  bit_cnt :: nat
  bits :: "32 word list"

definition ELEM_BITS :: nat where
  "ELEM_BITS = 32"

definition BITMAP_ERROR :: nat where
  "BITMAP_ERROR = 4294967295"

text \<open>A sum of type \<^verbatim>\<open>size_t\<close>.\<close>

definition size_add :: "nat \<Rightarrow> nat \<Rightarrow> nat" where
  "size_add m n = (m + n) mod 4294967296"

definition elem_idx :: "nat \<Rightarrow> nat" where
  "elem_idx bit_idx = bit_idx div ELEM_BITS"

definition bit_mask :: "nat \<Rightarrow> 32 word" where
  "bit_mask bit_idx = push_bit (bit_idx mod ELEM_BITS) 1"

definition elem_cnt :: "nat \<Rightarrow> nat" where
  "elem_cnt n = size_add n (ELEM_BITS - 1) div ELEM_BITS"

definition byte_cnt :: "nat \<Rightarrow> nat" where
  "byte_cnt n = 4 * elem_cnt n"

definition last_mask :: "bitmap \<Rightarrow> 32 word" where
  "last_mask b = (let last_bits = bit_cnt b mod ELEM_BITS in if last_bits \<noteq> 0 then push_bit last_bits 1 - 1 else -1)"

section \<open>Operations\<close>

definition bitmap_size :: "bitmap \<Rightarrow> nat" where
  "bitmap_size b = bit_cnt b"

definition elem :: "bitmap \<Rightarrow> nat \<Rightarrow> 32 word option" where
  "elem b i = (if i < length (bits b) then Some (bits b ! i) else None)"

definition bitmap_mark :: "bitmap \<Rightarrow> nat \<Rightarrow> bitmap option" where
  "bitmap_mark b bit_idx = do {
     let idx = elem_idx bit_idx;
     w \<leftarrow> elem b idx;
     Some (b\<lparr>bits := (bits b)[idx := w OR bit_mask bit_idx]\<rparr>)
   }"

definition bitmap_reset :: "bitmap \<Rightarrow> nat \<Rightarrow> bitmap option" where
  "bitmap_reset b bit_idx = do {
     let idx = elem_idx bit_idx;
     w \<leftarrow> elem b idx;
     Some (b\<lparr>bits := (bits b)[idx := w AND NOT (bit_mask bit_idx)]\<rparr>)
   }"

definition bitmap_flip :: "bitmap \<Rightarrow> nat \<Rightarrow> bitmap option" where
  "bitmap_flip b bit_idx = do {
     let idx = elem_idx bit_idx;
     w \<leftarrow> elem b idx;
     Some (b\<lparr>bits := (bits b)[idx := w XOR bit_mask bit_idx]\<rparr>)
   }"

definition bitmap_set :: "bitmap \<Rightarrow> nat \<Rightarrow> bool \<Rightarrow> bitmap option" where
  "bitmap_set b idx value = do {
     assert (idx < bit_cnt b);
     if value then bitmap_mark b idx else bitmap_reset b idx
   }"

definition bitmap_test :: "bitmap \<Rightarrow> nat \<Rightarrow> bool option" where
  "bitmap_test b idx = do {
     assert (idx < bit_cnt b);
     w \<leftarrow> elem b (elem_idx idx);
     Some (w AND bit_mask idx \<noteq> 0)
   }"

function set_multiple_loop :: "bitmap \<Rightarrow> nat \<Rightarrow> nat \<Rightarrow> nat \<Rightarrow> bool \<Rightarrow> bitmap option" where
  "set_multiple_loop b start cnt i value =
     (if i < cnt then do { b \<leftarrow> bitmap_set b (size_add start i) value; set_multiple_loop b start cnt (i + 1) value }
      else Some b)"
  by pat_completeness auto
termination set_multiple_loop by (relation "measure (\<lambda>(b, start, cnt, i, value). cnt - i)") auto

declare set_multiple_loop.simps [simp del]

definition bitmap_set_multiple :: "bitmap \<Rightarrow> nat \<Rightarrow> nat \<Rightarrow> bool \<Rightarrow> bitmap option" where
  "bitmap_set_multiple b start cnt value = do {
     assert (start \<le> bit_cnt b);
     assert (size_add start cnt \<le> bit_cnt b);
     set_multiple_loop b start cnt 0 value
   }"

definition bitmap_set_all :: "bitmap \<Rightarrow> bool \<Rightarrow> bitmap option" where
  "bitmap_set_all b value = bitmap_set_multiple b 0 (bitmap_size b) value"

text \<open>Creation: \<open>mem\<close> says whether an allocation succeeds, an allocation of 0 bytes is NULL, and the new
  block holds arbitrary words.\<close>

definition kmalloc :: "(nat \<Rightarrow> bool) \<Rightarrow> nat \<Rightarrow> bool" where
  "kmalloc mem n \<longleftrightarrow> n \<noteq> 0 \<and> mem n"

definition bitmap_create :: "(nat \<Rightarrow> bool) \<Rightarrow> (nat \<Rightarrow> 32 word) \<Rightarrow> nat \<Rightarrow> bitmap option option" where
  "bitmap_create mem garbage n =
     (if kmalloc mem 8
      then if kmalloc mem (byte_cnt n) \<or> n = 0
           then map_option Some (bitmap_set_all \<lparr>bit_cnt = n, bits = map garbage [0..<elem_cnt n]\<rparr> False)
           else Some None
      else Some None)"

definition bitmap_buf_size :: "nat \<Rightarrow> nat" where
  "bitmap_buf_size n = size_add 8 (byte_cnt n)"

text \<open>A bitmap in a block of memory: the words behind the header become the elements.\<close>

definition bitmap_create_in_buf :: "nat \<Rightarrow> 32 word list \<Rightarrow> nat \<Rightarrow> bitmap option" where
  "bitmap_create_in_buf n block block_size = do {
     assert (block_size \<ge> bitmap_buf_size n);
     bitmap_set_all \<lparr>bit_cnt = n, bits = drop 2 block\<rparr> False
   }"

function count_loop :: "bitmap \<Rightarrow> nat \<Rightarrow> nat \<Rightarrow> bool \<Rightarrow> nat \<Rightarrow> nat \<Rightarrow> nat option" where
  "count_loop b start cnt value i value_cnt =
     (if i < cnt then do {
        t \<leftarrow> bitmap_test b (size_add start i);
        count_loop b start cnt value (i + 1) (if t = value then value_cnt + 1 else value_cnt)
      } else Some value_cnt)"
  by pat_completeness auto
termination count_loop by (relation "measure (\<lambda>(b, start, cnt, value, i, value_cnt). cnt - i)") auto

declare count_loop.simps [simp del]

definition bitmap_count :: "bitmap \<Rightarrow> nat \<Rightarrow> nat \<Rightarrow> bool \<Rightarrow> nat option" where
  "bitmap_count b start cnt value = do {
     assert (start \<le> bit_cnt b);
     assert (size_add start cnt \<le> bit_cnt b);
     count_loop b start cnt value 0 0
   }"

function contains_loop :: "bitmap \<Rightarrow> nat \<Rightarrow> nat \<Rightarrow> bool \<Rightarrow> nat \<Rightarrow> bool option" where
  "contains_loop b start cnt value i =
     (if i < cnt then do {
        t \<leftarrow> bitmap_test b (size_add start i);
        if t = value then Some True else contains_loop b start cnt value (i + 1)
      } else Some False)"
  by pat_completeness auto
termination contains_loop by (relation "measure (\<lambda>(b, start, cnt, value, i). cnt - i)") auto

declare contains_loop.simps [simp del]

definition bitmap_contains :: "bitmap \<Rightarrow> nat \<Rightarrow> nat \<Rightarrow> bool \<Rightarrow> bool option" where
  "bitmap_contains b start cnt value = do {
     assert (start \<le> bit_cnt b);
     assert (size_add start cnt \<le> bit_cnt b);
     contains_loop b start cnt value 0
   }"

definition bitmap_any :: "bitmap \<Rightarrow> nat \<Rightarrow> nat \<Rightarrow> bool option" where
  "bitmap_any b start cnt = bitmap_contains b start cnt True"

definition bitmap_none :: "bitmap \<Rightarrow> nat \<Rightarrow> nat \<Rightarrow> bool option" where
  "bitmap_none b start cnt = map_option Not (bitmap_contains b start cnt True)"

definition bitmap_all :: "bitmap \<Rightarrow> nat \<Rightarrow> nat \<Rightarrow> bool option" where
  "bitmap_all b start cnt = map_option Not (bitmap_contains b start cnt False)"

function scan_loop :: "bitmap \<Rightarrow> nat \<Rightarrow> bool \<Rightarrow> nat \<Rightarrow> nat \<Rightarrow> nat option" where
  "scan_loop b cnt value lst i =
     (if i \<le> lst then do {
        c \<leftarrow> bitmap_contains b i cnt (\<not> value);
        if \<not> c then Some i else scan_loop b cnt value lst (i + 1)
      } else Some BITMAP_ERROR)"
  by pat_completeness auto
termination scan_loop by (relation "measure (\<lambda>(b, cnt, value, lst, i). Suc lst - i)") auto

declare scan_loop.simps [simp del]

definition bitmap_scan :: "bitmap \<Rightarrow> nat \<Rightarrow> nat \<Rightarrow> bool \<Rightarrow> nat option" where
  "bitmap_scan b start cnt value = do {
     assert (start \<le> bit_cnt b);
     if cnt \<le> bit_cnt b then scan_loop b cnt value (bit_cnt b - cnt) start else Some BITMAP_ERROR
   }"

definition bitmap_scan_and_flip :: "bitmap \<Rightarrow> nat \<Rightarrow> nat \<Rightarrow> bool \<Rightarrow> (nat \<times> bitmap) option" where
  "bitmap_scan_and_flip b start cnt value = do {
     idx \<leftarrow> bitmap_scan b start cnt value;
     if idx \<noteq> BITMAP_ERROR then do { b \<leftarrow> bitmap_set_multiple b idx cnt (\<not> value); Some (idx, b) }
     else Some (idx, b)
   }"

definition bitmap_file_size :: "bitmap \<Rightarrow> nat" where
  "bitmap_file_size b = byte_cnt (bit_cnt b)"

section \<open>The bits\<close>

definition bools :: "bitmap \<Rightarrow> bool list" where
  "bools b = map (\<lambda>i. bit (bits b ! (i div 32)) (i mod 32)) [0..<bit_cnt b]"

definition bm_ok :: "bitmap \<Rightarrow> bool" where
  "bm_ok b \<longleftrightarrow> bit_cnt b \<le> 4294967264 \<and> elem_cnt (bit_cnt b) \<le> length (bits b)"

text \<open>The list with a range of elements replaced, and the range.\<close>

definition fill :: "'a list \<Rightarrow> nat \<Rightarrow> nat \<Rightarrow> 'a \<Rightarrow> 'a list" where
  "fill xs start cnt v = take start xs @ replicate cnt v @ drop (start + cnt) xs"

definition seg :: "'a list \<Rightarrow> nat \<Rightarrow> nat \<Rightarrow> 'a list" where
  "seg xs start cnt = take cnt (drop start xs)"

lemma length_bools [simp]: "length (bools b) = bit_cnt b"
  by (simp add: bools_def)

lemma nth_bools: "i < bit_cnt b \<Longrightarrow> bools b ! i = bit (bits b ! (i div 32)) (i mod 32)"
  by (simp add: bools_def)

lemma bm_ok_elem:
  assumes "bm_ok b" "i < bit_cnt b"
  shows "elem b (i div 32) = Some (bits b ! (i div 32))" "i div 32 < length (bits b)"
proof -
  have "elem_cnt (bit_cnt b) = (bit_cnt b + 31) div 32"
    using assms(1) by (simp add: bm_ok_def elem_cnt_def size_add_def ELEM_BITS_def)
  then show "i div 32 < length (bits b)" using assms unfolding bm_ok_def by linarith
  then show "elem b (i div 32) = Some (bits b ! (i div 32))" by (simp add: elem_def)
qed

lemma size_add_small: "m + n \<le> 4294967264 \<Longrightarrow> size_add m n = m + n"
  by (simp add: size_add_def)

lemma bit_mask_bit: "j < 32 \<Longrightarrow> bit (bit_mask i) j \<longleftrightarrow> j = i mod 32"
  by (auto simp: bit_mask_def ELEM_BITS_def bit_simps)

lemma bools_update:
  assumes "bm_ok b" "i < bit_cnt b" "\<And>j. j < 32 \<Longrightarrow> bit w j \<longleftrightarrow> (if j = i mod 32 then v else bit (bits b ! (i div 32)) j)"
  shows "bools (b\<lparr>bits := (bits b)[i div 32 := w]\<rparr>) = (bools b)[i := v]" "bm_ok (b\<lparr>bits := (bits b)[i div 32 := w]\<rparr>)"
proof -
  have eq: "j = i \<longleftrightarrow> j div 32 = i div 32 \<and> j mod 32 = i mod 32" for j by (metis div_mult_mod_eq)
  have "bools (b\<lparr>bits := (bits b)[i div 32 := w]\<rparr>) ! j = (bools b)[i := v] ! j" if "j < bit_cnt b" for j
    using that assms(2,3) bm_ok_elem(2)[OF assms(1) that] eq[of j]
    by (cases "j div 32 = i div 32"; cases "j mod 32 = i mod 32") (simp_all add: nth_bools)
  then show "bools (b\<lparr>bits := (bits b)[i div 32 := w]\<rparr>) = (bools b)[i := v]" by (intro nth_equalityI) simp_all
  show "bm_ok (b\<lparr>bits := (bits b)[i div 32 := w]\<rparr>)" using assms(1) by (simp add: bm_ok_def)
qed

lemma bitmap_set_ok:
  assumes "bm_ok b" "i < bit_cnt b"
  shows "\<exists>b'. bitmap_set b i v = Some b' \<and> bm_ok b' \<and> bit_cnt b' = bit_cnt b \<and> bools b' = (bools b)[i := v] \<and> length (bits b') = length (bits b)"
proof -
  let ?w = "bits b ! (i div 32)"
  let ?u = "if v then ?w OR bit_mask i else ?w AND NOT (bit_mask i)"
  have "bit ?u j \<longleftrightarrow> (if j = i mod 32 then v else bit ?w j)" if "j < 32" for j
    using bit_mask_bit[OF that, of i] that by (auto simp: bit_simps)
  note u = bools_update[OF assms this]
  have "bitmap_set b i v = Some (b\<lparr>bits := (bits b)[i div 32 := ?u]\<rparr>)"
    using assms(2) bm_ok_elem(1)[OF assms] by (simp add: bitmap_set_def bitmap_mark_def bitmap_reset_def assert_def elem_idx_def ELEM_BITS_def Let_def)
  then show ?thesis using u by auto
qed

lemma bitmap_flip_ok:
  assumes "bm_ok b" "i < bit_cnt b"
  shows "\<exists>b'. bitmap_flip b i = Some b' \<and> bm_ok b' \<and> bit_cnt b' = bit_cnt b \<and> bools b' = (bools b)[i := \<not> bools b ! i]"
proof -
  let ?w = "bits b ! (i div 32)"
  have "bit (?w XOR bit_mask i) j \<longleftrightarrow> (if j = i mod 32 then \<not> bools b ! i else bit ?w j)" if "j < 32" for j
    using bit_mask_bit[OF that, of i] that assms(2) by (auto simp: bit_simps nth_bools)
  note u = bools_update[OF assms this]
  have "bitmap_flip b i = Some (b\<lparr>bits := (bits b)[i div 32 := ?w XOR bit_mask i]\<rparr>)"
    using bm_ok_elem(1)[OF assms] by (simp add: bitmap_flip_def elem_idx_def ELEM_BITS_def Let_def)
  then show ?thesis using u by auto
qed

lemma and_mask_bit: "(w AND bit_mask i \<noteq> 0) \<longleftrightarrow> bit (w :: 32 word) (i mod 32)"
proof -
  have "bit (w AND bit_mask i) j \<longleftrightarrow> j = i mod 32 \<and> bit w j" for j
    by (cases "j < 32") (auto simp: bit_mask_bit bit_simps dest: bit_imp_le_length)
  then show ?thesis by (metis bit_0_eq bit_eqI bot_apply bot_bool_def)
qed

lemma bitmap_test_ok: "bm_ok b \<Longrightarrow> i < bit_cnt b \<Longrightarrow> bitmap_test b i = Some (bools b ! i)"
  using bm_ok_elem(1)[of b i] by (simp add: bitmap_test_def assert_def elem_idx_def ELEM_BITS_def and_mask_bit nth_bools)

section \<open>Ranges of bits\<close>

lemma length_fill [simp]: "start + cnt \<le> length xs \<Longrightarrow> length (fill xs start cnt v) = length xs"
  by (simp add: fill_def)

lemma nth_fill: "start + cnt \<le> length xs \<Longrightarrow> i < length xs \<Longrightarrow>
    fill xs start cnt v ! i = (if start \<le> i \<and> i < start + cnt then v else xs ! i)"
  by (auto simp: fill_def nth_append min_def)

lemma fill_Suc: "start + Suc cnt \<le> length xs \<Longrightarrow> fill (xs[start := v]) (Suc start) cnt v = fill xs start (Suc cnt) v"
  by (rule nth_equalityI) (auto simp: nth_fill nth_list_update)

lemma seg_Suc: "start + Suc cnt \<le> length xs \<Longrightarrow> seg xs start (Suc cnt) = xs ! start # seg xs (Suc start) cnt"
  by (simp add: seg_def take_Suc_conv_app_nth Cons_nth_drop_Suc flip: take_Suc_Cons)

lemma seg_0 [simp]: "seg xs start 0 = []"
  by (simp add: seg_def)

lemma set_multiple_loop_ok:
  assumes "bm_ok b" "start + cnt \<le> bit_cnt b" "i \<le> cnt"
  shows "\<exists>b'. set_multiple_loop b start cnt i v = Some b' \<and> bm_ok b' \<and> bit_cnt b' = bit_cnt b \<and>
    bools b' = fill (bools b) (start + i) (cnt - i) v \<and> length (bits b') = length (bits b)"
  using assms
proof (induction b start cnt i v rule: set_multiple_loop.induct)
  case (1 b start cnt i v)
  show ?case
  proof (cases "i < cnt")
    case True
    have a: "size_add start i = start + i" "start + i < bit_cnt b"
      using 1(2,3) True by (auto simp: bm_ok_def intro!: size_add_small)
    then obtain b1 where b1: "bitmap_set b (start + i) v = Some b1" "bm_ok b1" "bit_cnt b1 = bit_cnt b"
      "bools b1 = (bools b)[start + i := v]" "length (bits b1) = length (bits b)" using bitmap_set_ok[OF 1(2)] by blast
    have "fill ((bools b)[start + i := v]) (Suc (start + i)) (cnt - Suc i) v = fill (bools b) (start + i) (cnt - i) v"
      using fill_Suc[of "start + i" "cnt - Suc i" "bools b" v] True 1(3) by (simp add: Suc_diff_Suc)
    then show ?thesis using 1(1)[OF True, of b1] b1 a True 1(3) by (subst set_multiple_loop.simps) auto
  next
    case False
    then show ?thesis using 1 by (subst set_multiple_loop.simps) (auto simp: fill_def)
  qed
qed

lemma bitmap_set_multiple_ok:
  assumes "bm_ok b" "start + cnt \<le> bit_cnt b"
  shows "\<exists>b'. bitmap_set_multiple b start cnt v = Some b' \<and> bm_ok b' \<and> bit_cnt b' = bit_cnt b \<and>
    bools b' = fill (bools b) start cnt v \<and> length (bits b') = length (bits b)"
  using set_multiple_loop_ok[OF assms, of 0] assms size_add_small[of start cnt]
  by (simp add: bitmap_set_multiple_def assert_def bm_ok_def)

lemma contains_loop_ok:
  assumes "bm_ok b" "start + cnt \<le> bit_cnt b" "i \<le> cnt"
  shows "contains_loop b start cnt v i = Some (v \<in> set (seg (bools b) (start + i) (cnt - i)))"
  using assms
proof (induction b start cnt v i rule: contains_loop.induct)
  case (1 b start cnt v i)
  show ?case
  proof (cases "i < cnt")
    case True
    have a: "bitmap_test b (size_add start i) = Some (bools b ! (start + i))"
      using 1(2,3) True bitmap_test_ok[OF 1(2), of "start + i"] size_add_small[of start i] by (simp add: bm_ok_def)
    have "seg (bools b) (start + i) (cnt - i) = bools b ! (start + i) # seg (bools b) (Suc (start + i)) (cnt - Suc i)"
      using seg_Suc[of "start + i" "cnt - Suc i" "bools b"] True 1(3) by (simp add: Suc_diff_Suc)
    then show ?thesis using 1(1)[OF True, of "bools b ! (start + i)"] a True 1(2,3) by (subst contains_loop.simps) auto
  next
    case False
    then show ?thesis using 1(4) by (subst contains_loop.simps) simp
  qed
qed

lemma bitmap_contains_ok:
  assumes "bm_ok b" "start + cnt \<le> bit_cnt b"
  shows "bitmap_contains b start cnt v = Some (v \<in> set (seg (bools b) start cnt))"
  using contains_loop_ok[OF assms, of 0] assms size_add_small[of start cnt]
  by (simp add: bitmap_contains_def assert_def bm_ok_def)

lemma count_loop_ok:
  assumes "bm_ok b" "start + cnt \<le> bit_cnt b" "i \<le> cnt"
  shows "count_loop b start cnt v i n = Some (n + length (filter (\<lambda>t. t = v) (seg (bools b) (start + i) (cnt - i))))"
  using assms
proof (induction b start cnt v i n rule: count_loop.induct)
  case (1 b start cnt v i n)
  show ?case
  proof (cases "i < cnt")
    case True
    have a: "bitmap_test b (size_add start i) = Some (bools b ! (start + i))"
      using 1(2,3) True bitmap_test_ok[OF 1(2), of "start + i"] size_add_small[of start i] by (simp add: bm_ok_def)
    have "seg (bools b) (start + i) (cnt - i) = bools b ! (start + i) # seg (bools b) (Suc (start + i)) (cnt - Suc i)"
      using seg_Suc[of "start + i" "cnt - Suc i" "bools b"] True 1(3) by (simp add: Suc_diff_Suc)
    then show ?thesis using 1(1)[OF True, of "bools b ! (start + i)"] a True 1(2,3) by (subst count_loop.simps) auto
  next
    case False
    then show ?thesis using 1(4) by (subst count_loop.simps) simp
  qed
qed

lemma bitmap_count_ok:
  assumes "bm_ok b" "start + cnt \<le> bit_cnt b"
  shows "bitmap_count b start cnt v = Some (length (filter (\<lambda>t. t = v) (seg (bools b) start cnt)))"
  using count_loop_ok[OF assms, of 0] assms size_add_small[of start cnt]
  by (simp add: bitmap_count_def assert_def bm_ok_def)

lemma bitmap_create_ok:
  assumes "n \<le> 4294967264" "mem 8" "n = 0 \<or> mem (byte_cnt n)"
  shows "\<exists>b. bitmap_create mem g n = Some (Some b) \<and> bm_ok b \<and> bools b = replicate n False \<and> length (bits b) = elem_cnt n"
proof -
  let ?b = "\<lparr>bit_cnt = n, bits = map g [0..<elem_cnt n]\<rparr>"
  have ok: "bm_ok ?b" using assms(1) by (simp add: bm_ok_def)
  obtain b where b: "bitmap_set_multiple ?b 0 n False = Some b" "bm_ok b" "bools b = fill (bools ?b) 0 n False" "length (bits b) = elem_cnt n"
    using bitmap_set_multiple_ok[OF ok, of 0 n False] by auto
  have "n = 0 \<or> byte_cnt n \<noteq> 0" using assms(1) by (cases n) (simp_all add: byte_cnt_def elem_cnt_def size_add_def ELEM_BITS_def)
  then show ?thesis using b assms by (auto simp: bitmap_create_def kmalloc_def bitmap_set_all_def bitmap_size_def fill_def)
qed

section \<open>First fit\<close>

text \<open>The first group of equal bits, as a search over lists.\<close>

definition first_fit :: "bool list \<Rightarrow> nat \<Rightarrow> nat \<Rightarrow> bool \<Rightarrow> nat option" where
  "first_fit xs start cnt v = List.find (\<lambda>i. seg xs i cnt = replicate cnt v) [start..<length xs + 1 - cnt]"

lemma seg_const: "start + cnt \<le> length xs \<Longrightarrow> (\<not> v) \<notin> set (seg xs start cnt) \<longleftrightarrow> seg xs start cnt = replicate cnt v"
proof -
  assume "start + cnt \<le> length xs"
  then have "length (seg xs start cnt) = cnt" by (simp add: seg_def)
  moreover have "(\<not> v) \<notin> set ys \<longleftrightarrow> ys = replicate (length ys) v" for ys by (induction ys) auto
  ultimately show ?thesis by metis
qed

lemma scan_loop_ok:
  assumes "bm_ok b" "cnt \<le> bit_cnt b"
  shows "scan_loop b cnt v (bit_cnt b - cnt) i = Some (case first_fit (bools b) i cnt v of None \<Rightarrow> BITMAP_ERROR | Some i \<Rightarrow> i)"
proof (induction "bit_cnt b + 1 - cnt - i" arbitrary: i)
  case 0
  then have "\<not> i \<le> bit_cnt b - cnt" using assms(2) by simp
  then show ?case using 0 by (subst scan_loop.simps) (simp add: first_fit_def)
next
  case (Suc n)
  then have i: "i \<le> bit_cnt b - cnt" "i + cnt \<le> bit_cnt b" "[i..<bit_cnt b + 1 - cnt] = i # [Suc i..<bit_cnt b + 1 - cnt]"
    using assms(2) by (simp_all add: upt_rec)
  have "scan_loop b cnt v (bit_cnt b - cnt) (Suc i) = Some (case first_fit (bools b) (Suc i) cnt v of None \<Rightarrow> BITMAP_ERROR | Some i \<Rightarrow> i)"
    using Suc by simp
  then show ?case using i bitmap_contains_ok[OF assms(1) i(2), of "\<not> v"] seg_const[of i cnt "bools b" v]
    by (subst scan_loop.simps) (auto simp: first_fit_def)
qed

lemma bitmap_scan_ok:
  assumes "bm_ok b" "start \<le> bit_cnt b"
  shows "bitmap_scan b start cnt v = Some (case first_fit (bools b) start cnt v of None \<Rightarrow> BITMAP_ERROR | Some i \<Rightarrow> i)"
  using assms scan_loop_ok[OF assms(1)] by (auto simp: bitmap_scan_def assert_def first_fit_def)

lemma first_fit_Some:
  assumes "first_fit xs start cnt v = Some i"
  shows "start \<le> i" "i + cnt \<le> length xs" "seg xs i cnt = replicate cnt v"
proof -
  have "i \<in> set [start..<length xs + 1 - cnt] \<and> seg xs i cnt = replicate cnt v"
    using assms unfolding first_fit_def by (rule find_Some_first)
  then show "start \<le> i" "i + cnt \<le> length xs" "seg xs i cnt = replicate cnt v" by auto
qed

lemma bitmap_scan_and_flip_ok:
  assumes "bm_ok b" "start \<le> bit_cnt b"
  shows "\<exists>b'. bitmap_scan_and_flip b start cnt v = Some (case first_fit (bools b) start cnt v of None \<Rightarrow> BITMAP_ERROR | Some i \<Rightarrow> i, b') \<and>
    bm_ok b' \<and> bit_cnt b' = bit_cnt b \<and> length (bits b') = length (bits b) \<and>
    bools b' = (case first_fit (bools b) start cnt v of None \<Rightarrow> bools b | Some i \<Rightarrow> fill (bools b) i cnt (\<not> v))"
proof (cases "first_fit (bools b) start cnt v")
  case None
  then show ?thesis using bitmap_scan_ok[OF assms, of cnt v] assms(1) by (simp add: bitmap_scan_and_flip_def)
next
  case (Some i)
  have i: "i + cnt \<le> bit_cnt b" using first_fit_Some(2)[OF Some] by simp
  then have "i \<noteq> BITMAP_ERROR" using assms(1) by (simp add: bm_ok_def BITMAP_ERROR_def)
  then show ?thesis using bitmap_scan_ok[OF assms, of cnt v] bitmap_set_multiple_ok[OF assms(1) i, of "\<not> v"] Some
    by (auto simp: bitmap_scan_and_flip_def)
qed

section \<open>Allocation of ranges\<close>

definition extent :: "nat \<times> nat \<Rightarrow> nat set" where
  "extent e = {fst e..<fst e + snd e}"

definition extents :: "(nat \<times> nat) list \<Rightarrow> nat set" where
  "extents es = \<Union> (extent ` set es)"

definition apart :: "(nat \<times> nat) list \<Rightarrow> bool" where
  "apart es \<longleftrightarrow> sorted_wrt (\<lambda>e f. extent e \<inter> extent f = {}) es"

datatype extent_op = Alloc nat | Free nat

text \<open>A client that keeps the ranges it holds in a list, and gives back the one at a position.\<close>

fun extent_run :: "('s \<Rightarrow> nat \<Rightarrow> (nat option \<times> 's) option) \<Rightarrow> ('s \<Rightarrow> nat \<Rightarrow> nat \<Rightarrow> 's option) \<Rightarrow> extent_op list \<Rightarrow>
    (nat \<times> nat) list \<Rightarrow> 's \<Rightarrow> ((nat \<times> nat) list \<times> 's) option" where
  "extent_run alloc release [] live s = Some (live, s)"
| "extent_run alloc release (Alloc n # cs) live s = do {
     (r, s) \<leftarrow> alloc s n;
     extent_run alloc release cs (case r of None \<Rightarrow> live | Some i \<Rightarrow> live @ [(i, n)]) s
   }"
| "extent_run alloc release (Free k # cs) live s =
     (if k < length live then do {
        s \<leftarrow> release s (fst (live ! k)) (snd (live ! k));
        extent_run alloc release cs (take k live @ drop (Suc k) live) s
      } else extent_run alloc release cs live s)"

lemma extents_simps [simp]: "extents [] = {}" "extents (e # es) = extent e \<union> extents es" "extents (as @ bs) = extents as \<union> extents bs"
  by (auto simp: extents_def)

lemma apart_Nil [simp]: "apart []"
  by (simp add: apart_def)

lemma apart_append:
  "apart (as @ bs) \<longleftrightarrow> apart as \<and> apart bs \<and> extents as \<inter> extents bs = {}"
  by (auto simp: apart_def sorted_wrt_append extents_def)

lemma apart_Cons: "apart (e # es) \<longleftrightarrow> extent e \<inter> extents es = {} \<and> apart es"
  by (auto simp: apart_def extents_def)

locale extent_alloc =
  fixes ok :: "'s \<Rightarrow> bool"
    and used :: "'s \<Rightarrow> nat set"
    and alloc :: "'s \<Rightarrow> nat \<Rightarrow> (nat option \<times> 's) option"
    and release :: "'s \<Rightarrow> nat \<Rightarrow> nat \<Rightarrow> 's option"
  assumes alloc_ok: "ok s \<Longrightarrow> \<exists>r s'. alloc s n = Some (r, s') \<and> ok s' \<and>
      (case r of None \<Rightarrow> used s' = used s | Some i \<Rightarrow> extent (i, n) \<inter> used s = {} \<and> used s' = used s \<union> extent (i, n))"
    and release_ok: "ok s \<Longrightarrow> 0 < n \<Longrightarrow> extent (i, n) \<subseteq> used s \<Longrightarrow>
      \<exists>s'. release s i n = Some s' \<and> ok s' \<and> used s' = used s - extent (i, n)"
begin

lemma run_apart:
  assumes "ok s" "apart live" "extents live \<inter> base = {}" "used s = base \<union> extents live" "\<forall>e \<in> set live. 0 < snd e"
    "\<forall>n. Alloc n \<in> set cs \<longrightarrow> 0 < n"
  shows "\<exists>live' s'. extent_run alloc release cs live s = Some (live', s') \<and> ok s' \<and> apart live' \<and>
    extents live' \<inter> base = {} \<and> used s' = base \<union> extents live'"
  using assms
proof (induction cs arbitrary: live s)
  case (Cons c cs)
  show ?case
  proof (cases c)
    case (Alloc n)
    obtain r s1 where a: "alloc s n = Some (r, s1)" "ok s1"
      "case r of None \<Rightarrow> used s1 = used s | Some i \<Rightarrow> extent (i, n) \<inter> used s = {} \<and> used s1 = used s \<union> extent (i, n)"
      using alloc_ok[OF Cons.prems(1), of n] by blast
    let ?live = "case r of None \<Rightarrow> live | Some i \<Rightarrow> live @ [(i, n)]"
    have "apart ?live \<and> extents ?live \<inter> base = {} \<and> used s1 = base \<union> extents ?live \<and> (\<forall>e \<in> set ?live. 0 < snd e)"
      using a(3) Cons.prems(2-6) Alloc by (cases r) (auto simp: apart_append apart_Cons)
    then show ?thesis using Cons.IH[OF a(2), of ?live] Cons.prems(6) a(1) Alloc by simp
  next
    case (Free k)
    show ?thesis
    proof (cases "k < length live")
      case True
      obtain as e bs where l: "live = as @ e # bs" "length as = k" using id_take_nth_drop[OF True] True by (metis length_take min.absorb4)
      have "extent (fst e, snd e) \<subseteq> used s" using Cons.prems(4) l(1) by auto
      then obtain s1 where s1: "release s (fst e) (snd e) = Some s1" "ok s1" "used s1 = used s - extent e"
        using release_ok[OF Cons.prems(1), of "snd e" "fst e"] Cons.prems(5) l(1) by auto
      have "apart (as @ bs) \<and> extents (as @ bs) \<inter> base = {} \<and> used s1 = base \<union> extents (as @ bs)"
        using s1(3) Cons.prems(2-4) l(1) by (auto simp: apart_append apart_Cons)
      then show ?thesis using Cons.IH[OF s1(2), of "as @ bs"] Cons.prems(5,6) Free l s1(1) True by (simp add: nth_append)
    next
      case False
      then show ?thesis using Cons Free by simp
    qed
  qed
qed simp

end

text \<open>The bitmap as such an allocator, the way the free map and the page allocator use it.\<close>

definition bitmap_alloc :: "bitmap \<Rightarrow> nat \<Rightarrow> (nat option \<times> bitmap) option" where
  "bitmap_alloc b n = map_option (\<lambda>(i, b). (if i = BITMAP_ERROR then None else Some i, b)) (bitmap_scan_and_flip b 0 n False)"

definition bitmap_release :: "bitmap \<Rightarrow> nat \<Rightarrow> nat \<Rightarrow> bitmap option" where
  "bitmap_release b i n = do { a \<leftarrow> bitmap_all b i n; assert a; bitmap_set_multiple b i n False }"

definition used_bits :: "bitmap \<Rightarrow> nat set" where
  "used_bits b = {i. i < bit_cnt b \<and> bools b ! i}"

lemma nth_seg: "i + n \<le> length xs \<Longrightarrow> j < n \<Longrightarrow> seg xs i n ! j = xs ! (i + j)"
  by (simp add: seg_def)

lemma seg_eq_replicate: "i + n \<le> length xs \<Longrightarrow> seg xs i n = replicate n v \<longleftrightarrow> (\<forall>j \<in> extent (i, n). xs ! j = v)"
proof -
  assume a: "i + n \<le> length xs"
  then have "seg xs i n = replicate n v \<longleftrightarrow> (\<forall>j < n. xs ! (i + j) = v)"
    by (auto simp: list_eq_iff_nth_eq seg_def)
  moreover have "(\<forall>j < n. xs ! (i + j) = v) \<longleftrightarrow> (\<forall>j \<in> extent (i, n). xs ! j = v)"
    by (auto simp: extent_def) (metis add_diff_inverse_nat nat_add_left_cancel_less not_less)
  ultimately show ?thesis by simp
qed

lemma used_fill:
  assumes "i + n \<le> bit_cnt b" "bools b' = fill (bools b) i n v" "bit_cnt b' = bit_cnt b"
  shows "used_bits b' = (if v then used_bits b \<union> extent (i, n) else used_bits b - extent (i, n))"
  using assms by (auto simp: used_bits_def extent_def nth_fill split: if_splits)

lemma first_fit_used: "first_fit (bools b) 0 n False = None \<longleftrightarrow> \<not> (\<exists>i. i + n \<le> bit_cnt b \<and> extent (i, n) \<inter> used_bits b = {})"
proof -
  have "seg (bools b) i n = replicate n False \<longleftrightarrow> extent (i, n) \<inter> used_bits b = {}" if "i + n \<le> bit_cnt b" for i
    using seg_eq_replicate[of i n "bools b" False] that by (auto simp: used_bits_def extent_def)
  then show ?thesis by (auto simp: first_fit_def find_None_iff)
qed

lemma bitmap_alloc_ok:
  assumes "bm_ok b"
  shows "\<exists>r b'. bitmap_alloc b n = Some (r, b') \<and> bm_ok b' \<and> bit_cnt b' = bit_cnt b \<and> length (bits b') = length (bits b) \<and>
    r = first_fit (bools b) 0 n False \<and>
    (case r of None \<Rightarrow> bools b' = bools b \<and> used_bits b' = used_bits b
     | Some i \<Rightarrow> i + n \<le> bit_cnt b \<and> extent (i, n) \<inter> used_bits b = {} \<and> used_bits b' = used_bits b \<union> extent (i, n))"
proof -
  let ?r = "first_fit (bools b) 0 n False"
  obtain b' where b': "bitmap_scan_and_flip b 0 n False = Some (case ?r of None \<Rightarrow> BITMAP_ERROR | Some i \<Rightarrow> i, b')"
    "bm_ok b'" "bit_cnt b' = bit_cnt b" "length (bits b') = length (bits b)"
    "bools b' = (case ?r of None \<Rightarrow> bools b | Some i \<Rightarrow> fill (bools b) i n True)"
    using bitmap_scan_and_flip_ok[OF assms, of 0 n False] unfolding not_False_eq_True by blast
  show ?thesis
  proof (cases ?r)
    case None
    then show ?thesis using b' by (simp add: bitmap_alloc_def used_bits_def)
  next
    case (Some i)
    note f = first_fit_Some[OF Some]
    have "i \<noteq> BITMAP_ERROR" using f(2) assms by (simp add: bm_ok_def BITMAP_ERROR_def)
    moreover have "extent (i, n) \<inter> used_bits b = {}" using f(3) seg_eq_replicate[OF f(2)] by (auto simp: used_bits_def)
    ultimately show ?thesis using b' Some f(2) used_fill[of i n b b' True] by (simp add: bitmap_alloc_def)
  qed
qed

lemma bitmap_release_ok:
  assumes "bm_ok b" "i + n \<le> bit_cnt b" "extent (i, n) \<subseteq> used_bits b"
  shows "\<exists>b'. bitmap_release b i n = Some b' \<and> bm_ok b' \<and> bit_cnt b' = bit_cnt b \<and> length (bits b') = length (bits b) \<and>
    used_bits b' = used_bits b - extent (i, n)"
proof -
  obtain b' where b': "bitmap_set_multiple b i n False = Some b'" "bm_ok b'" "bit_cnt b' = bit_cnt b"
    "bools b' = fill (bools b) i n False" "length (bits b') = length (bits b)" using bitmap_set_multiple_ok[OF assms(1,2)] by blast
  have "bitmap_all b i n = Some True" using bitmap_contains_ok[OF assms(1,2), of False] assms(2,3) seg_const[of i n "bools b" True]
      seg_eq_replicate[of i n "bools b" True] by (auto simp: bitmap_all_def used_bits_def)
  then show ?thesis using b' used_fill[OF assms(2) b'(4,3)] by (simp add: bitmap_release_def assert_def)
qed

interpretation bma: extent_alloc bm_ok used_bits bitmap_alloc bitmap_release
proof unfold_locales
  fix b :: bitmap and n
  assume "bm_ok b"
  from bitmap_alloc_ok[OF this, of n] show "\<exists>r b'. bitmap_alloc b n = Some (r, b') \<and> bm_ok b' \<and>
      (case r of None \<Rightarrow> used_bits b' = used_bits b | Some i \<Rightarrow> extent (i, n) \<inter> used_bits b = {} \<and> used_bits b' = used_bits b \<union> extent (i, n))"
    by (force split: option.splits)
next
  fix b n i
  assume a: "bm_ok b" "0 < n" "extent (i, n) \<subseteq> used_bits b"
  have "i + n - 1 \<in> extent (i, n)" using a(2) by (simp add: extent_def)
  then have "i + n - 1 \<in> used_bits b" using a(3) by blast
  then have "i + n \<le> bit_cnt b" using a(2) unfolding used_bits_def by auto
  then show "\<exists>b'. bitmap_release b i n = Some b' \<and> bm_ok b' \<and> used_bits b' = used_bits b - extent (i, n)"
    using bitmap_release_ok[OF a(1) _ a(3)] by blast
qed

section \<open>Properties\<close>

text \<open>\<^verbatim>\<open>bitmap_scan_and_flip\<close> returns the smallest index at or after the start of a group of
  bits with the given value and flips exactly that group; when there is none it returns
  \<^verbatim>\<open>BITMAP_ERROR\<close> and changes nothing. No assertion fails and no access leaves the array.\<close>

theorem bitmap_scan_and_flip_first_fit:
  assumes "bm_ok b" "start \<le> bit_cnt b"
  shows "\<exists>r b'. bitmap_scan_and_flip b start cnt v = Some (r, b') \<and> bm_ok b' \<and>
    (if r = BITMAP_ERROR then bools b' = bools b \<and> (\<forall>i. start \<le> i \<and> i + cnt \<le> bit_cnt b \<longrightarrow> (\<exists>j \<in> {i..<i + cnt}. bools b ! j \<noteq> v))
     else start \<le> r \<and> r + cnt \<le> bit_cnt b \<and> (\<forall>j \<in> {r..<r + cnt}. bools b ! j = v) \<and>
       (\<forall>i. start \<le> i \<and> i < r \<longrightarrow> (\<exists>j \<in> {i..<i + cnt}. bools b ! j \<noteq> v)) \<and> bools b' = fill (bools b) r cnt (\<not> v))"
proof -
  let ?f = "first_fit (bools b) start cnt v"
  have "\<exists>j \<in> {i..<i + cnt}. bools b ! j \<noteq> v"
    if "?f = None \<or> (\<exists>r. ?f = Some r \<and> i < r)" "start \<le> i" "i + cnt \<le> bit_cnt b" for i
  proof -
    have "seg (bools b) i cnt \<noteq> replicate cnt v"
    proof (cases ?f)
      case None
      then show ?thesis using that(2,3) by (auto simp: first_fit_def find_None_iff)
    next
      case (Some r)
      have "\<exists>k < length [start..<bit_cnt b + 1 - cnt]. r = [start..<bit_cnt b + 1 - cnt] ! k \<and>
          (\<forall>j < k. seg (bools b) ([start..<bit_cnt b + 1 - cnt] ! j) cnt \<noteq> replicate cnt v)"
        using Some unfolding first_fit_def find_Some_iff by auto
      then obtain k where k: "r = start + k" "\<forall>j < k. seg (bools b) (start + j) cnt \<noteq> replicate cnt v" by auto
      have "i - start < k" using that(1,2) Some k(1) by auto
      then show ?thesis using k(2) that(2) by (metis le_add_diff_inverse)
    qed
    then show ?thesis using seg_eq_replicate[of i cnt "bools b" v] that(3) by (auto simp: extent_def)
  qed
  note none = this
  obtain b' where b': "bitmap_scan_and_flip b start cnt v = Some (case ?f of None \<Rightarrow> BITMAP_ERROR | Some i \<Rightarrow> i, b')" "bm_ok b'"
    "bools b' = (case ?f of None \<Rightarrow> bools b | Some i \<Rightarrow> fill (bools b) i cnt (\<not> v))"
    using bitmap_scan_and_flip_ok[OF assms, of cnt v] by blast
  show ?thesis
  proof (cases ?f)
    case None
    then show ?thesis using b' none by simp
  next
    case (Some r)
    note f = first_fit_Some[OF Some]
    have "r \<noteq> BITMAP_ERROR" using f(2) assms(1) by (simp add: bm_ok_def BITMAP_ERROR_def)
    moreover have "\<forall>j \<in> {r..<r + cnt}. bools b ! j = v" using f seg_eq_replicate[OF f(2)] by (simp add: extent_def)
    ultimately show ?thesis using b' Some f none by simp
  qed
qed

theorem bitmap_scan_and_flip_first_fit_witness:
  "\<exists>b'. bitmap_scan_and_flip \<lparr>bit_cnt = 40, bits = [5, 0]\<rparr> 0 2 False = Some (3, b') \<and> bm_ok b'"
proof -
  let ?b = "\<lparr>bit_cnt = 40, bits = [5, 0]\<rparr>"
  have ok: "bm_ok ?b" by (simp add: bm_ok_def elem_cnt_def size_add_def ELEM_BITS_def)
  have bit: "bools ?b ! 0" "\<not> bools ?b ! 1" "bools ?b ! 2" "\<not> bools ?b ! 3" "\<not> bools ?b ! 4"
    by (simp_all add: nth_bools)
  from bitmap_scan_and_flip_first_fit[OF ok, of 0 2 False] obtain r b' where
    r: "bitmap_scan_and_flip ?b 0 2 False = Some (r, b')" "bm_ok b'"
      "if r = BITMAP_ERROR then \<forall>i. 0 \<le> i \<and> i + 2 \<le> 40 \<longrightarrow> (\<exists>j \<in> {i..<i + 2}. bools ?b ! j \<noteq> False)
       else (\<forall>j \<in> {r..<r + 2}. bools ?b ! j = False) \<and> (\<forall>i. 0 \<le> i \<and> i < r \<longrightarrow> (\<exists>j \<in> {i..<i + 2}. bools ?b ! j \<noteq> False))"
    by (auto split: if_splits)
  have none: "\<not> (\<exists>j \<in> {3..<3 + 2}. bools ?b ! j \<noteq> False)" using bit(4,5) by (auto simp: less_Suc_eq numeral_eq_Suc)
  have e: "r \<noteq> BITMAP_ERROR"
  proof
    assume e: "r = BITMAP_ERROR"
    show False using r(3)[unfolded if_P[OF e], rule_format, of 3] none by simp
  qed
  note r3 = r(3)[unfolded if_not_P[OF e]]
  have "\<not> 3 < r" using r3 none by blast
  then have "r \<le> 3" "\<forall>j \<in> {r..<r + 2}. \<not> bools ?b ! j" using r3 by auto
  moreover have "r \<noteq> 0" "r \<noteq> 1" "r \<noteq> 2" using calculation(2) bit(1,3) by auto
  ultimately have "r = 3" by linarith
  then show ?thesis using r(1,2) by blast
qed

text \<open>C28. However a client allocates and releases ranges of bits, no call fails an assertion, the ranges
  it holds never overlap one another or the bits that were set before, and the set bits are exactly
  those.\<close>

theorem bitmap_extents_disjoint:
  assumes "bm_ok b" "\<forall>n. Alloc n \<in> set cs \<longrightarrow> 0 < n"
  shows "\<exists>live b'. extent_run bitmap_alloc bitmap_release cs [] b = Some (live, b') \<and> bm_ok b' \<and> apart live \<and>
    extents live \<inter> used_bits b = {} \<and> used_bits b' = used_bits b \<union> extents live"
  using bma.run_apart[OF assms(1), of "[]" "used_bits b" cs] assms(2) by (simp add: apart_def)

theorem bitmap_extents_disjoint_witness:
  "\<exists>live b'. extent_run bitmap_alloc bitmap_release [Alloc 2, Alloc 3, Free 0, Alloc 1] [] \<lparr>bit_cnt = 8, bits = [1]\<rparr> = Some (live, b') \<and>
    apart live \<and> extents live \<inter> used_bits \<lparr>bit_cnt = 8, bits = [1]\<rparr> = {}"
  using bitmap_extents_disjoint[of "\<lparr>bit_cnt = 8, bits = [1]\<rparr>" "[Alloc 2, Alloc 3, Free 0, Alloc 1]"]
  by (auto simp: bm_ok_def elem_cnt_def size_add_def ELEM_BITS_def)

end
