(* ===== verification/FsInode.thy ===== *)
theory FsInode
  imports Bitmap "HOL-Library.Signed_Division"
begin

text \<open>
  The block device and the data of inodes: \<^verbatim>\<open>devices/block.c\<close> as far as the file system uses it, and the
  part of \<^verbatim>\<open>filesys/inode.c\<close> that reads and writes bytes. A disk is an array of sectors of 512 bytes; an
  offset is an \<^verbatim>\<open>off_t\<close>, a signed 32-bit integer, and an overflow of it is \<^term>\<open>None\<close>, like an access
  outside a buffer and a kernel panic.

  \<open>contents d st len\<close> is the sequence of bytes that an inode with the data sectors from \<open>st\<close> holds.
  Reading returns a part of it, and writing replaces a part of it and changes no other sector.
\<close>

section \<open>The block device\<close>

datatype block_type = BLOCK_KERNEL | BLOCK_FILESYS | BLOCK_SCRATCH | BLOCK_SWAP | BLOCK_RAW | BLOCK_FOREIGN

record block =
  btype :: block_type
  bsize :: nat
  data :: "nat \<Rightarrow> char list"

definition check_sector :: "block \<Rightarrow> nat \<Rightarrow> unit option" where
  "check_sector block sector = (if sector \<ge> bsize block then None else Some ())"

definition block_read :: "block \<Rightarrow> nat \<Rightarrow> char list option" where
  "block_read block sector = do { check_sector block sector; Some (data block sector) }"

definition block_write :: "block \<Rightarrow> nat \<Rightarrow> char list \<Rightarrow> block option" where
  "block_write block sector buffer = do {
     check_sector block sector;
     assert (btype block \<noteq> BLOCK_FOREIGN);
     Some (block\<lparr>data := (data block)(sector := buffer)\<rparr>)
   }"

definition block_size :: "block \<Rightarrow> nat" where
  "block_size block = bsize block"

section \<open>Inodes\<close>

definition INODE_MAGIC :: nat where
  "INODE_MAGIC = 0x494e4f44"

record inode_disk =
  istart :: nat
  ilength :: int
  imagic :: nat
  iunused :: "char list"

text \<open>The 512 bytes of an inode on disk.\<close>

definition inode_image :: "inode_disk \<Rightarrow> char list" where
  "inode_image i = le32 (word_of_nat (istart i)) @ le32 (word_of_int (ilength i)) @ le32 (word_of_nat (imagic i)) @ iunused i"

definition inode_of_image :: "char list \<Rightarrow> inode_disk" where
  "inode_of_image bs = \<lparr>istart = unat (un_le32 bs), ilength = sint (un_le32 (drop 4 bs)), imagic = unat (un_le32 (drop 8 bs)),
     iunused = drop 12 bs\<rparr>"

record inode =
  isector :: nat
  open_cnt :: int
  removed :: bool
  deny_write_cnt :: int
  idata :: inode_disk

definition int32 :: "int \<Rightarrow> int option" where
  "int32 x = (if -2147483648 \<le> x \<and> x \<le> 2147483647 then Some x else None)"

definition bytes_to_sectors :: "int \<Rightarrow> nat option" where
  "bytes_to_sectors sz = map_option (\<lambda>x. nat (((x - 1) sdiv 512) mod 4294967296)) (int32 (sz + 512))"

definition byte_to_sector :: "inode \<Rightarrow> int \<Rightarrow> nat" where
  "byte_to_sector inode pos =
     (if pos < ilength (idata inode) then nat ((int (istart (idata inode)) + pos sdiv 512) mod 4294967296) else 4294967295)"

definition inode_length :: "inode \<Rightarrow> int" where
  "inode_length inode = ilength (idata inode)"

text \<open>A part of a buffer, and a buffer with a part replaced, as \<^verbatim>\<open>memcpy\<close> reads and writes them.\<close>

definition buf_get :: "char list \<Rightarrow> int \<Rightarrow> int \<Rightarrow> char list option" where
  "buf_get bs ofs n = (if 0 \<le> ofs \<and> 0 \<le> n \<and> ofs + n \<le> int (length bs) then Some (seg bs (nat ofs) (nat n)) else None)"

definition put :: "'a list \<Rightarrow> nat \<Rightarrow> 'a list \<Rightarrow> 'a list" where
  "put xs i ys = take i xs @ ys @ drop (i + length ys) xs"

definition buf_put :: "char list \<Rightarrow> int \<Rightarrow> char list \<Rightarrow> char list option" where
  "buf_put bs ofs cs = (if 0 \<le> ofs \<and> ofs + int (length cs) \<le> int (length bs) then Some (put bs (nat ofs) cs) else None)"

text \<open>The loops; \<open>bounce\<close> says whether the bounce buffer has been allocated.\<close>

function read_loop :: "(nat \<Rightarrow> bool) \<Rightarrow> block \<Rightarrow> inode \<Rightarrow> bool \<Rightarrow> int \<Rightarrow> int \<Rightarrow> char list \<Rightarrow> char list option" where
  "read_loop mem d inode bounce sz offset acc =
     (if sz > 0 then do {
        let sector_idx = byte_to_sector inode offset;
        let sector_ofs = offset smod 512;
        inode_left \<leftarrow> int32 (inode_length inode - offset);
        let sector_left = 512 - sector_ofs;
        let min_left = (if inode_left < sector_left then inode_left else sector_left);
        let chunk_size = (if sz < min_left then sz else min_left);
        if chunk_size \<le> 0 then Some acc
        else if sector_ofs = 0 \<and> chunk_size = 512 then do {
          bs \<leftarrow> block_read d sector_idx;
          read_loop mem d inode bounce (sz - chunk_size) (offset + chunk_size) (acc @ bs)
        }
        else if bounce \<or> kmalloc mem 512 then do {
          bs \<leftarrow> block_read d sector_idx;
          cs \<leftarrow> buf_get bs sector_ofs chunk_size;
          read_loop mem d inode True (sz - chunk_size) (offset + chunk_size) (acc @ cs)
        }
        else Some acc
      } else Some acc)"
  by pat_completeness auto
termination read_loop by (relation "measure (\<lambda>(mem, d, inode, bounce, sz, offset, acc). nat sz)") auto

declare read_loop.simps [simp del]

definition inode_read :: "(nat \<Rightarrow> bool) \<Rightarrow> block \<Rightarrow> inode \<Rightarrow> int \<Rightarrow> int \<Rightarrow> char list option" where
  "inode_read mem d inode sz offset = read_loop mem d inode False sz offset []"

function write_loop :: "(nat \<Rightarrow> bool) \<Rightarrow> inode \<Rightarrow> char list \<Rightarrow> block \<Rightarrow> bool \<Rightarrow> int \<Rightarrow> int \<Rightarrow> int \<Rightarrow> (int \<times> block) option" where
  "write_loop mem inode buffer d bounce sz offset bytes_written =
     (if sz > 0 then do {
        let sector_idx = byte_to_sector inode offset;
        let sector_ofs = offset smod 512;
        inode_left \<leftarrow> int32 (inode_length inode - offset);
        let sector_left = 512 - sector_ofs;
        let min_left = (if inode_left < sector_left then inode_left else sector_left);
        let chunk_size = (if sz < min_left then sz else min_left);
        if chunk_size \<le> 0 then Some (bytes_written, d)
        else if sector_ofs = 0 \<and> chunk_size = 512 then do {
          cs \<leftarrow> buf_get buffer bytes_written 512;
          d \<leftarrow> block_write d sector_idx cs;
          write_loop mem inode buffer d bounce (sz - chunk_size) (offset + chunk_size) (bytes_written + chunk_size)
        }
        else if bounce \<or> kmalloc mem 512 then do {
          bs \<leftarrow> (if sector_ofs > 0 \<or> chunk_size < sector_left then block_read d sector_idx else Some (replicate 512 NUL));
          cs \<leftarrow> buf_get buffer bytes_written chunk_size;
          bs \<leftarrow> buf_put bs sector_ofs cs;
          d \<leftarrow> block_write d sector_idx bs;
          write_loop mem inode buffer d True (sz - chunk_size) (offset + chunk_size) (bytes_written + chunk_size)
        }
        else Some (bytes_written, d)
      } else Some (bytes_written, d))"
  by pat_completeness auto
termination write_loop by (relation "measure (\<lambda>(mem, inode, buffer, d, bounce, sz, offset, w). nat sz)") auto

declare write_loop.simps [simp del]

definition inode_write :: "(nat \<Rightarrow> bool) \<Rightarrow> block \<Rightarrow> inode \<Rightarrow> char list \<Rightarrow> int \<Rightarrow> int \<Rightarrow> (int \<times> block) option" where
  "inode_write mem d inode buffer sz offset =
     (if deny_write_cnt inode \<noteq> 0 then Some (0, d) else write_loop mem inode buffer d False sz offset 0)"

section \<open>The bytes of an inode\<close>

definition contents :: "block \<Rightarrow> nat \<Rightarrow> nat \<Rightarrow> char list" where
  "contents d st len = map (\<lambda>i. data d (st + i div 512) ! (i mod 512)) [0..<len]"

text \<open>The number of sectors for \<open>n\<close> bytes, a disk whose sectors have their size, and an inode whose data
  lie on the disk.\<close>

definition sectors_for :: "nat \<Rightarrow> nat" where
  "sectors_for n = (n + 511) div 512"

definition disk_ok :: "block \<Rightarrow> bool" where
  "disk_ok d \<longleftrightarrow> btype d \<noteq> BLOCK_FOREIGN \<and> bsize d \<le> 4294967264 \<and> (\<forall>s < bsize d. length (data d s) = 512)"

definition on_disk :: "block \<Rightarrow> inode_disk \<Rightarrow> bool" where
  "on_disk d i \<longleftrightarrow> 0 \<le> ilength i \<and> ilength i \<le> 2147483647 \<and> istart i + sectors_for (nat (ilength i)) \<le> bsize d"

abbreviation bytes_of :: "block \<Rightarrow> inode_disk \<Rightarrow> char list" where
  "bytes_of d i \<equiv> contents d (istart i) (nat (ilength i))"

lemma length_contents [simp]: "length (contents d st len) = len"
  by (simp add: contents_def)

lemma nth_contents: "i < len \<Longrightarrow> contents d st len ! i = data d (st + i div 512) ! (i mod 512)"
  by (simp add: contents_def)

lemma length_put [simp]: "i + length ys \<le> length xs \<Longrightarrow> length (put xs i ys) = length xs"
  by (simp add: put_def)

lemma nth_put: "i + length ys \<le> length xs \<Longrightarrow> j < length xs \<Longrightarrow>
    put xs i ys ! j = (if i \<le> j \<and> j < i + length ys then ys ! (j - i) else xs ! j)"
  by (auto simp: put_def nth_append min_def)

lemma put_Nil [simp]: "put xs i [] = xs"
  by (simp add: put_def)

lemma put_put: "i + length ys + length zs \<le> length xs \<Longrightarrow> put (put xs i ys) (i + length ys) zs = put xs i (ys @ zs)"
  by (rule nth_equalityI) (auto simp: nth_put nth_append)

lemma seg_append: "i + m \<le> length xs \<Longrightarrow> seg xs i m @ seg xs (i + m) n = seg xs i (m + n)"
  by (simp add: seg_def take_add drop_drop add.commute)

lemma length_seg [simp]: "i + n \<le> length xs \<Longrightarrow> length (seg xs i n) = n"
  by (simp add: seg_def)

lemma mod_512_add: "ofs mod 512 + k \<le> 512 \<Longrightarrow> j < k \<Longrightarrow> (ofs + j) div 512 = ofs div 512 \<and> (ofs + j) mod 512 = ofs mod 512 + j"
  for ofs :: nat
proof -
  assume a: "ofs mod 512 + k \<le> 512" "j < k"
  have "(512 * q + r) div 512 = q \<and> (512 * q + r) mod 512 = r" if "r < 512" for q r :: nat using that by simp
  from this[of "ofs mod 512 + j" "ofs div 512"] show ?thesis using a by (simp add: add.assoc[symmetric])
qed

lemma seg_contents:
  assumes "ofs mod 512 + k \<le> 512" "ofs + k \<le> len" "length (data d (st + ofs div 512)) = 512"
  shows "seg (contents d st len) ofs k = seg (data d (st + ofs div 512)) (ofs mod 512) k"
proof (rule nth_equalityI)
  show "length (seg (contents d st len) ofs k) = length (seg (data d (st + ofs div 512)) (ofs mod 512) k)"
    using assms by simp
  fix j assume "j < length (seg (contents d st len) ofs k)"
  then have j: "j < k" using assms by simp
  then show "seg (contents d st len) ofs k ! j = seg (data d (st + ofs div 512)) (ofs mod 512) k ! j"
    using assms mod_512_add[OF assms(1) j] by (simp add: nth_seg nth_contents)
qed

lemma contents_cong:
  assumes "\<And>s. s \<in> extent (st, sectors_for len) \<Longrightarrow> data d' s = data d s"
  shows "contents d' st len = contents d st len"
proof (rule nth_equalityI)
  fix i assume "i < length (contents d' st len)"
  then have i: "i < len" by simp
  have "i div 512 < sectors_for len" using i unfolding sectors_for_def by linarith
  then have "st + i div 512 \<in> extent (st, sectors_for len)" by (simp add: extent_def)
  then show "contents d' st len ! i = contents d st len ! i" using i assms by (simp add: nth_contents)
qed simp

lemma contents_write:
  assumes "ofs mod 512 + length cs \<le> 512" "ofs + length cs \<le> len" "length (data d (st + ofs div 512)) = 512"
  shows "contents (d\<lparr>data := (data d)(st + ofs div 512 := put (data d (st + ofs div 512)) (ofs mod 512) cs)\<rparr>) st len =
    put (contents d st len) ofs cs"
proof (rule nth_equalityI)
  fix i assume "i < length (contents (d\<lparr>data := (data d)(st + ofs div 512 := put (data d (st + ofs div 512)) (ofs mod 512) cs)\<rparr>) st len)"
  then have i: "i < len" by simp
  have "i = 512 * (i div 512) + i mod 512" "ofs = 512 * (ofs div 512) + ofs mod 512" by simp_all
  then have iff: "ofs \<le> i \<and> i < ofs + length cs \<longleftrightarrow> ofs mod 512 \<le> i mod 512 \<and> i mod 512 < ofs mod 512 + length cs"
    "i - ofs = i mod 512 - ofs mod 512" if "i div 512 = ofs div 512" using that by linarith+
  have no: "\<not> (ofs \<le> i \<and> i < ofs + length cs)" if "i div 512 \<noteq> ofs div 512"
    using mod_512_add[OF assms(1), of "i - ofs"] that by force
  show "contents (d\<lparr>data := (data d)(st + ofs div 512 := put (data d (st + ofs div 512)) (ofs mod 512) cs)\<rparr>) st len ! i =
      put (contents d st len) ofs cs ! i"
  proof (cases "i div 512 = ofs div 512")
    case True
    then show ?thesis using i assms iff[OF True] by (simp add: nth_contents nth_put)
  next
    case False
    then show ?thesis using i assms no[OF False] by (auto simp: nth_contents nth_put)
  qed
qed (simp add: assms)

section \<open>Reading and writing\<close>

text \<open>The size of the chunk that one iteration transfers.\<close>

definition chunk :: "nat \<Rightarrow> nat \<Rightarrow> nat \<Rightarrow> nat" where
  "chunk len n off = min n (min (len - off) (512 - off mod 512))"

lemma chunk_bounds:
  "chunk len n off \<le> n" "off \<le> len \<Longrightarrow> off + chunk len n off \<le> len" "off mod 512 + chunk len n off \<le> 512"
  "0 < n \<Longrightarrow> off < len \<Longrightarrow> 0 < chunk len n off"
  by (auto simp: chunk_def)

lemma signed_512 [simp]: "int off smod 512 = int (off mod 512)" "int off sdiv 512 = int (off div 512)"
  by (cases "off = 0"; simp add: signed_modulo_int_def signed_divide_int_def zdiv_int zmod_int minus_mult_div_eq_mod)+

lemma sector_of:
  assumes "disk_ok d" "on_disk d (idata i)" "off < nat (ilength (idata i))"
  shows "byte_to_sector i (int off) = istart (idata i) + off div 512" "istart (idata i) + off div 512 < bsize d"
    "off div 512 < sectors_for (nat (ilength (idata i)))"
proof -
  show 3: "off div 512 < sectors_for (nat (ilength (idata i)))" using assms(3) unfolding sectors_for_def by linarith
  then show 2: "istart (idata i) + off div 512 < bsize d" using assms(2) unfolding on_disk_def by linarith
  have "(int (istart (idata i)) + int (off div 512)) mod 4294967296 = int (istart (idata i)) + int (off div 512)"
    using 2 assms(1) by (simp add: disk_ok_def)
  then show "byte_to_sector i (int off) = istart (idata i) + off div 512"
    using assms(3) by (auto simp: byte_to_sector_def)
qed

text \<open>One iteration of each loop, with the chunk size computed.\<close>

lemma chunk_int:
  assumes "on_disk d (idata i)" "off < nat (ilength (idata i))" "0 < n"
  shows "int (chunk (nat (ilength (idata i))) n off) =
    (if int n < (if inode_length i - int off < 512 - int (off mod 512) then inode_length i - int off else 512 - int (off mod 512))
      then int n else if inode_length i - int off < 512 - int (off mod 512) then inode_length i - int off else 512 - int (off mod 512))"
    "int32 (inode_length i - int off) = Some (inode_length i - int off)"
proof -
  obtain len where len: "ilength (idata i) = int len" "off < len" using assms(1,2) by (metis nat_0_le on_disk_def)
  have "off mod 512 < 512" by simp
  then show "int (chunk (nat (ilength (idata i))) n off) =
    (if int n < (if inode_length i - int off < 512 - int (off mod 512) then inode_length i - int off else 512 - int (off mod 512))
      then int n else if inode_length i - int off < 512 - int (off mod 512) then inode_length i - int off else 512 - int (off mod 512))"
    using len unfolding inode_length_def chunk_def min_def len(1) nat_int by auto
  show "int32 (inode_length i - int off) = Some (inode_length i - int off)"
    using assms(1,2) by (auto simp: on_disk_def inode_length_def int32_def)
qed

lemma read_unfold:
  assumes "0 < sz" "k = (if sz < (if l < 512 - q then l else 512 - q) then sz else if l < 512 - q then l else 512 - q)"
    "int32 l = Some l" "l = inode_length i - offset" "offset smod 512 = q" "0 < k"
  shows "read_loop mem d i b sz offset acc =
    (if q = 0 \<and> k = 512 then do { bs \<leftarrow> block_read d (byte_to_sector i offset); read_loop mem d i b (sz - k) (offset + k) (acc @ bs) }
     else if b \<or> kmalloc mem 512 then do {
       bs \<leftarrow> block_read d (byte_to_sector i offset); cs \<leftarrow> buf_get bs q k; read_loop mem d i True (sz - k) (offset + k) (acc @ cs) }
     else Some acc)"
  using assms(1,6) unfolding read_loop.simps[of mem d i b sz offset acc] Let_def assms(4)[symmetric] assms(5) assms(3) assms(2)[symmetric] bind.bind_lunit
  by simp

lemma write_unfold:
  assumes "0 < sz" "k = (if sz < (if l < 512 - q then l else 512 - q) then sz else if l < 512 - q then l else 512 - q)"
    "int32 l = Some l" "l = inode_length i - offset" "offset smod 512 = q" "0 < k"
  shows "write_loop mem i buf d b sz offset w =
    (if q = 0 \<and> k = 512 then do {
       cs \<leftarrow> buf_get buf w 512; d \<leftarrow> block_write d (byte_to_sector i offset) cs; write_loop mem i buf d b (sz - k) (offset + k) (w + k) }
     else if b \<or> kmalloc mem 512 then do {
       bs \<leftarrow> (if q > 0 \<or> k < 512 - q then block_read d (byte_to_sector i offset) else Some (replicate 512 NUL));
       cs \<leftarrow> buf_get buf w k; bs \<leftarrow> buf_put bs q cs; d \<leftarrow> block_write d (byte_to_sector i offset) bs;
       write_loop mem i buf d True (sz - k) (offset + k) (w + k) }
     else Some (w, d))"
  using assms(1,6) unfolding write_loop.simps[of mem i buf d b sz offset w] Let_def assms(4)[symmetric] assms(5) assms(3) assms(2)[symmetric] bind.bind_lunit
  by simp

lemma read_step:
  assumes "disk_ok d" "on_disk d (idata i)" "off < nat (ilength (idata i))" "0 < n" "mem 512" "k = chunk (nat (ilength (idata i))) n off"
  shows "\<exists>b'. read_loop mem d i b (int n) (int off) acc = read_loop mem d i b' (int (n - k)) (int (off + k)) (acc @ seg (bytes_of d (idata i)) off k)"
proof -
  let ?len = "nat (ilength (idata i))" and ?s = "istart (idata i) + off div 512"
  have k: "k \<le> n" "off + k \<le> ?len" "off mod 512 + k \<le> 512" "0 < k" using chunk_bounds[where len = ?len and n = n and off = off] assms(3,4,6) by simp_all
  have l: "length (data d ?s) = 512" using sector_of(2)[OF assms(1-3)] assms(1) by (simp add: disk_ok_def)
  have sg: "seg (bytes_of d (idata i)) off k = seg (data d ?s) (off mod 512) k" using seg_contents[OF k(3,2) l] .
  have rd: "block_read d (byte_to_sector i (int off)) = Some (data d ?s)"
    using sector_of[OF assms(1-3)] by (simp add: block_read_def check_sector_def)
  have full: "seg (data d ?s) 0 512 = data d ?s" using l by (simp add: seg_def)
  have nn: "int n - int k = int (n - k)" "int off + int k = int (off + k)" using k by simp_all
  have pos: "0 < int n" "0 < int k" using assms(4) k by simp_all
  note u = read_unfold[OF pos(1) chunk_int(1)[OF assms(2-4), folded assms(6)] chunk_int(2)[OF assms(2-4)] refl signed_512(1) pos(2)]
  show ?thesis
  proof (cases "off mod 512 = 0 \<and> k = 512")
    case True
    then have "read_loop mem d i b (int n) (int off) acc = read_loop mem d i b (int (n - k)) (int (off + k)) (acc @ data d ?s)"
      unfolding u nn using True by (simp add: rd)
    then show ?thesis using True sg full by metis
  next
    case False
    have "buf_get (data d ?s) (int (off mod 512)) (int k) = Some (seg (data d ?s) (off mod 512) k)"
      using k(3) l by (simp add: buf_get_def)
    then have "read_loop mem d i b (int n) (int off) acc = read_loop mem d i True (int (n - k)) (int (off + k)) (acc @ seg (data d ?s) (off mod 512) k)"
      unfolding u nn using False assms(5) by (auto simp: rd kmalloc_def)
    then show ?thesis using sg by metis
  qed
qed

lemma read_done: "n = 0 \<or> nat (ilength (idata i)) \<le> off \<and> off < 2147483648 \<Longrightarrow> on_disk d (idata i) \<Longrightarrow>
    read_loop mem d i b (int n) (int off) acc = Some acc"
  by (subst read_loop.simps) (auto simp: inode_length_def int32_def on_disk_def Let_def)

lemma read_loop_ok:
  assumes "disk_ok d" "on_disk d (idata i)" "mem 512" "off < 2147483648"
  shows "read_loop mem d i b (int n) (int off) acc = Some (acc @ seg (bytes_of d (idata i)) off n)"
  using assms(4)
proof (induction n arbitrary: off b acc rule: less_induct)
  case (less n)
  let ?len = "nat (ilength (idata i))" and ?c = "bytes_of d (idata i)"
  show ?case
  proof (cases "0 < n \<and> off < ?len")
    case False
    then have "seg ?c off n = []" by (auto simp: seg_def)
    then show ?thesis using read_done[of n i off d mem b acc] False less.prems assms(2) by auto
  next
    case True
    let ?k = "chunk ?len n off"
    have k: "?k \<le> n" "off + ?k \<le> ?len" "0 < ?k" using chunk_bounds(1,2,4)[where len = ?len and n = n and off = off] True by simp_all
    obtain b' where "read_loop mem d i b (int n) (int off) acc = read_loop mem d i b' (int (n - ?k)) (int (off + ?k)) (acc @ seg ?c off ?k)"
      using read_step[where mem = mem, OF assms(1,2) _ _ assms(3) refl] True by blast
    also have "\<dots> = Some ((acc @ seg ?c off ?k) @ seg ?c (off + ?k) (n - ?k))"
      using k assms(2) by (intro less.IH) (auto simp: on_disk_def)
    also have "(acc @ seg ?c off ?k) @ seg ?c (off + ?k) (n - ?k) = acc @ seg ?c off n"
      using k by (simp add: seg_append)
    finally show ?thesis .
  qed
qed

lemma inode_read_ok:
  assumes "disk_ok d" "on_disk d (idata i)" "mem 512" "0 \<le> off" "off < 2147483648"
  shows "inode_read mem d i n off = Some (seg (bytes_of d (idata i)) (nat off) (nat n))"
proof (cases "0 \<le> n")
  case True
  then show ?thesis using read_loop_ok[where mem = mem, OF assms(1-3), of "nat off" False "nat n" "[]"] assms(4,5) by (simp add: inode_read_def)
next
  case False
  then show ?thesis unfolding inode_read_def by (subst read_loop.simps) simp
qed

text \<open>What a write leaves: the disk is well formed, of the same size, and differs only in the sectors of
  the inode.\<close>

definition only :: "nat set \<Rightarrow> block \<Rightarrow> block \<Rightarrow> bool" where
  "only X d d' \<longleftrightarrow> disk_ok d' \<and> bsize d' = bsize d \<and> (\<forall>s. s \<notin> X \<longrightarrow> data d' s = data d s)"

abbreviation data_extent :: "inode_disk \<Rightarrow> nat set" where
  "data_extent i \<equiv> extent (istart i, sectors_for (nat (ilength i)))"

lemma only_refl: "disk_ok d \<Longrightarrow> only X d d"
  by (simp add: only_def)

lemma only_trans: "only X d d1 \<Longrightarrow> only Y d1 d2 \<Longrightarrow> only (X \<union> Y) d d2"
  by (simp add: only_def)

lemma only_mono: "only X d d' \<Longrightarrow> X \<subseteq> Y \<Longrightarrow> only Y d d'"
  by (auto simp: only_def)

lemma only_bytes: "only X d d' \<Longrightarrow> X \<inter> data_extent i = {} \<Longrightarrow> bytes_of d' i = bytes_of d i"
  by (rule contents_cong) (auto simp: only_def)

lemma only_on_disk: "only X d d' \<Longrightarrow> on_disk d' i = on_disk d i"
  by (simp add: only_def on_disk_def)

lemma write_step:
  assumes "disk_ok d" "on_disk d (idata i)" "off < nat (ilength (idata i))" "0 < n" "mem 512" "k = chunk (nat (ilength (idata i))) n off"
    "w + n \<le> length buf"
  shows "\<exists>b' d'. write_loop mem i buf d b (int n) (int off) (int w) = write_loop mem i buf d' b' (int (n - k)) (int (off + k)) (int (w + k)) \<and>
    bytes_of d' (idata i) = put (bytes_of d (idata i)) off (seg buf w k) \<and> only (data_extent (idata i)) d d'"
proof -
  let ?len = "nat (ilength (idata i))" and ?s = "istart (idata i) + off div 512"
  have k: "k \<le> n" "off + k \<le> ?len" "off mod 512 + k \<le> 512" "0 < k"
    using chunk_bounds[where len = ?len and n = n and off = off] assms(3,4,6) by simp_all
  have l: "length (data d ?s) = 512" using sector_of(2)[OF assms(1-3)] assms(1) by (simp add: disk_ok_def)
  let ?bs = "put (data d ?s) (off mod 512) (seg buf w k)"
  let ?d = "d\<lparr>data := (data d)(?s := ?bs)\<rparr>"
  have sl: "length (seg buf w k) = k" using k assms(7) by simp
  have l': "length ?bs = 512" using l sl k(3) by simp
  have c: "bytes_of ?d (idata i) = put (bytes_of d (idata i)) off (seg buf w k)"
    using contents_write[of off "seg buf w k" ?len d "istart (idata i)"] sl k l by simp
  have o: "only (data_extent (idata i)) d ?d"
    using assms(1) l' sector_of(3)[OF assms(1-3)] by (auto simp: only_def disk_ok_def extent_def)
  have wr: "block_write d (byte_to_sector i (int off)) ?bs = Some ?d" and rd: "block_read d (byte_to_sector i (int off)) = Some (data d ?s)"
    using sector_of[OF assms(1-3)] assms(1) by (simp_all add: block_write_def block_read_def check_sector_def assert_def disk_ok_def)
  have g: "buf_get buf (int w) (int k) = Some (seg buf w k)" using k assms(7) by (simp add: buf_get_def)
  have nn: "int n - int k = int (n - k)" "int off + int k = int (off + k)" "int w + int k = int (w + k)" using k by simp_all
  have pos: "0 < int n" "0 < int k" using assms(4) k by simp_all
  note u = write_unfold[OF pos(1) chunk_int(1)[OF assms(2-4), folded assms(6)] chunk_int(2)[OF assms(2-4)] refl signed_512(1) pos(2)]
  have "\<exists>b'. write_loop mem i buf d b (int n) (int off) (int w) = write_loop mem i buf ?d b' (int (n - k)) (int (off + k)) (int (w + k))"
  proof (cases "off mod 512 = 0 \<and> k = 512")
    case True
    then have bs: "?bs = seg buf w 512" using l sl by (simp add: put_def)
    have "write_loop mem i buf d b (int n) (int off) (int w) = write_loop mem i buf ?d b (int (n - k)) (int (off + k)) (int (w + k))"
      unfolding u nn using True wr g unfolding bs by simp
    then show ?thesis by blast
  next
    case False
    have p: "buf_put (data d ?s) (int (off mod 512)) (seg buf w k) = Some ?bs" using k(3) l sl by (simp add: buf_put_def)
    have "0 < int (off mod 512) \<or> int k < 512 - int (off mod 512)" using False k(3) by linarith
    then have "write_loop mem i buf d b (int n) (int off) (int w) = write_loop mem i buf ?d True (int (n - k)) (int (off + k)) (int (w + k))"
      unfolding u nn using False assms(5) by (auto simp: rd wr g p kmalloc_def)
    then show ?thesis by blast
  qed
  then show ?thesis using c o by blast
qed

lemma write_done: "n = 0 \<or> nat (ilength (idata i)) \<le> off \<and> off < 2147483648 \<Longrightarrow> on_disk d (idata i) \<Longrightarrow>
    write_loop mem i buf d b (int n) (int off) w = Some (w, d)"
  by (subst write_loop.simps) (auto simp: inode_length_def int32_def on_disk_def Let_def)

lemma min_minus: "k \<le> n \<Longrightarrow> a + k \<le> len \<Longrightarrow> min n (len - a) - k = min (n - k) (len - (a + k))"
  for k n a len :: nat
  by (cases "n \<le> len - a") (simp_all add: min_def)

lemma min_bounds: "k \<le> n \<Longrightarrow> a + k \<le> len \<Longrightarrow> w + n \<le> L \<Longrightarrow> m = min n (len - a) \<Longrightarrow> k \<le> m \<and> w + m \<le> L \<and> a + m \<le> len"
  for k n a len w L m :: nat
  by auto

lemma write_loop_ok:
  assumes "disk_ok d" "on_disk d (idata i)" "mem 512" "off < 2147483648" "w + n \<le> length buf" "m = min n (nat (ilength (idata i)) - off)"
  shows "\<exists>d'. write_loop mem i buf d b (int n) (int off) (int w) = Some (int (w + m), d') \<and>
    bytes_of d' (idata i) = put (bytes_of d (idata i)) off (seg buf w m) \<and> only (data_extent (idata i)) d d'"
  using assms(1,2,4-6)
proof (induction n arbitrary: d off b w m rule: less_induct)
  case (less n)
  let ?len = "nat (ilength (idata i))"
  show ?case
  proof (cases "0 < n \<and> off < ?len")
    case False
    then have "m = 0" using less.prems(5) by auto
    then show ?thesis using write_done[of n i off d mem buf b "int w"] False less.prems only_refl[of d] by auto
  next
    case True
    let ?k = "chunk ?len n off"
    have k: "?k \<le> n" "off + ?k \<le> ?len" "0 < ?k" using chunk_bounds(1,2,4)[where len = ?len and n = n and off = off] True by simp_all
    obtain b1 d1 where d1: "write_loop mem i buf d b (int n) (int off) (int w) = write_loop mem i buf d1 b1 (int (n - ?k)) (int (off + ?k)) (int (w + ?k))"
      "bytes_of d1 (idata i) = put (bytes_of d (idata i)) off (seg buf w ?k)" "only (data_extent (idata i)) d d1"
      using write_step[where mem = mem, OF less.prems(1,2) _ _ assms(3) refl less.prems(4)] True by blast
    have lt: "n - ?k < n" "off + ?k < 2147483648" using k True less.prems(2) by (auto simp: on_disk_def)
    have ok: "disk_ok d1" "on_disk d1 (idata i)" using d1(3) less.prems(2) by (auto simp: only_def on_disk_def)
    have mk: "m - ?k = min (n - ?k) (?len - (off + ?k))" using less.prems(5) min_minus[OF k(1,2)] by simp
    have wl: "w + ?k + (n - ?k) \<le> length buf" using k less.prems(4) by simp
    obtain d2 where d2: "write_loop mem i buf d1 b1 (int (n - ?k)) (int (off + ?k)) (int (w + ?k)) = Some (int (w + ?k + (m - ?k)), d2)"
      "bytes_of d2 (idata i) = put (bytes_of d1 (idata i)) (off + ?k) (seg buf (w + ?k) (m - ?k))" "only (data_extent (idata i)) d1 d2"
      using less.IH[OF lt(1) ok lt(2) wl mk, of b1] by blast
    have km: "?k \<le> m" "w + m \<le> length buf" "off + m \<le> ?len" using min_bounds[OF k(1,2) less.prems(4,5)] by simp_all
    have s: "seg buf w ?k @ seg buf (w + ?k) (m - ?k) = seg buf w m" using seg_append[of w ?k buf "m - ?k"] km by simp
    have "bytes_of d2 (idata i) = put (bytes_of d (idata i)) off (seg buf w m)"
      using d2(2) d1(2) put_put[of off "seg buf w ?k" "seg buf (w + ?k) (m - ?k)" "bytes_of d (idata i)"] km k s by simp
    moreover have "only (data_extent (idata i)) d d2" using only_trans[OF d1(3) d2(3)] by simp
    ultimately show ?thesis using d1(1) d2(1) km(1) by auto
  qed
qed

lemma inode_write_ok:
  assumes "disk_ok d" "on_disk d (idata i)" "mem 512" "0 \<le> off" "off < 2147483648" "n \<le> int (length buf)" "deny_write_cnt i = 0"
    "m = min (nat n) (nat (ilength (idata i)) - nat off)"
  shows "\<exists>d'. inode_write mem d i buf n off = Some (int m, d') \<and>
    bytes_of d' (idata i) = put (bytes_of d (idata i)) (nat off) (take m buf) \<and> only (data_extent (idata i)) d d'"
proof (cases "0 \<le> n")
  case True
  then show ?thesis using write_loop_ok[where mem = mem, OF assms(1-3), of "nat off" 0 "nat n" buf m False] assms(4-8)
    by (simp add: inode_write_def seg_def)
next
  case False
  then have "write_loop mem i buf d False n off 0 = Some (0, d)" by (subst write_loop.simps) simp
  then show ?thesis using False assms only_refl[OF assms(1)] by (simp add: inode_write_def)
qed

lemma inode_write_eof:
  assumes "on_disk d (idata i)" "int (nat (ilength (idata i))) \<le> off" "off < 2147483648"
  shows "inode_write mem d i buf n off = Some (0, d)"
proof (cases "0 \<le> n")
  case True
  have "write_loop mem i buf d False (int (nat n)) (int (nat off)) 0 = Some (0, d)"
    using assms write_done[of "nat n" i "nat off" d mem buf False 0] by (auto simp: on_disk_def nat_le_iff nat_less_iff)
  then show ?thesis using True assms(2) by (simp add: inode_write_def)
next
  case False
  then have "write_loop mem i buf d False n off 0 = Some (0, d)" by (subst write_loop.simps) simp
  then show ?thesis by (simp add: inode_write_def)
qed

end
