(* ===== verification/FsState.thy ===== *)
theory FsState
  imports FsInode
begin

text \<open>
  The file system in memory: the table of open inodes (\<^verbatim>\<open>filesys/inode.c\<close>), open files (\<^verbatim>\<open>filesys/file.c\<close>)
  and the free map (\<^verbatim>\<open>filesys/free-map.c\<close>). The structures \<^verbatim>\<open>struct inode\<close> and \<^verbatim>\<open>struct file\<close> live in
  two heaps, maps from addresses, with 0 for NULL; a new structure gets the next address. The list of
  open inodes is the sequence of its elements, which is what the lists of \<^verbatim>\<open>lib/kernel/list.c\<close> implement.
  \<open>mem n\<close> says whether an allocation of \<open>n\<close> bytes succeeds. A dangling pointer, a failed assertion and a
  kernel panic are \<^term>\<open>None\<close>.
\<close>

section \<open>State\<close>

record ofile =
  finode :: nat
  fpos :: int
  fdeny :: bool

record fsys =
  dev :: block
  inodes :: "nat \<Rightarrow> inode option"
  open_inodes :: "nat list"
  files :: "nat \<Rightarrow> ofile option"
  next_addr :: nat
  free_map :: bitmap
  free_map_file :: nat

definition FREE_MAP_SECTOR :: nat where
  "FREE_MAP_SECTOR = 0"

definition ROOT_DIR_SECTOR :: nat where
  "ROOT_DIR_SECTOR = 1"

definition sizeof_inode :: nat where
  "sizeof_inode = 536"

definition sizeof_file :: nat where
  "sizeof_file = 12"

definition upd_inode :: "fsys \<Rightarrow> nat \<Rightarrow> inode \<Rightarrow> fsys" where
  "upd_inode s ip i = s\<lparr>inodes := (inodes s)(ip := Some i)\<rparr>"

section \<open>Inodes: data\<close>

definition inode_read_at :: "(nat \<Rightarrow> bool) \<Rightarrow> fsys \<Rightarrow> nat \<Rightarrow> int \<Rightarrow> int \<Rightarrow> char list option" where
  "inode_read_at mem s ip sz offset = do { i \<leftarrow> inodes s ip; inode_read mem (dev s) i sz offset }"

definition inode_write_at :: "(nat \<Rightarrow> bool) \<Rightarrow> fsys \<Rightarrow> nat \<Rightarrow> char list \<Rightarrow> int \<Rightarrow> int \<Rightarrow> (int \<times> fsys) option" where
  "inode_write_at mem s ip buf sz offset = do {
     i \<leftarrow> inodes s ip;
     (n, d) \<leftarrow> inode_write mem (dev s) i buf sz offset;
     Some (n, s\<lparr>dev := d\<rparr>)
   }"

definition inode_get_inumber :: "fsys \<Rightarrow> nat \<Rightarrow> nat option" where
  "inode_get_inumber s ip = do { i \<leftarrow> inodes s ip; Some (isector i) }"

section \<open>Files: data\<close>

definition file_read_at :: "(nat \<Rightarrow> bool) \<Rightarrow> fsys \<Rightarrow> nat \<Rightarrow> int \<Rightarrow> int \<Rightarrow> char list option" where
  "file_read_at mem s fp sz ofs = do { f \<leftarrow> files s fp; inode_read_at mem s (finode f) sz ofs }"

definition file_write_at :: "(nat \<Rightarrow> bool) \<Rightarrow> fsys \<Rightarrow> nat \<Rightarrow> char list \<Rightarrow> int \<Rightarrow> int \<Rightarrow> (int \<times> fsys) option" where
  "file_write_at mem s fp buf sz ofs = do { f \<leftarrow> files s fp; inode_write_at mem s (finode f) buf sz ofs }"

definition file_read :: "(nat \<Rightarrow> bool) \<Rightarrow> fsys \<Rightarrow> nat \<Rightarrow> int \<Rightarrow> (char list \<times> fsys) option" where
  "file_read mem s fp sz = do {
     f \<leftarrow> files s fp;
     bs \<leftarrow> inode_read_at mem s (finode f) sz (fpos f);
     p \<leftarrow> int32 (fpos f + int (length bs));
     Some (bs, s\<lparr>files := (files s)(fp := Some (f\<lparr>fpos := p\<rparr>))\<rparr>)
   }"

definition file_write :: "(nat \<Rightarrow> bool) \<Rightarrow> fsys \<Rightarrow> nat \<Rightarrow> char list \<Rightarrow> int \<Rightarrow> (int \<times> fsys) option" where
  "file_write mem s fp buf sz = do {
     f \<leftarrow> files s fp;
     (n, s) \<leftarrow> inode_write_at mem s (finode f) buf sz (fpos f);
     p \<leftarrow> int32 (fpos f + n);
     Some (n, s\<lparr>files := (files s)(fp := Some (f\<lparr>fpos := p\<rparr>))\<rparr>)
   }"

definition file_get_inode :: "fsys \<Rightarrow> nat \<Rightarrow> nat option" where
  "file_get_inode s fp = do { f \<leftarrow> files s fp; Some (finode f) }"

definition file_length :: "fsys \<Rightarrow> nat \<Rightarrow> int option" where
  "file_length s fp = do { assert (fp \<noteq> 0); f \<leftarrow> files s fp; i \<leftarrow> inodes s (finode f); Some (inode_length i) }"

definition file_seek :: "fsys \<Rightarrow> nat \<Rightarrow> int \<Rightarrow> fsys option" where
  "file_seek s fp new_pos = do {
     assert (fp \<noteq> 0);
     assert (new_pos \<ge> 0);
     f \<leftarrow> files s fp;
     Some (s\<lparr>files := (files s)(fp := Some (f\<lparr>fpos := new_pos\<rparr>))\<rparr>)
   }"

definition file_tell :: "fsys \<Rightarrow> nat \<Rightarrow> int option" where
  "file_tell s fp = do { assert (fp \<noteq> 0); f \<leftarrow> files s fp; Some (fpos f) }"

section \<open>The bitmap in a file\<close>

text \<open>The bytes of an array of words, and the words of an array of bytes.\<close>

definition words_image :: "32 word list \<Rightarrow> char list" where
  "words_image ws = concat (map le32 ws)"

function image_words :: "char list \<Rightarrow> 32 word list" where
  "image_words bs = (if length bs < 4 then [] else un_le32 (take 4 bs) # image_words (drop 4 bs))"
  by pat_completeness auto
termination image_words by (relation "measure length") auto

declare image_words.simps [simp del]

definition bitmap_read :: "(nat \<Rightarrow> bool) \<Rightarrow> fsys \<Rightarrow> bitmap \<Rightarrow> nat \<Rightarrow> (bool \<times> bitmap) option" where
  "bitmap_read mem s b fp =
     (if bit_cnt b > 0 then do {
        let sz = byte_cnt (bit_cnt b);
        bs \<leftarrow> file_read_at mem s fp (int sz) 0;
        let ws = image_words (put (words_image (bits b)) 0 bs);
        let k = elem_cnt (bit_cnt b) - 1;
        assert (k < length ws);
        Some (length bs = sz, b\<lparr>bits := ws[k := ws ! k AND last_mask b]\<rparr>)
      } else Some (True, b))"

definition bitmap_write :: "(nat \<Rightarrow> bool) \<Rightarrow> fsys \<Rightarrow> bitmap \<Rightarrow> nat \<Rightarrow> (bool \<times> fsys) option" where
  "bitmap_write mem s b fp = do {
     let sz = byte_cnt (bit_cnt b);
     (n, s) \<leftarrow> file_write_at mem s fp (words_image (bits b)) (int sz) 0;
     Some (n = int sz, s)
   }"

section \<open>The free map\<close>

definition free_map_init :: "(nat \<Rightarrow> bool) \<Rightarrow> (nat \<Rightarrow> 32 word) \<Rightarrow> fsys \<Rightarrow> fsys option" where
  "free_map_init mem garbage s = do {
     r \<leftarrow> bitmap_create mem garbage (block_size (dev s));
     case r of None \<Rightarrow> None
     | Some b \<Rightarrow> do {
         b \<leftarrow> bitmap_mark b FREE_MAP_SECTOR;
         b \<leftarrow> bitmap_mark b ROOT_DIR_SECTOR;
         Some (s\<lparr>free_map := b\<rparr>)
       }
   }"

definition free_map_allocate :: "(nat \<Rightarrow> bool) \<Rightarrow> fsys \<Rightarrow> nat \<Rightarrow> (nat option \<times> fsys) option" where
  "free_map_allocate mem s cnt = do {
     (sector, b) \<leftarrow> bitmap_scan_and_flip (free_map s) 0 cnt False;
     let s = s\<lparr>free_map := b\<rparr>;
     (sector, s) \<leftarrow>
       (if sector \<noteq> BITMAP_ERROR \<and> free_map_file s \<noteq> 0 then do {
          (ok, s) \<leftarrow> bitmap_write mem s (free_map s) (free_map_file s);
          if \<not> ok then do { b \<leftarrow> bitmap_set_multiple (free_map s) sector cnt False; Some (BITMAP_ERROR, s\<lparr>free_map := b\<rparr>) }
          else Some (sector, s)
        } else Some (sector, s));
     Some (if sector \<noteq> BITMAP_ERROR then Some sector else None, s)
   }"

definition free_map_release :: "(nat \<Rightarrow> bool) \<Rightarrow> fsys \<Rightarrow> nat \<Rightarrow> nat \<Rightarrow> fsys option" where
  "free_map_release mem s sector cnt = do {
     a \<leftarrow> bitmap_all (free_map s) sector cnt;
     assert a;
     b \<leftarrow> bitmap_set_multiple (free_map s) sector cnt False;
     let s = s\<lparr>free_map := b\<rparr>;
     (_, s) \<leftarrow> bitmap_write mem s (free_map s) (free_map_file s);
     Some s
   }"

section \<open>Inodes: creation, opening and closing\<close>

fun zero_sectors :: "block \<Rightarrow> nat \<Rightarrow> nat \<Rightarrow> block option" where
  "zero_sectors d st 0 = Some d"
| "zero_sectors d st (Suc n) = do { d \<leftarrow> block_write d st (replicate 512 NUL); zero_sectors d (st + 1) n }"

definition inode_create :: "(nat \<Rightarrow> bool) \<Rightarrow> fsys \<Rightarrow> nat \<Rightarrow> int \<Rightarrow> (bool \<times> fsys) option" where
  "inode_create mem s sector len = do {
     assert (len \<ge> 0);
     if kmalloc mem 512 then do {
       sectors \<leftarrow> bytes_to_sectors len;
       (r, s) \<leftarrow> free_map_allocate mem s sectors;
       case r of None \<Rightarrow> Some (False, s)
       | Some st \<Rightarrow> do {
           d \<leftarrow> block_write (dev s) sector
             (inode_image \<lparr>istart = st, ilength = len, imagic = INODE_MAGIC, iunused = replicate 500 NUL\<rparr>);
           d \<leftarrow> zero_sectors d st sectors;
           Some (True, s\<lparr>dev := d\<rparr>)
         }
     } else Some (False, s)
   }"

definition inode_reopen :: "fsys \<Rightarrow> nat \<Rightarrow> (nat \<times> fsys) option" where
  "inode_reopen s ip =
     (if ip \<noteq> 0 then do {
        i \<leftarrow> inodes s ip;
        c \<leftarrow> int32 (open_cnt i + 1);
        Some (ip, upd_inode s ip (i\<lparr>open_cnt := c\<rparr>))
      } else Some (ip, s))"

fun find_open :: "fsys \<Rightarrow> nat \<Rightarrow> nat list \<Rightarrow> nat option" where
  "find_open s sector [] = Some 0"
| "find_open s sector (e # es) = do { i \<leftarrow> inodes s e; if isector i = sector then Some e else find_open s sector es }"

definition inode_open :: "(nat \<Rightarrow> bool) \<Rightarrow> fsys \<Rightarrow> nat \<Rightarrow> (nat \<times> fsys) option" where
  "inode_open mem s sector = do {
     p \<leftarrow> find_open s sector (open_inodes s);
     if p \<noteq> 0 then inode_reopen s p
     else if \<not> kmalloc mem sizeof_inode then Some (0, s)
     else do {
       let ip = next_addr s;
       bs \<leftarrow> block_read (dev s) sector;
       Some (ip, upd_inode (s\<lparr>open_inodes := ip # open_inodes s, next_addr := ip + 1\<rparr>) ip
         \<lparr>isector = sector, open_cnt = 1, removed = False, deny_write_cnt = 0, idata = inode_of_image bs\<rparr>)
     }
   }"

definition inode_close :: "(nat \<Rightarrow> bool) \<Rightarrow> fsys \<Rightarrow> nat \<Rightarrow> fsys option" where
  "inode_close mem s ip =
     (if ip = 0 then Some s
      else do {
        i \<leftarrow> inodes s ip;
        c \<leftarrow> int32 (open_cnt i - 1);
        let i = i\<lparr>open_cnt := c\<rparr>;
        let s = upd_inode s ip i;
        if c = 0 then do {
          assert (ip \<in> set (open_inodes s));
          let s = s\<lparr>open_inodes := remove1 ip (open_inodes s)\<rparr>;
          s \<leftarrow> (if removed i then do {
                 s \<leftarrow> free_map_release mem s (isector i) 1;
                 n \<leftarrow> bytes_to_sectors (ilength (idata i));
                 free_map_release mem s (istart (idata i)) n
               } else Some s);
          Some (s\<lparr>inodes := (inodes s)(ip := None)\<rparr>)
        } else Some s
      })"

definition inode_remove :: "fsys \<Rightarrow> nat \<Rightarrow> fsys option" where
  "inode_remove s ip = do { assert (ip \<noteq> 0); i \<leftarrow> inodes s ip; Some (upd_inode s ip (i\<lparr>removed := True\<rparr>)) }"

definition inode_deny_write :: "fsys \<Rightarrow> nat \<Rightarrow> fsys option" where
  "inode_deny_write s ip = do {
     i \<leftarrow> inodes s ip;
     c \<leftarrow> int32 (deny_write_cnt i + 1);
     assert (c \<le> open_cnt i);
     Some (upd_inode s ip (i\<lparr>deny_write_cnt := c\<rparr>))
   }"

definition inode_allow_write :: "fsys \<Rightarrow> nat \<Rightarrow> fsys option" where
  "inode_allow_write s ip = do {
     i \<leftarrow> inodes s ip;
     assert (deny_write_cnt i > 0);
     assert (deny_write_cnt i \<le> open_cnt i);
     Some (upd_inode s ip (i\<lparr>deny_write_cnt := deny_write_cnt i - 1\<rparr>))
   }"

section \<open>Files: opening and closing\<close>

definition file_open :: "(nat \<Rightarrow> bool) \<Rightarrow> fsys \<Rightarrow> nat \<Rightarrow> (nat \<times> fsys) option" where
  "file_open mem s ip =
     (if ip \<noteq> 0 \<and> kmalloc mem sizeof_file
      then let fp = next_addr s in
        Some (fp, s\<lparr>files := (files s)(fp := Some \<lparr>finode = ip, fpos = 0, fdeny = False\<rparr>), next_addr := fp + 1\<rparr>)
      else do { s \<leftarrow> inode_close mem s ip; Some (0, s) })"

definition file_reopen :: "(nat \<Rightarrow> bool) \<Rightarrow> fsys \<Rightarrow> nat \<Rightarrow> (nat \<times> fsys) option" where
  "file_reopen mem s fp = do {
     f \<leftarrow> files s fp;
     (ip, s) \<leftarrow> inode_reopen s (finode f);
     file_open mem s ip
   }"

definition file_deny_write :: "fsys \<Rightarrow> nat \<Rightarrow> fsys option" where
  "file_deny_write s fp = do {
     assert (fp \<noteq> 0);
     f \<leftarrow> files s fp;
     if \<not> fdeny f then inode_deny_write (s\<lparr>files := (files s)(fp := Some (f\<lparr>fdeny := True\<rparr>))\<rparr>) (finode f) else Some s
   }"

definition file_allow_write :: "fsys \<Rightarrow> nat \<Rightarrow> fsys option" where
  "file_allow_write s fp = do {
     assert (fp \<noteq> 0);
     f \<leftarrow> files s fp;
     if fdeny f then inode_allow_write (s\<lparr>files := (files s)(fp := Some (f\<lparr>fdeny := False\<rparr>))\<rparr>) (finode f) else Some s
   }"

definition file_close :: "(nat \<Rightarrow> bool) \<Rightarrow> fsys \<Rightarrow> nat \<Rightarrow> fsys option" where
  "file_close mem s fp =
     (if fp \<noteq> 0 then do {
        s \<leftarrow> file_allow_write s fp;
        f \<leftarrow> files s fp;
        s \<leftarrow> inode_close mem s (finode f);
        Some (s\<lparr>files := (files s)(fp := None)\<rparr>)
      } else Some s)"

section \<open>The free map file\<close>

definition free_map_open :: "(nat \<Rightarrow> bool) \<Rightarrow> fsys \<Rightarrow> fsys option" where
  "free_map_open mem s = do {
     (ip, s) \<leftarrow> inode_open mem s FREE_MAP_SECTOR;
     (fp, s) \<leftarrow> file_open mem s ip;
     let s = s\<lparr>free_map_file := fp\<rparr>;
     assert (fp \<noteq> 0);
     (ok, b) \<leftarrow> bitmap_read mem s (free_map s) fp;
     let s = s\<lparr>free_map := b\<rparr>;
     assert ok;
     Some s
   }"

definition free_map_close :: "(nat \<Rightarrow> bool) \<Rightarrow> fsys \<Rightarrow> fsys option" where
  "free_map_close mem s = file_close mem s (free_map_file s)"

definition free_map_create :: "(nat \<Rightarrow> bool) \<Rightarrow> fsys \<Rightarrow> fsys option" where
  "free_map_create mem s = do {
     (ok, s) \<leftarrow> inode_create mem s FREE_MAP_SECTOR (int (bitmap_file_size (free_map s)));
     assert ok;
     (ip, s) \<leftarrow> inode_open mem s FREE_MAP_SECTOR;
     (fp, s) \<leftarrow> file_open mem s ip;
     let s = s\<lparr>free_map_file := fp\<rparr>;
     assert (fp \<noteq> 0);
     (ok, s) \<leftarrow> bitmap_write mem s (free_map s) fp;
     assert ok;
     Some s
   }"

section \<open>The free map and its file\<close>

lemma length_words_image [simp]: "length (words_image ws) = 4 * length ws"
  by (induction ws) (auto simp: words_image_def)

lemma image_words_image [simp]: "image_words (words_image ws) = ws"
proof (induction ws)
  case Nil
  then show ?case by (simp add: words_image_def image_words.simps)
next
  case (Cons w ws)
  have "take 4 (le32 w @ words_image ws) = le32 w" "drop 4 (le32 w @ words_image ws) = words_image ws" by simp_all
  moreover have "un_le32 (le32 w) = w" using un_le32_le32[of w "[]"] by simp
  ultimately show ?case using Cons by (subst image_words.simps) (simp add: words_image_def)
qed

lemma length_image_words [simp]: "length (image_words bs) = length bs div 4"
proof (induction bs rule: image_words.induct)
  case (1 bs)
  show ?case
  proof (cases "length bs < 4")
    case False
    then have "length bs div 4 = Suc ((length bs - 4) div 4)" by (simp add: le_div_geq)
    then show ?thesis using 1 False by (subst image_words.simps) simp
  qed (simp add: image_words.simps)
qed

text \<open>The free map is open: its file and the inode \<open>fi\<close> behind it have room for the bitmap.\<close>

definition fm_ok :: "fsys \<Rightarrow> inode \<Rightarrow> bool" where
  "fm_ok s fi \<longleftrightarrow> disk_ok (dev s) \<and> bm_ok (free_map s) \<and> length (bits (free_map s)) = elem_cnt (bit_cnt (free_map s)) \<and>
     free_map_file s \<noteq> 0 \<and> (\<exists>f. files s (free_map_file s) = Some f \<and> inodes s (finode f) = Some fi) \<and>
     deny_write_cnt fi = 0 \<and> on_disk (dev s) (idata fi) \<and> ilength (idata fi) = int (byte_cnt (bit_cnt (free_map s)))"

text \<open>The file holds the bits of \<open>b\<close>.\<close>

definition saved :: "block \<Rightarrow> inode_disk \<Rightarrow> bitmap \<Rightarrow> bool" where
  "saved d i b \<longleftrightarrow> bools \<lparr>bit_cnt = bit_cnt b, bits = image_words (bytes_of d i)\<rparr> = bools b"

lemma saved_image: "bytes_of d i = words_image (bits b) \<Longrightarrow> saved d i b"
  by (simp add: saved_def bools_def)

lemma saved_only: "saved d i b \<Longrightarrow> only X d d' \<Longrightarrow> X \<inter> data_extent i = {} \<Longrightarrow> saved d' i b"
  using only_bytes[of X d d' i] by (simp add: saved_def)

lemma bitmap_write_ok:
  assumes "fm_ok s fi" "mem 512" "bit_cnt b = bit_cnt (free_map s)" "length (bits b) = length (bits (free_map s))"
  shows "\<exists>d'. bitmap_write mem (s\<lparr>free_map := b'\<rparr>) b (free_map_file s) = Some (True, s\<lparr>free_map := b', dev := d'\<rparr>) \<and>
    saved d' (idata fi) b \<and> only (data_extent (idata fi)) (dev s) d'"
proof -
  obtain f where f: "files s (free_map_file s) = Some f" "inodes s (finode f) = Some fi" using assms(1) by (auto simp: fm_ok_def)
  let ?n = "byte_cnt (bit_cnt b)" and ?buf = "words_image (bits b)"
  have n: "length ?buf = ?n" "ilength (idata fi) = int ?n" using assms by (simp_all add: fm_ok_def byte_cnt_def)
  obtain d' where d': "inode_write mem (dev s) fi ?buf (int ?n) 0 = Some (int ?n, d')"
    "bytes_of d' (idata fi) = put (bytes_of (dev s) (idata fi)) 0 (take ?n ?buf)" "only (data_extent (idata fi)) (dev s) d'"
    using inode_write_ok[where mem = mem and d = "dev s" and i = fi and off = 0 and n = "int ?n" and buf = ?buf and m = ?n] assms(1,2) n
    by (auto simp: fm_ok_def)
  have "bytes_of d' (idata fi) = ?buf" using d'(2) n by (simp add: put_def)
  then have "saved d' (idata fi) b" by (rule saved_image)
  then show ?thesis using d' f by (auto simp: bitmap_write_def file_write_at_def inode_write_at_def Let_def)
qed

lemma fm_ok_update:
  assumes "fm_ok s fi" "only X (dev s) d'" "bm_ok b'" "bit_cnt b' = bit_cnt (free_map s)" "length (bits b') = length (bits (free_map s))"
  shows "fm_ok (s\<lparr>free_map := b', dev := d'\<rparr>) fi"
  using assms by (auto simp: fm_ok_def only_def on_disk_def)

lemma free_map_allocate_ok:
  assumes "fm_ok s fi" "mem 512" "r = first_fit (bools (free_map s)) 0 n False"
  shows "\<exists>b' d'. free_map_allocate mem s n = Some (r, s\<lparr>free_map := b', dev := d'\<rparr>) \<and> fm_ok (s\<lparr>free_map := b', dev := d'\<rparr>) fi \<and>
    bit_cnt b' = bit_cnt (free_map s) \<and>
    (case r of None \<Rightarrow> b' = free_map s \<and> d' = dev s
     | Some i \<Rightarrow> i + n \<le> bit_cnt b' \<and> extent (i, n) \<inter> used_bits (free_map s) = {} \<and> used_bits b' = used_bits (free_map s) \<union> extent (i, n) \<and>
         saved d' (idata fi) b' \<and> only (data_extent (idata fi)) (dev s) d')"
proof -
  let ?b = "free_map s"
  have bm: "bm_ok ?b" "free_map_file s \<noteq> 0" using assms(1) by (simp_all add: fm_ok_def)
  obtain b' where b': "bitmap_scan_and_flip ?b 0 n False = Some (case r of None \<Rightarrow> BITMAP_ERROR | Some i \<Rightarrow> i, b')"
    "bm_ok b'" "bit_cnt b' = bit_cnt ?b" "length (bits b') = length (bits ?b)"
    "bools b' = (case r of None \<Rightarrow> bools ?b | Some i \<Rightarrow> fill (bools ?b) i n True)"
    using bitmap_scan_and_flip_ok[OF bm(1), of 0 n False] assms(3) unfolding not_False_eq_True by blast
  show ?thesis
  proof (cases r)
    case None
    have "bitmap_scan_and_flip ?b 0 n False = Some (BITMAP_ERROR, ?b)"
      using b'(1) bitmap_scan_ok[OF bm(1), of 0 n False] None assms(3) by (simp add: bitmap_scan_and_flip_def)
    then show ?thesis using None assms(1) by (simp add: free_map_allocate_def)
  next
    case (Some i)
    note f = first_fit_Some[OF assms(3)[symmetric, unfolded Some]]
    have i: "i \<noteq> BITMAP_ERROR" "i + n \<le> bit_cnt ?b" using f(2) bm(1) by (simp_all add: bm_ok_def BITMAP_ERROR_def)
    obtain d' where d': "bitmap_write mem (s\<lparr>free_map := b'\<rparr>) b' (free_map_file s) = Some (True, s\<lparr>free_map := b', dev := d'\<rparr>)"
      "saved d' (idata fi) b'" "only (data_extent (idata fi)) (dev s) d'"
      using bitmap_write_ok[OF assms(1), where mem = mem and b = b' and b' = b'] assms(2) b'(3,4) by blast
    have "extent (i, n) \<inter> used_bits ?b = {}" using f(3) seg_eq_replicate[OF f(2)] by (auto simp: used_bits_def)
    moreover have "used_bits b' = used_bits ?b \<union> extent (i, n)" using used_fill[OF i(2), of b' True] b'(3,5) Some by simp
    moreover have "free_map_allocate mem s n = Some (Some i, s\<lparr>free_map := b', dev := d'\<rparr>)"
      using b'(1) Some i(1) bm(2) d'(1) by (simp add: free_map_allocate_def)
    ultimately show ?thesis using Some i(2) b'(3) d' fm_ok_update[OF assms(1) d'(3) b'(2-4)] by auto
  qed
qed

lemma free_map_release_ok:
  assumes "fm_ok s fi" "mem 512" "i + n \<le> bit_cnt (free_map s)" "extent (i, n) \<subseteq> used_bits (free_map s)"
  shows "\<exists>b' d'. free_map_release mem s i n = Some (s\<lparr>free_map := b', dev := d'\<rparr>) \<and> fm_ok (s\<lparr>free_map := b', dev := d'\<rparr>) fi \<and>
    bit_cnt b' = bit_cnt (free_map s) \<and> used_bits b' = used_bits (free_map s) - extent (i, n) \<and>
    saved d' (idata fi) b' \<and> only (data_extent (idata fi)) (dev s) d'"
proof -
  have bm: "bm_ok (free_map s)" using assms(1) by (simp add: fm_ok_def)
  obtain b' where b': "bitmap_release (free_map s) i n = Some b'" "bm_ok b'" "bit_cnt b' = bit_cnt (free_map s)"
    "length (bits b') = length (bits (free_map s))" "used_bits b' = used_bits (free_map s) - extent (i, n)"
    using bitmap_release_ok[OF bm assms(3,4)] by blast
  obtain d' where d': "bitmap_write mem (s\<lparr>free_map := b'\<rparr>) b' (free_map_file s) = Some (True, s\<lparr>free_map := b', dev := d'\<rparr>)"
    "saved d' (idata fi) b'" "only (data_extent (idata fi)) (dev s) d'"
    using bitmap_write_ok[OF assms(1), where mem = mem and b = b' and b' = b'] assms(2) b'(3,4) by blast
  have "free_map_release mem s i n = Some (s\<lparr>free_map := b', dev := d'\<rparr>)"
    using b'(1) d'(1) by (auto simp: free_map_release_def bitmap_release_def bind_eq_Some_conv)
  then show ?thesis using b' d' fm_ok_update[OF assms(1) d'(3) b'(2-4)] by auto
qed

section \<open>Creating, opening and closing inodes\<close>

lemma zero_sectors_ok:
  assumes "disk_ok d" "st + n \<le> bsize d"
  shows "\<exists>d'. zero_sectors d st n = Some d' \<and> only (extent (st, n)) d d' \<and> (\<forall>s \<in> extent (st, n). data d' s = replicate 512 NUL)"
  using assms
proof (induction n arbitrary: d st)
  case 0
  then show ?case by (simp add: only_refl extent_def)
next
  case (Suc n)
  let ?d = "d\<lparr>data := (data d)(st := replicate 512 NUL)\<rparr>"
  have w: "block_write d st (replicate 512 NUL) = Some ?d"
    using Suc.prems by (simp add: block_write_def check_sector_def assert_def disk_ok_def)
  have o: "only {st} d ?d" using Suc.prems(1) by (simp add: only_def disk_ok_def)
  obtain d' where d': "zero_sectors ?d (st + 1) n = Some d'" "only (extent (st + 1, n)) ?d d'" "\<forall>s \<in> extent (st + 1, n). data d' s = replicate 512 NUL"
    using Suc.IH[of ?d "st + 1"] Suc.prems o by (auto simp: only_def)
  have e: "extent (st, Suc n) = {st} \<union> extent (st + 1, n)" by (auto simp: extent_def)
  have "st \<notin> extent (st + 1, n)" by (simp add: extent_def)
  then have "data d' st = replicate 512 NUL" using d'(2) by (simp add: only_def)
  then show ?case using w d' only_trans[OF o d'(2)] unfolding e by simp
qed

lemma inode_of_image_image [simp]:
  assumes "istart i < 4294967296" "0 \<le> ilength i" "ilength i \<le> 2147483647" "imagic i < 4294967296"
  shows "inode_of_image (inode_image i) = i"
proof -
  have d: "drop 4 (inode_image i) = le32 (word_of_int (ilength i)) @ le32 (word_of_nat (imagic i)) @ iunused i"
    "drop 8 (inode_image i) = le32 (word_of_nat (imagic i)) @ iunused i" "drop 12 (inode_image i) = iunused i"
    by (simp_all add: inode_image_def)
  have u: "unat (word_of_nat n :: 32 word) = n" if "n < 4294967296" for n
    using that by (simp add: unsigned_of_nat take_bit_nat_eq_self_iff)
  obtain n where n1: "ilength i = int n" using assms(2) by (metis nat_0_le)
  then have n: "ilength i = int n" "n < 2 ^ 31" using assms(3) by simp_all
  have "sint (word_of_int (ilength i) :: 32 word) = ilength i" using small_word(2)[OF n(2)] n(1) by simp
  then show ?thesis using u[OF assms(1)] u[OF assms(4)] unfolding inode_of_image_def d un_le32_le32
    by (simp add: inode_image_def)
qed

lemma length_inode_image: "length (iunused i) = 500 \<Longrightarrow> length (inode_image i) = 512"
  by (simp add: inode_image_def)

lemma bytes_to_sectors_ok: "len \<le> 2147483135 \<Longrightarrow> bytes_to_sectors (int len) = Some (sectors_for len)"
proof -
  assume a: "len \<le> 2147483135"
  have "(int len + 511) = int (len + 511)" by simp
  then have "(int len + 512 - 1) sdiv 512 = int ((len + 511) div 512)" using signed_512(2)[of "len + 511"] by (simp add: add.commute)
  moreover have "int ((len + 511) div 512) mod 4294967296 = int ((len + 511) div 512)" using a by simp
  ultimately show ?thesis using a by (simp add: bytes_to_sectors_def int32_def sectors_for_def del: zdiv_int)
qed

text \<open>The inode that \<^verbatim>\<open>inode_create\<close> writes.\<close>

definition new_inode :: "nat \<Rightarrow> nat \<Rightarrow> inode_disk" where
  "new_inode st len = \<lparr>istart = st, ilength = int len, imagic = INODE_MAGIC, iunused = replicate 500 NUL\<rparr>"

text \<open>An inode and its data, zeros, on the disk.\<close>

lemma new_inode_written:
  assumes "disk_ok d" "sector < bsize d" "st + sectors_for len \<le> bsize d" "bsize d \<le> 4294967264" "len \<le> 2147483135" "sector \<notin> extent (st, sectors_for len)"
  shows "\<exists>d'. block_write d sector (inode_image (new_inode st len)) \<bind> (\<lambda>d. zero_sectors d st (sectors_for len)) = Some d' \<and>
    only ({sector} \<union> extent (st, sectors_for len)) d d' \<and> inode_of_image (data d' sector) = new_inode st len \<and> contents d' st len = replicate len NUL"
proof -
  let ?n = "sectors_for len" and ?img = "inode_image (new_inode st len)"
  let ?E = "extent (st, ?n)" and ?d2 = "d\<lparr>data := (data d)(sector := ?img)\<rparr>"
  have li: "length ?img = 512" by (rule length_inode_image) (simp add: new_inode_def)
  have w: "block_write d sector ?img = Some ?d2" using assms(1,2) by (simp add: block_write_def check_sector_def assert_def disk_ok_def)
  have o2: "only {sector} d ?d2" using assms(1) li by (simp add: only_def disk_ok_def)
  obtain d' where d': "zero_sectors ?d2 st ?n = Some d'" "only ?E ?d2 d'" "\<forall>x \<in> ?E. data d' x = replicate 512 NUL"
    using zero_sectors_ok[of ?d2 st ?n] o2 assms(3) by (auto simp: only_def)
  have "data d' sector = ?img" using d'(2) assms(6) by (simp add: only_def)
  moreover have "inode_of_image ?img = new_inode st len"
    using assms(3-5) by (intro inode_of_image_image) (simp_all add: new_inode_def INODE_MAGIC_def)
  ultimately have i: "inode_of_image (data d' sector) = new_inode st len" by simp
  have "contents d' st len ! j = NUL" if "j < len" for j
  proof -
    have "j div 512 < ?n" using that unfolding sectors_for_def by linarith
    then show ?thesis using that d'(3) by (simp add: nth_contents extent_def)
  qed
  then have "contents d' st len = replicate len NUL" by (intro nth_equalityI) simp_all
  then show ?thesis using w d'(1) i only_trans[OF o2 d'(2)] by simp
qed

lemma inode_create_ok:
  assumes "fm_ok s fi" "mem 512" "len \<le> 2147483135" "sector < bsize (dev s)" "sector \<notin> data_extent (idata fi)"
    "bit_cnt (free_map s) = bsize (dev s)" "insert sector (data_extent (idata fi)) \<subseteq> used_bits (free_map s)"
    "r = first_fit (bools (free_map s)) 0 (sectors_for len) False"
  shows "\<exists>b' d'. inode_create mem s sector (int len) = Some (r \<noteq> None, s\<lparr>free_map := b', dev := d'\<rparr>) \<and> fm_ok (s\<lparr>free_map := b', dev := d'\<rparr>) fi \<and>
    bit_cnt b' = bit_cnt (free_map s) \<and>
    (case r of None \<Rightarrow> b' = free_map s \<and> d' = dev s
     | Some st \<Rightarrow> st + sectors_for len \<le> bsize d' \<and> extent (st, sectors_for len) \<inter> used_bits (free_map s) = {} \<and>
         used_bits b' = used_bits (free_map s) \<union> extent (st, sectors_for len) \<and> saved d' (idata fi) b' \<and>
         inode_of_image (data d' sector) = new_inode st len \<and> contents d' st len = replicate len NUL \<and>
         only (data_extent (idata fi) \<union> {sector} \<union> extent (st, sectors_for len)) (dev s) d')"
proof -
  let ?n = "sectors_for len"
  have pre: "bytes_to_sectors (int len) = Some ?n" "kmalloc mem 512" using assms(2,3) by (simp_all add: bytes_to_sectors_ok kmalloc_def)
  obtain b' d1 where a: "free_map_allocate mem s ?n = Some (r, s\<lparr>free_map := b', dev := d1\<rparr>)" "fm_ok (s\<lparr>free_map := b', dev := d1\<rparr>) fi"
    "bit_cnt b' = bit_cnt (free_map s)"
    "case r of None \<Rightarrow> b' = free_map s \<and> d1 = dev s
     | Some i \<Rightarrow> i + ?n \<le> bit_cnt b' \<and> extent (i, ?n) \<inter> used_bits (free_map s) = {} \<and> used_bits b' = used_bits (free_map s) \<union> extent (i, ?n) \<and>
         saved d1 (idata fi) b' \<and> only (data_extent (idata fi)) (dev s) d1"
    using free_map_allocate_ok[OF assms(1), where mem = mem, OF assms(2,8)] by blast
  show ?thesis
  proof (cases r)
    case None
    then show ?thesis using a assms(1) pre by (simp add: inode_create_def assert_def)
  next
    case (Some st)
    let ?X = "data_extent (idata fi)" and ?E = "extent (st, ?n)"
    from a(4) Some have al: "st + ?n \<le> bit_cnt b'" "?E \<inter> used_bits (free_map s) = {}"
      "used_bits b' = used_bits (free_map s) \<union> ?E" "saved d1 (idata fi) b'" "only ?X (dev s) d1" by simp_all
    have dk: "disk_ok d1" "bsize d1 = bsize (dev s)" using al(5) by (simp_all add: only_def)
    have sec: "sector \<notin> ?E" "?E \<inter> ?X = {}" using al(2) assms(7) by auto
    obtain d' where d': "block_write d1 sector (inode_image (new_inode st len)) \<bind> (\<lambda>d. zero_sectors d st ?n) = Some d'" "only ({sector} \<union> ?E) d1 d'"
      "inode_of_image (data d' sector) = new_inode st len" "contents d' st len = replicate len NUL"
      using new_inode_written[of d1 sector st len] dk assms(1,3,4,6) al(1) a(3) sec(1) by (auto simp: fm_ok_def bm_ok_def)
    have o: "only (?X \<union> {sector} \<union> ?E) (dev s) d'" using only_trans[OF al(5) d'(2)] by (simp only: Un_assoc)
    have sv: "saved d' (idata fi) b'"
      using saved_only[OF al(4) d'(2)] assms(5) sec(2) by blast
    have "inode_create mem s sector (int len) = Some (True, s\<lparr>free_map := b', dev := d'\<rparr>)"
      using pre a(1) Some d'(1) by (auto simp: inode_create_def assert_def new_inode_def bind_eq_Some_conv)
    moreover have "fm_ok (s\<lparr>free_map := b', dev := d'\<rparr>) fi"
      using a(2) d'(2) by (auto simp: fm_ok_def only_def on_disk_def)
    moreover have "st + ?n \<le> bsize d'" using al(1) a(3) assms(6) o by (simp add: only_def)
    ultimately show ?thesis using Some a(3) al d'(3,4) sv o by auto
  qed
qed

text \<open>The state after an inode that was not open has been opened.\<close>

definition opened :: "fsys \<Rightarrow> nat \<Rightarrow> fsys" where
  "opened s sector = s\<lparr>inodes := (inodes s)(next_addr s := Some \<lparr>isector = sector, open_cnt = 1, removed = False, deny_write_cnt = 0,
       idata = inode_of_image (data (dev s) sector)\<rparr>), open_inodes := next_addr s # open_inodes s, next_addr := next_addr s + 1\<rparr>"

definition not_open :: "fsys \<Rightarrow> nat \<Rightarrow> bool" where
  "not_open s sector \<longleftrightarrow> (\<forall>e \<in> set (open_inodes s). \<exists>i. inodes s e = Some i \<and> isector i \<noteq> sector)"

lemma find_open_none: "\<forall>e \<in> set es. \<exists>i. inodes s e = Some i \<and> isector i \<noteq> sector \<Longrightarrow> find_open s sector es = Some 0"
  by (induction es) auto

lemma inode_open_new:
  assumes "not_open s sector" "mem sizeof_inode" "sector < bsize (dev s)"
  shows "inode_open mem s sector = Some (next_addr s, opened s sector)"
  using assms find_open_none[of "open_inodes s" s sector]
  by (simp add: inode_open_def not_open_def kmalloc_def sizeof_inode_def block_read_def check_sector_def opened_def upd_inode_def Let_def)

lemma inode_close_last:
  assumes "inodes s ip = Some i" "open_cnt i = 1" "\<not> removed i" "ip \<in> set (open_inodes s)" "ip \<noteq> 0"
  shows "inode_close mem s ip = Some (s\<lparr>open_inodes := remove1 ip (open_inodes s), inodes := (inodes s)(ip := None)\<rparr>)"
  using assms by (simp add: inode_close_def int32_def upd_inode_def assert_def Let_def)

end
