(* ===== verification/FsDir.thy ===== *)
theory FsDir
  imports FsState
begin

text \<open>
  Directories, \<^verbatim>\<open>filesys/directory.c\<close>: a file of entries of 20 bytes, each with the sector of an inode, a
  name in a buffer of 15 bytes and a flag. An entry is handled as its bytes, so what \<^verbatim>\<open>strlcpy\<close> leaves behind
  a name is what was there before. The loops over the entries end when a read is short; they are partial
  functions and are shown to return.

  The entries in use form an association list \<open>dir_ents\<close> from names to sectors. Searching, adding and
  removing are shown to be lookup, insertion and deletion on it.
\<close>

section \<open>Entries\<close>

record dir =
  dinode :: nat
  dpos :: int

definition NAME_MAX :: nat where
  "NAME_MAX = 14"

definition sizeof_dir :: nat where
  "sizeof_dir = 8"

definition sizeof_dir_entry :: nat where
  "sizeof_dir_entry = 20"

definition entry_sector :: "char list \<Rightarrow> nat" where
  "entry_sector e = unat (un_le32 e)"

definition entry_name :: "char list \<Rightarrow> char list" where
  "entry_name e = seg e 4 15"

definition entry_in_use :: "char list \<Rightarrow> bool" where
  "entry_in_use e \<longleftrightarrow> e ! 19 \<noteq> NUL"

definition set_in_use :: "char list \<Rightarrow> bool \<Rightarrow> char list" where
  "set_in_use e b = e[19 := if b then CHR 0x01 else NUL]"

definition set_sector :: "char list \<Rightarrow> nat \<Rightarrow> char list" where
  "set_sector e n = put e 0 (le32 (word_of_nat n))"

text \<open>\<^verbatim>\<open>strlcpy\<close> into a buffer, and the test \<^verbatim>\<open>!strcmp (s, buffer)\<close>, which is \<^term>\<open>None\<close> when it runs off the end of
  the buffer.\<close>

definition strlcpy :: "char list \<Rightarrow> string \<Rightarrow> nat \<Rightarrow> char list" where
  "strlcpy dst src sz = (if sz > 0 then put dst 0 (take (sz - 1) src @ [NUL]) else dst)"

definition set_name :: "char list \<Rightarrow> string \<Rightarrow> char list" where
  "set_name e name = put e 4 (strlcpy (entry_name e) name 15)"

fun streq :: "string \<Rightarrow> char list \<Rightarrow> bool option" where
  "streq s [] = None"
| "streq [] (c # cs) = Some (c = NUL)"
| "streq (x # xs) (c # cs) = (if x = c then streq xs cs else Some False)"

section \<open>Operations\<close>

definition dir_create :: "(nat \<Rightarrow> bool) \<Rightarrow> fsys \<Rightarrow> nat \<Rightarrow> nat \<Rightarrow> (bool \<times> fsys) option" where
  "dir_create mem s sector entry_cnt = inode_create mem s sector (int (entry_cnt * sizeof_dir_entry))"

definition dir_open :: "(nat \<Rightarrow> bool) \<Rightarrow> fsys \<Rightarrow> nat \<Rightarrow> (dir option \<times> fsys) option" where
  "dir_open mem s ip =
     (if ip \<noteq> 0 \<and> kmalloc mem sizeof_dir then Some (Some \<lparr>dinode = ip, dpos = 0\<rparr>, s)
      else do { s \<leftarrow> inode_close mem s ip; Some (None, s) })"

definition dir_open_root :: "(nat \<Rightarrow> bool) \<Rightarrow> fsys \<Rightarrow> (dir option \<times> fsys) option" where
  "dir_open_root mem s = do { (ip, s) \<leftarrow> inode_open mem s ROOT_DIR_SECTOR; dir_open mem s ip }"

definition dir_reopen :: "(nat \<Rightarrow> bool) \<Rightarrow> fsys \<Rightarrow> dir \<Rightarrow> (dir option \<times> fsys) option" where
  "dir_reopen mem s d = do { (ip, s) \<leftarrow> inode_reopen s (dinode d); dir_open mem s ip }"

definition dir_close :: "(nat \<Rightarrow> bool) \<Rightarrow> fsys \<Rightarrow> dir option \<Rightarrow> fsys option" where
  "dir_close mem s d = (case d of None \<Rightarrow> Some s | Some d \<Rightarrow> inode_close mem s (dinode d))"

definition dir_get_inode :: "dir \<Rightarrow> nat" where
  "dir_get_inode d = dinode d"

partial_function (option) lookup_loop ::
    "(nat \<Rightarrow> bool) \<Rightarrow> fsys \<Rightarrow> nat \<Rightarrow> string \<Rightarrow> nat \<Rightarrow> (char list \<times> nat) option option" where
  "lookup_loop mem s ip name ofs = do {
     e \<leftarrow> inode_read_at mem s ip (int sizeof_dir_entry) (int ofs);
     if length e = sizeof_dir_entry then do {
       m \<leftarrow> (if entry_in_use e then streq name (entry_name e) else Some False);
       if m then Some (Some (e, ofs)) else lookup_loop mem s ip name (ofs + sizeof_dir_entry)
     } else Some None
   }"

definition lookup :: "(nat \<Rightarrow> bool) \<Rightarrow> fsys \<Rightarrow> dir \<Rightarrow> string \<Rightarrow> (char list \<times> nat) option option" where
  "lookup mem s d name = lookup_loop mem s (dinode d) name 0"

text \<open>The inode is the result; it is NULL when \<^verbatim>\<open>dir_lookup\<close> returns false.\<close>

definition dir_lookup :: "(nat \<Rightarrow> bool) \<Rightarrow> fsys \<Rightarrow> dir \<Rightarrow> string \<Rightarrow> (nat \<times> fsys) option" where
  "dir_lookup mem s d name = do {
     r \<leftarrow> lookup mem s d name;
     case r of Some (e, _) \<Rightarrow> inode_open mem s (entry_sector e) | None \<Rightarrow> Some (0, s)
   }"

text \<open>The search for a free slot; \<open>e\<close> is the entry in memory, of which a read overwrites a prefix.\<close>

partial_function (option) free_loop :: "(nat \<Rightarrow> bool) \<Rightarrow> fsys \<Rightarrow> nat \<Rightarrow> char list \<Rightarrow> nat \<Rightarrow> (char list \<times> nat) option" where
  "free_loop mem s ip e ofs = do {
     bs \<leftarrow> inode_read_at mem s ip (int sizeof_dir_entry) (int ofs);
     let e = put e 0 bs;
     if length bs = sizeof_dir_entry then
       if \<not> entry_in_use e then Some (e, ofs) else free_loop mem s ip e (ofs + sizeof_dir_entry)
     else Some (e, ofs)
   }"

definition dir_add :: "(nat \<Rightarrow> bool) \<Rightarrow> char list \<Rightarrow> fsys \<Rightarrow> dir \<Rightarrow> string \<Rightarrow> nat \<Rightarrow> (bool \<times> fsys) option" where
  "dir_add mem garbage s d name inode_sector =
     (if name = [] \<or> length name > NAME_MAX then Some (False, s)
      else do {
        r \<leftarrow> lookup mem s d name;
        case r of Some _ \<Rightarrow> Some (False, s)
        | None \<Rightarrow> do {
            (e, ofs) \<leftarrow> free_loop mem s (dinode d) garbage 0;
            let e = set_sector (set_name (set_in_use e True) name) inode_sector;
            (n, s) \<leftarrow> inode_write_at mem s (dinode d) e (int sizeof_dir_entry) (int ofs);
            Some (n = int sizeof_dir_entry, s)
          }
      })"

definition dir_remove :: "(nat \<Rightarrow> bool) \<Rightarrow> fsys \<Rightarrow> dir \<Rightarrow> string \<Rightarrow> (bool \<times> fsys) option" where
  "dir_remove mem s d name = do {
     r \<leftarrow> lookup mem s d name;
     case r of None \<Rightarrow> do { s \<leftarrow> inode_close mem s 0; Some (False, s) }
     | Some (e, ofs) \<Rightarrow> do {
         (ip, s) \<leftarrow> inode_open mem s (entry_sector e);
         if ip = 0 then do { s \<leftarrow> inode_close mem s ip; Some (False, s) }
         else do {
           (n, s) \<leftarrow> inode_write_at mem s (dinode d) (set_in_use e False) (int sizeof_dir_entry) (int ofs);
           if n \<noteq> int sizeof_dir_entry then do { s \<leftarrow> inode_close mem s ip; Some (False, s) }
           else do { s \<leftarrow> inode_remove s ip; s \<leftarrow> inode_close mem s ip; Some (True, s) }
         }
       }
   }"

partial_function (option) readdir_loop :: "(nat \<Rightarrow> bool) \<Rightarrow> fsys \<Rightarrow> dir \<Rightarrow> (string option \<times> dir) option" where
  "readdir_loop mem s d = do {
     e \<leftarrow> inode_read_at mem s (dinode d) (int sizeof_dir_entry) (dpos d);
     if length e = sizeof_dir_entry then do {
       p \<leftarrow> int32 (dpos d + int sizeof_dir_entry);
       let d = d\<lparr>dpos := p\<rparr>;
       if entry_in_use e then do { nm \<leftarrow> c_string (entry_name e); Some (Some nm, d) } else readdir_loop mem s d
     } else Some (None, d)
   }"

definition dir_readdir :: "(nat \<Rightarrow> bool) \<Rightarrow> fsys \<Rightarrow> dir \<Rightarrow> (string option \<times> dir) option" where
  "dir_readdir mem s d = readdir_loop mem s d"

section \<open>The directory as an association list\<close>

definition slots :: "char list \<Rightarrow> char list list" where
  "slots c = map (\<lambda>k. seg c (20 * k) 20) [0..<length c div 20]"

text \<open>An entry in use, as a name and a sector.\<close>

definition ent :: "char list \<Rightarrow> (string \<times> nat) option" where
  "ent e = (if entry_in_use e then Some (the (c_string (entry_name e)), entry_sector e) else None)"

definition dir_ents :: "char list \<Rightarrow> (string \<times> nat) list" where
  "dir_ents c = List.map_filter ent (slots c)"

definition names_ok :: "char list \<Rightarrow> bool" where
  "names_ok c \<longleftrightarrow> (\<forall>e \<in> set (slots c). entry_in_use e \<longrightarrow> c_string (entry_name e) \<noteq> None) \<and> distinct (map fst (dir_ents c))"

definition names :: "string \<Rightarrow> char list \<Rightarrow> bool" where
  "names name e \<longleftrightarrow> (\<exists>n. ent e = Some (name, n))"

lemma length_slots [simp]: "length (slots c) = length c div 20"
  by (simp add: slots_def)

lemma nth_slots: "k < length c div 20 \<Longrightarrow> slots c ! k = seg c (20 * k) 20"
  by (simp add: slots_def)

lemma length_slot: "k < length c div 20 \<Longrightarrow> length (slots c ! k) = 20"
  by (simp add: nth_slots)

lemma map_filter_simps [simp]:
  "List.map_filter f [] = []" "List.map_filter f (x # xs) = (case f x of None \<Rightarrow> List.map_filter f xs | Some y \<Rightarrow> y # List.map_filter f xs)"
  by (simp_all add: List.map_filter_def split: option.split)

lemma map_filter_append [simp]: "List.map_filter f (xs @ ys) = List.map_filter f xs @ List.map_filter f ys"
  by (induction xs) (auto split: option.split)

lemma streq_c_string:
  assumes "cstr name" "c_string buf = Some t"
  shows "streq name buf = Some (name = t)"
  using assms
proof (induction name buf arbitrary: t rule: streq.induct)
  case (3 x xs c cs)
  have x: "x \<noteq> NUL" using 3(2) by simp
  show ?case
  proof (cases "c = NUL")
    case True
    then show ?thesis using 3(3) x by (auto simp: c_string_def)
  next
    case False
    then obtain t' where "c_string cs = Some t'" "t = c # t'" using 3(3) by (auto simp: c_string_def split: if_splits)
    then show ?thesis using 3(1)[of t'] 3(2) by auto
  qed
qed (auto simp: c_string_def split: if_splits)

lemma dir_ents_lookup:
  "map_of (List.map_filter ent es) name = map_option (\<lambda>k. entry_sector (es ! k)) (index_of (names name) es)"
proof (induction es)
  case (Cons e es)
  have "ent e = Some (name, n) \<Longrightarrow> n = entry_sector e" for n by (auto simp: ent_def split: if_splits)
  moreover have "\<not> names name e" if "ent e = None \<or> (\<exists>m n. ent e = Some (m, n) \<and> m \<noteq> name)" using that by (auto simp: names_def)
  ultimately show ?case using Cons by (cases "ent e") (auto simp: names_def option.map_comp comp_def)
qed simp

text \<open>Reading the slots of an open directory \<open>i\<close>.\<close>

definition dir_at :: "fsys \<Rightarrow> nat \<Rightarrow> inode \<Rightarrow> bool" where
  "dir_at s ip i \<longleftrightarrow> inodes s ip = Some i \<and> disk_ok (dev s) \<and> on_disk (dev s) (idata i)"

lemma length_bytes: "dir_at s ip i \<Longrightarrow> length (bytes_of (dev s) (idata i)) < 2147483648"
  by (auto simp: dir_at_def on_disk_def nat_less_iff)

lemma dir_read_slot:
  assumes "dir_at s ip i" "mem 512" "c = bytes_of (dev s) (idata i)" "k \<le> length c div 20"
  shows "inode_read_at mem s ip 20 (int (20 * k)) = Some (seg c (20 * k) 20)"
    "k < length c div 20 \<Longrightarrow> seg c (20 * k) 20 = slots c ! k" "length (seg c (20 * k) 20) = 20 \<longleftrightarrow> k < length c div 20"
proof -
  have l: "20 * k < 2147483648" using assms(4) length_bytes[OF assms(1)] unfolding assms(3) by linarith
  show "inode_read_at mem s ip 20 (int (20 * k)) = Some (seg c (20 * k) 20)"
    using inode_read_ok[where mem = mem and d = "dev s" and i = i and n = 20 and off = "int (20 * k)"] assms(1-3) l
    by (simp add: inode_read_at_def dir_at_def nat_mult_distrib)
  show "k < length c div 20 \<Longrightarrow> seg c (20 * k) 20 = slots c ! k" by (simp add: nth_slots)
  show "length (seg c (20 * k) 20) = 20 \<longleftrightarrow> k < length c div 20"
    using assms(4) by (simp add: seg_def min_def) linarith
qed

lemma match_slot:
  assumes "names_ok c" "k < length c div 20" "cstr name"
  shows "(if entry_in_use (slots c ! k) then streq name (entry_name (slots c ! k)) else Some False) = Some (names name (slots c ! k))"
proof -
  have "slots c ! k \<in> set (slots c)" using assms(2) by simp
  then have "entry_in_use (slots c ! k) \<Longrightarrow> \<exists>t. c_string (entry_name (slots c ! k)) = Some t" using assms(1) unfolding names_ok_def by blast
  then show ?thesis using streq_c_string[OF assms(3)] by (auto simp: names_def ent_def)
qed

lemma lookup_loop_ok:
  assumes "dir_at s ip i" "mem 512" "c = bytes_of (dev s) (idata i)" "names_ok c" "cstr name" "k \<le> length c div 20"
  shows "lookup_loop mem s ip name (20 * k) =
    Some (map_option (\<lambda>j. (slots c ! (k + j), 20 * (k + j))) (index_of (names name) (drop k (slots c))))"
  using assms(6)
proof (induction "length c div 20 - k" arbitrary: k)
  case 0
  then show ?case using dir_read_slot(1,3)[OF assms(1), where mem = mem, OF assms(2,3), of k]
    by (subst lookup_loop.simps) (simp add: sizeof_dir_entry_def)
next
  case (Suc n)
  then have k: "k < length c div 20" by simp
  have r: "inode_read_at mem s ip 20 (int (20 * k)) = Some (slots c ! k)" "length (slots c ! k) = 20"
    using dir_read_slot[OF assms(1), where mem = mem, OF assms(2,3), of k] k by simp_all
  have d: "drop k (slots c) = slots c ! k # drop (Suc k) (slots c)" using k by (simp add: Cons_nth_drop_Suc)
  have "lookup_loop mem s ip name (20 * k + 20) =
      Some (map_option (\<lambda>j. (slots c ! (Suc k + j), 20 * (Suc k + j))) (index_of (names name) (drop (Suc k) (slots c))))"
    using Suc(1)[of "Suc k"] Suc(2) k by (simp add: add.commute)
  then show ?case using r match_slot[OF assms(4) k assms(5)] unfolding d
    by (subst lookup_loop.simps) (simp add: sizeof_dir_entry_def option.map_comp comp_def ac_simps del: of_nat_mult)
qed

lemma lookup_ok:
  assumes "dir_at s (dinode d) i" "mem 512" "c = bytes_of (dev s) (idata i)" "names_ok c" "cstr name"
  shows "lookup mem s d name = Some (map_option (\<lambda>k. (slots c ! k, 20 * k)) (index_of (names name) (slots c)))"
  using lookup_loop_ok[OF assms(1), where mem = mem, OF assms(2-5), of 0] by (simp add: lookup_def)

lemma free_loop_ok:
  assumes "dir_at s ip i" "mem 512" "c = bytes_of (dev s) (idata i)" "k \<le> length c div 20" "length e = 20"
  shows "\<exists>e'. length e' = 20 \<and> free_loop mem s ip e (20 * k) =
    Some (case index_of (\<lambda>e. \<not> entry_in_use e) (drop k (slots c)) of None \<Rightarrow> (e', 20 * (length c div 20)) | Some j \<Rightarrow> (slots c ! (k + j), 20 * (k + j)))"
  using assms(4,5)
proof (induction "length c div 20 - k" arbitrary: k e)
  case 0
  have l: "length (seg c (20 * k) 20) < 20" using dir_read_slot(3)[OF assms(1), where mem = mem, OF assms(2,3), of k] 0 by (simp add: seg_def)
  then show ?case using dir_read_slot(1)[OF assms(1), where mem = mem, OF assms(2,3), of k] 0
    by (intro exI[of _ "put e 0 (seg c (20 * k) 20)"]) (subst free_loop.simps, simp add: sizeof_dir_entry_def)
next
  case (Suc n)
  then have k: "k < length c div 20" by simp
  have r: "inode_read_at mem s ip 20 (int (20 * k)) = Some (slots c ! k)" "length (slots c ! k) = 20"
    using dir_read_slot[OF assms(1), where mem = mem, OF assms(2,3), of k] k by simp_all
  have d: "drop k (slots c) = slots c ! k # drop (Suc k) (slots c)" using k by (simp add: Cons_nth_drop_Suc)
  have n: "n = length c div 20 - Suc k" using Suc(2) by simp
  have p: "put e 0 (slots c ! k) = slots c ! k" using Suc(4) r(2) by (simp add: put_def)
  obtain e' where "length e' = 20" "free_loop mem s ip (slots c ! k) (20 * k + 20) =
      Some (case index_of (\<lambda>e. \<not> entry_in_use e) (drop (Suc k) (slots c)) of None \<Rightarrow> (e', 20 * (length c div 20)) | Some j \<Rightarrow> (slots c ! (Suc k + j), 20 * (Suc k + j)))"
    using Suc(1)[OF n _ r(2)] k by (auto simp: add.commute)
  then show ?case using r p unfolding d
    by (intro exI[of _ e']) (subst free_loop.simps, simp add: sizeof_dir_entry_def Let_def split: option.split del: of_nat_mult)
qed

lemma slots_put:
  assumes "k < length c div 20" "length e = 20"
  shows "slots (put c (20 * k) e) = (slots c)[k := e]"
proof (rule nth_equalityI)
  have l: "20 * k + 20 \<le> length c" using assms(1) by linarith
  then show "length (slots (put c (20 * k) e)) = length ((slots c)[k := e])" using assms(2) by simp
  fix j assume "j < length (slots (put c (20 * k) e))"
  then have j: "j < length c div 20" using l assms(2) by simp
  then have lj: "20 * j + 20 \<le> length c" by linarith
  have "seg (put c (20 * k) e) (20 * j) 20 = (if j = k then e else seg c (20 * j) 20)"
  proof (rule nth_equalityI)
    fix m assume "m < length (seg (put c (20 * k) e) (20 * j) 20)"
    then have m: "m < 20" using l lj assms(2) by simp
    have "20 * k \<le> 20 * j + m \<and> 20 * j + m < 20 * k + 20 \<longleftrightarrow> j = k" using m by linarith
    then show "seg (put c (20 * k) e) (20 * j) 20 ! m = (if j = k then e else seg c (20 * j) 20) ! m"
      using m l lj assms(2) by (auto simp: nth_seg nth_put)
  qed (use l lj assms(2) in auto)
  then show "slots (put c (20 * k) e) ! j = (slots c)[k := e] ! j"
    using j l assms(2) by (auto simp: nth_slots nth_list_update)
qed

section \<open>Changing an entry\<close>

lemma entry_split:
  assumes "length e = 20"
  obtains a b f where "e = a @ b @ [f]" "length a = 4" "length b = 15"
proof
  have "drop 19 e = [e ! 19]" using Cons_nth_drop_Suc[of 19 e] assms by simp
  moreover have "e = take 4 e @ take 15 (drop 4 e) @ drop 19 e"
    using append_take_drop_id[of 4 e] append_take_drop_id[of 15 "drop 4 e"] by simp
  ultimately show "e = take 4 e @ seg e 4 15 @ [e ! 19]" by (simp add: seg_def)
  show "length (take 4 e) = 4" "length (seg e 4 15) = 15" using assms by (simp_all add: seg_def)
qed

lemma entry_parts:
  assumes "length a = 4" "length b = 15"
  shows "entry_name (a @ b @ [f]) = b" "entry_in_use (a @ b @ [f]) \<longleftrightarrow> f \<noteq> NUL"
    "set_in_use (a @ b @ [f]) v = a @ b @ [if v then CHR 0x01 else NUL]"
    "length b' = 15 \<Longrightarrow> put (a @ b @ [f]) 4 b' = a @ b' @ [f]" "set_sector (a @ b @ [f]) n = le32 (word_of_nat n) @ b @ [f]"
  using assms by (simp_all add: entry_name_def entry_in_use_def set_in_use_def set_sector_def put_def seg_def nth_append list_update_append)

lemma strlcpy_ok:
  assumes "length b = 15" "length name \<le> 14" "cstr name"
  shows "length (strlcpy b name 15) = 15" "c_string (strlcpy b name 15) = Some name"
  using assms by (auto simp: strlcpy_def put_def)

lemma new_entry_ok:
  assumes "length e = 20" "length name \<le> 14" "cstr name" "n < 4294967296" "e' = set_sector (set_name (set_in_use e True) name) n"
  shows "length e' = 20" "ent e' = Some (name, n)" "c_string (entry_name e') \<noteq> None"
proof -
  obtain a b f where e: "e = a @ b @ [f]" "length a = 4" "length b = 15" using entry_split[OF assms(1)] by blast
  note s = strlcpy_ok[OF e(3) assms(2,3)]
  have e': "e' = le32 (word_of_nat n) @ strlcpy b name 15 @ [CHR 0x01]"
    using e s(1) unfolding assms(5) set_name_def by (simp add: entry_parts)
  show "length e' = 20" using s(1) by (simp add: e')
  have "entry_name e' = strlcpy b name 15" "entry_in_use e'"
    using entry_parts(1,2)[of "le32 (word_of_nat n)" "strlcpy b name 15" "CHR 0x01"] s(1) unfolding e' by simp_all
  moreover have "entry_sector e' = n" using assms(4) unfolding entry_sector_def e' by (simp add: unsigned_of_nat take_bit_nat_eq_self_iff)
  ultimately show "ent e' = Some (name, n)" "c_string (entry_name e') \<noteq> None" using s(2) by (simp_all add: ent_def)
qed

lemma freed_entry_ok:
  assumes "length e = 20"
  shows "length (set_in_use e False) = 20" "ent (set_in_use e False) = None"
proof -
  obtain a b f where e: "e = a @ b @ [f]" "length a = 4" "length b = 15" using entry_split[OF assms(1)] by blast
  show "length (set_in_use e False) = 20" "ent (set_in_use e False) = None" using e by (simp_all add: entry_parts ent_def)
qed

lemma slots_split:
  assumes "k < length c div 20"
  obtains xs ys where "slots c = xs @ slots c ! k # ys" "length xs = k"
    "\<And>e. length e = 20 \<Longrightarrow> slots (put c (20 * k) e) = xs @ e # ys"
proof
  have k: "k < length (slots c)" using assms by simp
  show "slots c = take k (slots c) @ slots c ! k # drop (Suc k) (slots c)" using k by (simp add: id_take_nth_drop)
  show "length (take k (slots c)) = k" using k by simp
  show "slots (put c (20 * k) e) = take k (slots c) @ e # drop (Suc k) (slots c)" if "length e = 20" for e
    using slots_put[OF assms that] k by (simp add: upd_conv_take_nth_drop)
qed

lemma map_of_middle:
  assumes "name \<notin> fst ` set (as @ bs)"
  shows "map_of (as @ (name, n) # bs) = (map_of (as @ bs))(name \<mapsto> n)" "map_of (as @ bs) = (map_of (as @ (name, n) # bs))(name := None)"
proof -
  show "map_of (as @ (name, n) # bs) = (map_of (as @ bs))(name \<mapsto> n)" using assms by (induction as) auto
  moreover have "map_of (as @ bs) name = None" using assms by (simp only: map_of_eq_None_iff) simp
  ultimately show "map_of (as @ bs) = (map_of (as @ (name, n) # bs))(name := None)" by (simp only: fun_upd_upd) (metis fun_upd_triv)
qed

lemma dir_ents_add:
  assumes "names_ok c" "k < length c div 20" "\<not> entry_in_use (slots c ! k)" "length e = 20" "ent e = Some (name, n)"
    "c_string (entry_name e) \<noteq> None" "map_of (dir_ents c) name = None" "c' = put c (20 * k) e"
  shows "names_ok c'" "map_of (dir_ents c') = (map_of (dir_ents c))(name \<mapsto> n)" "set (dir_ents c') = insert (name, n) (set (dir_ents c))"
    "length (dir_ents c') = Suc (length (dir_ents c))"
    "\<exists>as bs. dir_ents c = as @ bs \<and> dir_ents c' = as @ (name, n) # bs"
proof -
  obtain xs ys where x: "slots c = xs @ slots c ! k # ys" "slots c' = xs @ e # ys"
    using slots_split[OF assms(2)] assms(4,8) by metis
  let ?as = "List.map_filter ent xs" and ?bs = "List.map_filter ent ys"
  have "ent (slots c ! k) = None" using assms(3) by (simp add: ent_def)
  then have d: "dir_ents c = ?as @ ?bs" unfolding dir_ents_def by (subst x(1)) simp
  have d': "dir_ents c' = ?as @ (name, n) # ?bs" using assms(5) by (simp add: dir_ents_def x(2))
  have no: "name \<notin> fst ` set (dir_ents c)" using assms(7) by (simp add: map_of_eq_None_iff)
  have "\<forall>e \<in> set (slots c'). entry_in_use e \<longrightarrow> c_string (entry_name e) \<noteq> None"
    using assms(1,6) x unfolding names_ok_def by (metis Un_iff set_ConsD set_append list.set_intros(2))
  then show "names_ok c'" using assms(1) no unfolding names_ok_def d d' by auto
  show "map_of (dir_ents c') = (map_of (dir_ents c))(name \<mapsto> n)" using no unfolding d d'
    by (rule map_of_middle(1))
  show "set (dir_ents c') = insert (name, n) (set (dir_ents c))" "length (dir_ents c') = Suc (length (dir_ents c))"
    "\<exists>as bs. dir_ents c = as @ bs \<and> dir_ents c' = as @ (name, n) # bs" unfolding d d' by auto
qed

lemma dir_ents_del:
  assumes "names_ok c" "k < length c div 20" "ent (slots c ! k) = Some (name, n)" "length e = 20" "ent e = None" "c' = put c (20 * k) e"
  shows "names_ok c'" "map_of (dir_ents c') = (map_of (dir_ents c))(name := None)"
    "\<exists>as bs. dir_ents c = as @ (name, n) # bs \<and> dir_ents c' = as @ bs"
proof -
  obtain xs ys where x: "slots c = xs @ slots c ! k # ys" "slots c' = xs @ e # ys"
    using slots_split[OF assms(2)] assms(4,6) by metis
  let ?as = "List.map_filter ent xs" and ?bs = "List.map_filter ent ys"
  have d: "dir_ents c = ?as @ (name, n) # ?bs" unfolding dir_ents_def using assms(3) by (subst x(1)) simp
  have d': "dir_ents c' = ?as @ ?bs" using assms(5) by (simp add: dir_ents_def x(2))
  have no: "name \<notin> fst ` set (?as @ ?bs)" using assms(1) unfolding names_ok_def d by auto
  have "\<not> entry_in_use e" using assms(5) by (auto simp: ent_def split: if_splits)
  then have "\<forall>e \<in> set (slots c'). entry_in_use e \<longrightarrow> c_string (entry_name e) \<noteq> None"
    using assms(1) x unfolding names_ok_def by (metis Un_iff set_ConsD set_append list.set_intros(2))
  then show "names_ok c'" using assms(1) unfolding names_ok_def d d' by auto
  show "map_of (dir_ents c') = (map_of (dir_ents c))(name := None)" using no unfolding d d'
    by (rule map_of_middle(2))
  show "\<exists>as bs. dir_ents c = as @ (name, n) # bs \<and> dir_ents c' = as @ bs" unfolding d d' by auto
qed

section \<open>Adding a file\<close>

definition can_add :: "char list \<Rightarrow> string \<Rightarrow> bool" where
  "can_add c name \<longleftrightarrow> name \<noteq> [] \<and> length name \<le> NAME_MAX \<and> map_of (dir_ents c) name = None \<and> (\<exists>e \<in> set (slots c). \<not> entry_in_use e)"

lemma dir_write_slot:
  assumes "dir_at s ip i" "deny_write_cnt i = 0" "mem 512" "c = bytes_of (dev s) (idata i)" "k < length c div 20" "length e = 20"
  shows "\<exists>d'. inode_write_at mem s ip e 20 (int (20 * k)) = Some (20, s\<lparr>dev := d'\<rparr>) \<and> bytes_of d' (idata i) = put c (20 * k) e \<and>
    only (data_extent (idata i)) (dev s) d'"
proof -
  have l: "20 * k + 20 \<le> length c" using assms(5) by linarith
  then have o: "int (20 * k) < 2147483648" using length_bytes[OF assms(1)] unfolding assms(4) by linarith
  have m: "20 = min (nat 20) (nat (ilength (idata i)) - nat (int (20 * k)))" using l assms(4) by (simp add: nat_mult_distrib)
  show ?thesis using inode_write_ok[where mem = mem, OF _ _ assms(3) _ o _ assms(2) m, of "dev s" e] assms(1,4,6)
    by (auto simp: dir_at_def inode_write_at_def nat_mult_distrib)
qed

lemma dir_add_ok:
  assumes "dir_at s (dinode d) i" "deny_write_cnt i = 0" "mem 512" "c = bytes_of (dev s) (idata i)" "names_ok c" "cstr name"
    "length garbage = 20" "n < 4294967296" "20 dvd length c"
  shows "\<exists>d'. dir_add mem garbage s d name n = Some (can_add c name, s\<lparr>dev := d'\<rparr>) \<and> only (data_extent (idata i)) (dev s) d' \<and>
    (if can_add c name then names_ok (bytes_of d' (idata i)) \<and>
         map_of (dir_ents (bytes_of d' (idata i))) = (map_of (dir_ents c))(name \<mapsto> n) \<and>
         (\<exists>as bs. dir_ents c = as @ bs \<and> dir_ents (bytes_of d' (idata i)) = as @ (name, n) # bs)
     else d' = dev s)"
proof -
  have dk: "disk_ok (dev s)" using assms(1) by (simp add: dir_at_def)
  have lk: "lookup mem s d name = Some (map_option (\<lambda>k. (slots c ! k, 20 * k)) (index_of (names name) (slots c)))"
    using lookup_ok[OF assms(1), where mem = mem, OF assms(3-6)] .
  have mo: "map_of (dir_ents c) name = map_option (\<lambda>k. entry_sector (slots c ! k)) (index_of (names name) (slots c))"
    unfolding dir_ents_def by (rule dir_ents_lookup)
  consider "name = [] \<or> length name > NAME_MAX" | "\<not> (name = [] \<or> length name > NAME_MAX)" "index_of (names name) (slots c) \<noteq> None"
    | "\<not> (name = [] \<or> length name > NAME_MAX)" "index_of (names name) (slots c) = None" by blast
  then show ?thesis
  proof cases
    case 1
    then show ?thesis using only_refl[OF dk] by (intro exI[of _ "dev s"]) (auto simp: dir_add_def can_add_def)
  next
    case 2
    then show ?thesis using lk mo only_refl[OF dk] by (intro exI[of _ "dev s"]) (auto simp: dir_add_def can_add_def)
  next
    case 3
    let ?f = "index_of (\<lambda>e. \<not> entry_in_use e) (slots c)"
    obtain e0 where e0: "length e0 = 20"
      "free_loop mem s (dinode d) garbage 0 = Some (case ?f of None \<Rightarrow> (e0, 20 * (length c div 20)) | Some j \<Rightarrow> (slots c ! j, 20 * j))"
      using free_loop_ok[OF assms(1), where mem = mem, OF assms(3,4), of 0 garbage] assms(7) unfolding drop_0 add_0 mult_0_right by blast
    have ca: "can_add c name \<longleftrightarrow> ?f \<noteq> None" using 3 mo by (auto simp: can_add_def index_of_None)
    show ?thesis
    proof (cases ?f)
      case None
      have eof: "20 * (length c div 20) = length c" using assms(9) by simp
      have "inode_write_at mem s (dinode d) e 20 (int (length c)) = Some (0, s)" for e
        using inode_write_eof[of "dev s" i "int (length c)" mem e 20] assms(1,4)
        by (simp add: inode_write_at_def dir_at_def on_disk_def)
      then show ?thesis using None 3 lk e0(2) ca only_refl[OF dk] eof
        by (intro exI[of _ "dev s"]) (simp add: dir_add_def sizeof_dir_entry_def Let_def)
    next
      case (Some k)
      have k: "k < length c div 20" "\<not> entry_in_use (slots c ! k)" using Some by (auto simp: index_of_Some)
      let ?e = "set_sector (set_name (set_in_use (slots c ! k) True) name) n"
      note e = new_entry_ok[OF length_slot[OF k(1)] _ assms(6,8) refl]
      have nm: "length name \<le> 14" using 3 by (simp add: NAME_MAX_def)
      obtain d' where d': "inode_write_at mem s (dinode d) ?e 20 (int (20 * k)) = Some (20, s\<lparr>dev := d'\<rparr>)"
        "bytes_of d' (idata i) = put c (20 * k) ?e" "only (data_extent (idata i)) (dev s) d'"
        using dir_write_slot[OF assms(1), where mem = mem, OF assms(2-4) k(1) e(1)[OF nm]] by blast
      have "dir_add mem garbage s d name n = Some (True, s\<lparr>dev := d'\<rparr>)"
        using 3 lk e0(2) Some d'(1) by (simp add: dir_add_def sizeof_dir_entry_def Let_def del: of_nat_mult)
      then show ?thesis using dir_ents_add[OF assms(5) k e(1)[OF nm] e(2)[OF nm] e(3)[OF nm] _ d'(2)] mo 3 ca Some d'(3) by auto
    qed
  qed
qed

end
