(* ===== verification/FsLayout.thy ===== *)
theory FsLayout
  imports FsDir
begin

text \<open>
  What a disk and a free map look like between the operations of the file system. The ranges of
  sectors that hold the inodes and the data of the files, of the root directory and of the free map do
  not overlap and are marked as used, names are distinct, and the free map on the disk is the one in
  memory (\<open>fs_wf\<close>). Such a disk is a map \<open>fs_map\<close> from names to contents. The lemmas say how each kind of
  change of the disk changes the map: of sectors outside the files, of the data of one file, and of the
  root directory.
\<close>

section \<open>The invariant\<close>

abbreviation file_inode :: "block \<Rightarrow> nat \<Rightarrow> inode_disk" where
  "file_inode d n \<equiv> inode_of_image (data d n)"

definition dx :: "inode_disk \<Rightarrow> nat \<times> nat" where
  "dx i = (istart i, sectors_for (nat (ilength i)))"

definition ents :: "block \<Rightarrow> (string \<times> nat) list" where
  "ents d = dir_ents (bytes_of d (file_inode d 1))"

definition obj :: "block \<Rightarrow> nat \<Rightarrow> (nat \<times> nat) list" where
  "obj d n = [(n, 1), dx (file_inode d n)]"

text \<open>The ranges of sectors in use: the free map, the root directory and the files.\<close>

definition layout :: "block \<Rightarrow> nat list \<Rightarrow> (nat \<times> nat) list" where
  "layout d ns = concat (map (obj d) (0 # 1 # ns))"

definition fs_wf :: "block \<Rightarrow> bitmap \<Rightarrow> bool" where
  "fs_wf d b \<longleftrightarrow> disk_ok d \<and> bm_ok b \<and> length (bits b) = elem_cnt (bit_cnt b) \<and> bit_cnt b = bsize d \<and>
     ilength (file_inode d 0) = int (byte_cnt (bit_cnt b)) \<and> 20 dvd nat (ilength (file_inode d 1)) \<and>
     names_ok (bytes_of d (file_inode d 1)) \<and>
     (\<forall>n \<in> set (0 # 1 # map snd (ents d)). n < bsize d \<and> on_disk d (file_inode d n) \<and> ilength (file_inode d n) \<le> 2147483135) \<and>
     apart (layout d (map snd (ents d))) \<and> extents (layout d (map snd (ents d))) \<subseteq> used_bits b \<and> saved d (file_inode d 0) b"

definition fs_map :: "block \<Rightarrow> string \<Rightarrow> char list option" where
  "fs_map d name = map_option (\<lambda>n. bytes_of d (file_inode d n)) (map_of (ents d) name)"

text \<open>No file is open but the free map.\<close>

definition fm_inode :: "block \<Rightarrow> inode" where
  "fm_inode d = \<lparr>isector = 0, open_cnt = 1, removed = False, deny_write_cnt = 0, idata = file_inode d 0\<rparr>"

definition quiet :: "fsys \<Rightarrow> bool" where
  "quiet s \<longleftrightarrow> (\<exists>a f p. inodes s = [a \<mapsto> fm_inode (dev s)] \<and> open_inodes s = [a] \<and> files s = [f \<mapsto> \<lparr>finode = a, fpos = p, fdeny = False\<rparr>] \<and>
     free_map_file s = f \<and> 0 < a \<and> 0 < f \<and> a < next_addr s \<and> f < next_addr s)"

definition fs_ok :: "fsys \<Rightarrow> bool" where
  "fs_ok s \<longleftrightarrow> quiet s \<and> fs_wf (dev s) (free_map s)"

definition enough :: "(nat \<Rightarrow> bool) \<Rightarrow> bool" where
  "enough mem \<longleftrightarrow> mem 512 \<and> mem sizeof_inode \<and> mem sizeof_file \<and> mem sizeof_dir"

lemma extent_dx [simp]: "extent (dx i) = data_extent i"
  by (simp add: dx_def)

lemma extent_one [simp]: "extent (n, 1) = {n}" "extent (n, Suc 0) = {n}"
  by (auto simp: extent_def)

lemma extents_obj [simp]: "extents (obj d n) = insert n (data_extent (file_inode d n))"
  by (simp add: obj_def)

lemma extents_layout: "extents (layout d ns) = (\<Union>n \<in> {0, 1} \<union> set ns. extents (obj d n))"
  by (auto simp: layout_def extents_def)

lemma layout_append: "layout d (as @ bs) = layout d as @ concat (map (obj d) bs)"
  by (simp add: layout_def)

text \<open>Two inodes of the layout do not overlap.\<close>

lemma apart_objs:
  assumes "apart (concat (map (obj d) ns))" "distinct ns" "m \<in> set ns" "n \<in> set ns" "m \<noteq> n"
  shows "extents (obj d m) \<inter> extents (obj d n) = {}"
  using assms
proof (induction ns)
  case (Cons k ns)
  have u: "extents (concat (map (obj d) ns)) = (\<Union>n \<in> set ns. extents (obj d n))" by (auto simp: extents_def)
  have a: "extents (obj d k) \<inter> (\<Union>n \<in> set ns. extents (obj d n)) = {}" "apart (concat (map (obj d) ns))"
    using Cons.prems(1) u by (auto simp: apart_append)
  then show ?case using Cons.IH[OF a(2)] Cons.prems(2-5) by (cases "m = k"; cases "n = k") auto
qed simp

lemma apart_obj: "apart (obj d n) \<longleftrightarrow> n \<notin> data_extent (file_inode d n)"
  by (auto simp: obj_def apart_Cons)

lemma apart_distinct: "apart (concat (map (obj d) ns)) \<Longrightarrow> distinct ns"
proof (induction ns)
  case (Cons k ns)
  have "extents (obj d k) \<inter> extents (concat (map (obj d) ns)) = {}" using Cons.prems by (auto simp: apart_append)
  moreover have "k \<in> extents (obj d k)" by simp
  moreover have "k \<in> set ns \<Longrightarrow> k \<in> extents (concat (map (obj d) ns))" by (force simp: extents_def obj_def)
  ultimately show ?case using Cons by (auto simp: apart_append)
qed simp

lemma apart_member: "apart (concat (map (obj d) ns)) \<Longrightarrow> n \<in> set ns \<Longrightarrow> n \<notin> data_extent (file_inode d n)"
  by (induction ns) (auto simp: apart_append apart_obj)

abbreviation objs :: "block \<Rightarrow> nat list" where
  "objs d \<equiv> 0 # 1 # map snd (ents d)"

lemma fs_wf_apart:
  assumes "fs_wf d b" "m \<in> set (objs d)" "n \<in> set (objs d)" "m \<noteq> n"
  shows "extents (obj d m) \<inter> extents (obj d n) = {}"
proof -
  have "apart (concat (map (obj d) (objs d)))" using assms(1) by (simp add: fs_wf_def layout_def)
  from apart_objs[OF this apart_distinct[OF this] assms(2-4)] show ?thesis .
qed

lemma fs_wf_own: "fs_wf d b \<Longrightarrow> n \<in> set (objs d) \<Longrightarrow> n \<notin> data_extent (file_inode d n)"
  using apart_member[of d "objs d" n] by (simp add: fs_wf_def layout_def)

lemma fs_wf_used: "fs_wf d b \<Longrightarrow> n \<in> set (objs d) \<Longrightarrow> extents (obj d n) \<subseteq> used_bits b"
  unfolding fs_wf_def extents_layout by auto

lemma fs_wf_obj: "fs_wf d b \<Longrightarrow> n \<in> set (objs d) \<Longrightarrow> n < bsize d \<and> on_disk d (file_inode d n) \<and> ilength (file_inode d n) \<le> 2147483135"
  unfolding fs_wf_def by blast

lemma fs_wf_distinct: "fs_wf d b \<Longrightarrow> distinct (objs d)"
  using apart_distinct[of d "objs d"] by (simp only: fs_wf_def layout_def)

lemma fs_wf_inj:
  assumes "fs_wf d b" "(m, k) \<in> set (ents d)" "(m', k) \<in> set (ents d)"
  shows "m' = m"
proof -
  have "inj_on snd (set (ents d))" using fs_wf_distinct[OF assms(1)] by (simp add: distinct_map)
  from inj_onD[OF this, of "(m', k)" "(m, k)"] show ?thesis using assms(2,3) by simp
qed

lemma used_bits_less: "x \<in> used_bits b \<Longrightarrow> x < bit_cnt b"
  by (simp add: used_bits_def)

text \<open>Changes to the disk that leave an object alone.\<close>

lemma only_obj:
  assumes "only X d d'" "n \<notin> X"
  shows "file_inode d' n = file_inode d n" "obj d' n = obj d n"
  using assms by (simp_all add: only_def obj_def)

lemma only_ents:
  assumes "only X d d'" "X \<inter> extents (obj d 1) = {}"
  shows "ents d' = ents d" "bytes_of d' (file_inode d' 1) = bytes_of d (file_inode d 1)"
proof -
  have "1 \<notin> X" "X \<inter> data_extent (file_inode d 1) = {}" using assms(2) by auto
  then show "bytes_of d' (file_inode d' 1) = bytes_of d (file_inode d 1)" using only_obj(1)[OF assms(1)] only_bytes[OF assms(1)] by simp
  then show "ents d' = ents d" by (simp add: ents_def)
qed

lemma layout_cong: "(\<And>n. n \<in> set (0 # 1 # ns) \<Longrightarrow> file_inode d' n = file_inode d n) \<Longrightarrow> layout d' ns = layout d ns"
  unfolding layout_def by (metis (no_types, lifting) map_cong obj_def)

text \<open>Whatever changes only the contents of the free map and unused sectors keeps the files.\<close>

lemma fs_wf_frame:
  assumes "fs_wf d b" "only X d d'" "0 \<notin> X" "\<And>n. n \<in> set (1 # map snd (ents d)) \<Longrightarrow> X \<inter> extents (obj d n) = {}"
    "bm_ok b'" "length (bits b') = elem_cnt (bit_cnt b')" "bit_cnt b' = bit_cnt b" "saved d' (file_inode d 0) b'"
    "extents (layout d (map snd (ents d))) \<subseteq> used_bits b'"
  shows "fs_wf d' b'" "fs_map d' = fs_map d" "ents d' = ents d" "\<And>n. n \<in> set (objs d) \<Longrightarrow> file_inode d' n = file_inode d n"
proof -
  have e: "ents d' = ents d" "bytes_of d' (file_inode d' 1) = bytes_of d (file_inode d 1)" using only_ents[OF assms(2)] assms(4)[of 1] by simp_all
  have n: "n \<notin> X" if "n \<in> set (objs d)" for n using that assms(3,4) by auto
  then have i: "file_inode d' n = file_inode d n" if "n \<in> set (objs d)" for n using that only_obj(1)[OF assms(2)] by blast
  then show "\<And>n. n \<in> set (objs d) \<Longrightarrow> file_inode d' n = file_inode d n" by blast
  have l: "layout d' (map snd (ents d)) = layout d (map snd (ents d))" by (rule layout_cong) (rule i)
  have o: "on_disk d' j = on_disk d j" "bsize d' = bsize d" "disk_ok d'" for j using only_on_disk[OF assms(2)] assms(2) by (simp_all add: only_def)
  show "ents d' = ents d" by (rule e(1))
  have i0: "file_inode d' 0 = file_inode d 0" "file_inode d' 1 = file_inode d 1" using i[of 0] i[of 1] by simp_all
  have "\<forall>n \<in> set (0 # 1 # map snd (ents d')). n < bsize d' \<and> on_disk d' (file_inode d' n) \<and> ilength (file_inode d' n) \<le> 2147483135"
    using fs_wf_obj[OF assms(1)] i o e(1) by metis
  then show "fs_wf d' b'" using assms(1,5-9) l o e i0 unfolding fs_wf_def by metis
  have "bytes_of d' (file_inode d' n) = bytes_of d (file_inode d n)" if "n \<in> set (map snd (ents d))" for n
    using i[of n] that assms(4)[of n] only_bytes[OF assms(2), of "file_inode d n"] by auto
  then show "fs_map d' = fs_map d" unfolding fs_map_def e(1) by (intro ext option.map_cong refl) (force dest: map_of_SomeD)
qed

text \<open>Writing to a file changes its contents and nothing else.\<close>

lemma fs_wf_write:
  assumes "fs_wf d b" "map_of (ents d) name = Some n" "only (data_extent (file_inode d n)) d d'"
  shows "fs_wf d' b" "fs_map d' = (fs_map d)(name \<mapsto> bytes_of d' (file_inode d n))" "file_inode d' n = file_inode d n" "file_inode d' 0 = file_inode d 0"
proof -
  have m: "(name, n) \<in> set (ents d)" using assms(2) by (rule map_of_SomeD)
  then have n: "n \<in> set (map snd (ents d))" "n \<in> set (objs d)" by force+
  let ?X = "data_extent (file_inode d n)"
  have nX: "k \<notin> ?X" if "k \<in> set (objs d)" for k
    using that fs_wf_own[OF assms(1) n(2)] fs_wf_apart[OF assms(1) that n(2)] by (cases "k = n") auto
  have i: "file_inode d' k = file_inode d k" if "k \<in> set (objs d)" for k using that only_obj(1)[OF assms(3)] nX by blast
  have dis: "?X \<inter> data_extent (file_inode d k) = {}" if "k \<in> set (objs d)" "k \<noteq> n" for k
    using fs_wf_apart[OF assms(1) n(2) that(1)] that(2) by auto
  have "0 \<notin> set (map snd (ents d))" "1 \<notin> set (map snd (ents d))" using fs_wf_distinct[OF assms(1)] by simp_all
  then have n01: "n \<noteq> 0" "n \<noteq> 1" using n(1) by metis+
  have e: "ents d' = ents d" "bytes_of d' (file_inode d' 1) = bytes_of d (file_inode d 1)"
    using only_ents[OF assms(3)] dis[of 1] nX[of 1] n01 by simp_all
  have l: "layout d' (map snd (ents d)) = layout d (map snd (ents d))" by (rule layout_cong) (rule i)
  have o: "on_disk d' j = on_disk d j" "bsize d' = bsize d" "disk_ok d'" for j using only_on_disk[OF assms(3)] assms(3) by (simp_all add: only_def)
  have i0: "file_inode d' 0 = file_inode d 0" "file_inode d' 1 = file_inode d 1" using i[of 0] i[of 1] by simp_all
  then show "file_inode d' 0 = file_inode d 0" by simp
  have sv: "saved d' (file_inode d 0) b"
    using saved_only[OF _ assms(3)] dis[of 0] n01 assms(1) by (simp add: fs_wf_def)
  have "\<forall>k \<in> set (0 # 1 # map snd (ents d')). k < bsize d' \<and> on_disk d' (file_inode d' k) \<and> ilength (file_inode d' k) \<le> 2147483135"
    using fs_wf_obj[OF assms(1)] i o e(1) by metis
  then show "fs_wf d' b" using assms(1) l o e i0 sv unfolding fs_wf_def by metis
  show inn: "file_inode d' n = file_inode d n" using i n(2) by blast
  show "fs_map d' = (fs_map d)(name \<mapsto> bytes_of d' (file_inode d n))"
  proof
    fix nm
    show "fs_map d' nm = ((fs_map d)(name \<mapsto> bytes_of d' (file_inode d n))) nm"
    proof (cases "map_of (ents d) nm")
      case None
      then show ?thesis using assms(2) e(1) by (auto simp: fs_map_def)
    next
      case (Some k)
      have k: "(nm, k) \<in> set (ents d)" using Some by (rule map_of_SomeD)
      then have ko: "k \<in> set (objs d)" by force
      have "k \<noteq> n" if "nm \<noteq> name" using fs_wf_inj[OF assms(1) k] m that by blast
      then show ?thesis using Some assms(2) e(1) inn i[OF ko] only_bytes[OF assms(3) dis[OF ko]] by (auto simp: fs_map_def)
    qed
  qed
qed

text \<open>A change of the root directory to the files \<open>ents d'\<close>.\<close>

lemma fs_wf_root:
  assumes "fs_wf d b" "only (data_extent (file_inode d 1)) d d'" "names_ok (bytes_of d' (file_inode d 1))" "ns = map snd (ents d')"
    "\<forall>n \<in> set ns. n < bsize d \<and> on_disk d (file_inode d n) \<and> ilength (file_inode d n) \<le> 2147483135"
    "apart (layout d ns)" "extents (layout d ns) \<subseteq> used_bits b"
  shows "fs_wf d' b" "fs_map d' = (\<lambda>nm. map_option (\<lambda>n. bytes_of d (file_inode d n)) (map_of (ents d') nm))"
    "\<And>n. n \<notin> data_extent (file_inode d 1) \<Longrightarrow> file_inode d' n = file_inode d n" "file_inode d' 0 = file_inode d 0" "file_inode d' 1 = file_inode d 1"
proof -
  let ?X = "data_extent (file_inode d 1)"
  have ap: "apart (concat (map (obj d) (0 # 1 # ns)))" using assms(6) by (simp add: layout_def)
  have X: "?X \<inter> extents (obj d n) = {}" if "n \<in> set (0 # ns)" for n
  proof -
    have "n \<noteq> 1" using apart_distinct[OF ap] that by auto
    then show ?thesis using apart_objs[OF ap apart_distinct[OF ap], of 1 n] that by auto
  qed
  have one: "1 \<notin> ?X" using apart_member[OF ap, of 1] by simp
  show i: "\<And>n. n \<notin> ?X \<Longrightarrow> file_inode d' n = file_inode d n" by (rule only_obj(1)[OF assms(2)])
  have nX: "n \<notin> ?X" if "n \<in> set (0 # 1 # ns)" for n using X[of n] one that by (cases "n = 1") auto
  show i0: "file_inode d' 0 = file_inode d 0" and i1: "file_inode d' 1 = file_inode d 1" using i nX by simp_all
  have l: "layout d' ns = layout d ns" by (rule layout_cong) (use i nX in blast)
  have o: "on_disk d' j = on_disk d j" "bsize d' = bsize d" "disk_ok d'" for j using only_on_disk[OF assms(2)] assms(2) by (simp_all add: only_def)
  have sv: "saved d' (file_inode d 0) b" using saved_only[OF _ assms(2)] X[of 0] assms(1) by (simp add: fs_wf_def)
  have "\<forall>n \<in> set (0 # 1 # map snd (ents d')). n < bsize d' \<and> on_disk d' (file_inode d' n) \<and> ilength (file_inode d' n) \<le> 2147483135"
  proof
    fix n assume n: "n \<in> set (0 # 1 # map snd (ents d'))"
    then have "n < bsize d \<and> on_disk d (file_inode d n) \<and> ilength (file_inode d n) \<le> 2147483135"
      using assms(5) fs_wf_obj[OF assms(1), of n] by (auto simp: assms(4))
    then show "n < bsize d' \<and> on_disk d' (file_inode d' n) \<and> ilength (file_inode d' n) \<le> 2147483135"
      using i nX n o by (simp add: assms(4))
  qed
  then show "fs_wf d' b" using assms(1,3,6,7) l o i0 i1 sv unfolding fs_wf_def assms(4) by simp
  have "bytes_of d' (file_inode d' n) = bytes_of d (file_inode d n)" if "n \<in> set ns" for n
    using i[of n] nX[of n] X[of n] that only_bytes[OF assms(2), of "file_inode d n"] by auto
  then show "fs_map d' = (\<lambda>nm. map_option (\<lambda>n. bytes_of d (file_inode d n)) (map_of (ents d') nm))"
    unfolding fs_map_def assms(4) by (intro ext option.map_cong refl) (force dest: map_of_SomeD)
qed

lemma apart_insert: "apart (as @ bs) \<Longrightarrow> apart xs \<Longrightarrow> extents xs \<inter> extents (as @ bs) = {} \<Longrightarrow> apart (as @ xs @ bs)"
  by (auto simp: apart_append)

lemma apart_drop: "apart (as @ xs @ bs) \<Longrightarrow> apart (as @ bs)"
  by (auto simp: apart_append)

lemma fs_wf_add:
  assumes "fs_wf d b" "only (data_extent (file_inode d 1)) d d'" "names_ok (bytes_of d' (file_inode d 1))"
    "ents d = as @ bs" "ents d' = as @ (name, sec) # bs" "map_of (ents d') = (map_of (ents d))(name \<mapsto> sec)"
    "sec < bsize d" "on_disk d (file_inode d sec)" "ilength (file_inode d sec) \<le> 2147483135"
    "sec \<notin> data_extent (file_inode d sec)" "extents (obj d sec) \<inter> extents (layout d (map snd (ents d))) = {}" "extents (obj d sec) \<subseteq> used_bits b"
  shows "fs_wf d' b" "fs_map d' = (fs_map d)(name \<mapsto> bytes_of d (file_inode d sec))"
    "file_inode d' 0 = file_inode d 0" "file_inode d' 1 = file_inode d 1"
proof -
  let ?l = "\<lambda>xs. concat (map (obj d) xs)"
  have l: "layout d (map snd (ents d)) = ?l (0 # 1 # map snd as) @ ?l (map snd bs)"
    "layout d (map snd (ents d')) = ?l (0 # 1 # map snd as) @ obj d sec @ ?l (map snd bs)" by (simp_all add: layout_def assms(4,5))
  have "apart (?l (0 # 1 # map snd as) @ ?l (map snd bs))" "apart (obj d sec)"
    using assms(1,10) unfolding fs_wf_def l(1) apart_obj by blast+
  then have ap: "apart (layout d (map snd (ents d')))" unfolding l(2)
    by (rule apart_insert) (use assms(11) in \<open>simp only: l(1)\<close>)
  have us: "extents (layout d (map snd (ents d'))) \<subseteq> used_bits b"
    using assms(1,12) unfolding fs_wf_def l by auto
  have ob: "\<forall>n \<in> set (map snd (ents d')). n < bsize d \<and> on_disk d (file_inode d n) \<and> ilength (file_inode d n) \<le> 2147483135"
    using fs_wf_obj[OF assms(1)] assms(7-9) by (auto simp: assms(4,5))
  note r = fs_wf_root[OF assms(1-3) refl ob ap us]
  show "fs_wf d' b" "file_inode d' 0 = file_inode d 0" "file_inode d' 1 = file_inode d 1" using r(1,4,5) by blast+
  show "fs_map d' = (fs_map d)(name \<mapsto> bytes_of d (file_inode d sec))" unfolding r(2) assms(6) by (auto simp: fs_map_def fun_eq_iff)
qed

lemma fs_wf_del:
  assumes "fs_wf d b" "only (data_extent (file_inode d 1)) d d'" "names_ok (bytes_of d' (file_inode d 1))"
    "ents d = as @ (name, n) # bs" "ents d' = as @ bs" "map_of (ents d') = (map_of (ents d))(name := None)"
  shows "fs_wf d' b" "fs_map d' = (fs_map d)(name := None)" "file_inode d' n = file_inode d n"
    "file_inode d' 0 = file_inode d 0" "file_inode d' 1 = file_inode d 1"
    "extents (obj d' n) \<inter> extents (layout d' (map snd (ents d'))) = {}"
proof -
  let ?l = "\<lambda>xs. concat (map (obj d) xs)"
  have l: "layout d (map snd (ents d)) = ?l (0 # 1 # map snd as) @ obj d n @ ?l (map snd bs)"
    "layout d (map snd (ents d')) = ?l (0 # 1 # map snd as) @ ?l (map snd bs)" by (simp_all add: layout_def assms(4,5))
  have ap0: "apart (?l (0 # 1 # map snd as) @ obj d n @ ?l (map snd bs))" using assms(1) unfolding fs_wf_def l(1) by blast
  have ap: "apart (layout d (map snd (ents d')))" using apart_drop[OF ap0] by (simp only: l(2))
  have us: "extents (layout d (map snd (ents d'))) \<subseteq> used_bits b" using assms(1) unfolding fs_wf_def l by auto
  have ob: "\<forall>k \<in> set (map snd (ents d')). k < bsize d \<and> on_disk d (file_inode d k) \<and> ilength (file_inode d k) \<le> 2147483135"
    using fs_wf_obj[OF assms(1)] by (auto simp: assms(4,5))
  note r = fs_wf_root[OF assms(1-3) refl ob ap us]
  show "fs_wf d' b" "file_inode d' 0 = file_inode d 0" "file_inode d' 1 = file_inode d 1" using r(1,4,5) by blast+
  show "fs_map d' = (fs_map d)(name := None)" unfolding r(2) assms(6) by (auto simp: fs_map_def fun_eq_iff)
  have n: "n \<in> set (objs d)" "1 \<in> set (objs d)" by (simp_all add: assms(4))
  have "n \<noteq> 1" using fs_wf_distinct[OF assms(1)] by (auto simp: assms(4))
  then have nX: "n \<notin> data_extent (file_inode d 1)" using fs_wf_apart[OF assms(1) n] by auto
  then show i: "file_inode d' n = file_inode d n" by (rule r(3))
  have nk: "k \<notin> data_extent (file_inode d 1)" if "k \<in> set (objs d)" for k
    using fs_wf_own[OF assms(1) n(2)] fs_wf_apart[OF assms(1) that n(2)] by (cases "k = 1") auto
  have "layout d' (map snd (ents d')) = layout d (map snd (ents d'))"
    by (rule layout_cong, rule r(3), rule nk) (auto simp: assms(4,5))
  moreover have "obj d' n = obj d n" using i by (simp add: obj_def)
  ultimately show "extents (obj d' n) \<inter> extents (layout d' (map snd (ents d'))) = {}"
    using ap0 by (auto simp: l(2) apart_append)
qed

end
