(* ===== verification/Filesys.thy ===== *)
theory Filesys
  imports FsLayout
begin

text \<open>
  The file system as its clients see it, \<^verbatim>\<open>filesys/filesys.c\<close>, on top of directories, files, inodes and the
  free map. Creating, removing, reading and writing by name are the operations on the map from names to
  contents: other files are not touched, and the map survives a reboot.
\<close>

section \<open>Operations\<close>

definition do_format :: "(nat \<Rightarrow> bool) \<Rightarrow> fsys \<Rightarrow> fsys option" where
  "do_format mem s = do {
     s \<leftarrow> free_map_create mem s;
     (ok, s) \<leftarrow> dir_create mem s ROOT_DIR_SECTOR 16;
     assert ok;
     free_map_close mem s
   }"

definition filesys_init :: "(nat \<Rightarrow> bool) \<Rightarrow> (nat \<Rightarrow> 32 word) \<Rightarrow> fsys \<Rightarrow> bool \<Rightarrow> fsys option" where
  "filesys_init mem garbage s format = do {
     let s = s\<lparr>open_inodes := []\<rparr>;
     s \<leftarrow> free_map_init mem garbage s;
     s \<leftarrow> (if format then do_format mem s else Some s);
     free_map_open mem s
   }"

definition filesys_done :: "(nat \<Rightarrow> bool) \<Rightarrow> fsys \<Rightarrow> fsys option" where
  "filesys_done mem s = free_map_close mem s"

definition filesys_create :: "(nat \<Rightarrow> bool) \<Rightarrow> char list \<Rightarrow> fsys \<Rightarrow> string \<Rightarrow> int \<Rightarrow> (bool \<times> fsys) option" where
  "filesys_create mem garbage s name initial_size = do {
     (dir, s) \<leftarrow> dir_open_root mem s;
     (success, inode_sector, s) \<leftarrow> (case dir of None \<Rightarrow> Some (False, 0, s)
       | Some d \<Rightarrow> do {
           (r, s) \<leftarrow> free_map_allocate mem s 1;
           case r of None \<Rightarrow> Some (False, 0, s)
           | Some sector \<Rightarrow> do {
               (ok, s) \<leftarrow> inode_create mem s sector initial_size;
               if \<not> ok then Some (False, sector, s)
               else do { (ok, s) \<leftarrow> dir_add mem garbage s d name sector; Some (ok, sector, s) }
             }
         });
     s \<leftarrow> (if \<not> success \<and> inode_sector \<noteq> 0 then free_map_release mem s inode_sector 1 else Some s);
     s \<leftarrow> dir_close mem s dir;
     Some (success, s)
   }"

definition filesys_open :: "(nat \<Rightarrow> bool) \<Rightarrow> fsys \<Rightarrow> string \<Rightarrow> (nat \<times> fsys) option" where
  "filesys_open mem s name = do {
     (dir, s) \<leftarrow> dir_open_root mem s;
     (ip, s) \<leftarrow> (case dir of None \<Rightarrow> Some (0, s) | Some d \<Rightarrow> dir_lookup mem s d name);
     s \<leftarrow> dir_close mem s dir;
     file_open mem s ip
   }"

definition filesys_remove :: "(nat \<Rightarrow> bool) \<Rightarrow> fsys \<Rightarrow> string \<Rightarrow> (bool \<times> fsys) option" where
  "filesys_remove mem s name = do {
     (dir, s) \<leftarrow> dir_open_root mem s;
     (success, s) \<leftarrow> (case dir of None \<Rightarrow> Some (False, s) | Some d \<Rightarrow> dir_remove mem s d name);
     s \<leftarrow> dir_close mem s dir;
     Some (success, s)
   }"

section \<open>Opening the root directory and closing it again\<close>

lemma quiet_fm:
  assumes "fs_ok s"
  shows "fm_ok s (fm_inode (dev s))" "inodes s (next_addr s) = None" "next_addr s \<noteq> 0" "not_open s n \<longleftrightarrow> n \<noteq> 0"
    "next_addr s \<notin> set (open_inodes s)" "files s (next_addr s) = None"
proof -
  obtain a f p where q: "inodes s = [a \<mapsto> fm_inode (dev s)]" "open_inodes s = [a]" "files s = [f \<mapsto> \<lparr>finode = a, fpos = p, fdeny = False\<rparr>]"
    "free_map_file s = f" "0 < a" "0 < f" "a < next_addr s" "f < next_addr s" using assms by (auto simp: fs_ok_def quiet_def)
  have wf: "fs_wf (dev s) (free_map s)" using assms by (simp add: fs_ok_def)
  have "on_disk (dev s) (file_inode (dev s) 0)" using fs_wf_obj[OF wf, of 0] by simp
  then show "fm_ok s (fm_inode (dev s))" using q wf by (simp add: fm_ok_def fs_wf_def fm_inode_def)
  show "inodes s (next_addr s) = None" "next_addr s \<noteq> 0" "next_addr s \<notin> set (open_inodes s)" "files s (next_addr s) = None" using q by auto
  show "not_open s n \<longleftrightarrow> n \<noteq> 0" using q by (auto simp: not_open_def fm_inode_def)
qed

lemma fm_ok_opened: "fm_ok s fi \<Longrightarrow> inodes s (next_addr s) = None \<Longrightarrow> fm_ok (opened s n) fi"
  by (auto simp: fm_ok_def opened_def)

lemma opened_sel [simp]:
  "dev (opened s n) = dev s" "free_map (opened s n) = free_map s" "free_map_file (opened s n) = free_map_file s" "files (opened s n) = files s"
  "next_addr (opened s n) = Suc (next_addr s)" "open_inodes (opened s n) = next_addr s # open_inodes s"
  "inodes (opened s n) = (inodes s)(next_addr s := Some \<lparr>isector = n, open_cnt = 1, removed = False, deny_write_cnt = 0, idata = file_inode (dev s) n\<rparr>)"
  by (simp_all add: opened_def)

lemma close_opened:
  assumes "inodes s (next_addr s) = None" "next_addr s \<noteq> 0"
  shows "inode_close mem ((opened s n)\<lparr>free_map := b, dev := d\<rparr>) (next_addr s) = Some (s\<lparr>free_map := b, dev := d, next_addr := Suc (next_addr s)\<rparr>)"
proof -
  have "inode_close mem ((opened s n)\<lparr>free_map := b, dev := d\<rparr>) (next_addr s) =
      Some ((opened s n)\<lparr>free_map := b, dev := d, open_inodes := open_inodes s, inodes := (inodes (opened s n))(next_addr s := None)\<rparr>)"
    using assms(2)
    by (subst inode_close_last[where i = "\<lparr>isector = n, open_cnt = 1, removed = False, deny_write_cnt = 0, idata = file_inode (dev s) n\<rparr>"]) simp_all
  also have "(inodes (opened s n))(next_addr s := None) = inodes s" using assms(1) by (auto simp: fun_eq_iff)
  finally show ?thesis by (simp add: opened_def)
qed

lemma fs_ok_update:
  assumes "fs_ok s" "fs_wf d b" "file_inode d 0 = file_inode (dev s) 0" "next_addr s \<le> k"
  shows "fs_ok (s\<lparr>free_map := b, dev := d, next_addr := k\<rparr>)"
  using assms by (auto simp: fs_ok_def quiet_def fm_inode_def)

lemma dir_open_root_ok:
  assumes "fs_ok s" "enough mem"
  shows "dir_open_root mem s = Some (Some \<lparr>dinode = next_addr s, dpos = 0\<rparr>, opened s 1)"
proof -
  have "1 < bsize (dev s)" using fs_wf_obj[of "dev s" "free_map s" 1] assms(1) by (simp add: fs_ok_def)
  then show ?thesis using assms inode_open_new[of s 1 mem] quiet_fm[OF assms(1)]
    by (simp add: dir_open_root_def ROOT_DIR_SECTOR_def dir_open_def enough_def kmalloc_def sizeof_dir_def)
qed

lemma dir_close_root:
  assumes "fs_ok s"
  shows "dir_close mem ((opened s n)\<lparr>free_map := b, dev := d\<rparr>) (Some \<lparr>dinode = next_addr s, dpos = 0\<rparr>) =
    Some (s\<lparr>free_map := b, dev := d, next_addr := Suc (next_addr s)\<rparr>)"
  using close_opened[of s] quiet_fm[OF assms] by (simp add: dir_close_def)

section \<open>Creating a file\<close>

text \<open>There is room for an inode, in the first free sector, and for \<open>n\<close> sectors of data in a row.\<close>

definition fits :: "bitmap \<Rightarrow> nat \<Rightarrow> bool" where
  "fits b n \<longleftrightarrow> (\<exists>sec i. sec < bit_cnt b \<and> sec \<notin> used_bits b \<and> (\<forall>k < sec. k \<in> used_bits b) \<and> i + n \<le> bit_cnt b \<and>
     extent (i, n) \<inter> insert sec (used_bits b) = {})"

lemma first_fit_one:
  assumes "first_fit (bools b) 0 1 False = Some i"
  shows "i < bit_cnt b" "i \<notin> used_bits b" "\<forall>k < i. k \<in> used_bits b"
proof -
  note f = first_fit_Some[OF assms]
  show i: "i < bit_cnt b" using f(2) by simp
  show "i \<notin> used_bits b" using f(3) seg_eq_replicate[OF f(2), of False] by (simp add: used_bits_def)
  obtain k where k: "k < length [0..<length (bools b) + 1 - 1]" "i = [0..<length (bools b) + 1 - 1] ! k"
    "\<forall>j < k. seg (bools b) ([0..<length (bools b) + 1 - 1] ! j) 1 \<noteq> replicate 1 False"
    using assms unfolding first_fit_def find_Some_iff by blast
  then have "seg (bools b) j 1 \<noteq> replicate 1 False" if "j < i" for j using that by auto
  then show "\<forall>k < i. k \<in> used_bits b" using i seg_eq_replicate[of _ 1 "bools b" False] by (auto simp: used_bits_def)
qed

text \<open>States in the middle of an operation, with the free map open as \<open>fi\<close>, and changes of the disk that
  keep the directory and the files.\<close>

definition mid :: "inode \<Rightarrow> fsys \<Rightarrow> bool" where
  "mid fi t \<longleftrightarrow> fs_wf (dev t) (free_map t) \<and> fm_ok t fi \<and> idata fi = file_inode (dev t) 0"

definition keeps :: "block \<Rightarrow> block \<Rightarrow> bool" where
  "keeps d d' \<longleftrightarrow> fs_map d' = fs_map d \<and> ents d' = ents d \<and> bsize d' = bsize d \<and> bytes_of d' (file_inode d' 1) = bytes_of d (file_inode d 1) \<and>
     (\<forall>n \<in> set (objs d). file_inode d' n = file_inode d n)"

abbreviation lay :: "block \<Rightarrow> nat set" where
  "lay d \<equiv> extents (layout d (map snd (ents d)))"

lemma keeps_trans: "keeps d d1 \<Longrightarrow> keeps d1 d2 \<Longrightarrow> keeps d d2"
  unfolding keeps_def by metis

lemma keeps_refl [simp]: "keeps d d"
  by (simp add: keeps_def)

lemma keeps_lay: "keeps d d' \<Longrightarrow> lay d' = lay d"
  unfolding keeps_def using layout_cong[of "map snd (ents d)" d' d] by metis

lemma lay_obj: "n \<in> set (objs d) \<Longrightarrow> extents (obj d n) \<subseteq> lay d"
  unfolding extents_layout by auto

lemma mid_frame:
  assumes "mid fi t" "only X (dev t) d'" "X \<subseteq> data_extent (idata fi) \<union> Y" "Y \<inter> lay (dev t) = {}" "fm_ok (t\<lparr>free_map := b', dev := d'\<rparr>) fi"
    "bit_cnt b' = bit_cnt (free_map t)" "saved d' (idata fi) b'" "lay (dev t) \<subseteq> used_bits b'"
  shows "mid fi (t\<lparr>free_map := b', dev := d'\<rparr>)" "keeps (dev t) d'"
proof -
  have wf: "fs_wf (dev t) (free_map t)" and fi: "idata fi = file_inode (dev t) 0" using assms(1) by (simp_all add: mid_def)
  have z: "0 \<notin> X" using fs_wf_own[OF wf, of 0] lay_obj[of 0 "dev t"] assms(3,4) by (auto simp: fi)
  have "X \<inter> extents (obj (dev t) n) = {}" if "n \<in> set (1 # map snd (ents (dev t)))" for n
  proof -
    have n: "n \<in> set (objs (dev t))" "0 \<noteq> n" using that fs_wf_distinct[OF wf] by auto
    have "data_extent (idata fi) \<inter> extents (obj (dev t) n) = {}" using fs_wf_apart[OF wf _ n(1,2)] by (auto simp: fi)
    moreover have "Y \<inter> extents (obj (dev t) n) = {}" using lay_obj[OF n(1)] assms(4) by blast
    ultimately show ?thesis using assms(3) by blast
  qed
  note f = fs_wf_frame[OF wf assms(2) z this _ _ assms(6) assms(7)[unfolded fi] assms(8)]
  have b: "bm_ok b'" "length (bits b') = elem_cnt (bit_cnt b')" using assms(5) by (simp_all add: fm_ok_def)
  show "mid fi (t\<lparr>free_map := b', dev := d'\<rparr>)" using f(1)[OF _ b] f(4)[OF _ b, of 0] assms(5) fi unfolding mid_def by simp
  have "1 \<in> set (objs (dev t))" by simp
  then have "X \<inter> extents (obj (dev t) 1) = {}" using fs_wf_apart[OF wf, of 0 1] lay_obj[of 1 "dev t"] assms(3,4) unfolding fi by auto
  from only_ents(2)[OF assms(2) this] show "keeps (dev t) d'" using f(2-4)[OF _ b] assms(2) unfolding keeps_def only_def by blast
qed

lemma mid_alloc:
  assumes "mid fi t" "mem 512" "r = first_fit (bools (free_map t)) 0 n False"
  shows "\<exists>b' d'. free_map_allocate mem t n = Some (r, t\<lparr>free_map := b', dev := d'\<rparr>) \<and> mid fi (t\<lparr>free_map := b', dev := d'\<rparr>) \<and> keeps (dev t) d' \<and>
    (case r of None \<Rightarrow> b' = free_map t \<and> d' = dev t
     | Some i \<Rightarrow> i + n \<le> bsize d' \<and> extent (i, n) \<inter> used_bits (free_map t) = {} \<and> used_bits b' = used_bits (free_map t) \<union> extent (i, n))"
proof -
  have fm: "fm_ok t fi" and wf: "fs_wf (dev t) (free_map t)" using assms(1) by (simp_all add: mid_def)
  obtain b' d' where a: "free_map_allocate mem t n = Some (r, t\<lparr>free_map := b', dev := d'\<rparr>)" "fm_ok (t\<lparr>free_map := b', dev := d'\<rparr>) fi"
    "bit_cnt b' = bit_cnt (free_map t)"
    "case r of None \<Rightarrow> b' = free_map t \<and> d' = dev t
     | Some i \<Rightarrow> i + n \<le> bit_cnt b' \<and> extent (i, n) \<inter> used_bits (free_map t) = {} \<and> used_bits b' = used_bits (free_map t) \<union> extent (i, n) \<and>
         saved d' (idata fi) b' \<and> only (data_extent (idata fi)) (dev t) d'"
    using free_map_allocate_ok[OF fm, where mem = mem, OF assms(2,3)] by blast
  show ?thesis
  proof (cases r)
    case None
    then show ?thesis using a assms(1) by auto
  next
    case (Some i)
    then have al: "i + n \<le> bit_cnt b'" "extent (i, n) \<inter> used_bits (free_map t) = {}" "used_bits b' = used_bits (free_map t) \<union> extent (i, n)"
      "saved d' (idata fi) b'" "only (data_extent (idata fi)) (dev t) d'" using a(4) by simp_all
    have l: "lay (dev t) \<subseteq> used_bits b'" using wf al(3) by (auto simp: fs_wf_def)
    note f = mid_frame[OF assms(1) al(5) _ _ a(2,3) al(4) l, of "{}"]
    have "i + n \<le> bsize d'" using al(1,5) a(3) wf by (simp add: fs_wf_def only_def)
    then show ?thesis using a(1) f al Some by auto
  qed
qed

lemma mid_release:
  assumes "mid fi t" "mem 512" "i + n \<le> bsize (dev t)" "extent (i, n) \<subseteq> used_bits (free_map t)" "extent (i, n) \<inter> lay (dev t) = {}"
  shows "\<exists>b' d'. free_map_release mem t i n = Some (t\<lparr>free_map := b', dev := d'\<rparr>) \<and> mid fi (t\<lparr>free_map := b', dev := d'\<rparr>) \<and> keeps (dev t) d' \<and>
    used_bits b' = used_bits (free_map t) - extent (i, n) \<and> only (data_extent (idata fi)) (dev t) d'"
proof -
  have fm: "fm_ok t fi" and wf: "fs_wf (dev t) (free_map t)" using assms(1) by (simp_all add: mid_def)
  have i: "i + n \<le> bit_cnt (free_map t)" using assms(3) wf by (simp add: fs_wf_def)
  obtain b' d' where a: "free_map_release mem t i n = Some (t\<lparr>free_map := b', dev := d'\<rparr>)" "fm_ok (t\<lparr>free_map := b', dev := d'\<rparr>) fi"
    "bit_cnt b' = bit_cnt (free_map t)" "used_bits b' = used_bits (free_map t) - extent (i, n)" "saved d' (idata fi) b'"
    "only (data_extent (idata fi)) (dev t) d'"
    using free_map_release_ok[OF fm, where mem = mem, OF assms(2) i assms(4)] by blast
  have l: "lay (dev t) \<subseteq> used_bits b'" using wf a(4) assms(5) unfolding fs_wf_def by blast
  note f = mid_frame[OF assms(1) a(6) _ _ a(2,3,5) l, of "{}"]
  show ?thesis using a(1,4,6) f by auto
qed

lemma mid_create:
  assumes "mid fi t" "mem 512" "len \<le> 2147483135" "sec < bsize (dev t)" "sec \<in> used_bits (free_map t)" "sec \<notin> lay (dev t)"
    "r = first_fit (bools (free_map t)) 0 (sectors_for len) False"
  shows "\<exists>b' d'. inode_create mem t sec (int len) = Some (r \<noteq> None, t\<lparr>free_map := b', dev := d'\<rparr>) \<and> mid fi (t\<lparr>free_map := b', dev := d'\<rparr>) \<and>
    keeps (dev t) d' \<and>
    (case r of None \<Rightarrow> b' = free_map t \<and> d' = dev t
     | Some st \<Rightarrow> on_disk d' (file_inode d' sec) \<and> ilength (file_inode d' sec) = int len \<and> bytes_of d' (file_inode d' sec) = replicate len NUL \<and>
         data_extent (file_inode d' sec) \<inter> insert sec (lay d') = {} \<and> data_extent (file_inode d' sec) \<inter> used_bits (free_map t) = {} \<and>
         used_bits b' = used_bits (free_map t) \<union> data_extent (file_inode d' sec))"
proof -
  have fm: "fm_ok t fi" and wf: "fs_wf (dev t) (free_map t)" and fi: "idata fi = file_inode (dev t) 0" using assms(1) by (simp_all add: mid_def)
  let ?n = "sectors_for len"
  have X: "data_extent (idata fi) \<subseteq> lay (dev t)" using lay_obj[of 0 "dev t"] unfolding fi by simp
  have lu: "lay (dev t) \<subseteq> used_bits (free_map t)" and bc: "bit_cnt (free_map t) = bsize (dev t)" using wf by (simp_all add: fs_wf_def)
  have c: "sec \<notin> data_extent (idata fi)" "insert sec (data_extent (idata fi)) \<subseteq> used_bits (free_map t)" using X lu assms(5,6) by auto
  obtain b' d' where a: "inode_create mem t sec (int len) = Some (r \<noteq> None, t\<lparr>free_map := b', dev := d'\<rparr>)" "fm_ok (t\<lparr>free_map := b', dev := d'\<rparr>) fi"
    "bit_cnt b' = bit_cnt (free_map t)"
    "case r of None \<Rightarrow> b' = free_map t \<and> d' = dev t
     | Some st \<Rightarrow> st + ?n \<le> bsize d' \<and> extent (st, ?n) \<inter> used_bits (free_map t) = {} \<and>
         used_bits b' = used_bits (free_map t) \<union> extent (st, ?n) \<and> saved d' (idata fi) b' \<and>
         file_inode d' sec = new_inode st len \<and> contents d' st len = replicate len NUL \<and>
         only (data_extent (idata fi) \<union> {sec} \<union> extent (st, ?n)) (dev t) d'"
    using inode_create_ok[OF fm, where mem = mem, OF assms(2-4) c(1) bc c(2) assms(7)] by blast
  show ?thesis
  proof (cases r)
    case None
    then show ?thesis using a assms(1) by auto
  next
    case (Some st)
    then have al: "st + ?n \<le> bsize d'" "extent (st, ?n) \<inter> used_bits (free_map t) = {}" "used_bits b' = used_bits (free_map t) \<union> extent (st, ?n)"
      "saved d' (idata fi) b'" "file_inode d' sec = new_inode st len" "contents d' st len = replicate len NUL"
      "only (data_extent (idata fi) \<union> {sec} \<union> extent (st, ?n)) (dev t) d'" using a(4) by simp_all
    have sub: "data_extent (idata fi) \<union> {sec} \<union> extent (st, ?n) \<subseteq> data_extent (idata fi) \<union> ({sec} \<union> extent (st, ?n))" by blast
    have Y: "({sec} \<union> extent (st, ?n)) \<inter> lay (dev t) = {}" using al(2) lu assms(6) by blast
    have l: "lay (dev t) \<subseteq> used_bits b'" using lu al(3) by blast
    note f = mid_frame[OF assms(1) al(7) sub Y a(2,3) al(4) l]
    have "data_extent (file_inode d' sec) = extent (st, ?n)" "bytes_of d' (file_inode d' sec) = replicate len NUL" using al(5,6) by (simp_all add: new_inode_def)
    moreover have "on_disk d' (file_inode d' sec)" "ilength (file_inode d' sec) = int len" using al(1,5) assms(3) by (simp_all add: new_inode_def on_disk_def)
    moreover have "extent (st, ?n) \<inter> insert sec (lay d') = {}" using keeps_lay[OF f(2)] al(2) assms(5) lu by auto
    ultimately show ?thesis using a(1) f al(2,3) Some by (intro exI[of _ b'] exI[of _ d']) simp
  qed
qed

abbreviation root_bytes :: "block \<Rightarrow> char list" where
  "root_bytes d \<equiv> bytes_of d (file_inode d 1)"

lemma keepsD:
  assumes "keeps d d'"
  shows "file_inode d' 1 = file_inode d 1" "root_bytes d' = root_bytes d" "fs_map d' = fs_map d" "ents d' = ents d" "bsize d' = bsize d"
    "n \<in> set (objs d) \<Longrightarrow> file_inode d' n = file_inode d n"
proof -
  have "1 \<in> set (objs d)" by simp
  then show "file_inode d' 1 = file_inode d 1" using assms unfolding keeps_def by blast
qed (use assms in \<open>unfold keeps_def, blast+\<close>)

text \<open>The root directory is open at the address \<open>next_addr s\<close>.\<close>

definition with_root :: "fsys \<Rightarrow> bitmap \<Rightarrow> block \<Rightarrow> fsys" where
  "with_root s b d = (opened s 1)\<lparr>free_map := b, dev := d\<rparr>"

lemma with_root_sel [simp]:
  "dev (with_root s b d) = d" "free_map (with_root s b d) = b" "(with_root s b d)\<lparr>free_map := b', dev := d'\<rparr> = with_root s b' d'"
  "(with_root s b d)\<lparr>dev := d'\<rparr> = with_root s b d'" "inodes (with_root s b d) = inodes (opened s 1)"
  by (simp_all add: with_root_def)

lemma fm_ok_dev: "fm_ok t fi \<Longrightarrow> only X (dev t) d' \<Longrightarrow> fm_ok (t\<lparr>dev := d'\<rparr>) fi"
  by (auto simp: fm_ok_def only_def on_disk_def)

lemma opened_with_root: "opened s 1 = with_root s (free_map s) (dev s)"
  by (simp add: with_root_def opened_def)

lemma mid_opened: "fs_ok s \<Longrightarrow> mid (fm_inode (dev s)) (opened s 1)"
  using quiet_fm(1,2)[of s] fm_ok_opened[of s "fm_inode (dev s)" 1] by (simp add: mid_def fs_ok_def fm_inode_def)

lemma dir_close_with_root:
  "fs_ok s \<Longrightarrow> dir_close mem (with_root s b d) (Some \<lparr>dinode = next_addr s, dpos = 0\<rparr>) = Some (s\<lparr>free_map := b, dev := d, next_addr := Suc (next_addr s)\<rparr>)"
  unfolding with_root_def by (rule dir_close_root)

lemma mid_close:
  assumes "fs_ok s" "mid (fm_inode (dev s)) (with_root s b d)"
  shows "\<exists>s'. dir_close mem (with_root s b d) (Some \<lparr>dinode = next_addr s, dpos = 0\<rparr>) = Some s' \<and> fs_ok s' \<and> dev s' = d \<and> free_map s' = b"
  using assms dir_close_with_root[OF assms(1), of mem b d] fs_ok_update[OF assms(1), of d b] by (auto simp: mid_def fm_inode_def)

lemma root_dir_at:
  assumes "mid fi (with_root s b d)" "file_inode d 1 = file_inode (dev s) 1" "i = \<lparr>isector = 1, open_cnt = 1, removed = False, deny_write_cnt = 0, idata = file_inode (dev s) 1\<rparr>"
  shows "dir_at (with_root s b d) (next_addr s) i" "names_ok (root_bytes d)" "20 dvd length (root_bytes d)" "bytes_of d (idata i) = root_bytes d"
  using assms fs_wf_obj[of d b 1] by (simp_all add: mid_def dir_at_def fs_wf_def)

lemma mid_add:
  assumes "mid fi (with_root s b d)" "file_inode d 1 = file_inode (dev s) 1" "mem 512" "cstr name" "length garbage = 20" "sec < bsize d"
    "on_disk d (file_inode d sec)" "ilength (file_inode d sec) \<le> 2147483135"
    "sec \<notin> lay d" "data_extent (file_inode d sec) \<inter> insert sec (lay d) = {}" "extents (obj d sec) \<subseteq> used_bits b"
  shows "\<exists>d'. dir_add mem garbage (with_root s b d) \<lparr>dinode = next_addr s, dpos = 0\<rparr> name sec = Some (can_add (root_bytes d) name, with_root s b d') \<and>
    mid fi (with_root s b d') \<and>
    (if can_add (root_bytes d) name then fs_map d' = (fs_map d)(name \<mapsto> bytes_of d (file_inode d sec)) else d' = d)"
proof -
  let ?i = "\<lparr>isector = 1, open_cnt = 1, removed = False, deny_write_cnt = 0, idata = file_inode (dev s) 1\<rparr>"
  note r = root_dir_at[OF assms(1,2) refl]
  have wf: "fs_wf d b" using assms(1) by (simp add: mid_def)
  have i: "idata ?i = file_inode d 1" using assms(2) by simp
  have p: "dir_at (with_root s b d) (dinode \<lparr>dinode = next_addr s, dpos = 0\<rparr>) ?i" "deny_write_cnt ?i = 0"
    "root_bytes d = bytes_of (dev (with_root s b d)) (idata ?i)" using r(1,4) by simp_all
  have sm: "sec < 4294967296" using assms(6) wf by (simp add: fs_wf_def disk_ok_def)
  obtain d' where a: "dir_add mem garbage (with_root s b d) \<lparr>dinode = next_addr s, dpos = 0\<rparr> name sec = Some (can_add (root_bytes d) name, with_root s b d')"
    "only (data_extent (file_inode d 1)) d d'"
    "if can_add (root_bytes d) name then names_ok (bytes_of d' (file_inode d 1)) \<and>
         map_of (dir_ents (bytes_of d' (file_inode d 1))) = (map_of (dir_ents (root_bytes d)))(name \<mapsto> sec) \<and>
         (\<exists>as bs. dir_ents (root_bytes d) = as @ bs \<and> dir_ents (bytes_of d' (file_inode d 1)) = as @ (name, sec) # bs)
     else d' = d"
    using dir_add_ok[where mem = mem, OF p(1) p(2) assms(3) p(3) r(2) assms(4,5) sm r(3)] unfolding with_root_sel i by blast
  show ?thesis
  proof (cases "can_add (root_bytes d) name")
    case False
    then show ?thesis using a(1,3) assms(1) by auto
  next
    case True
    have "1 \<notin> data_extent (file_inode d 1)" using fs_wf_own[OF wf, of 1] by simp
    then have i1: "file_inode d' 1 = file_inode d 1" using only_obj(1)[OF a(2)] by blast
    then have e: "ents d' = dir_ents (bytes_of d' (file_inode d 1))" "ents d = dir_ents (root_bytes d)" by (simp_all add: ents_def)
    obtain as bs where ab: "ents d = as @ bs" "ents d' = as @ (name, sec) # bs" using a(3) True e by auto
    have n: "names_ok (bytes_of d' (file_inode d 1))" and m: "map_of (ents d') = (map_of (ents d))(name \<mapsto> sec)" using a(3) True e by simp_all
    have x: "sec \<notin> data_extent (file_inode d sec)" "extents (obj d sec) \<inter> lay d = {}" using assms(9,10) by auto
    note f = fs_wf_add[OF wf a(2) n ab m assms(6-8) x assms(11)]
    have "fm_ok (with_root s b d') fi" using fm_ok_dev[of "with_root s b d" fi _ d'] assms(1) a(2) by (simp add: mid_def)
    then have "mid fi (with_root s b d')" using f(1,3) assms(1) by (simp add: mid_def)
    then show ?thesis using a(1) f(2) True by auto
  qed
qed

text \<open>Giving up: the sector of the inode is free again.\<close>

lemma create_fail:
  assumes "fs_ok s" "mem 512" "mid (fm_inode (dev s)) (with_root s b d)" "sec < bsize d" "sec \<in> used_bits b" "sec \<notin> lay d" "a = next_addr s"
  shows "\<exists>s'. do { s \<leftarrow> free_map_release mem (with_root s b d) sec 1; s \<leftarrow> dir_close mem s (Some \<lparr>dinode = a, dpos = 0\<rparr>); Some (False, s) } = Some (False, s') \<and>
    fs_ok s' \<and> fs_map (dev s') = fs_map d \<and> used_bits (free_map s') = used_bits b - {sec}"
proof -
  have pre: "sec + 1 \<le> bsize (dev (with_root s b d))" "extent (sec, 1) \<subseteq> used_bits (free_map (with_root s b d))"
    "extent (sec, 1) \<inter> lay (dev (with_root s b d)) = {}" using assms(4-6) by simp_all
  obtain b' d' where r: "free_map_release mem (with_root s b d) sec 1 = Some (with_root s b' d')" "mid (fm_inode (dev s)) (with_root s b' d')" "keeps d d'"
    "used_bits b' = used_bits b - {sec}"
    using mid_release[OF assms(3), where mem = mem, OF assms(2) pre] unfolding with_root_sel extent_one by blast
  obtain s' where "dir_close mem (with_root s b' d') (Some \<lparr>dinode = next_addr s, dpos = 0\<rparr>) = Some s'" "fs_ok s'" "dev s' = d'" "free_map s' = b'"
    using mid_close[OF assms(1) r(2)] by blast
  then show ?thesis using r(1,4) keepsD(3)[OF r(3)] assms(7) by simp
qed

text \<open>The sectors taken for a file, and those lost when its name cannot be entered.\<close>

definition takes :: "bitmap \<Rightarrow> bitmap \<Rightarrow> nat \<Rightarrow> bool" where
  "takes b b' n \<longleftrightarrow> (\<exists>E. used_bits b' = used_bits b \<union> E \<and> E \<inter> used_bits b = {} \<and> finite E \<and> card E = n)"

lemma takes_refl: "used_bits b' = used_bits b \<Longrightarrow> takes b b' 0"
  unfolding takes_def by (intro exI[of _ "{}"]) simp

lemma takesI: "used_bits b' = used_bits b \<union> E \<Longrightarrow> E \<inter> used_bits b = {} \<Longrightarrow> finite E \<Longrightarrow> card E = n \<Longrightarrow> takes b b' n"
  unfolding takes_def by blast

lemma filesys_create_ok:
  assumes "fs_ok s" "enough mem" "length garbage = 20" "cstr name" "len \<le> 2147483135"
  shows "\<exists>s'. filesys_create mem garbage s name (int len) = Some (can_add (root_bytes (dev s)) name \<and> fits (free_map s) (sectors_for len), s') \<and> fs_ok s' \<and>
    fs_map (dev s') = (if can_add (root_bytes (dev s)) name \<and> fits (free_map s) (sectors_for len) then (fs_map (dev s))(name \<mapsto> replicate len NUL) else fs_map (dev s)) \<and>
    takes (free_map s) (free_map s') (if fits (free_map s) (sectors_for len) then sectors_for len + (if can_add (root_bytes (dev s)) name then 1 else 0) else 0)"
proof -
  let ?fi = "fm_inode (dev s)" and ?D = "\<lparr>dinode = next_addr s, dpos = 0\<rparr>" and ?n = "sectors_for len" and ?b = "free_map s" and ?d = "dev s"
  have m: "mem 512" using assms(2) by (simp add: enough_def)
  have wf: "fs_wf ?d ?b" using assms(1) by (simp add: fs_ok_def)
  have lu: "lay ?d \<subseteq> used_bits ?b" "bit_cnt ?b = bsize ?d" using wf by (simp_all add: fs_wf_def)
  note op = dir_open_root_ok[OF assms(1,2)]
  let ?r = "first_fit (bools ?b) 0 1 False"
  obtain b1 d1 where a1: "free_map_allocate mem (opened s 1) 1 = Some (?r, with_root s b1 d1)" "mid ?fi (with_root s b1 d1)" "keeps ?d d1"
    "case ?r of None \<Rightarrow> b1 = ?b \<and> d1 = ?d | Some i \<Rightarrow> i + 1 \<le> bsize d1 \<and> extent (i, 1) \<inter> used_bits ?b = {} \<and> used_bits b1 = used_bits ?b \<union> extent (i, 1)"
    using mid_alloc[OF mid_opened[OF assms(1)], where mem = mem and n = 1, OF m refl] unfolding opened_sel unfolding opened_with_root with_root_sel by blast
  show ?thesis
  proof (cases ?r)
    case None
    have "\<not> fits ?b ?n" using None first_fit_used[of ?b 1] by (auto simp: fits_def)
    moreover obtain s' where "dir_close mem (with_root s b1 d1) (Some ?D) = Some s'" "fs_ok s'" "dev s' = d1" "free_map s' = b1" using mid_close[OF assms(1) a1(2)] by blast
    ultimately show ?thesis using op a1 None takes_refl by (simp add: filesys_create_def keeps_def)
  next
    case (Some sec)
    note fo = first_fit_one[OF Some]
    have "0 \<in> used_bits ?b" using lay_obj[of 0 ?d] lu(1) by auto
    then have "sec \<noteq> 0" using fo(2) by metis
    then have sec: "sec < bsize d1" "used_bits b1 = insert sec (used_bits ?b)" "sec \<notin> lay d1" "sec \<in> used_bits b1" "sec \<noteq> 0"
      using a1(4) Some fo(2) lu(1) keeps_lay[OF a1(3)] by auto
    let ?r2 = "first_fit (bools b1) 0 ?n False"
    have bc1: "bit_cnt b1 = bit_cnt ?b" using a1(2,3) lu(2) by (simp add: mid_def fs_wf_def keeps_def)
    have least: "k = sec" if "k \<notin> used_bits ?b" "\<forall>j < k. j \<in> used_bits ?b" for k using that fo(2,3) by (meson linorder_neqE_nat)
    have fits: "fits ?b ?n \<longleftrightarrow> ?r2 \<noteq> None" unfolding fits_def first_fit_used bc1 sec(2) using fo least by metis
    obtain b2 d2 where a2: "inode_create mem (with_root s b1 d1) sec (int len) = Some (?r2 \<noteq> None, with_root s b2 d2)" "mid ?fi (with_root s b2 d2)" "keeps d1 d2"
      "case ?r2 of None \<Rightarrow> b2 = b1 \<and> d2 = d1
       | Some st \<Rightarrow> on_disk d2 (file_inode d2 sec) \<and> ilength (file_inode d2 sec) = int len \<and> bytes_of d2 (file_inode d2 sec) = replicate len NUL \<and>
           data_extent (file_inode d2 sec) \<inter> insert sec (lay d2) = {} \<and> data_extent (file_inode d2 sec) \<inter> used_bits b1 = {} \<and>
           used_bits b2 = used_bits b1 \<union> data_extent (file_inode d2 sec)"
      using mid_create[OF a1(2), where mem = mem, OF m assms(5)] sec unfolding with_root_sel by blast
    have k2: "keeps ?d d2" using keeps_trans[OF a1(3) a2(3)] .
    have l2: "sec \<notin> lay d2" "sec < bsize d2" "sec \<in> used_bits b2" using sec keeps_lay[OF a2(3)] a2(3,4) by (auto simp: keeps_def split: option.splits)
    note fail = create_fail[OF assms(1), where mem = mem, OF m a2(2) l2(2,3,1) refl, unfolded keepsD(3)[OF k2]]
    show ?thesis
    proof (cases ?r2)
      case None
      have "used_bits b2 - {sec} = used_bits ?b" using None a2(4) sec(2) fo(2) by auto
      then show ?thesis using op a1(1) Some a2(1) fail sec(5) fits None takes_refl by (auto simp: filesys_create_def)
    next
      case (Some st)
      note a2(4)[unfolded Some option.case]
      then have c2: "on_disk d2 (file_inode d2 sec)" "ilength (file_inode d2 sec) = int len" "bytes_of d2 (file_inode d2 sec) = replicate len NUL"
        "data_extent (file_inode d2 sec) \<inter> insert sec (lay d2) = {}" "data_extent (file_inode d2 sec) \<inter> used_bits b1 = {}"
        "used_bits b2 = used_bits b1 \<union> data_extent (file_inode d2 sec)" by blast+
      have E: "finite (data_extent (file_inode d2 sec))" "card (data_extent (file_inode d2 sec)) = ?n" using c2(2) by (simp_all add: extent_def)
      have i1: "file_inode d2 1 = file_inode ?d 1" and rb: "root_bytes d2 = root_bytes ?d" by (rule keepsD(1,2)[OF k2])+
      have lim: "ilength (file_inode d2 sec) \<le> 2147483135" using c2(2) assms(5) by simp
      have us: "extents (obj d2 sec) \<subseteq> used_bits b2" using l2(3) c2(6) by simp
      obtain d3 where a3: "dir_add mem garbage (with_root s b2 d2) ?D name sec = Some (can_add (root_bytes ?d) name, with_root s b2 d3)"
        "mid ?fi (with_root s b2 d3)" "if can_add (root_bytes ?d) name then fs_map d3 = (fs_map d2)(name \<mapsto> bytes_of d2 (file_inode d2 sec)) else d3 = d2"
        using mid_add[OF a2(2) i1, where mem = mem, OF m assms(4,3) l2(2) c2(1) _ l2(1) c2(4) us] lim unfolding rb by blast
      show ?thesis
      proof (cases "can_add (root_bytes ?d) name")
        case True
        have "takes ?b b2 (?n + 1)" using E sec(2,5) c2(4-6) fo(2) by (intro takesI[of _ _ "insert sec (data_extent (file_inode d2 sec))"]) auto
        moreover obtain s' where "dir_close mem (with_root s b2 d3) (Some ?D) = Some s'" "fs_ok s'" "dev s' = d3" "free_map s' = b2" using mid_close[OF assms(1) a3(2)] by blast
        ultimately show ?thesis using op a1(1) \<open>?r = Some sec\<close> a2(1) Some a3 fits True c2(3) k2 by (simp add: filesys_create_def keeps_def)
      next
        case False
        have "takes ?b b' ?n" if "used_bits b' = used_bits b2 - {sec}" for b'
          using E sec(2) c2(5,6) fo(2) that by (intro takesI[of _ _ "data_extent (file_inode d2 sec)"]) auto
        then show ?thesis using op a1(1) \<open>?r = Some sec\<close> a2(1) Some a3 fail sec(5) fits False by (auto simp: filesys_create_def)
      qed
    qed
  qed
qed

section \<open>Opening a file by name\<close>

lemma root_lookup:
  assumes "mid fi (with_root s b d)" "file_inode d 1 = file_inode (dev s) 1" "mem 512" "cstr name"
  shows "lookup mem (with_root s b d) \<lparr>dinode = next_addr s, dpos = 0\<rparr> name =
    Some (map_option (\<lambda>k. (slots (root_bytes d) ! k, 20 * k)) (index_of (names name) (slots (root_bytes d))))"
    "map_of (ents d) name = map_option (\<lambda>k. entry_sector (slots (root_bytes d) ! k)) (index_of (names name) (slots (root_bytes d)))"
proof -
  let ?i = "\<lparr>isector = 1, open_cnt = 1, removed = False, deny_write_cnt = 0, idata = file_inode (dev s) 1\<rparr>"
  note r = root_dir_at[OF assms(1,2) refl]
  have p: "dir_at (with_root s b d) (dinode \<lparr>dinode = next_addr s, dpos = 0\<rparr>) ?i" "root_bytes d = bytes_of (dev (with_root s b d)) (idata ?i)"
    using r(1,4) by simp_all
  show "lookup mem (with_root s b d) \<lparr>dinode = next_addr s, dpos = 0\<rparr> name =
      Some (map_option (\<lambda>k. (slots (root_bytes d) ! k, 20 * k)) (index_of (names name) (slots (root_bytes d))))"
    by (rule lookup_ok[where mem = mem, OF p(1) assms(3) p(2) r(2) assms(4)])
  show "map_of (ents d) name = map_option (\<lambda>k. entry_sector (slots (root_bytes d) ! k)) (index_of (names name) (slots (root_bytes d)))"
    unfolding ents_def dir_ents_def by (rule dir_ents_lookup)
qed

text \<open>The inode of a file as it is opened, and the state with one file open.\<close>

definition plain_inode :: "block \<Rightarrow> nat \<Rightarrow> inode" where
  "plain_inode d n = \<lparr>isector = n, open_cnt = 1, removed = False, deny_write_cnt = 0, idata = file_inode d n\<rparr>"

definition with_file :: "fsys \<Rightarrow> nat \<Rightarrow> block \<Rightarrow> fsys" where
  "with_file s n d = s\<lparr>inodes := (inodes s)(next_addr s + 1 := Some (plain_inode (dev s) n)), open_inodes := (next_addr s + 1) # open_inodes s,
     files := (files s)(next_addr s + 2 := Some \<lparr>finode = next_addr s + 1, fpos = 0, fdeny = False\<rparr>), next_addr := next_addr s + 3, dev := d\<rparr>"

lemma ents_not_reserved:
  assumes "fs_wf d b" "map_of (ents d) name = Some n"
  shows "n \<noteq> 0" "n \<noteq> 1" "n \<in> set (objs d)"
proof -
  have n: "n \<in> set (map snd (ents d))" using map_of_SomeD[OF assms(2)] by force
  have "0 \<notin> set (map snd (ents d))" "1 \<notin> set (map snd (ents d))" using fs_wf_distinct[OF assms(1)] by simp_all
  then show "n \<noteq> 0" "n \<noteq> 1" using n by metis+
  show "n \<in> set (objs d)" using n by simp
qed

lemma quiet_addr:
  assumes "fs_ok s"
  obtains a f p where "inodes s = [a \<mapsto> fm_inode (dev s)]" "open_inodes s = [a]" "files s = [f \<mapsto> \<lparr>finode = a, fpos = p, fdeny = False\<rparr>]"
    "free_map_file s = f" "0 < a" "0 < f" "a < next_addr s" "f < next_addr s"
  using assms by (auto simp: fs_ok_def quiet_def)

lemma filesys_open_ok:
  assumes "fs_ok s" "enough mem" "cstr name"
  shows "map_of (ents (dev s)) name = None \<Longrightarrow> filesys_open mem s name = Some (0, s\<lparr>next_addr := Suc (next_addr s)\<rparr>)"
    "map_of (ents (dev s)) name = Some n \<Longrightarrow> filesys_open mem s name = Some (next_addr s + 2, with_file s n (dev s))"
proof -
  have m: "mem 512" "kmalloc mem sizeof_file" using assms(2) by (simp_all add: enough_def kmalloc_def sizeof_file_def)
  have mid: "mid (fm_inode (dev s)) (with_root s (free_map s) (dev s))" using mid_opened[OF assms(1)] by (simp only: opened_with_root)
  note lk = root_lookup[where mem = mem, OF mid refl m(1) assms(3)]
  note op = dir_open_root_ok[OF assms(1,2), unfolded opened_with_root]
  have wf: "fs_wf (dev s) (free_map s)" using assms(1) by (simp add: fs_ok_def)
  show "filesys_open mem s name = Some (0, s\<lparr>next_addr := Suc (next_addr s)\<rparr>)" if n: "map_of (ents (dev s)) name = None"
  proof -
    have "index_of (names name) (slots (root_bytes (dev s))) = None" using lk(2) unfolding n by (metis (no_types, lifting) map_option_is_None)
    then have l: "lookup mem (with_root s (free_map s) (dev s)) \<lparr>dinode = next_addr s, dpos = 0\<rparr> name = Some None" using lk(1) by (simp only: option.map)
    have e: "s\<lparr>free_map := free_map s, dev := dev s, next_addr := Suc (next_addr s)\<rparr> = s\<lparr>next_addr := Suc (next_addr s)\<rparr>" by simp
    show ?thesis unfolding filesys_open_def dir_lookup_def
      by (simp only: op l dir_close_with_root[OF assms(1)] e bind.bind_lunit prod.case option.case) (simp add: file_open_def inode_close_def)
  qed
  show "filesys_open mem s name = Some (next_addr s + 2, with_file s n (dev s))" if n: "map_of (ents (dev s)) name = Some n"
  proof -
    obtain k where k: "index_of (names name) (slots (root_bytes (dev s))) = Some k" "entry_sector (slots (root_bytes (dev s)) ! k) = n"
      using lk(2)[symmetric] unfolding n map_option_eq_Some by blast
    note nr = ents_not_reserved[OF wf n]
    obtain a f p where q: "inodes s = [a \<mapsto> fm_inode (dev s)]" "open_inodes s = [a]" "0 < a" "a < next_addr s" using quiet_addr[OF assms(1)] by metis
    have no: "not_open (with_root s (free_map s) (dev s)) n" using q nr(1,2) by (simp add: not_open_def with_root_def fm_inode_def)
    have "n < bsize (dev s)" using fs_wf_obj[OF wf nr(3)] by simp
    then have io: "inode_open mem (with_root s (free_map s) (dev s)) n = Some (Suc (next_addr s), opened (with_root s (free_map s) (dev s)) n)"
      using inode_open_new[OF no, of mem] assms(2) by (simp add: enough_def with_root_def)
    have c: "dir_close mem (opened (with_root s (free_map s) (dev s)) n) (Some \<lparr>dinode = next_addr s, dpos = 0\<rparr>) =
        Some (s\<lparr>inodes := (inodes s)(Suc (next_addr s) := Some (plain_inode (dev s) n)), open_inodes := Suc (next_addr s) # open_inodes s, next_addr := next_addr s + 2\<rparr>)"
      unfolding dir_close_def option.case dir.simps
      using q by (subst inode_close_last[where i = "plain_inode (dev s) 1"]) (auto simp: with_root_def plain_inode_def opened_def fun_eq_iff)
    have l: "lookup mem (with_root s (free_map s) (dev s)) \<lparr>dinode = next_addr s, dpos = 0\<rparr> name = Some (Some (slots (root_bytes (dev s)) ! k, 20 * k))"
      using lk(1) unfolding k(1) by (simp only: option.map)
    show ?thesis unfolding filesys_open_def dir_lookup_def
      by (simp only: op l c k(2) io bind.bind_lunit prod.case option.case) (simp add: file_open_def with_file_def m(2))
  qed
qed

lemma with_file_close:
  assumes "fs_ok s"
  shows "file_close mem (with_file s n d) (next_addr s + 2) = Some (s\<lparr>next_addr := next_addr s + 3, dev := d\<rparr>)"
proof -
  obtain a f p where q: "inodes s = [a \<mapsto> fm_inode (dev s)]" "open_inodes s = [a]" "files s = [f \<mapsto> \<lparr>finode = a, fpos = p, fdeny = False\<rparr>]"
    "a < next_addr s" "f < next_addr s" using quiet_addr[OF assms] by metis
  have c: "inode_close mem (with_file s n d) (next_addr s + 1) =
      Some ((with_file s n d)\<lparr>open_inodes := open_inodes s, inodes := (inodes (with_file s n d))(next_addr s + 1 := None)\<rparr>)"
    by (subst inode_close_last[where i = "plain_inode (dev s) n"]) (simp_all add: with_file_def plain_inode_def)
  have "(inodes s)(Suc (next_addr s) := None) = inodes s" "(files s)(Suc (Suc (next_addr s)) := None) = files s" using q by (auto simp: fun_eq_iff)
  then show ?thesis using c by (simp add: file_close_def file_allow_write_def assert_def with_file_def)
qed

end
