(* ===== verification/FsNamed.thy ===== *)
theory FsNamed
  imports Filesys
begin

text \<open>
  Removing, reading and writing a file by its name, on any file system that satisfies the invariant. Removing
  gives back the sectors of the file, reading returns the bytes asked for up to the end of the file, and
  writing replaces bytes of the file but does not make it longer. All other files stay as they are.
\<close>

section \<open>Removing a file\<close>

text \<open>The free map stays open as long as nothing below \<open>next_addr s\<close> changes.\<close>

lemma mid_above:
  assumes "fs_ok s" "fs_wf (dev t) (free_map t)" "file_inode (dev t) 0 = file_inode (dev s) 0" "\<forall>x < next_addr s. inodes t x = inodes s x \<and> files t x = files s x"
    "free_map_file t = free_map_file s"
  shows "mid (fm_inode (dev s)) t"
proof -
  obtain a f p where q: "inodes s = [a \<mapsto> fm_inode (dev s)]" "files s = [f \<mapsto> \<lparr>finode = a, fpos = p, fdeny = False\<rparr>]"
    "free_map_file s = f" "0 < f" "a < next_addr s" "f < next_addr s" using quiet_addr[OF assms(1)] by metis
  have "inodes t a = Some (fm_inode (dev s))" "files t f = Some \<lparr>finode = a, fpos = p, fdeny = False\<rparr>" using assms(4) q(1,2,5,6) by simp_all
  moreover have "on_disk (dev t) (file_inode (dev t) 0)" using fs_wf_obj[OF assms(2), of 0] by simp
  ultimately have "fm_ok t (fm_inode (dev s))" using q assms(2,3,5) by (simp add: fm_ok_def fs_wf_def fm_inode_def)
  then show ?thesis using assms(2,3) by (simp add: mid_def fm_inode_def)
qed

text \<open>The root directory is open, and above it a file whose inode is \<open>j\<close>.\<close>

definition with_both :: "fsys \<Rightarrow> nat list \<Rightarrow> inode option \<Rightarrow> bitmap \<Rightarrow> block \<Rightarrow> fsys" where
  "with_both s os j b d = s\<lparr>inodes := (inodes s)(next_addr s := Some (plain_inode (dev s) 1), Suc (next_addr s) := j),
     open_inodes := os, next_addr := next_addr s + 2, free_map := b, dev := d\<rparr>"

lemma with_both_sel [simp]:
  "dev (with_both s os j b d) = d" "free_map (with_both s os j b d) = b" "(with_both s os j b d)\<lparr>free_map := b', dev := d'\<rparr> = with_both s os j b' d'"
  "(with_both s os j b d)\<lparr>dev := d'\<rparr> = with_both s os j b d'" "inodes (with_both s os j b d) (next_addr s) = Some (plain_inode (dev s) 1)"
  "inodes (with_both s os j b d) (Suc (next_addr s)) = j" "open_inodes (with_both s os j b d) = os"
  "(with_both s os j b d)\<lparr>open_inodes := os'\<rparr> = with_both s os' j b d" "upd_inode (with_both s os j b d) (Suc (next_addr s)) i = with_both s os (Some i) b d"
  "(with_both s os j b d)\<lparr>inodes := (inodes (with_both s os j b d))(Suc (next_addr s) := j')\<rparr> = with_both s os j' b d"
  by (simp_all add: with_both_def upd_inode_def)

lemma mid_with_both:
  "fs_ok s \<Longrightarrow> fs_wf d b \<Longrightarrow> file_inode d 0 = file_inode (dev s) 0 \<Longrightarrow> mid (fm_inode (dev s)) (with_both s os j b d)"
  by (rule mid_above) (simp_all add: with_both_def)

lemma open_with_both:
  assumes "fs_ok s" "enough mem" "map_of (ents (dev s)) name = Some n"
  shows "inode_open mem (with_root s (free_map s) (dev s)) n =
    Some (Suc (next_addr s), with_both s (Suc (next_addr s) # next_addr s # open_inodes s) (Some (plain_inode (dev s) n)) (free_map s) (dev s))"
proof -
  have wf: "fs_wf (dev s) (free_map s)" using assms(1) by (simp add: fs_ok_def)
  note nr = ents_not_reserved[OF wf assms(3)]
  obtain a where q: "inodes s = [a \<mapsto> fm_inode (dev s)]" "open_inodes s = [a]" "0 < a" "a < next_addr s" using quiet_addr[OF assms(1)] by metis
  have no: "not_open (with_root s (free_map s) (dev s)) n" using q nr(1,2) by (simp add: not_open_def with_root_def fm_inode_def)
  have "n < bsize (dev s)" using fs_wf_obj[OF wf nr(3)] by simp
  then show ?thesis using inode_open_new[OF no, of mem] assms(2) by (simp add: enough_def with_root_def opened_def with_both_def plain_inode_def)
qed

lemma close_with_both:
  assumes "fs_ok s"
  shows "dir_close mem (with_both s (next_addr s # open_inodes s) None b d) (Some \<lparr>dinode = next_addr s, dpos = 0\<rparr>) =
    Some (s\<lparr>free_map := b, dev := d, next_addr := next_addr s + 2\<rparr>)"
proof -
  obtain a where q: "inodes s = [a \<mapsto> fm_inode (dev s)]" "a < next_addr s" using quiet_addr[OF assms] by metis
  have nz: "next_addr s \<noteq> 0" using q(2) by simp
  have "inode_close mem (with_both s (next_addr s # open_inodes s) None b d) (next_addr s) =
      Some ((with_both s (next_addr s # open_inodes s) None b d)\<lparr>open_inodes := open_inodes s,
        inodes := (inodes (with_both s (next_addr s # open_inodes s) None b d))(next_addr s := None)\<rparr>)"
    using nz by (subst inode_close_last[where i = "plain_inode (dev s) 1"]) (simp_all add: plain_inode_def)
  moreover have "(inodes s)(next_addr s := None, Suc (next_addr s) := None) = inodes s" using q by (auto simp: fun_eq_iff)
  ultimately show ?thesis by (simp add: dir_close_def with_both_def fun_upd_twist)
qed

text \<open>The last close of the inode of a file that has been taken out of the directory.\<close>

lemma close_removed:
  assumes "mem 512" "inodes t ip = Some j" "open_cnt j = 1" "removed j" "isector j = n" "idata j = file_inode (dev t) n" "ip \<in> set (open_inodes t)" "ip \<noteq> 0"
    and mid: "mid fi (t\<lparr>inodes := (inodes t)(ip := Some (j\<lparr>open_cnt := 0\<rparr>)), open_inodes := remove1 ip (open_inodes t)\<rparr>)" (is "mid fi ?t")
    and n: "n < bsize (dev t)" "on_disk (dev t) (file_inode (dev t) n)" "ilength (file_inode (dev t) n) \<le> 2147483135"
      "n \<notin> data_extent (file_inode (dev t) n)" "extents (obj (dev t) n) \<subseteq> used_bits (free_map t)" "extents (obj (dev t) n) \<inter> lay (dev t) = {}"
  shows "\<exists>b' d'. inode_close mem t ip = Some (t\<lparr>inodes := (inodes t)(ip := None), open_inodes := remove1 ip (open_inodes t), free_map := b', dev := d'\<rparr>) \<and>
    fs_wf d' b' \<and> keeps (dev t) d' \<and> used_bits b' = used_bits (free_map t) - extents (obj (dev t) n)"
proof -
  let ?i = "file_inode (dev t) n"
  have p: "n + 1 \<le> bsize (dev ?t)" "extent (n, 1) \<subseteq> used_bits (free_map ?t)" "extent (n, 1) \<inter> lay (dev ?t) = {}" using n by simp_all
  obtain b1 d1 where r1: "free_map_release mem ?t n 1 = Some (?t\<lparr>free_map := b1, dev := d1\<rparr>)" "mid fi (?t\<lparr>free_map := b1, dev := d1\<rparr>)"
    "keeps (dev t) d1" "used_bits b1 = used_bits (free_map t) - {n}"
    using mid_release[OF mid, where mem = mem, OF assms(1) p] by auto
  have len: "0 \<le> ilength ?i" "istart ?i + sectors_for (nat (ilength ?i)) \<le> bsize (dev t)" using n(2) by (simp_all add: on_disk_def)
  have "nat (ilength ?i) \<le> 2147483135" using n(3) by simp
  from bytes_to_sectors_ok[OF this] have bs: "bytes_to_sectors (ilength ?i) = Some (sectors_for (nat (ilength ?i)))" using len(1) by simp
  have p2: "istart ?i + sectors_for (nat (ilength ?i)) \<le> bsize (dev (?t\<lparr>free_map := b1, dev := d1\<rparr>))"
    "data_extent ?i \<subseteq> used_bits (free_map (?t\<lparr>free_map := b1, dev := d1\<rparr>))" "data_extent ?i \<inter> lay (dev (?t\<lparr>free_map := b1, dev := d1\<rparr>)) = {}"
    using len(2) keepsD(5)[OF r1(3)] keeps_lay[OF r1(3)] n(4-6) r1(4) by auto
  obtain b2 d2 where r2: "free_map_release mem (?t\<lparr>free_map := b1, dev := d1\<rparr>) (istart ?i) (sectors_for (nat (ilength ?i))) = Some (?t\<lparr>free_map := b2, dev := d2\<rparr>)"
    "fs_wf d2 b2" "keeps d1 d2" "used_bits b2 = used_bits b1 - data_extent ?i"
    using mid_release[OF r1(2), where mem = mem, OF assms(1) p2] by (auto simp: mid_def)
  have "inode_close mem t ip = Some (t\<lparr>inodes := (inodes t)(ip := None), open_inodes := remove1 ip (open_inodes t), free_map := b2, dev := d2\<rparr>)"
    unfolding inode_close_def using r1(1) r2(1) bs assms(2-8) by (simp add: int32_def assert_def upd_inode_def Let_def)
  moreover have "used_bits b2 = used_bits (free_map t) - extents (obj (dev t) n)" using r1(4) r2(4) by auto
  ultimately show ?thesis using r2(2) keeps_trans[OF r1(3) r2(3)] by blast
qed

lemma fs_ok_next: "fs_ok s \<Longrightarrow> next_addr s \<le> k \<Longrightarrow> fs_ok (s\<lparr>next_addr := k\<rparr>)"
  by (auto simp: fs_ok_def quiet_def)

lemma fs_map_dom: "fs_map d name \<noteq> None \<longleftrightarrow> map_of (ents d) name \<noteq> None"
  by (simp add: fs_map_def)

lemma filesys_remove_missing:
  assumes "fs_ok s" "enough mem" "cstr name" "map_of (ents (dev s)) name = None"
  shows "filesys_remove mem s name = Some (False, s\<lparr>next_addr := Suc (next_addr s)\<rparr>)"
proof -
  have m: "mem 512" using assms(2) by (simp add: enough_def)
  have mid: "mid (fm_inode (dev s)) (with_root s (free_map s) (dev s))" using mid_opened[OF assms(1)] by (simp only: opened_with_root)
  note lk = root_lookup[where mem = mem, OF mid refl m assms(3)]
  have "index_of (names name) (slots (root_bytes (dev s))) = None" using lk(2)[symmetric] unfolding assms(4) map_option_is_None .
  then have l: "lookup mem (with_root s (free_map s) (dev s)) \<lparr>dinode = next_addr s, dpos = 0\<rparr> name = Some None" using lk(1) by (simp only: option.map)
  have c: "inode_close mem t 0 = Some t" for t by (simp add: inode_close_def)
  show ?thesis unfolding filesys_remove_def dir_remove_def
    by (simp only: dir_open_root_ok[OF assms(1,2), unfolded opened_with_root] l c dir_close_with_root[OF assms(1)] bind.bind_lunit prod.case option.case)
      simp
qed

text \<open>Taking the entry at place \<open>k\<close> out of the root directory, which is open as the inode \<open>i\<close>.\<close>

lemma remove_entry:
  assumes wf: "fs_wf (dev t) (free_map t)" and i: "inodes t ip = Some i" "deny_write_cnt i = 0" "idata i = file_inode (dev t) 1" and "mem 512"
    and n: "map_of (ents (dev t)) name = Some n" and c: "c = root_bytes (dev t)" "index_of (names name) (slots c) = Some k" "entry_sector (slots c ! k) = n"
  shows "\<exists>d'. inode_write_at mem t ip (set_in_use (slots c ! k) False) 20 (int (20 * k)) = Some (20, t\<lparr>dev := d'\<rparr>) \<and>
    fs_wf d' (free_map t) \<and> fs_map d' = (fs_map (dev t))(name := None) \<and> file_inode d' n = file_inode (dev t) n \<and>
    file_inode d' 0 = file_inode (dev t) 0 \<and> extents (obj d' n) \<inter> lay d' = {} \<and> only (data_extent (file_inode (dev t) 1)) (dev t) d'"
proof -
  let ?d = "dev t" and ?e = "set_in_use (slots c ! k) False"
  have k: "k < length c div 20" "names name (slots c ! k)" using c(2) by (auto simp: index_of_Some)
  have e: "ent (slots c ! k) = Some (name, n)" using k(2) c(3) by (auto simp: names_def ent_def split: if_splits)
  note fe = freed_entry_ok[OF length_slot[OF k(1)]]
  have at: "dir_at t ip i" "c = bytes_of (dev t) (idata i)" using wf fs_wf_obj[OF wf, of 1] i c(1) by (simp_all add: dir_at_def fs_wf_def)
  obtain d' where d': "inode_write_at mem t ip ?e 20 (int (20 * k)) = Some (20, t\<lparr>dev := d'\<rparr>)"
    "bytes_of d' (file_inode ?d 1) = put c (20 * k) ?e" "only (data_extent (file_inode ?d 1)) ?d d'"
    using dir_write_slot[OF at(1) i(2), where mem = mem, OF assms(5) at(2) k(1) fe(1)] i(3) by auto
  have "names_ok c" using wf by (simp add: fs_wf_def c(1))
  note del = dir_ents_del[OF this k(1) e fe d'(2)]
  have "1 \<notin> data_extent (file_inode ?d 1)" using fs_wf_own[OF wf, of 1] by simp
  then have i1: "file_inode d' 1 = file_inode ?d 1" using only_obj(1)[OF d'(3)] by blast
  then have en: "ents d' = dir_ents (bytes_of d' (file_inode ?d 1))" "ents ?d = dir_ents c" by (simp_all add: ents_def c(1))
  obtain as bs where ab: "ents ?d = as @ (name, n) # bs" "ents d' = as @ bs" using del(3) unfolding en by blast
  have mo: "map_of (ents d') = (map_of (ents ?d))(name := None)" using del(2) unfolding en .
  show ?thesis using d'(1,3) fs_wf_del[OF wf d'(3) del(1) ab mo] by blast
qed

text \<open>What is known of the sectors of a file whose entry is gone, as long as the file is open.\<close>

lemma removed_sectors:
  assumes wf: "fs_wf d b" "map_of (ents d) name = Some n" and d1: "file_inode d1 n = file_inode d n" "only (data_extent (file_inode d 1)) d d1"
  shows "n < bsize d1" "on_disk d1 (file_inode d1 n)" "ilength (file_inode d1 n) \<le> 2147483135" "n \<notin> data_extent (file_inode d1 n)"
    "extents (obj d1 n) \<subseteq> used_bits b" "obj d1 n = obj d n" "bytes_of d1 (file_inode d n) = bytes_of d (file_inode d n)"
proof -
  note nr = ents_not_reserved[OF assms(1,2)]
  have n1: "1 \<in> set (objs d)" "n \<noteq> 1" using nr(2) by simp_all
  have ob: "obj d1 n = obj d n" "bsize d1 = bsize d" using d1 by (simp_all add: obj_def only_def)
  show "n < bsize d1" "on_disk d1 (file_inode d1 n)" "ilength (file_inode d1 n) \<le> 2147483135" "n \<notin> data_extent (file_inode d1 n)"
    "extents (obj d1 n) \<subseteq> used_bits b" "obj d1 n = obj d n"
    using fs_wf_obj[OF wf(1) nr(3)] fs_wf_own[OF wf(1) nr(3)] fs_wf_used[OF wf(1) nr(3)] only_on_disk[OF d1(2)] ob by (simp_all add: d1(1))
  have "data_extent (file_inode d 1) \<inter> data_extent (file_inode d n) = {}" using fs_wf_apart[OF wf(1) n1(1) nr(3)] n1(2) by auto
  then show "bytes_of d1 (file_inode d n) = bytes_of d (file_inode d n)" by (rule only_bytes[OF d1(2)])
qed

lemma filesys_remove_present:
  assumes "fs_ok s" "enough mem" "cstr name" "map_of (ents (dev s)) name = Some n"
  shows "\<exists>s'. filesys_remove mem s name = Some (True, s') \<and> fs_ok s' \<and> fs_map (dev s') = (fs_map (dev s))(name := None) \<and>
    used_bits (free_map s') = used_bits (free_map s) - extents (obj (dev s) n)"
proof -
  let ?d = "dev s" and ?b = "free_map s" and ?c = "root_bytes (dev s)" and ?D = "\<lparr>dinode = next_addr s, dpos = 0\<rparr>"
  let ?os = "next_addr s # open_inodes s" and ?j = "plain_inode (dev s) n"
  have m: "mem 512" using assms(2) by (simp add: enough_def)
  have wf: "fs_wf ?d ?b" using assms(1) by (simp add: fs_ok_def)
  have mid: "mid (fm_inode ?d) (with_root s ?b ?d)" using mid_opened[OF assms(1)] by (simp only: opened_with_root)
  note lk = root_lookup[where mem = mem, OF mid refl m assms(3)]
  obtain k where k: "index_of (names name) (slots ?c) = Some k" "entry_sector (slots ?c ! k) = n"
    using lk(2)[symmetric] unfolding assms(4) map_option_eq_Some by blast
  have l: "lookup mem (with_root s ?b ?d) ?D name = Some (Some (slots ?c ! k, 20 * k))" using lk(1) unfolding k(1) by (simp only: option.map)
  have i1: "inodes (with_both s (Suc (next_addr s) # ?os) (Some ?j) ?b ?d) (next_addr s) = Some (plain_inode ?d 1)" by simp
  obtain d1 where w: "inode_write_at mem (with_both s (Suc (next_addr s) # ?os) (Some ?j) ?b ?d) (next_addr s) (set_in_use (slots ?c ! k) False) 20 (int (20 * k)) =
      Some (20, with_both s (Suc (next_addr s) # ?os) (Some ?j) ?b d1)"
    "fs_wf d1 ?b" "fs_map d1 = (fs_map ?d)(name := None)" "file_inode d1 n = file_inode ?d n" "file_inode d1 0 = file_inode ?d 0"
    "extents (obj d1 n) \<inter> lay d1 = {}" "only (data_extent (file_inode ?d 1)) ?d d1"
    using remove_entry[OF _ i1, where mem = mem and name = name and n = n and c = ?c and k = k] wf m assms(4) k by (auto simp: plain_inode_def)
  note sec = removed_sectors[OF wf assms(4) w(4,7)]
  let ?t = "with_both s (Suc (next_addr s) # ?os) (Some (?j\<lparr>removed := True\<rparr>)) ?b d1"
  have "mid (fm_inode ?d) (with_both s ?os (Some (?j\<lparr>removed := True, open_cnt := 0\<rparr>)) ?b d1)" by (rule mid_with_both[OF assms(1) w(2,5)])
  then have md: "mid (fm_inode ?d) (?t\<lparr>inodes := (inodes ?t)(Suc (next_addr s) := Some (?j\<lparr>removed := True, open_cnt := 0\<rparr>)), open_inodes := remove1 (Suc (next_addr s)) (open_inodes ?t)\<rparr>)"
    by simp
  obtain b' d' where c: "inode_close mem ?t (Suc (next_addr s)) = Some (with_both s ?os None b' d')"
    "fs_wf d' b'" "keeps d1 d'" "used_bits b' = used_bits ?b - extents (obj ?d n)"
    using close_removed[where mem = mem and t = ?t and ip = "Suc (next_addr s)" and n = n, OF m _ _ _ _ _ _ _ md] sec w(4,6) by (auto simp: plain_inode_def)
  have rm: "inode_remove (with_both s (Suc (next_addr s) # ?os) (Some ?j) ?b d1) (Suc (next_addr s)) = Some (with_both s (Suc (next_addr s) # ?os) (Some (?j\<lparr>removed := True\<rparr>)) ?b d1)"
    by (simp add: inode_remove_def assert_def)
  have sz: "sizeof_dir_entry = 20" "int 20 = 20" "(Suc (next_addr s) = 0) = False" by (simp_all add: sizeof_dir_entry_def)
  have "0 \<in> set (objs d1)" by simp
  from keepsD(6)[OF c(3) this] have "fs_ok (s\<lparr>free_map := b', dev := d', next_addr := next_addr s + 2\<rparr>)" using fs_ok_update[OF assms(1) c(2)] w(5) by simp
  moreover have "fs_map d' = (fs_map ?d)(name := None)" using keepsD(3)[OF c(3)] w(3) by simp
  moreover have "filesys_remove mem s name = Some (True, s\<lparr>free_map := b', dev := d', next_addr := next_addr s + 2\<rparr>)"
    unfolding filesys_remove_def dir_remove_def
    by (simp only: dir_open_root_ok[OF assms(1,2), unfolded opened_with_root] l k(2) open_with_both[OF assms(1,2,4)] sz dir.simps w(1) rm c(1)
      close_with_both[OF assms(1)] bind.bind_lunit prod.case option.case refl simp_thms if_False)
  ultimately show ?thesis using c(4) by simp
qed

lemma filesys_remove_ok:
  assumes "fs_ok s" "enough mem" "cstr name"
  shows "\<exists>s'. filesys_remove mem s name = Some (fs_map (dev s) name \<noteq> None, s') \<and> fs_ok s' \<and> fs_map (dev s') = (fs_map (dev s))(name := None) \<and>
    used_bits (free_map s') = used_bits (free_map s) - (case map_of (ents (dev s)) name of None \<Rightarrow> {} | Some n \<Rightarrow> extents (obj (dev s) n))"
proof (cases "map_of (ents (dev s)) name")
  case None
  then have "fs_map (dev s) name = None" "(fs_map (dev s))(name := None) = fs_map (dev s)" by (auto simp: fs_map_def fun_eq_iff)
  then show ?thesis using filesys_remove_missing[OF assms None] fs_ok_next[OF assms(1)] None by simp
next
  case (Some n)
  have "fs_map (dev s) name \<noteq> None" using Some by (simp add: fs_map_def)
  then show ?thesis using filesys_remove_present[OF assms Some] unfolding Some option.case by simp
qed

section \<open>Reading and writing a file\<close>

text \<open>A client opens a file by name, reads or writes at an offset, and closes it.\<close>

definition read_file :: "(nat \<Rightarrow> bool) \<Rightarrow> fsys \<Rightarrow> string \<Rightarrow> int \<Rightarrow> int \<Rightarrow> (char list option \<times> fsys) option" where
  "read_file mem s name sz ofs = do {
     (fp, s) \<leftarrow> filesys_open mem s name;
     if fp = 0 then Some (None, s)
     else do { bs \<leftarrow> file_read_at mem s fp sz ofs; s \<leftarrow> file_close mem s fp; Some (Some bs, s) }
   }"

definition write_file :: "(nat \<Rightarrow> bool) \<Rightarrow> fsys \<Rightarrow> string \<Rightarrow> char list \<Rightarrow> int \<Rightarrow> (int option \<times> fsys) option" where
  "write_file mem s name buf ofs = do {
     (fp, s) \<leftarrow> filesys_open mem s name;
     if fp = 0 then Some (None, s)
     else do { (n, s) \<leftarrow> file_write_at mem s fp buf (int (length buf)) ofs; s \<leftarrow> file_close mem s fp; Some (Some n, s) }
   }"

lemma with_file_at:
  "files (with_file s n d) (next_addr s + 2) = Some \<lparr>finode = next_addr s + 1, fpos = 0, fdeny = False\<rparr>"
  "inodes (with_file s n d) (next_addr s + 1) = Some (plain_inode (dev s) n)" "dev (with_file s n d) = d"
  "(with_file s n d)\<lparr>dev := d'\<rparr> = with_file s n d'"
  by (simp_all add: with_file_def)

lemma read_file_ok:
  assumes "fs_ok s" "enough mem" "cstr name" "0 \<le> ofs" "ofs < 2147483648"
  shows "\<exists>s'. read_file mem s name sz ofs = Some (map_option (\<lambda>c. seg c (nat ofs) (nat sz)) (fs_map (dev s) name), s') \<and> fs_ok s' \<and> dev s' = dev s"
proof (cases "map_of (ents (dev s)) name")
  case None
  then show ?thesis using filesys_open_ok(1)[OF assms(1-3) None] fs_ok_next[OF assms(1)] by (simp add: read_file_def fs_map_def)
next
  case (Some n)
  have wf: "fs_wf (dev s) (free_map s)" using assms(1) by (simp add: fs_ok_def)
  note o = fs_wf_obj[OF wf ents_not_reserved(3)[OF wf Some]]
  have m: "mem 512" using assms(2) by (simp add: enough_def)
  have dk: "disk_ok (dev s)" using wf by (simp add: fs_wf_def)
  have "inode_read mem (dev s) (plain_inode (dev s) n) sz ofs = Some (seg (bytes_of (dev s) (file_inode (dev s) n)) (nat ofs) (nat sz))"
    using inode_read_ok[where mem = mem, OF dk _ m assms(4,5), of "plain_inode (dev s) n" sz] o by (simp add: plain_inode_def)
  then have r: "file_read_at mem (with_file s n (dev s)) (next_addr s + 2) sz ofs = Some (seg (bytes_of (dev s) (file_inode (dev s) n)) (nat ofs) (nat sz))"
    by (simp only: file_read_at_def inode_read_at_def with_file_at bind.bind_lunit ofile.simps)
  have "fs_ok (s\<lparr>next_addr := next_addr s + 3, dev := dev s\<rparr>)" using fs_ok_next[OF assms(1), of "next_addr s + 3"] by simp
  moreover have "read_file mem s name sz ofs = Some (Some (seg (bytes_of (dev s) (file_inode (dev s) n)) (nat ofs) (nat sz)), s\<lparr>next_addr := next_addr s + 3, dev := dev s\<rparr>)"
    unfolding read_file_def filesys_open_ok(2)[OF assms(1-3) Some] using r with_file_close[OF assms(1), of mem n] by simp
  ultimately show ?thesis using Some by (simp add: fs_map_def)
qed

text \<open>A write does not make a file longer: what lies beyond its end is dropped.\<close>

definition clip :: "char list \<Rightarrow> nat \<Rightarrow> char list \<Rightarrow> char list" where
  "clip c ofs buf = take (length c - ofs) buf"

lemma write_file_ok:
  assumes "fs_ok s" "enough mem" "cstr name" "0 \<le> ofs" "ofs < 2147483648"
  shows "\<exists>s'. write_file mem s name buf ofs = Some (map_option (\<lambda>c. int (length (clip c (nat ofs) buf))) (fs_map (dev s) name), s') \<and> fs_ok s' \<and>
    fs_map (dev s') = (case fs_map (dev s) name of None \<Rightarrow> fs_map (dev s) | Some c \<Rightarrow> (fs_map (dev s))(name \<mapsto> put c (nat ofs) (clip c (nat ofs) buf)))"
proof (cases "map_of (ents (dev s)) name")
  case None
  then show ?thesis using filesys_open_ok(1)[OF assms(1-3) None] fs_ok_next[OF assms(1)] by (simp add: write_file_def fs_map_def)
next
  case (Some n)
  let ?i = "file_inode (dev s) n" and ?c = "bytes_of (dev s) (file_inode (dev s) n)"
  have wf: "fs_wf (dev s) (free_map s)" using assms(1) by (simp add: fs_ok_def)
  note o = fs_wf_obj[OF wf ents_not_reserved(3)[OF wf Some]]
  have m: "mem 512" using assms(2) by (simp add: enough_def)
  have dk: "disk_ok (dev s)" using wf by (simp add: fs_wf_def)
  have p: "on_disk (dev s) (idata (plain_inode (dev s) n))" "int (length buf) \<le> int (length buf)" "deny_write_cnt (plain_inode (dev s) n) = 0"
    "length (clip ?c (nat ofs) buf) = min (nat (int (length buf))) (nat (ilength (idata (plain_inode (dev s) n))) - nat ofs)"
    using o by (simp_all add: plain_inode_def clip_def min.commute)
  have cl: "take (length (clip ?c (nat ofs) buf)) buf = clip ?c (nat ofs) buf" by (simp add: clip_def min_def)
  have i: "idata (plain_inode (dev s) n) = ?i" by (simp add: plain_inode_def)
  obtain d' where d': "inode_write mem (dev s) (plain_inode (dev s) n) buf (int (length buf)) ofs = Some (int (length (clip ?c (nat ofs) buf)), d')"
    "bytes_of d' ?i = put ?c (nat ofs) (clip ?c (nat ofs) buf)" "only (data_extent ?i) (dev s) d'"
    using inode_write_ok[where mem = mem, OF dk p(1) m assms(4,5) p(2-4)] unfolding cl i by blast
  note f = fs_wf_write[OF wf Some d'(3)]
  have w: "file_write_at mem (with_file s n (dev s)) (next_addr s + 2) buf (int (length buf)) ofs = Some (int (length (clip ?c (nat ofs) buf)), with_file s n d')"
    by (simp only: file_write_at_def inode_write_at_def with_file_at bind.bind_lunit ofile.simps d'(1) prod.case)
  have "s\<lparr>free_map := free_map s, dev := d', next_addr := next_addr s + 3\<rparr> = s\<lparr>next_addr := next_addr s + 3, dev := d'\<rparr>" by simp
  then have "fs_ok (s\<lparr>next_addr := next_addr s + 3, dev := d'\<rparr>)" using fs_ok_update[OF assms(1) f(1,4), of "next_addr s + 3"] by (metis le_add1)
  moreover have "write_file mem s name buf ofs = Some (Some (int (length (clip ?c (nat ofs) buf))), s\<lparr>next_addr := next_addr s + 3, dev := d'\<rparr>)"
    unfolding write_file_def filesys_open_ok(2)[OF assms(1-3) Some] using w with_file_close[OF assms(1), of mem n] by simp
  ultimately show ?thesis using Some f(2) d'(2) by (simp add: fs_map_def)
qed

section \<open>Removing an open file\<close>

text \<open>A file is open, at the address \<open>next_addr s + 2\<close> and with the inode \<open>j\<close>, and above it possibly the root directory.\<close>

definition held :: "fsys \<Rightarrow> inode \<Rightarrow> inode option \<Rightarrow> nat \<Rightarrow> bitmap \<Rightarrow> block \<Rightarrow> fsys" where
  "held s j root k b d = s\<lparr>inodes := (inodes s)(next_addr s + 1 := Some j, next_addr s + 3 := root),
     open_inodes := (if root = None then [] else [next_addr s + 3]) @ (next_addr s + 1) # open_inodes s,
     files := (files s)(next_addr s + 2 := Some \<lparr>finode = next_addr s + 1, fpos = 0, fdeny = False\<rparr>), next_addr := k, free_map := b, dev := d\<rparr>"

lemma held_sel [simp]:
  "dev (held s j root k b d) = d" "free_map (held s j root k b d) = b" "next_addr (held s j root k b d) = k"
  "inodes (held s j root k b d) (next_addr s + 1) = Some j" "inodes (held s j root k b d) (Suc (next_addr s)) = Some j"
  "inodes (held s j root k b d) (next_addr s + 3) = root"
  "files (held s j root k b d) (next_addr s + 2) = Some \<lparr>finode = next_addr s + 1, fpos = 0, fdeny = False\<rparr>"
  "files (held s j root k b d) (Suc (Suc (next_addr s))) = Some \<lparr>finode = next_addr s + 1, fpos = 0, fdeny = False\<rparr>"
  "open_inodes (held s j root k b d) = (if root = None then [] else [next_addr s + 3]) @ (next_addr s + 1) # open_inodes s"
  "(held s j root k b d)\<lparr>dev := d'\<rparr> = held s j root k b d'"
  "upd_inode (held s j root k b d) (next_addr s + 1) j' = held s j' root k b d" "upd_inode (held s j root k b d) (Suc (next_addr s)) j' = held s j' root k b d"
  by (simp_all add: held_def upd_inode_def fun_upd_twist numeral_2_eq_2)

lemma mid_held:
  "fs_ok s \<Longrightarrow> fs_wf d b \<Longrightarrow> file_inode d 0 = file_inode (dev s) 0 \<Longrightarrow> mid (fm_inode (dev s)) (held s j root k b d)"
  by (rule mid_above) (simp_all add: held_def)

lemma with_file_held: "fs_ok s \<Longrightarrow> with_file s n d = held s (plain_inode (dev s) n) None (next_addr s + 3) (free_map s) d"
  using quiet_addr[of s] by (force simp: with_file_def held_def fun_eq_iff)

lemma held_open_root:
  assumes "fs_ok s" "enough mem" "n \<noteq> 1" "isector j = n" "k = next_addr s + 3"
  shows "dir_open_root mem (held s j None k (free_map s) (dev s)) =
    Some (Some \<lparr>dinode = k, dpos = 0\<rparr>, held s j (Some (plain_inode (dev s) 1)) (Suc k) (free_map s) (dev s))"
proof -
  obtain a where q: "inodes s = [a \<mapsto> fm_inode (dev s)]" "open_inodes s = [a]" "a < next_addr s" using quiet_addr[OF assms(1)] by metis
  have no: "not_open (held s j None k (free_map s) (dev s)) 1" using q assms(3,4) by (auto simp: not_open_def held_def fm_inode_def)
  have "1 < bsize (dev s)" using fs_wf_obj[of "dev s" "free_map s" 1] assms(1) by (simp add: fs_ok_def)
  then have "inode_open mem (held s j None k (free_map s) (dev s)) 1 = Some (k, opened (held s j None k (free_map s) (dev s)) 1)"
    using inode_open_new[OF no] assms(2) by (simp add: enough_def)
  moreover have "opened (held s j None k (free_map s) (dev s)) 1 = held s j (Some (plain_inode (dev s) 1)) (Suc k) (free_map s) (dev s)"
    by (simp add: opened_def held_def plain_inode_def assms(5))
  ultimately show ?thesis using assms(2,5) by (simp add: dir_open_root_def ROOT_DIR_SECTOR_def dir_open_def enough_def kmalloc_def sizeof_dir_def)
qed

lemma held_close_root:
  "dir_close mem (held s j (Some (plain_inode (dev s) 1)) k b d) (Some \<lparr>dinode = next_addr s + 3, dpos = 0\<rparr>) = Some (held s j None k b d)"
proof -
  have "inode_close mem (held s j (Some (plain_inode (dev s) 1)) k b d) (next_addr s + 3) =
      Some ((held s j (Some (plain_inode (dev s) 1)) k b d)\<lparr>open_inodes := (next_addr s + 1) # open_inodes s,
        inodes := (inodes (held s j (Some (plain_inode (dev s) 1)) k b d))(next_addr s + 3 := None)\<rparr>)"
    by (subst inode_close_last[where i = "plain_inode (dev s) 1"]) (simp_all add: plain_inode_def)
  then show ?thesis by (simp add: dir_close_def held_def)
qed

text \<open>Taking an open file out of the directory: nothing is released, and the inode is marked.\<close>

lemma remove_held:
  assumes "fs_ok s" "enough mem" "cstr name" "map_of (ents (dev s)) name = Some n"
  shows "\<exists>d1. filesys_remove mem (with_file s n (dev s)) name =
      Some (True, held s ((plain_inode (dev s) n)\<lparr>removed := True\<rparr>) None (next_addr s + 4) (free_map s) d1) \<and>
    fs_wf d1 (free_map s) \<and> fs_map d1 = (fs_map (dev s))(name := None) \<and> file_inode d1 n = file_inode (dev s) n \<and>
    file_inode d1 0 = file_inode (dev s) 0 \<and> extents (obj d1 n) \<inter> lay d1 = {} \<and> only (data_extent (file_inode (dev s) 1)) (dev s) d1"
proof -
  let ?d = "dev s" and ?b = "free_map s" and ?c = "root_bytes (dev s)" and ?A = "next_addr s" and ?j = "plain_inode (dev s) n" and ?r = "Some (plain_inode (dev s) 1)"
  let ?D = "\<lparr>dinode = ?A + 3, dpos = 0\<rparr>"
  have m: "mem 512" using assms(2) by (simp add: enough_def)
  have wf: "fs_wf ?d ?b" using assms(1) by (simp add: fs_ok_def)
  note nr = ents_not_reserved[OF wf assms(4)]
  have at: "dir_at (held s ?j ?r (?A + 4) ?b ?d) (dinode ?D) (plain_inode ?d 1)" "names_ok ?c" "?c = bytes_of (dev (held s ?j ?r (?A + 4) ?b ?d)) (idata (plain_inode ?d 1))"
    using wf fs_wf_obj[OF wf, of 1] by (simp_all add: dir_at_def fs_wf_def plain_inode_def)
  have lk: "map_of (ents ?d) name = map_option (\<lambda>k. entry_sector (slots ?c ! k)) (index_of (names name) (slots ?c))"
    unfolding ents_def dir_ents_def by (rule dir_ents_lookup)
  obtain k where k: "index_of (names name) (slots ?c) = Some k" "entry_sector (slots ?c ! k) = n"
    using lk[symmetric] unfolding assms(4) map_option_eq_Some by blast
  have l: "lookup mem (held s ?j ?r (?A + 4) ?b ?d) ?D name = Some (Some (slots ?c ! k, 20 * k))"
    using lookup_ok[where mem = mem, OF at(1) m at(3,2) assms(3)] unfolding k(1) by (simp only: option.map)
  let ?t = "held s (?j\<lparr>open_cnt := 2\<rparr>) ?r (?A + 4) ?b"
  have "find_open (held s ?j ?r (?A + 4) ?b ?d) n (open_inodes (held s ?j ?r (?A + 4) ?b ?d)) = Some (?A + 1)"
    using nr(2) by (simp add: plain_inode_def)
  then have op: "inode_open mem (held s ?j ?r (?A + 4) ?b ?d) n = Some (?A + 1, ?t ?d)"
    unfolding inode_open_def by (simp only: bind.bind_lunit) (simp add: inode_reopen_def int32_def plain_inode_def flip: One_nat_def Suc_eq_plus1)
  have i1: "inodes (?t ?d) (?A + 3) = Some (plain_inode ?d 1)" by simp
  obtain d1 where w: "inode_write_at mem (?t ?d) (?A + 3) (set_in_use (slots ?c ! k) False) 20 (int (20 * k)) = Some (20, ?t d1)"
    "fs_wf d1 ?b" "fs_map d1 = (fs_map ?d)(name := None)" "file_inode d1 n = file_inode ?d n" "file_inode d1 0 = file_inode ?d 0"
    "extents (obj d1 n) \<inter> lay d1 = {}" "only (data_extent (file_inode ?d 1)) ?d d1"
    using remove_entry[OF _ i1, where mem = mem and name = name and n = n and c = ?c and k = k] wf m assms(4) k by (auto simp: plain_inode_def)
  have rm: "inode_remove (?t d1) (?A + 1) = Some (held s (?j\<lparr>open_cnt := 2, removed := True\<rparr>) ?r (?A + 4) ?b d1)"
    by (simp add: inode_remove_def assert_def flip: Suc_eq_plus1)
  have cl: "inode_close mem (held s (?j\<lparr>open_cnt := 2, removed := True\<rparr>) ?r (?A + 4) ?b d1) (?A + 1) = Some (held s (?j\<lparr>removed := True\<rparr>) ?r (?A + 4) ?b d1)"
    by (simp add: inode_close_def int32_def plain_inode_def Let_def flip: Suc_eq_plus1)
  have sz: "sizeof_dir_entry = 20" "int 20 = 20" "(?A + 1 = 0) = False" by (simp_all add: sizeof_dir_entry_def)
  have j: "isector ?j = n" "Suc (?A + 3) = ?A + 4" by (simp_all add: plain_inode_def)
  have "filesys_remove mem (with_file s n ?d) name = Some (True, held s (?j\<lparr>removed := True\<rparr>) None (?A + 4) ?b d1)"
    unfolding filesys_remove_def dir_remove_def with_file_held[OF assms(1)]
    by (simp only: held_open_root[OF assms(1,2) nr(2) j(1) refl] j(2) l k(2) op sz dir.simps w(1) rm cl held_close_root bind.bind_lunit prod.case option.case refl simp_thms if_False)
  then show ?thesis using w(2-7) by blast
qed

lemma close_held:
  assumes "fs_ok s" "mem 512" "j = (plain_inode (dev s) n)\<lparr>removed := True\<rparr>" "fs_wf d b" "file_inode d 0 = file_inode (dev s) 0" "file_inode d n = file_inode (dev s) n"
    "n < bsize d" "on_disk d (file_inode d n)" "ilength (file_inode d n) \<le> 2147483135" "n \<notin> data_extent (file_inode d n)"
    "extents (obj d n) \<subseteq> used_bits b" "extents (obj d n) \<inter> lay d = {}" "next_addr s \<le> k"
  shows "\<exists>s'. file_close mem (held s j None k b d) (next_addr s + 2) = Some s' \<and> fs_ok s' \<and> fs_map (dev s') = fs_map d \<and>
    used_bits (free_map s') = used_bits b - extents (obj d n)"
proof -
  let ?t = "held s j None k b d" and ?ip = "next_addr s + 1"
  obtain a f p where q: "inodes s = [a \<mapsto> fm_inode (dev s)]" "files s = [f \<mapsto> \<lparr>finode = a, fpos = p, fdeny = False\<rparr>]"
    "a < next_addr s" "f < next_addr s" using quiet_addr[OF assms(1)] by metis
  have md: "mid (fm_inode (dev s)) (?t\<lparr>inodes := (inodes ?t)(?ip := Some (j\<lparr>open_cnt := 0\<rparr>)), open_inodes := remove1 ?ip (open_inodes ?t)\<rparr>)"
    by (rule mid_above[OF assms(1)]) (use assms(4,5) in \<open>simp_all add: held_def\<close>)
  obtain b' d' where c: "inode_close mem ?t ?ip = Some (?t\<lparr>inodes := (inodes ?t)(?ip := None), open_inodes := open_inodes s, free_map := b', dev := d'\<rparr>)"
    "fs_wf d' b'" "keeps d d'" "used_bits b' = used_bits b - extents (obj d n)"
    using close_removed[where mem = mem and t = ?t and ip = ?ip and n = n, OF assms(2) _ _ _ _ _ _ _ md] assms(6-12) by (auto simp: assms(3) plain_inode_def)
  have "inodes s (next_addr s + 3) = None" "inodes s ?ip = None" "files s (next_addr s + 2) = None" using q by auto
  then have "(?t\<lparr>inodes := (inodes ?t)(?ip := None), open_inodes := open_inodes s, free_map := b', dev := d'\<rparr>)\<lparr>files := (files ?t)(next_addr s + 2 := None)\<rparr> =
      s\<lparr>free_map := b', dev := d', next_addr := k\<rparr>"
    by (simp add: held_def fun_upd_idem fun_upd_twist)
  then have "file_close mem ?t (next_addr s + 2) = Some (s\<lparr>free_map := b', dev := d', next_addr := k\<rparr>)"
    using c(1) by (simp add: file_close_def file_allow_write_def assert_def)
  moreover have "fs_ok (s\<lparr>free_map := b', dev := d', next_addr := k\<rparr>)"
    using fs_ok_update[OF assms(1) c(2) _ assms(13)] keepsD(6)[OF c(3), of 0] assms(5) by simp
  ultimately show ?thesis using keepsD(3)[OF c(3)] c(4) by simp
qed

text \<open>A removed file that is still open keeps its sectors and can be written and read; closing it gives them back.\<close>

lemma filesys_remove_open:
  assumes "fs_ok s" "enough mem" "cstr name" "map_of (ents (dev s)) name = Some n" "0 \<le> ofs" "ofs < 2147483648" "0 \<le> pos" "pos < 2147483648"
    "c = bytes_of (dev s) (file_inode (dev s) n)"
  shows "\<exists>fp s1 s2 s3 s4. filesys_open mem s name = Some (fp, s1) \<and> fp \<noteq> 0 \<and>
    filesys_remove mem s1 name = Some (True, s2) \<and> fs_map (dev s2) = (fs_map (dev s))(name := None) \<and> free_map s2 = free_map s \<and>
    file_write_at mem s2 fp buf (int (length buf)) ofs = Some (int (length (clip c (nat ofs) buf)), s3) \<and> fs_map (dev s3) = fs_map (dev s2) \<and>
    file_read_at mem s3 fp sz pos = Some (seg (put c (nat ofs) (clip c (nat ofs) buf)) (nat pos) (nat sz)) \<and>
    file_close mem s3 fp = Some s4 \<and> fs_ok s4 \<and> fs_map (dev s4) = (fs_map (dev s))(name := None) \<and>
    used_bits (free_map s4) = used_bits (free_map s) - extents (obj (dev s) n)"
proof -
  let ?d = "dev s" and ?b = "free_map s" and ?j = "(plain_inode (dev s) n)\<lparr>removed := True\<rparr>" and ?i = "file_inode (dev s) n" and ?k = "next_addr s + 4"
  have m: "mem 512" using assms(2) by (simp add: enough_def)
  have wf: "fs_wf ?d ?b" using assms(1) by (simp add: fs_ok_def)
  obtain d1 where r: "filesys_remove mem (with_file s n ?d) name = Some (True, held s ?j None ?k ?b d1)"
    "fs_wf d1 ?b" "fs_map d1 = (fs_map ?d)(name := None)" "file_inode d1 n = ?i" "file_inode d1 0 = file_inode ?d 0"
    "extents (obj d1 n) \<inter> lay d1 = {}" "only (data_extent (file_inode ?d 1)) ?d d1" using remove_held[OF assms(1-4)] by blast
  note sec = removed_sectors[OF wf assms(4) r(4,7)]
  have i: "idata ?j = ?i" "deny_write_cnt ?j = 0" by (simp_all add: plain_inode_def)
  have dk: "disk_ok d1" "on_disk d1 (idata ?j)" using r(2,4) sec(2) by (simp_all add: fs_wf_def plain_inode_def)
  have len: "length (clip c (nat ofs) buf) = min (nat (int (length buf))) (nat (ilength (idata ?j)) - nat ofs)"
    using sec(2) r(4) by (simp add: clip_def min.commute assms(9) i(1))
  have cl: "take (length (clip c (nat ofs) buf)) buf = clip c (nat ofs) buf" by (simp add: clip_def min_def)
  obtain d2 where w: "inode_write mem d1 ?j buf (int (length buf)) ofs = Some (int (length (clip c (nat ofs) buf)), d2)"
    "bytes_of d2 ?i = put c (nat ofs) (clip c (nat ofs) buf)" "only (data_extent ?i) d1 d2"
    using inode_write_ok[where mem = mem, OF dk m assms(5,6) order_refl i(2) len] unfolding cl i(1) sec(7) assms(9)[symmetric] by blast
  have x: "data_extent ?i \<inter> lay d1 = {}" using r(4,6) by auto
  have X: "data_extent ?i \<inter> extents (obj d1 x) = {}" if "x \<in> set (objs d1)" for x using x lay_obj[OF that] by blast
  have sv: "saved d2 (file_inode d1 0) ?b" using saved_only[OF _ w(3)] X[of 0] r(2) by (auto simp: fs_wf_def)
  have "0 \<notin> data_extent ?i" using X[of 0] by auto
  note f = fs_wf_frame[OF r(2) w(3) this _ _ _ refl sv]
  have wf1: "bm_ok ?b" "length (bits ?b) = elem_cnt (bit_cnt ?b)" "lay d1 \<subseteq> used_bits ?b" using r(2) by (simp_all add: fs_wf_def)
  have f2: "fs_wf d2 ?b" "fs_map d2 = fs_map d1" "ents d2 = ents d1" "\<And>x. x \<in> set (objs d1) \<Longrightarrow> file_inode d2 x = file_inode d1 x"
    using f[OF X wf1] by auto
  have "n \<notin> data_extent ?i" using sec(4) r(4) by simp
  then have in2: "file_inode d2 n = ?i" "obj d2 n = obj ?d n" using only_obj[OF w(3)] r(4) sec(6) by simp_all
  have l2: "lay d2 = lay d1" unfolding f2(3) by (rule arg_cong[OF layout_cong]) (use f2(4) in blast)
  have bs: "bsize d2 = bsize d1" "disk_ok d2" "on_disk d2 ?i" using w(3) sec(2) r(4) only_on_disk[OF w(3)] by (simp_all add: only_def)
  obtain s4 where c4: "file_close mem (held s ?j None ?k ?b d2) (next_addr s + 2) = Some s4" "fs_ok s4" "fs_map (dev s4) = fs_map d2"
    "used_bits (free_map s4) = used_bits ?b - extents (obj d2 n)"
    using close_held[OF assms(1), where mem = mem and j = ?j and n = n, OF m refl f2(1), of ?k] f2(4)[of 0] r(5) in2 bs l2 sec r(4,6) by auto
  have wr: "file_write_at mem (held s ?j None ?k ?b d1) (next_addr s + 2) buf (int (length buf)) ofs = Some (int (length (clip c (nat ofs) buf)), held s ?j None ?k ?b d2)"
    by (simp only: file_write_at_def inode_write_at_def held_sel bind.bind_lunit ofile.simps w(1) prod.case)
  have rd: "file_read_at mem (held s ?j None ?k ?b d2) (next_addr s + 2) sz pos = Some (seg (put c (nat ofs) (clip c (nat ofs) buf)) (nat pos) (nat sz))"
    using inode_read_ok[where mem = mem, OF bs(2) _ m assms(7,8), of ?j sz] bs(3) w(2) i(1)
    by (simp only: file_read_at_def inode_read_at_def held_sel bind.bind_lunit ofile.simps)
  have ne: "next_addr s + 2 \<noteq> 0" by simp
  show ?thesis
    by (intro exI conjI, rule filesys_open_ok(2)[OF assms(1-4)], rule ne, rule r(1), use r(3) in simp, simp, rule wr, use f2(2) in simp, rule rd, rule c4(1), rule c4(2))
      (use c4(3,4) f2(2) r(3) in2(2) in simp_all)
qed

end
