(* ===== verification/FsFormat.thy ===== *)
theory FsFormat
  imports Filesys
begin

text \<open>
  Starting the file system. After a restart the memory is empty and everything comes from the disk: the
  bitmap of the free map is read from its file, and the file system satisfies its invariant with the files
  that were on the disk. Formatting a disk gives a file system without files.
\<close>

section \<open>Restarting\<close>

definition boot :: "block \<Rightarrow> fsys" where
  "boot d = \<lparr>dev = d, inodes = Map.empty, open_inodes = [], files = Map.empty, next_addr = 1, free_map = \<lparr>bit_cnt = 0, bits = []\<rparr>, free_map_file = 0\<rparr>"

lemma elem_cnt_small: "n \<le> 4294967264 \<Longrightarrow> elem_cnt n = (n + 31) div 32"
  by (simp add: elem_cnt_def size_add_def ELEM_BITS_def)

lemma last_mask_bit:
  assumes "bit_cnt b \<le> 4294967264" "i < bit_cnt b" "i div 32 = elem_cnt (bit_cnt b) - 1"
  shows "bit (last_mask b) (i mod 32)"
proof (cases "bit_cnt b mod 32 = 0")
  case True
  then show ?thesis by (simp add: last_mask_def ELEM_BITS_def)
next
  case False
  have "(bit_cnt b mod 32 + 31) div 32 = 1" using False by (intro div_nat_eqI) simp_all
  then have "(bit_cnt b + 31) div 32 = Suc (bit_cnt b div 32)" by (simp add: div_add1_eq[of "bit_cnt b" 31])
  then have "i div 32 = bit_cnt b div 32" using assms(3) unfolding elem_cnt_small[OF assms(1)] by simp
  then have "i mod 32 < bit_cnt b mod 32" using assms(2) by (metis add_less_cancel_left mult_div_mod_eq)
  moreover have "push_bit (bit_cnt b mod 32) 1 - 1 = (mask (bit_cnt b mod 32) :: 32 word)" by (simp add: mask_eq_exp_minus_1 push_bit_eq_mult)
  ultimately show ?thesis using False by (simp add: last_mask_def ELEM_BITS_def bit_mask_iff)
qed

lemma bools_masked:
  assumes "bit_cnt b \<le> 4294967264" "elem_cnt (bit_cnt b) \<le> length ws" "k = elem_cnt (bit_cnt b) - 1"
  shows "bools (b\<lparr>bits := ws[k := ws ! k AND last_mask b]\<rparr>) = bools (b\<lparr>bits := ws\<rparr>)"
proof (rule nth_equalityI)
  fix i assume "i < length (bools (b\<lparr>bits := ws[k := ws ! k AND last_mask b]\<rparr>))"
  then have i: "i < bit_cnt b" by simp
  have "i div 32 < length ws" using i assms(2) unfolding elem_cnt_small[OF assms(1)] by linarith
  then show "bools (b\<lparr>bits := ws[k := ws ! k AND last_mask b]\<rparr>) ! i = bools (b\<lparr>bits := ws\<rparr>) ! i"
    using i last_mask_bit[OF assms(1) i] assms(3) by (cases "i div 32 = k") (simp_all add: nth_bools bit_and_iff)
qed simp

lemma bitmap_read_ok:
  assumes "files s fp = Some f" "inodes s (finode f) = Some fi" "disk_ok (dev s)" "on_disk (dev s) (idata fi)" "mem 512"
    "ilength (idata fi) = int (byte_cnt (bit_cnt b))" "bm_ok b" "length (bits b) = elem_cnt (bit_cnt b)"
  shows "\<exists>b'. bitmap_read mem s b fp = Some (True, b') \<and> bm_ok b' \<and> bit_cnt b' = bit_cnt b \<and> length (bits b') = elem_cnt (bit_cnt b) \<and> saved (dev s) (idata fi) b'"
proof (cases "bit_cnt b = 0")
  case True
  then show ?thesis using assms(7,8) by (auto simp: bitmap_read_def saved_def bools_def)
next
  case False
  let ?n = "byte_cnt (bit_cnt b)" and ?c = "bytes_of (dev s) (idata fi)"
  let ?ws = "image_words ?c" and ?k = "elem_cnt (bit_cnt b) - 1"
  have lc: "length ?c = ?n" using assms(6) by simp
  have "inode_read mem (dev s) fi (int ?n) 0 = Some ?c"
    using inode_read_ok[where mem = mem, OF assms(3-5), of 0 "int ?n"] lc by (simp add: seg_def)
  then have r: "file_read_at mem s fp (int ?n) 0 = Some ?c" using assms(1,2) by (simp add: file_read_at_def inode_read_at_def)
  have p: "put (words_image (bits b)) 0 ?c = ?c" using lc assms(8) by (simp add: put_def byte_cnt_def)
  have lw: "length ?ws = elem_cnt (bit_cnt b)" using lc by (simp add: byte_cnt_def)
  have b: "bit_cnt b \<le> 4294967264" using assms(7) by (simp add: bm_ok_def)
  have k: "?k < length ?ws" using False unfolding lw elem_cnt_small[OF b] by simp
  let ?b = "b\<lparr>bits := ?ws[?k := ?ws ! ?k AND last_mask b]\<rparr>"
  have "bitmap_read mem s b fp = Some (True, ?b)" using False r p k lc by (simp add: bitmap_read_def assert_def Let_def del: length_image_words)
  moreover have "saved (dev s) (idata fi) ?b" using bools_masked[OF b, of ?ws ?k] lw by (simp add: saved_def bools_def)
  ultimately show ?thesis using b lw by (auto simp: bm_ok_def)
qed

lemma used_cong: "bools b' = bools b \<Longrightarrow> bit_cnt b' = bit_cnt b \<Longrightarrow> used_bits b' = used_bits b"
  by (simp add: used_bits_def)

text \<open>The invariant depends only on the bits of the map.\<close>

lemma fs_wf_saved:
  assumes "fs_wf d b" "bm_ok b'" "bit_cnt b' = bit_cnt b" "length (bits b') = elem_cnt (bit_cnt b)" "saved d (file_inode d 0) b'"
  shows "fs_wf d b'" "used_bits b' = used_bits b"
proof -
  have "saved d (file_inode d 0) b" using assms(1) by (simp only: fs_wf_def)
  then have "bools b' = bools b" using assms(3,5) unfolding saved_def by (simp only:)
  then show "used_bits b' = used_bits b" using assms(3) by (rule used_cong)
  then show "fs_wf d b'" using assms unfolding fs_wf_def by metis
qed

lemma free_map_open_ok:
  assumes "inodes t = Map.empty" "open_inodes t = []" "files t = Map.empty" "0 < next_addr t" "fs_wf (dev t) b" "enough mem"
    "bm_ok (free_map t)" "bit_cnt (free_map t) = bit_cnt b" "length (bits (free_map t)) = elem_cnt (bit_cnt b)"
  shows "\<exists>s. free_map_open mem t = Some s \<and> fs_ok s \<and> dev s = dev t \<and> used_bits (free_map s) = used_bits b"
proof -
  let ?d = "dev t" and ?a = "next_addr t" and ?f = "Suc (next_addr t)"
  let ?F = "\<lparr>finode = ?a, fpos = 0, fdeny = False\<rparr>"
  let ?s = "(opened t 0)\<lparr>files := [?f \<mapsto> ?F], next_addr := ?a + 2, free_map_file := ?f\<rparr>"
  note o = fs_wf_obj[OF assms(5), of 0]
  have io: "inode_open mem t 0 = Some (?a, opened t 0)" using inode_open_new[of t 0 mem] assms(2,6) o by (simp add: not_open_def enough_def)
  have fo: "file_open mem (opened t 0) ?a = Some (?f, (opened t 0)\<lparr>files := [?f \<mapsto> ?F], next_addr := ?a + 2\<rparr>)"
    using assms(3,4,6) by (simp add: file_open_def kmalloc_def enough_def sizeof_file_def Let_def)
  have i: "inodes ?s ?a = Some (fm_inode ?d)" by (simp add: fm_inode_def)
  have p: "files ?s ?f = Some ?F" "inodes ?s (finode ?F) = Some (fm_inode ?d)" "disk_ok (dev ?s)" "on_disk (dev ?s) (idata (fm_inode ?d))" "mem 512"
    "ilength (idata (fm_inode ?d)) = int (byte_cnt (bit_cnt (free_map t)))" "length (bits (free_map t)) = elem_cnt (bit_cnt (free_map t))"
    using i assms(5,6,8,9) o by (simp_all add: fm_inode_def fs_wf_def enough_def)
  obtain b' where b': "bitmap_read mem ?s (free_map t) ?f = Some (True, b')" "bm_ok b'" "bit_cnt b' = bit_cnt (free_map t)"
    "length (bits b') = elem_cnt (bit_cnt (free_map t))" "saved (dev ?s) (idata (fm_inode ?d)) b'"
    using bitmap_read_ok[where mem = mem, OF p(1-6) assms(7) p(7)] by blast
  have sv: "saved ?d (file_inode ?d 0) b'" using b'(5) by (simp add: fm_inode_def)
  note w = fs_wf_saved[OF assms(5) b'(2) b'(3,4)[unfolded assms(8)] sv]
  have "free_map_open mem t = Some (?s\<lparr>free_map := b'\<rparr>)" using io fo b'(1) by (simp add: free_map_open_def FREE_MAP_SECTOR_def assert_def Let_def)
  moreover have "quiet (?s\<lparr>free_map := b'\<rparr>)" using assms(1-4) by (auto simp: quiet_def fm_inode_def)
  ultimately show ?thesis using w by (simp add: fs_ok_def)
qed

lemma bitmap_mark_ok:
  assumes "bm_ok b" "i < bit_cnt b"
  shows "\<exists>b'. bitmap_mark b i = Some b' \<and> bm_ok b' \<and> bit_cnt b' = bit_cnt b \<and> used_bits b' = insert i (used_bits b) \<and> length (bits b') = length (bits b)"
proof -
  obtain b' where b': "bitmap_set b i True = Some b'" "bm_ok b'" "bit_cnt b' = bit_cnt b" "bools b' = (bools b)[i := True]" "length (bits b') = length (bits b)"
    using bitmap_set_ok[OF assms, of True] by blast
  have "used_bits b' = insert i (used_bits b)" using assms(2) b'(3,4) by (auto simp: used_bits_def nth_list_update)
  moreover have "bitmap_mark b i = Some b'" using b'(1) assms(2) by (simp add: bitmap_set_def assert_def)
  ultimately show ?thesis using b' by blast
qed

text \<open>Memory for the bitmap of the free map.\<close>

definition bitmap_mem :: "(nat \<Rightarrow> bool) \<Rightarrow> block \<Rightarrow> bool" where
  "bitmap_mem mem d \<longleftrightarrow> mem 8 \<and> mem (byte_cnt (bsize d))"

lemma free_map_init_ok:
  assumes "disk_ok (dev s)" "2 \<le> bsize (dev s)" "bitmap_mem mem (dev s)"
  shows "\<exists>b. free_map_init mem garbage s = Some (s\<lparr>free_map := b\<rparr>) \<and> bm_ok b \<and> bit_cnt b = bsize (dev s) \<and> length (bits b) = elem_cnt (bsize (dev s)) \<and> used_bits b = {0, 1}"
proof -
  let ?n = "bsize (dev s)"
  obtain b where b: "bitmap_create mem garbage ?n = Some (Some b)" "bm_ok b" "bools b = replicate ?n False" "length (bits b) = elem_cnt ?n"
    using bitmap_create_ok[of ?n mem garbage] assms by (auto simp: disk_ok_def bitmap_mem_def)
  have n: "bit_cnt b = ?n" "used_bits b = {}" using length_bools[of b] unfolding b(3) by (auto simp: used_bits_def b(3))
  obtain b1 where b1: "bitmap_mark b 0 = Some b1" "bm_ok b1" "bit_cnt b1 = ?n" "used_bits b1 = {0}" "length (bits b1) = elem_cnt ?n"
    using bitmap_mark_ok[OF b(2), of 0] n b(4) assms(2) by auto
  obtain b2 where "bitmap_mark b1 1 = Some b2" "bm_ok b2" "bit_cnt b2 = ?n" "used_bits b2 = {0, 1}" "length (bits b2) = elem_cnt ?n"
    using bitmap_mark_ok[OF b1(2), of 1] b1 assms(2) by auto
  moreover from this(1) have "free_map_init mem garbage s = Some (s\<lparr>free_map := b2\<rparr>)"
    using b(1) b1(1) by (simp add: free_map_init_def block_size_def FREE_MAP_SECTOR_def ROOT_DIR_SECTOR_def)
  ultimately show ?thesis by blast
qed

lemma fs_wf_size: "fs_wf d b \<Longrightarrow> disk_ok d \<and> 2 \<le> bsize d \<and> bit_cnt b = bsize d"
  using fs_wf_obj[of d b 1] by (simp add: fs_wf_def)

lemma mount_ok:
  assumes "fs_wf d b" "enough mem" "bitmap_mem mem d"
  shows "\<exists>s. filesys_init mem garbage (boot d) False = Some s \<and> fs_ok s \<and> dev s = d \<and> used_bits (free_map s) = used_bits b"
proof -
  note z = fs_wf_size[OF assms(1)]
  obtain b0 where b0: "free_map_init mem garbage (boot d) = Some ((boot d)\<lparr>free_map := b0\<rparr>)" "bm_ok b0" "bit_cnt b0 = bsize d" "length (bits b0) = elem_cnt (bsize d)"
    using free_map_init_ok[of "boot d" mem garbage] z assms(3) by (auto simp: boot_def)
  have e: "(boot d)\<lparr>open_inodes := []\<rparr> = boot d" by (simp add: boot_def)
  have "\<exists>s. free_map_open mem ((boot d)\<lparr>free_map := b0\<rparr>) = Some s \<and> fs_ok s \<and> dev s = dev ((boot d)\<lparr>free_map := b0\<rparr>) \<and> used_bits (free_map s) = used_bits b"
    using assms(1,2) b0 z by (intro free_map_open_ok) (simp_all add: boot_def)
  then show ?thesis using b0(1) e by (auto simp: filesys_init_def boot_def)
qed

section \<open>Formatting\<close>

text \<open>Before the free map has a file, allocation changes only the bitmap.\<close>

lemma create_without_file:
  assumes "free_map_file s = 0" "disk_ok (dev s)" "bm_ok (free_map s)" "bit_cnt (free_map s) = bsize (dev s)" "mem 512" "len \<le> 2147483135"
    "sector < bsize (dev s)" "sector \<in> used_bits (free_map s)" "first_fit (bools (free_map s)) 0 (sectors_for len) False = Some st"
  shows "\<exists>b' d'. inode_create mem s sector (int len) = Some (True, s\<lparr>free_map := b', dev := d'\<rparr>) \<and> bm_ok b' \<and> bit_cnt b' = bsize d' \<and>
    length (bits b') = length (bits (free_map s)) \<and> used_bits b' = used_bits (free_map s) \<union> extent (st, sectors_for len) \<and>
    extent (st, sectors_for len) \<inter> used_bits (free_map s) = {} \<and> st + sectors_for len \<le> bsize d' \<and>
    only ({sector} \<union> extent (st, sectors_for len)) (dev s) d' \<and> file_inode d' sector = new_inode st len"
proof -
  let ?b = "free_map s" and ?n = "sectors_for len"
  note f = first_fit_Some[OF assms(9)]
  have st: "st + ?n \<le> bsize (dev s)" "st \<noteq> BITMAP_ERROR" using f(2) assms(3,4) by (simp_all add: bm_ok_def BITMAP_ERROR_def)
  obtain b' where b': "bitmap_scan_and_flip ?b 0 ?n False = Some (st, b')" "bm_ok b'" "bit_cnt b' = bit_cnt ?b" "length (bits b') = length (bits ?b)"
    "bools b' = fill (bools ?b) st ?n True"
    using bitmap_scan_and_flip_ok[OF assms(3), of 0 ?n False] unfolding assms(9) by auto
  have al: "free_map_allocate mem s ?n = Some (Some st, s\<lparr>free_map := b'\<rparr>)" using b'(1) st(2) assms(1) by (simp add: free_map_allocate_def)
  have u: "used_bits b' = used_bits ?b \<union> extent (st, ?n)" using used_fill[OF f(2)[unfolded length_bools] b'(5,3)] by simp
  have e: "extent (st, ?n) \<inter> used_bits ?b = {}" using f(3) seg_eq_replicate[OF f(2)] by (auto simp: used_bits_def)
  obtain d' where d': "block_write (dev s) sector (inode_image (new_inode st len)) \<bind> (\<lambda>d. zero_sectors d st ?n) = Some d'"
    "only ({sector} \<union> extent (st, ?n)) (dev s) d'" "file_inode d' sector = new_inode st len"
    using new_inode_written[OF assms(2,7) st(1) _ assms(6)] e assms(2,8) by (auto simp: disk_ok_def)
  have "bytes_to_sectors (int len) = Some ?n" "kmalloc mem 512" using assms(5,6) by (simp_all add: bytes_to_sectors_ok kmalloc_def)
  then have "inode_create mem s sector (int len) = Some (True, s\<lparr>free_map := b', dev := d'\<rparr>)"
    using al d'(1) by (auto simp: inode_create_def assert_def new_inode_def bind_eq_Some_conv)
  moreover have "bsize d' = bsize (dev s)" using d'(2) by (simp add: only_def)
  ultimately show ?thesis using b' u e d'(2,3) st(1) assms(4) by auto
qed

text \<open>The state in which only the free map is open, in its file at \<open>a + 1\<close>.\<close>

definition with_map :: "nat \<Rightarrow> inode \<Rightarrow> bitmap \<Rightarrow> block \<Rightarrow> fsys" where
  "with_map a fi b d = \<lparr>dev = d, inodes = [a \<mapsto> fi], open_inodes = [a], files = [Suc a \<mapsto> \<lparr>finode = a, fpos = 0, fdeny = False\<rparr>],
     next_addr = a + 2, free_map = b, free_map_file = Suc a\<rparr>"

lemma with_map_sel [simp]:
  "dev (with_map a fi b d) = d" "free_map (with_map a fi b d) = b" "(with_map a fi b d)\<lparr>free_map := b', dev := d'\<rparr> = with_map a fi b' d'"
  "free_map_file (with_map a fi b d) = Suc a" "(with_map a fi b d)\<lparr>free_map := b'\<rparr> = with_map a fi b' d"
  "(with_map a fi b d)\<lparr>dev := d'\<rparr> = with_map a fi b d'"
  by (simp_all add: with_map_def)

lemma fm_ok_with_map:
  "fm_ok (with_map a fi b d) fi \<longleftrightarrow> disk_ok d \<and> bm_ok b \<and> length (bits b) = elem_cnt (bit_cnt b) \<and> deny_write_cnt fi = 0 \<and>
     on_disk d (idata fi) \<and> ilength (idata fi) = int (byte_cnt (bit_cnt b))"
  by (simp add: fm_ok_def with_map_def)

lemma byte_cnt_bound: "n \<le> 4294967264 \<Longrightarrow> byte_cnt n \<le> 2147483135"
  by (simp add: byte_cnt_def elem_cnt_small)

lemma free_map_create_ok:
  assumes "s = (boot d0)\<lparr>free_map := b0\<rparr>" "disk_ok d0" "bm_ok b0" "bit_cnt b0 = bsize d0" "length (bits b0) = elem_cnt (bsize d0)" "used_bits b0 = {0, 1}"
    "enough mem" "k = sectors_for (byte_cnt (bsize d0))" "k + 2 \<le> bsize d0"
  shows "\<exists>st b d. free_map_create mem s = Some (with_map 1 (fm_inode d) b d) \<and> fm_ok (with_map 1 (fm_inode d) b d) (fm_inode d) \<and> bit_cnt b = bsize d \<and>
    saved d (file_inode d 0) b \<and> file_inode d 0 = new_inode st (byte_cnt (bsize d)) \<and> used_bits b = {0, 1} \<union> extent (st, k) \<and> extent (st, k) \<inter> {0, 1} = {} \<and>
    bsize d = bsize d0"
proof -
  let ?m = "byte_cnt (bsize d0)"
  have m: "mem 512" "mem sizeof_inode" "mem sizeof_file" using assms(7) by (simp_all add: enough_def)
  have len: "?m \<le> 2147483135" using assms(2) by (intro byte_cnt_bound) (simp add: disk_ok_def)
  have "extent (2, k) \<inter> used_bits b0 = {}" by (auto simp: assms(6) extent_def)
  then obtain st where st: "first_fit (bools b0) 0 k False = Some st" using first_fit_used[of b0 k] assms(4,9) by (cases "first_fit (bools b0) 0 k False") auto
  obtain b d where c: "inode_create mem s 0 (int ?m) = Some (True, s\<lparr>free_map := b, dev := d\<rparr>)" "bm_ok b" "bit_cnt b = bsize d" "length (bits b) = elem_cnt (bsize d0)"
    "used_bits b = {0, 1} \<union> extent (st, k)" "extent (st, k) \<inter> {0, 1} = {}" "st + k \<le> bsize d" "only ({0} \<union> extent (st, k)) d0 d" "file_inode d 0 = new_inode st ?m"
    using create_without_file[of s mem ?m 0 st] assms(2-6,8,9) m(1) len st by (auto simp: assms(1) boot_def)
  have sz: "bsize d = bsize d0" "disk_ok d" using c(8) by (simp_all add: only_def)
  let ?t = "s\<lparr>free_map := b, dev := d\<rparr>" and ?fi = "fm_inode d"
  have io: "inode_open mem ?t 0 = Some (1, opened ?t 0)"
    using inode_open_new[of ?t 0 mem] m(2) sz assms(9) by (simp add: not_open_def assms(1) boot_def)
  have fo: "file_open mem (opened ?t 0) 1 = Some (2, (opened ?t 0)\<lparr>files := [2 \<mapsto> \<lparr>finode = 1, fpos = 0, fdeny = False\<rparr>], next_addr := 3\<rparr>)"
    using m(3) by (simp add: file_open_def kmalloc_def sizeof_file_def Let_def opened_def assms(1) boot_def numeral_2_eq_2)
  have wm: "(opened ?t 0)\<lparr>files := [2 \<mapsto> \<lparr>finode = 1, fpos = 0, fdeny = False\<rparr>], next_addr := 3, free_map_file := 2\<rparr> = with_map 1 ?fi b d"
    by (simp add: with_map_def opened_def assms(1) boot_def fm_inode_def numeral_2_eq_2)
  have fm: "fm_ok (with_map 1 ?fi b d) ?fi" using c(2-4,7,9) sz len assms(8) by (simp add: fm_ok_with_map fm_inode_def on_disk_def new_inode_def)
  obtain d' where d': "bitmap_write mem (with_map 1 ?fi b d) b 2 = Some (True, with_map 1 ?fi b d')" "saved d' (file_inode d 0) b" "only (data_extent (file_inode d 0)) d d'"
    using bitmap_write_ok[OF fm, where mem = mem and b = b and b' = b] m(1) by (auto simp: fm_inode_def numeral_2_eq_2)
  have "0 \<notin> data_extent (file_inode d 0)" using c(6,9) assms(8) by (auto simp: new_inode_def)
  then have i0: "file_inode d' 0 = file_inode d 0" using only_obj(1)[OF d'(3)] by blast
  then have fi: "fm_inode d' = ?fi" by (simp add: fm_inode_def)
  have sz': "bsize d' = bsize d" "disk_ok d'" using d'(3) by (simp_all add: only_def)
  have "free_map_create mem s = Some (with_map 1 ?fi b d')"
    using c(1) io fo wm d'(1) by (simp add: free_map_create_def FREE_MAP_SECTOR_def assert_def bitmap_file_size_def assms(1,4))
  moreover have "fm_ok (with_map 1 ?fi b d') ?fi" using fm sz' unfolding fm_ok_with_map on_disk_def by metis
  ultimately show ?thesis unfolding fi using d'(2) i0 c(3,5,6,9) sz sz' by (intro exI[of _ st] exI[of _ b] exI[of _ d']) (simp add: fi)
qed

text \<open>A directory of zeros has no entries.\<close>

lemma slots_zero: "e \<in> set (slots (replicate m NUL)) \<Longrightarrow> \<not> entry_in_use e"
proof -
  assume "e \<in> set (slots (replicate m NUL))"
  then obtain k where k: "k < m div 20" "e = seg (replicate m NUL) (20 * k) 20" by (auto simp: slots_def)
  then have "20 * k + 20 \<le> m" by linarith
  then show ?thesis using k(2) by (simp add: entry_in_use_def seg_def)
qed

lemma dir_ents_zero: "dir_ents (replicate m NUL) = []" "names_ok (replicate m NUL)"
proof -
  have "List.map_filter ent es = []" if "\<And>e. e \<in> set es \<Longrightarrow> \<not> entry_in_use e" for es
    using that by (induction es) (simp_all add: ent_def List.map_filter_simps)
  then show "dir_ents (replicate m NUL) = []" unfolding dir_ents_def using slots_zero by blast
  then show "names_ok (replicate m NUL)" unfolding names_ok_def using slots_zero by auto
qed

text \<open>A disk with a free map and an empty root directory.\<close>

lemma fs_wf_empty:
  assumes "disk_ok d" "bm_ok b" "length (bits b) = elem_cnt (bit_cnt b)" "bit_cnt b = bsize d" "saved d (file_inode d 0) b" "2 \<le> bsize d"
    "file_inode d 0 = new_inode st (byte_cnt (bsize d))" "file_inode d 1 = new_inode st' len" "contents d st' len = replicate len NUL" "20 dvd len" "len \<le> 2147483135"
    "st + sectors_for (byte_cnt (bsize d)) \<le> bsize d" "st' + sectors_for len \<le> bsize d"
    "{0, 1} \<union> extent (st, sectors_for (byte_cnt (bsize d))) \<union> extent (st', sectors_for len) \<subseteq> used_bits b"
    "extent (st, sectors_for (byte_cnt (bsize d))) \<inter> {0, 1} = {}"
    "extent (st', sectors_for len) \<inter> ({0, 1} \<union> extent (st, sectors_for (byte_cnt (bsize d)))) = {}"
  shows "fs_wf d b" "fs_map d = Map.empty"
proof -
  have rb: "bytes_of d (file_inode d 1) = replicate len NUL" using assms(8,9) by (simp add: new_inode_def)
  then have e: "ents d = []" unfolding ents_def by (simp only: dir_ents_zero)
  then show "fs_map d = Map.empty" by (simp add: fs_map_def fun_eq_iff)
  have ob: "obj d 0 = [(0, 1), (st, sectors_for (byte_cnt (bsize d)))]" "obj d 1 = [(1, 1), (st', sectors_for len)]"
    by (simp_all add: obj_def dx_def assms(7) assms(8)[simplified] new_inode_def)
  have l: "layout d [] = [(0, 1), (st, sectors_for (byte_cnt (bsize d))), (1, 1), (st', sectors_for len)]" by (simp add: layout_def ob[simplified])
  have "apart (layout d [])" unfolding l apart_Cons using assms(15,16) by auto
  moreover have "extents (layout d []) \<subseteq> used_bits b" unfolding l using assms(14) by auto
  moreover have "byte_cnt (bsize d) \<le> 2147483135" using assms(1) by (intro byte_cnt_bound) (simp add: disk_ok_def)
  then have "\<forall>n \<in> set (0 # 1 # map snd (ents d)). n < bsize d \<and> on_disk d (file_inode d n) \<and> ilength (file_inode d n) \<le> 2147483135"
    unfolding e using assms(6-8,11-13) by (simp add: on_disk_def new_inode_def)
  moreover have "names_ok (bytes_of d (file_inode d 1))" unfolding rb by (rule dir_ents_zero)
  moreover have "20 dvd nat (ilength (file_inode d 1))" "ilength (file_inode d 0) = int (byte_cnt (bit_cnt b))" using assms(4,7,8,10) by (simp_all add: new_inode_def)
  ultimately show "fs_wf d b" unfolding fs_wf_def e list.map using assms(1-5) by blast
qed

lemma do_format_ok:
  assumes "s = (boot d0)\<lparr>free_map := b0\<rparr>" "disk_ok d0" "bm_ok b0" "bit_cnt b0 = bsize d0" "length (bits b0) = elem_cnt (bsize d0)" "used_bits b0 = {0, 1}"
    "enough mem" "sectors_for (byte_cnt (bsize d0)) + 3 \<le> bsize d0"
  shows "\<exists>b d. do_format mem s = Some (s\<lparr>dev := d, free_map := b, next_addr := 3, free_map_file := 2\<rparr>) \<and> fs_wf d b \<and> fs_map d = Map.empty \<and> bsize d = bsize d0 \<and>
    root_bytes d = replicate 320 NUL \<and> card (used_bits b) \<le> sectors_for (byte_cnt (bsize d0)) + 3"
proof -
  let ?k = "sectors_for (byte_cnt (bsize d0))"
  have k2: "?k + 2 \<le> bsize d0" using assms(8) by simp
  obtain st b d where c: "free_map_create mem s = Some (with_map 1 (fm_inode d) b d)" "fm_ok (with_map 1 (fm_inode d) b d) (fm_inode d)" "bit_cnt b = bsize d"
    "saved d (file_inode d 0) b" "file_inode d 0 = new_inode st (byte_cnt (bsize d))" "used_bits b = {0, 1} \<union> extent (st, ?k)" "extent (st, ?k) \<inter> {0, 1} = {}"
    "bsize d = bsize d0"
    using free_map_create_ok[OF assms(1-7) refl k2] by blast
  have m: "mem 512" using assms(7) by (simp add: enough_def)
  have s1: "sectors_for 320 = 1" by (simp add: sectors_for_def)
  have "card (used_bits b) \<le> card ({0, 1} :: nat set) + card (extent (st, ?k))" unfolding c(6) by (rule card_Un_le)
  also have "\<dots> \<le> 2 + ?k" by (simp add: extent_def)
  finally have cu: "card (used_bits b) \<le> 2 + ?k" .
  then have "card (used_bits b) < card {..<bsize d}" using assms(8) c(8) by simp
  moreover have "finite (used_bits b)" unfolding c(6) by (simp add: extent_def)
  ultimately have "\<not> {..<bsize d} \<subseteq> used_bits b" using card_mono[of "used_bits b" "{..<bsize d}"] by linarith
  then obtain x where x: "x < bsize d" "x \<notin> used_bits b" by blast
  have "extent (x, 1) \<inter> used_bits b = {}" "x + 1 \<le> bit_cnt b" using x c(3) by simp_all
  then obtain st' where st': "first_fit (bools b) 0 1 False = Some st'" using first_fit_used[of b 1] by (cases "first_fit (bools b) 0 1 False") blast+
  have X: "data_extent (file_inode d 0) = extent (st, ?k)" "idata (fm_inode d) = file_inode d 0" using c(5,8) by (simp_all add: new_inode_def fm_inode_def)
  have p: "(320::nat) \<le> 2147483135" "1 < bsize (dev (with_map 1 (fm_inode d) b d))" "1 \<notin> data_extent (idata (fm_inode d))"
    "bit_cnt (free_map (with_map 1 (fm_inode d) b d)) = bsize (dev (with_map 1 (fm_inode d) b d))"
    "insert 1 (data_extent (idata (fm_inode d))) \<subseteq> used_bits (free_map (with_map 1 (fm_inode d) b d))"
    "Some st' = first_fit (bools (free_map (with_map 1 (fm_inode d) b d))) 0 (sectors_for 320) False"
    using assms(8) c(3,6,7,8) st' unfolding X by (auto simp: s1)
  obtain b' d' where r: "inode_create mem (with_map 1 (fm_inode d) b d) 1 (int 320) = Some (True, with_map 1 (fm_inode d) b' d')"
    "fm_ok (with_map 1 (fm_inode d) b' d') (fm_inode d)" "bit_cnt b' = bit_cnt b" "st' + 1 \<le> bsize d'" "extent (st', 1) \<inter> used_bits b = {}"
    "used_bits b' = used_bits b \<union> extent (st', 1)" "saved d' (file_inode d 0) b'" "file_inode d' 1 = new_inode st' 320" "contents d' st' 320 = replicate 320 NUL"
    "only (extent (st, ?k) \<union> {1} \<union> extent (st', 1)) d d'"
    using inode_create_ok[OF c(2), where mem = mem, OF m p] unfolding X s1 with_map_sel option.case by auto
  have sz: "bsize d' = bsize d0" "disk_ok d'" "bm_ok b'" "length (bits b') = elem_cnt (bit_cnt b')" using r(2,10) c(8) by (simp_all add: only_def fm_ok_with_map)
  have "0 \<notin> extent (st, ?k) \<union> {1} \<union> extent (st', 1)" using c(6,7) r(5) by auto
  then have i0: "file_inode d' 0 = file_inode d 0" using only_obj(1)[OF r(10)] by blast
  have "on_disk d (file_inode d 0)" using c(2) unfolding fm_ok_with_map X(2) by blast
  then have on: "st + ?k \<le> bsize d0" unfolding on_disk_def c(5,8) by (simp add: new_inode_def)
  have w: "fs_wf d' b'" "fs_map d' = Map.empty"
    using fs_wf_empty[of d' b' st st' 320] sz r(3-9) c(3,5,6,7,8) i0 assms(8) on by (auto simp: s1)
  have "file_close mem (with_map 1 (fm_inode d) b' d') 2 = Some (s\<lparr>dev := d', free_map := b', next_addr := 3, free_map_file := 2\<rparr>)"
    by (simp add: file_close_def file_allow_write_def assert_def with_map_def inode_close_def int32_def upd_inode_def fm_inode_def assms(1) boot_def numeral_2_eq_2 numeral_3_eq_3 Let_def)
  then have "do_format mem s = Some (s\<lparr>dev := d', free_map := b', next_addr := 3, free_map_file := 2\<rparr>)"
    using c(1) r(1) by (simp add: do_format_def dir_create_def ROOT_DIR_SECTOR_def sizeof_dir_entry_def assert_def free_map_close_def numeral_2_eq_2)
  moreover have "root_bytes d' = replicate 320 NUL" unfolding r(8) using r(9) by (simp add: new_inode_def)
  moreover have "card (used_bits b') \<le> ?k + 3" unfolding r(6) using card_Un_le[of "used_bits b" "extent (st', 1)"] cu by simp
  ultimately show ?thesis using w sz(1) by (intro exI[of _ b'] exI[of _ d'] conjI)
qed

lemma format_ok:
  assumes "disk_ok d" "enough mem" "bitmap_mem mem d" "sectors_for (byte_cnt (bsize d)) + 3 \<le> bsize d"
  shows "\<exists>s. filesys_init mem garbage (boot d) True = Some s \<and> fs_ok s \<and> fs_map (dev s) = Map.empty \<and> bsize (dev s) = bsize d \<and>
    root_bytes (dev s) = replicate 320 NUL \<and> card (used_bits (free_map s)) \<le> sectors_for (byte_cnt (bsize d)) + 3"
proof -
  obtain b0 where b0: "free_map_init mem garbage (boot d) = Some ((boot d)\<lparr>free_map := b0\<rparr>)" "bm_ok b0" "bit_cnt b0 = bsize d" "length (bits b0) = elem_cnt (bsize d)"
    "used_bits b0 = {0, 1}"
    using free_map_init_ok[of "boot d" mem garbage] assms(1,3,4) by (auto simp: boot_def)
  let ?s = "(boot d)\<lparr>free_map := b0\<rparr>"
  obtain b' d' where f: "do_format mem ?s = Some (?s\<lparr>dev := d', free_map := b', next_addr := 3, free_map_file := 2\<rparr>)" "fs_wf d' b'" "fs_map d' = Map.empty" "bsize d' = bsize d"
    "root_bytes d' = replicate 320 NUL" "card (used_bits b') \<le> sectors_for (byte_cnt (bsize d)) + 3"
    using do_format_ok[where mem = mem, OF refl assms(1) b0(2-5) assms(2,4)] by (elim exE conjE)
  let ?t = "?s\<lparr>dev := d', free_map := b', next_addr := 3, free_map_file := 2\<rparr>"
  have fb: "bm_ok b'" "length (bits b') = elem_cnt (bit_cnt b')" using f(2) unfolding fs_wf_def by blast+
  have "\<exists>s. free_map_open mem ?t = Some s \<and> fs_ok s \<and> dev s = dev ?t \<and> used_bits (free_map s) = used_bits b'"
    using f(2) fb assms(2) by (intro free_map_open_ok) (simp_all add: boot_def)
  then obtain s where s: "free_map_open mem ?t = Some s" "fs_ok s" "dev s = d'" "used_bits (free_map s) = used_bits b'" by auto
  have e: "(boot d)\<lparr>open_inodes := []\<rparr> = boot d" by (simp add: boot_def)
  have "filesys_init mem garbage (boot d) True = Some s" unfolding filesys_init_def Let_def e using b0(1) f(1) s(1) by simp
  then show ?thesis using s f(3-6) by simp
qed

text \<open>Two free sectors are room for a small file.\<close>

lemma fits_one:
  assumes "card (used_bits b) + 2 \<le> bit_cnt b"
  shows "fits b 1"
proof -
  have u: "used_bits b \<subseteq> {..<bit_cnt b}" by (auto simp: used_bits_def)
  then have "finite (used_bits b)" by (rule finite_subset) simp
  then have "\<not> {..<bit_cnt b} \<subseteq> insert i (used_bits b)" for i
    using card_mono[of "insert i (used_bits b)" "{..<bit_cnt b}"] card_insert_le_m1[of "Suc (card (used_bits b))" "used_bits b" i] assms by auto
  then have f: "\<exists>x < bit_cnt b. x \<notin> insert i (used_bits b)" for i by blast
  define sec where "sec = (LEAST x. x < bit_cnt b \<and> x \<notin> used_bits b)"
  have sec: "sec < bit_cnt b \<and> sec \<notin> used_bits b" unfolding sec_def by (rule LeastI_ex) (use f in blast)
  moreover have "\<forall>k < sec. k \<in> used_bits b" unfolding sec_def using not_less_Least sec[unfolded sec_def] by fastforce
  moreover obtain i where "i < bit_cnt b" "i \<notin> insert sec (used_bits b)" using f[of sec] by blast
  ultimately show ?thesis unfolding fits_def by (intro exI[of _ sec] exI[of _ i]) auto
qed

lemma can_add_zero: "20 \<le> m \<Longrightarrow> name \<noteq> [] \<Longrightarrow> length name \<le> NAME_MAX \<Longrightarrow> can_add (replicate m NUL) name"
  unfolding can_add_def dir_ents_zero by (auto simp: slots_zero slots_def intro!: bexI[of _ "seg (replicate m NUL) 0 20"] image_eqI[of _ _ 0])

end
