(* ===== verification/FsSpec.thy ===== *)
theory FsSpec
  imports FsNamed FsFormat
begin

text \<open>
  What the clients of the file system may rely on. The contract is a map from names to contents and a step
  \<open>fs_step\<close> for each call: create, remove, write, read, and a restart of the machine, in order or by a crash
  between two calls. The locale \<open>file_store\<close> states the contract and what follows from it for every sequence of
  calls; \<^verbatim>\<open>filesys.c\<close> on top of directories, inodes, the free map and the block device implements it.
\<close>

section \<open>Calls\<close>

datatype fs_op = Create string nat | Remove string | Write string "char list" nat | Read string nat nat | Shutdown | Crash

datatype fs_result = Done bool | Count "int option" | Bytes "char list option"

fun fs_exec :: "(nat \<Rightarrow> bool) \<Rightarrow> char list \<Rightarrow> (nat \<Rightarrow> 32 word) \<Rightarrow> fsys \<Rightarrow> fs_op \<Rightarrow> (fs_result \<times> fsys) option" where
  "fs_exec mem garbage words s (Create name len) = map_option (map_prod Done id) (filesys_create mem garbage s name (int len))"
| "fs_exec mem garbage words s (Remove name) = map_option (map_prod Done id) (filesys_remove mem s name)"
| "fs_exec mem garbage words s (Write name buf ofs) = map_option (map_prod Count id) (write_file mem s name buf (int ofs))"
| "fs_exec mem garbage words s (Read name n ofs) = map_option (map_prod Bytes id) (read_file mem s name (int n) (int ofs))"
| "fs_exec mem garbage words s Shutdown = do { s \<leftarrow> filesys_done mem s; s \<leftarrow> filesys_init mem words (boot (dev s)) False; Some (Done True, s) }"
| "fs_exec mem garbage words s Crash = do { s \<leftarrow> filesys_init mem words (boot (dev s)) False; Some (Done True, s) }"

primrec run_ops :: "('s \<Rightarrow> fs_op \<Rightarrow> (fs_result \<times> 's) option) \<Rightarrow> 's \<Rightarrow> fs_op list \<Rightarrow> (fs_result list \<times> 's) option" where
  "run_ops exec s [] = Some ([], s)"
| "run_ops exec s (op # ops) = do { (r, s) \<leftarrow> exec s op; (rs, s) \<leftarrow> run_ops exec s ops; Some (r # rs, s) }"

text \<open>Arguments of calls: names are C strings, lengths and offsets fit in a signed 32-bit integer.\<close>

primrec valid_op :: "fs_op \<Rightarrow> bool" where
  "valid_op (Create name len) \<longleftrightarrow> cstr name \<and> len \<le> 2147483135"
| "valid_op (Remove name) \<longleftrightarrow> cstr name"
| "valid_op (Write name buf ofs) \<longleftrightarrow> cstr name \<and> ofs < 2147483648"
| "valid_op (Read name n ofs) \<longleftrightarrow> cstr name \<and> ofs < 2147483648"
| "valid_op Shutdown \<longleftrightarrow> True"
| "valid_op Crash \<longleftrightarrow> True"

text \<open>The files a call may change.\<close>

primrec touched :: "fs_op \<Rightarrow> string set" where
  "touched (Create name len) = {name}"
| "touched (Remove name) = {name}"
| "touched (Write name buf ofs) = {name}"
| "touched (Read name n ofs) = {}"
| "touched Shutdown = {}"
| "touched Crash = {}"

section \<open>The contract\<close>

type_synonym store = "string \<Rightarrow> char list option"

inductive fs_step :: "store \<Rightarrow> fs_op \<Rightarrow> fs_result \<Rightarrow> store \<Rightarrow> bool" where
  created: "name \<noteq> [] \<Longrightarrow> length name \<le> NAME_MAX \<Longrightarrow> m name = None \<Longrightarrow> fs_step m (Create name len) (Done True) (m(name \<mapsto> replicate len NUL))"
| not_created: "fs_step m (Create name len) (Done False) m"
| removed: "fs_step m (Remove name) (Done (m name \<noteq> None)) (m(name := None))"
| written: "m name = Some c \<Longrightarrow> fs_step m (Write name buf ofs) (Count (Some (int (length (clip c ofs buf))))) (m(name \<mapsto> put c ofs (clip c ofs buf)))"
| not_written: "m name = None \<Longrightarrow> fs_step m (Write name buf ofs) (Count None) m"
| have_read: "fs_step m (Read name n ofs) (Bytes (map_option (\<lambda>c. seg c ofs n) (m name))) m"
| shut_down: "fs_step m Shutdown (Done True) m"
| crashed: "fs_step m Crash (Done True) m"

inductive_cases fs_step_writeE: "fs_step m (Write name buf ofs) r m'"
inductive_cases fs_step_readE: "fs_step m (Read name n ofs) r m'"

inductive fs_steps :: "store \<Rightarrow> fs_op list \<Rightarrow> fs_result list \<Rightarrow> store \<Rightarrow> bool" where
  none: "fs_steps m [] [] m"
| more: "fs_step m op r m1 \<Longrightarrow> fs_steps m1 ops rs m2 \<Longrightarrow> fs_steps m (op # ops) (r # rs) m2"

lemma fs_step_untouched: "fs_step m op r m' \<Longrightarrow> name \<notin> touched op \<Longrightarrow> m' name = m name"
  by (induction rule: fs_step.induct) auto

lemma fs_steps_untouched: "fs_steps m ops rs m' \<Longrightarrow> (\<And>op. op \<in> set ops \<Longrightarrow> name \<notin> touched op) \<Longrightarrow> m' name = m name"
  by (induction rule: fs_steps.induct) (auto dest: fs_step_untouched)

locale file_store =
  fixes ready :: "'s \<Rightarrow> bool" and view :: "'s \<Rightarrow> store" and exec :: "'s \<Rightarrow> fs_op \<Rightarrow> (fs_result \<times> 's) option"
  assumes exec_step: "ready s \<Longrightarrow> valid_op op \<Longrightarrow> \<exists>r s'. exec s op = Some (r, s') \<and> ready s' \<and> fs_step (view s) op r (view s')"
begin

lemma run_refines:
  "ready s \<Longrightarrow> \<forall>op \<in> set ops. valid_op op \<Longrightarrow> \<exists>rs s'. run_ops exec s ops = Some (rs, s') \<and> ready s' \<and> fs_steps (view s) ops rs (view s')"
proof (induction ops arbitrary: s)
  case Nil
  then show ?case by (auto intro: fs_steps.none)
next
  case (Cons op ops)
  obtain r s1 where 1: "exec s op = Some (r, s1)" "ready s1" "fs_step (view s) op r (view s1)" using exec_step[of s op] Cons.prems by auto
  obtain rs s2 where "run_ops exec s1 ops = Some (rs, s2)" "ready s2" "fs_steps (view s1) ops rs (view s2)" using Cons.IH[OF 1(2)] Cons.prems(2) by auto
  then show ?case using 1 by (auto intro: fs_steps.more)
qed

text \<open>What was written is there until a call changes the file.\<close>

lemma read_back:
  assumes "ready s" "view s name = Some c" "ofs + length buf \<le> length c" "cstr name" "ofs < 2147483648"
    "\<forall>op \<in> set ops. valid_op op \<and> name \<notin> touched op"
  shows "\<exists>s1 rs s2 s3. exec s (Write name buf ofs) = Some (Count (Some (int (length buf))), s1) \<and> run_ops exec s1 ops = Some (rs, s2) \<and>
    exec s2 (Read name (length buf) ofs) = Some (Bytes (Some buf), s3)"
proof -
  have cl: "clip c ofs buf = buf" using assms(3) by (simp add: clip_def)
  obtain r s1 where 1: "exec s (Write name buf ofs) = Some (r, s1)" "ready s1" "fs_step (view s) (Write name buf ofs) r (view s1)"
    using exec_step[OF assms(1), of "Write name buf ofs"] assms(4,5) by auto
  have w: "r = Count (Some (int (length buf)))" "view s1 name = Some (put c ofs buf)" using 1(3) assms(2) cl by (auto elim!: fs_step_writeE)
  have "\<forall>op \<in> set ops. valid_op op" using assms(6) by blast
  from run_refines[OF 1(2) this] obtain rs s2 where 2: "run_ops exec s1 ops = Some (rs, s2)" "ready s2" "fs_steps (view s1) ops rs (view s2)" by blast
  have u: "view s2 name = Some (put c ofs buf)" using fs_steps_untouched[OF 2(3), of name] assms(6) w(2) by auto
  obtain r' s3 where 3: "exec s2 (Read name (length buf) ofs) = Some (r', s3)" "fs_step (view s2) (Read name (length buf) ofs) r' (view s3)"
    using exec_step[OF 2(2), of "Read name (length buf) ofs"] assms(4,5) by auto
  have "seg (put c ofs buf) ofs (length buf) = buf" using assms(3) by (simp add: seg_def put_def)
  then have "r' = Bytes (Some buf)" using 3(2) u by (auto elim!: fs_step_readE)
  then show ?thesis using 1(1) 2(1) 3(1) w(1) by blast
qed

end

section \<open>The file system implements the contract\<close>

text \<open>Memory for every allocation of the file system.\<close>

definition plenty :: "(nat \<Rightarrow> bool) \<Rightarrow> bool" where
  "plenty mem \<longleftrightarrow> enough mem \<and> mem 8 \<and> (\<forall>n. mem (byte_cnt n))"

definition fs_ready :: "(nat \<Rightarrow> bool) \<Rightarrow> char list \<Rightarrow> fsys \<Rightarrow> bool" where
  "fs_ready mem garbage s \<longleftrightarrow> fs_ok s \<and> plenty mem \<and> length garbage = 20"

abbreviation fs_view :: "fsys \<Rightarrow> store" where
  "fs_view s \<equiv> fs_map (dev s)"

lemma filesys_done_ok:
  assumes "fs_ok s"
  shows "\<exists>t. filesys_done mem s = Some t \<and> dev t = dev s"
proof -
  obtain a f p where q: "inodes s = [a \<mapsto> fm_inode (dev s)]" "open_inodes s = [a]" "files s = [f \<mapsto> \<lparr>finode = a, fpos = p, fdeny = False\<rparr>]"
    "free_map_file s = f" "0 < a" "0 < f" using quiet_addr[OF assms] by metis
  then show ?thesis
    by (simp add: filesys_done_def free_map_close_def file_close_def file_allow_write_def assert_def inode_close_def int32_def upd_inode_def fm_inode_def Let_def)
qed

lemma restart_ok:
  assumes "fs_ready mem garbage s"
  shows "\<exists>s'. filesys_init mem words (boot (dev s)) False = Some s' \<and> fs_ready mem garbage s' \<and> dev s' = dev s"
  using mount_ok[of "dev s" "free_map s" mem words] assms by (auto simp: fs_ready_def plenty_def fs_ok_def bitmap_mem_def)

lemma exec_refines:
  assumes "fs_ready mem garbage s" "valid_op op"
  shows "\<exists>r s'. fs_exec mem garbage words s op = Some (r, s') \<and> fs_ready mem garbage s' \<and> fs_step (fs_view s) op r (fs_view s')"
proof -
  have p: "fs_ok s" "enough mem" "length garbage = 20" and r: "\<And>s. fs_ok s \<Longrightarrow> fs_ready mem garbage s" using assms(1) by (simp_all add: fs_ready_def plenty_def)
  show ?thesis
  proof (cases op)
    case (Create name len)
    let ?ok = "can_add (root_bytes (dev s)) name \<and> fits (free_map s) (sectors_for len)"
    have v: "cstr name" "len \<le> 2147483135" using assms(2) Create by simp_all
    obtain s' where s': "filesys_create mem garbage s name (int len) = Some (?ok, s')" "fs_ok s'"
      "fs_view s' = (if ?ok then (fs_view s)(name \<mapsto> replicate len NUL) else fs_view s)"
      using filesys_create_ok[OF p v] by blast
    have "fs_step (fs_view s) op (Done ?ok) (fs_view s')"
      unfolding Create s'(3) using fs_step.intros(1)[of name "fs_view s" len] fs_step.intros(2)[of "fs_view s" name len]
      by (auto simp: can_add_def fs_map_def ents_def)
    then show ?thesis using Create s'(1) r[OF s'(2)] by simp
  next
    case (Remove name)
    then have v: "cstr name" using assms(2) by simp
    obtain s' where s': "filesys_remove mem s name = Some (fs_view s name \<noteq> None, s')" "fs_ok s'" "fs_view s' = (fs_view s)(name := None)"
      using filesys_remove_ok[OF p(1,2) v] by blast
    have "fs_step (fs_view s) op (Done (fs_view s name \<noteq> None)) (fs_view s')" unfolding Remove s'(3) by (rule fs_step.intros)
    then show ?thesis using Remove s'(1) r[OF s'(2)] by simp
  next
    case (Write name buf ofs)
    then have v: "cstr name" "0 \<le> int ofs" "int ofs < 2147483648" using assms(2) by simp_all
    obtain s' where s': "write_file mem s name buf (int ofs) = Some (map_option (\<lambda>c. int (length (clip c ofs buf))) (fs_view s name), s')" "fs_ok s'"
      "fs_view s' = (case fs_view s name of None \<Rightarrow> fs_view s | Some c \<Rightarrow> (fs_view s)(name \<mapsto> put c ofs (clip c ofs buf)))"
      using write_file_ok[OF p(1,2) v, of buf] unfolding nat_int by blast
    have "fs_step (fs_view s) op (Count (map_option (\<lambda>c. int (length (clip c ofs buf))) (fs_view s name))) (fs_view s')"
      unfolding Write s'(3) by (cases "fs_view s name") (simp_all add: fs_step.intros)
    then show ?thesis using Write s'(1) r[OF s'(2)] by simp
  next
    case (Read name n ofs)
    then have v: "cstr name" "0 \<le> int ofs" "int ofs < 2147483648" using assms(2) by simp_all
    obtain s' where s': "read_file mem s name (int n) (int ofs) = Some (map_option (\<lambda>c. seg c ofs n) (fs_view s name), s')" "fs_ok s'" "dev s' = dev s"
      using read_file_ok[OF p(1,2) v, of "int n"] unfolding nat_int by blast
    have "fs_step (fs_view s) op (Bytes (map_option (\<lambda>c. seg c ofs n) (fs_view s name))) (fs_view s')" unfolding Read s'(3) by (rule fs_step.intros)
    then show ?thesis using Read s'(1) r[OF s'(2)] by simp
  next
    case Shutdown
    obtain t where "filesys_done mem s = Some t" "dev t = dev s" using filesys_done_ok[OF p(1)] by blast
    then show ?thesis using restart_ok[OF assms(1), of words] Shutdown by (auto intro: fs_step.intros)
  next
    case Crash
    then show ?thesis using restart_ok[OF assms(1), of words] by (auto intro: fs_step.intros)
  qed
qed

interpretation fs: file_store "fs_ready mem garbage" fs_view "fs_exec mem garbage words" for mem garbage words
  by unfold_locales (rule exec_refines)

section \<open>Properties\<close>

text \<open>C2. The file system refines a map from names to contents. A disk with room for a free map and a root directory is
  formatted successfully, and from there, with memory available, every sequence of calls runs to its end, whatever the calls do and
  however shutdowns and crashes lie between them. Each call opens and closes its file, sizes fit an int, and a create may fail. The results are those of a run of the map that starts
  empty, and the files on the disk at the end are the map at the end.\<close>

theorem filesys_refines:
  assumes "disk_ok d" "sectors_for (byte_cnt (bsize d)) + 3 \<le> bsize d" "plenty mem" "length garbage = 20" "\<forall>op \<in> set ops. valid_op op"
  shows "\<exists>s0 rs s. filesys_init mem words (boot d) True = Some s0 \<and> run_ops (fs_exec mem garbage words) s0 ops = Some (rs, s) \<and>
    fs_steps Map.empty ops rs (fs_map (dev s)) \<and> fs_ok s"
proof -
  obtain s0 where s0: "filesys_init mem words (boot d) True = Some s0" "fs_ok s0" "fs_map (dev s0) = Map.empty"
    using format_ok[OF assms(1), of mem words] assms(2,3) by (auto simp: plenty_def bitmap_mem_def)
  have "fs_ready mem garbage s0" using s0(2) assms(3,4) by (simp add: fs_ready_def)
  from fs.run_refines[OF this assms(5), of words] show ?thesis using s0 unfolding fs_ready_def by auto
qed

definition sample_disk :: block where
  "sample_disk = \<lparr>btype = BLOCK_FILESYS, bsize = 16, data = \<lambda>_. replicate 512 NUL\<rparr>"

abbreviation always :: "nat \<Rightarrow> bool" where
  "always \<equiv> \<lambda>_. True"

lemma sample_disk_ok: "disk_ok sample_disk" "sectors_for (byte_cnt (bsize sample_disk)) + 3 \<le> bsize sample_disk"
  by (simp_all add: sample_disk_def disk_ok_def sectors_for_def byte_cnt_def elem_cnt_def size_add_def ELEM_BITS_def)

lemma always_plenty: "plenty always" "enough always" "bitmap_mem always d"
  by (simp_all add: plenty_def enough_def bitmap_mem_def)

theorem filesys_refines_witness:
  "\<exists>s0 rs s. filesys_init always (\<lambda>_. 0) (boot sample_disk) True = Some s0 \<and>
    run_ops (fs_exec always (replicate 20 NUL) (\<lambda>_. 0)) s0 [Create ''a'' 5, Write ''a'' ''hello'' 0, Crash, Read ''a'' 5 0, Remove ''a''] = Some (rs, s) \<and>
    fs_steps Map.empty [Create ''a'' 5, Write ''a'' ''hello'' 0, Crash, Read ''a'' 5 0, Remove ''a''] rs (fs_map (dev s)) \<and> fs_ok s"
  by (rule filesys_refines[OF sample_disk_ok always_plenty(1)]) (simp_all add: cstr_def)

text \<open>A formatted disk and the first file on it, for the examples below.\<close>

lemma sample_formatted:
  "\<exists>s. filesys_init always (\<lambda>_. 0) (boot sample_disk) True = Some s \<and> fs_ok s \<and> fs_map (dev s) = Map.empty \<and> fits (free_map s) 1 \<and> root_bytes (dev s) = replicate 320 NUL"
proof -
  obtain s where s: "filesys_init always (\<lambda>_. 0) (boot sample_disk) True = Some s" "fs_ok s" "fs_map (dev s) = Map.empty" "bsize (dev s) = bsize sample_disk"
    "root_bytes (dev s) = replicate 320 NUL" "card (used_bits (free_map s)) \<le> sectors_for (byte_cnt (bsize sample_disk)) + 3"
    using format_ok[OF sample_disk_ok(1) always_plenty(2,3) sample_disk_ok(2), of "\<lambda>_. 0"] by blast
  have "bit_cnt (free_map s) = 16" using s(2,4) by (simp add: fs_ok_def fs_wf_def sample_disk_def)
  then have "fits (free_map s) 1"
    using s(6) by (intro fits_one) (simp add: sample_disk_def sectors_for_def byte_cnt_def elem_cnt_def size_add_def ELEM_BITS_def)
  then show ?thesis using s by blast
qed

lemma sample_created:
  "\<exists>s. fs_ok s \<and> fs_map (dev s) = [''a'' \<mapsto> replicate 5 NUL]"
proof -
  obtain s where s: "fs_ok s" "fs_map (dev s) = Map.empty" "fits (free_map s) 1" "root_bytes (dev s) = replicate 320 NUL" using sample_formatted by blast
  have n: "cstr ''a''" "(5::nat) \<le> 2147483135" "length (replicate 20 NUL) = 20" "sectors_for 5 = 1" by (simp_all add: cstr_def sectors_for_def)
  have "can_add (root_bytes (dev s)) ''a''" unfolding s(4) by (rule can_add_zero) (simp_all add: NAME_MAX_def)
  then show ?thesis using filesys_create_ok[OF s(1) always_plenty(2) n(3,1,2)] s(2,3) unfolding n(4) by auto
qed

text \<open>C5. What is written to a file is durable. With no file open and memory available, if the data fit in the file, all of them are written, and after any calls
  that do not change this file, with shutdowns and crashes among them, reading at the same offset returns them.\<close>

theorem filesys_durable_write:
  assumes "fs_ok s" "plenty mem" "length garbage = 20" "fs_map (dev s) name = Some c" "ofs + length buf \<le> length c" "cstr name" "ofs < 2147483648"
    "\<forall>op \<in> set ops. valid_op op \<and> name \<notin> touched op"
  shows "\<exists>s1 rs s2 s3. write_file mem s name buf (int ofs) = Some (Some (int (length buf)), s1) \<and>
    run_ops (fs_exec mem garbage words) s1 ops = Some (rs, s2) \<and> read_file mem s2 name (int (length buf)) (int ofs) = Some (Some buf, s3)"
proof -
  have "fs_ready mem garbage s" using assms(1-3) by (simp add: fs_ready_def)
  from fs.read_back[OF this assms(4-8), of words] show ?thesis by (auto simp: map_prod_def)
qed

theorem filesys_durable_write_witness:
  "\<exists>s s1 rs s2 s3. fs_ok s \<and> write_file always s ''a'' ''lo'' (int 3) = Some (Some (int (length ''lo'')), s1) \<and>
    run_ops (fs_exec always (replicate 20 NUL) (\<lambda>_. 0)) s1 [Create ''b'' 600, Crash, Remove ''b'', Shutdown] = Some (rs, s2) \<and>
    read_file always s2 ''a'' (int (length ''lo'')) (int 3) = Some (Some ''lo'', s3)"
proof -
  obtain s where s: "fs_ok s" "fs_map (dev s) = [''a'' \<mapsto> replicate 5 NUL]" using sample_created by blast
  show ?thesis using filesys_durable_write[OF s(1) always_plenty(1), of "replicate 20 NUL" "''a''" "replicate 5 NUL" 3 "''lo''"
      "[Create ''b'' 600, Crash, Remove ''b'', Shutdown]" "\<lambda>_. 0"] s by (auto simp: cstr_def)
qed

text \<open>C25. With no file open and memory available, creating a file succeeds exactly when its name is valid and new, the root directory has a free entry, the first free
  sector can hold the inode and another run of free sectors can hold the data. Then the file is there, full
  of zeros, and no other file has changed. Otherwise nothing has changed for the clients.\<close>

theorem filesys_create_correct:
  assumes "fs_ok s" "enough mem" "length garbage = 20" "cstr name" "len \<le> 2147483135" "ok \<longleftrightarrow> can_add (root_bytes (dev s)) name \<and> fits (free_map s) (sectors_for len)"
  shows "\<exists>s'. filesys_create mem garbage s name (int len) = Some (ok, s') \<and> fs_ok s' \<and>
    fs_map (dev s') = (if ok then (fs_map (dev s))(name \<mapsto> replicate len NUL) else fs_map (dev s))"
  using filesys_create_ok[OF assms(1-5)] unfolding assms(6) by blast

theorem filesys_create_correct_witness:
  "\<exists>s s'. fs_ok s \<and> filesys_create always (replicate 20 NUL) s ''a'' (int 5) = Some (True, s') \<and> fs_ok s' \<and> fs_map (dev s') = [''a'' \<mapsto> replicate 5 NUL]"
proof -
  obtain s where s: "fs_ok s" "fs_map (dev s) = Map.empty" "fits (free_map s) 1" "root_bytes (dev s) = replicate 320 NUL" using sample_formatted by blast
  have "can_add (root_bytes (dev s)) ''a''" unfolding s(4) by (rule can_add_zero) (simp_all add: NAME_MAX_def)
  then show ?thesis using filesys_create_correct[OF s(1) always_plenty(2), of "replicate 20 NUL" "''a''" 5 True] s by (auto simp: cstr_def sectors_for_def)
qed

text \<open>C26. Removing a file. When no file is open, removing a file that exists takes its name away and gives back the sector of
  its inode and those of its data, no others; removing a file that does not exist fails and changes
  nothing. A file that is open when it is removed loses its name at once but keeps all its sectors: it can
  still be written and read through the open file, and no other file notices; closing it gives back exactly its
  sectors.\<close>

theorem filesys_remove_correct:
  assumes "fs_ok s" "enough mem" "cstr name"
  shows "(\<exists>s'. filesys_remove mem s name = Some (fs_map (dev s) name \<noteq> None, s') \<and> fs_ok s' \<and> fs_map (dev s') = (fs_map (dev s))(name := None) \<and>
      used_bits (free_map s') = used_bits (free_map s) - (case map_of (ents (dev s)) name of None \<Rightarrow> {} | Some n \<Rightarrow> extents (obj (dev s) n))) \<and>
    (\<forall>n c ofs pos. map_of (ents (dev s)) name = Some n \<and> c = bytes_of (dev s) (file_inode (dev s) n) \<and> 0 \<le> ofs \<and> ofs < 2147483648 \<and> 0 \<le> pos \<and> pos < 2147483648 \<longrightarrow>
      (\<exists>fp s1 s2 s3 s4. filesys_open mem s name = Some (fp, s1) \<and> fp \<noteq> 0 \<and>
        filesys_remove mem s1 name = Some (True, s2) \<and> fs_map (dev s2) = (fs_map (dev s))(name := None) \<and> free_map s2 = free_map s \<and>
        file_write_at mem s2 fp buf (int (length buf)) ofs = Some (int (length (clip c (nat ofs) buf)), s3) \<and> fs_map (dev s3) = fs_map (dev s2) \<and>
        file_read_at mem s3 fp sz pos = Some (seg (put c (nat ofs) (clip c (nat ofs) buf)) (nat pos) (nat sz)) \<and>
        file_close mem s3 fp = Some s4 \<and> fs_ok s4 \<and> fs_map (dev s4) = (fs_map (dev s))(name := None) \<and>
        used_bits (free_map s4) = used_bits (free_map s) - extents (obj (dev s) n)))"
  using filesys_remove_ok[OF assms] filesys_remove_open[OF assms] by blast

theorem filesys_remove_correct_witness:
  "\<exists>s s' fp s1 s2 s3. fs_ok s \<and> filesys_remove always s ''a'' = Some (True, s') \<and> fs_ok s' \<and> fs_map (dev s') = Map.empty \<and>
    filesys_open always s ''a'' = Some (fp, s1) \<and> filesys_remove always s1 ''a'' = Some (True, s2) \<and> fs_map (dev s2) = Map.empty \<and>
    file_write_at always s2 fp ''xy'' 2 1 = Some (2, s3) \<and> file_read_at always s3 fp 4 0 = Some (NUL # ''xy'' @ [NUL])"
proof -
  obtain s where s: "fs_ok s" "fs_map (dev s) = [''a'' \<mapsto> replicate 5 NUL]" using sample_created by blast
  have "cstr ''a''" by (simp add: cstr_def)
  note t = filesys_remove_correct[OF s(1) always_plenty(2) this, of "''xy''" 4]
  obtain n where n: "map_of (ents (dev s)) ''a'' = Some n" "replicate 5 NUL = bytes_of (dev s) (file_inode (dev s) n)"
    using fun_cong[OF s(2), of "''a''"] by (auto simp: fs_map_def)
  have c: "clip (replicate 5 NUL) (nat 1) ''xy'' = ''xy''" "seg (put (replicate 5 NUL) (nat 1) ''xy'') (nat 0) (nat 4) = NUL # ''xy'' @ [NUL]"
    by (simp_all add: clip_def put_def seg_def numeral_eq_Suc)
  show ?thesis using conjunct1[OF t] conjunct2[OF t, rule_format, of n "replicate 5 NUL" 1 0] n s(1) unfolding c by (auto simp: s(2))
qed

text \<open>Creating a file whose name cannot be entered in the root directory loses disk space: when there is room for its
  inode and its data, the call fails and no file changes, but the sectors of the data stay marked as used,
  as many as the file would have had, and belong to no file.\<close>

theorem filesys_create_leaks:
  assumes "fs_ok s" "enough mem" "length garbage = 20" "cstr name" "len \<le> 2147483135" "\<not> can_add (root_bytes (dev s)) name" "fits (free_map s) (sectors_for len)"
  shows "\<exists>s'. filesys_create mem garbage s name (int len) = Some (False, s') \<and> fs_ok s' \<and> fs_map (dev s') = fs_map (dev s) \<and>
    card (used_bits (free_map s')) = card (used_bits (free_map s)) + sectors_for len"
proof -
  obtain s' where s': "filesys_create mem garbage s name (int len) = Some (False, s')" "fs_ok s'" "fs_map (dev s') = fs_map (dev s)"
    "takes (free_map s) (free_map s') (sectors_for len)"
    using filesys_create_ok[OF assms(1-5)] assms(6,7) by auto
  have "finite (used_bits (free_map s))" by (rule finite_subset[of _ "{..<bit_cnt (free_map s)}"]) (auto simp: used_bits_def)
  then have "card (used_bits (free_map s')) = card (used_bits (free_map s)) + sectors_for len"
    using s'(4) unfolding takes_def by (auto simp: card_Un_disjoint Int_commute)
  then show ?thesis using s'(1-3) by blast
qed

theorem filesys_create_leaks_witness:
  "\<exists>s s'. fs_ok s \<and> filesys_create always (replicate 20 NUL) s [] (int 5) = Some (False, s') \<and> fs_map (dev s') = fs_map (dev s) \<and>
    card (used_bits (free_map s')) = card (used_bits (free_map s)) + 1"
proof -
  obtain s where s: "fs_ok s" "fits (free_map s) 1" using sample_formatted by blast
  show ?thesis using filesys_create_leaks[OF s(1) always_plenty(2), of "replicate 20 NUL" "[]" 5] s by (auto simp: cstr_def sectors_for_def can_add_def)
qed

end
