(* ===== verification/Arith64.thy ===== *)
theory Arith64
  imports Prelude "HOL-Library.Signed_Division"
begin

text \<open>
  64-bit division on a machine with a 32-bit divide instruction, \<^verbatim>\<open>lib/arithmetic.c\<close>. A divide error of the
  processor and undefined behaviour are \<^term>\<open>None\<close>. The unsigned quotient is shown to be that of the
  mathematical integers for every divisor but zero, and the signed one to be rounded towards zero. The
  remainders go through 32-bit types and are only correct when they fit.
\<close>

section \<open>Operations\<close>

definition divl :: "64 word \<Rightarrow> 32 word \<Rightarrow> 32 word option" where
  "divl n d = (if d = 0 \<or> n div ucast d \<ge> 2 ^ 32 then None else Some (ucast (n div ucast d)))"

definition nlz :: "32 word \<Rightarrow> nat" where
  "nlz x = (
     let n = 0;
         (n, x) = (if x \<le> 0x0000FFFF then (n + 16, push_bit 16 x) else (n, x));
         (n, x) = (if x \<le> 0x00FFFFFF then (n + 8, push_bit 8 x) else (n, x));
         (n, x) = (if x \<le> 0x0FFFFFFF then (n + 4, push_bit 4 x) else (n, x));
         (n, x) = (if x \<le> 0x3FFFFFFF then (n + 2, push_bit 2 x) else (n, x))
     in if x \<le> 0x7FFFFFFF then n + 1 else n)"

definition udiv64 :: "64 word \<Rightarrow> 64 word \<Rightarrow> 64 word option" where
  "udiv64 n d =
     (if drop_bit 32 d = 0 then do {
        let b = push_bit 32 1;
        let n1 = (ucast (drop_bit 32 n) :: 32 word);
        let n0 = (ucast n :: 32 word);
        let d0 = (ucast d :: 32 word);
        assert (d0 \<noteq> 0);
        q \<leftarrow> divl (b * ucast (n1 mod d0) + ucast n0) d0;
        Some (ucast q + b * ucast (n1 div d0))
      }
      else if n < d then Some 0
      else do {
        let d1 = (ucast (drop_bit 32 d) :: 32 word);
        let s = nlz d1;
        q \<leftarrow> divl (drop_bit 1 n) (ucast (drop_bit 32 (push_bit s d)));
        let q = (ucast (drop_bit (31 - s) q) :: 64 word);
        Some (if n - (q - 1) * d < d then q - 1 else q)
      })"

definition umod64 :: "64 word \<Rightarrow> 64 word \<Rightarrow> 32 word option" where
  "umod64 n d = do { q \<leftarrow> udiv64 n d; Some (ucast (n - d * q)) }"

text \<open>The result of a signed operation must fit; a conversion to a signed type wraps.\<close>

definition int64 :: "int \<Rightarrow> int option" where
  "int64 x = (if - (2 ^ 63) \<le> x \<and> x < 2 ^ 63 then Some x else None)"

definition sdiv64 :: "64 word \<Rightarrow> 64 word \<Rightarrow> 64 word option" where
  "sdiv64 n d = do {
     let n_abs = (if sint n \<ge> 0 then n else - n);
     let d_abs = (if sint d \<ge> 0 then d else - d);
     q_abs \<leftarrow> udiv64 n_abs d_abs;
     if (sint n < 0) = (sint d < 0) then Some q_abs
     else do { x \<leftarrow> int64 (- sint q_abs); Some (word_of_int x) }
   }"

definition smod64 :: "64 word \<Rightarrow> 64 word \<Rightarrow> 32 word option" where
  "smod64 n d = do {
     q \<leftarrow> sdiv64 n d;
     p \<leftarrow> int64 (sint d * sint q);
     r \<leftarrow> int64 (sint n - p);
     Some (word_of_int r)
   }"

definition divdi3 :: "64 word \<Rightarrow> 64 word \<Rightarrow> 64 word option" where
  "divdi3 n d = sdiv64 n d"

definition moddi3 :: "64 word \<Rightarrow> 64 word \<Rightarrow> 64 word option" where
  "moddi3 n d = do { r \<leftarrow> smod64 n d; Some (scast r) }"

definition udivdi3 :: "64 word \<Rightarrow> 64 word \<Rightarrow> 64 word option" where
  "udivdi3 n d = udiv64 n d"

definition umoddi3 :: "64 word \<Rightarrow> 64 word \<Rightarrow> 64 word option" where
  "umoddi3 n d = do { r \<leftarrow> umod64 n d; Some (ucast r) }"

lemma unat_32: "unat (w :: 32 word) < 2 ^ 32"
  using unsigned_less[of w, where ?'a = nat] by simp

lemma unat_64: "unat (w :: 64 word) < 2 ^ 64"
  using unsigned_less[of w, where ?'a = nat] by simp

lemma unat_ucast_up [simp]: "unat (ucast (w :: 32 word) :: 64 word) = unat w"
  using unat_32[of w] by (simp add: unsigned_ucast_eq take_bit_nat_eq_self_iff)

lemma unat_ucast_down: "unat (ucast (w :: 64 word) :: 32 word) = unat w mod 2 ^ 32"
  by (simp add: unsigned_ucast_eq take_bit_eq_mod)

lemma unat_shr: "unat (drop_bit k (v :: 64 word)) = unat v div 2 ^ k" "unat (drop_bit k (w :: 32 word)) = unat w div 2 ^ k"
  using take_bit_nat_eq_self[OF unat_64[of v]] take_bit_nat_eq_self[OF unat_32[of w]]
  by (simp_all only: unsigned_drop_bit_eq) (simp_all add: drop_bit_eq_div)

section \<open>Counting leading zeros\<close>

text \<open>Each test keeps the product of the word and the count, and the top half of the bits left is not all zero.\<close>

lemma nlz_test:
  fixes x c :: "32 word"
  assumes "unat x = k * 2 ^ n" "2 ^ (32 - 2 * j) \<le> unat x" "Suc (unat c) = 2 ^ (32 - j)" "0 < j" "2 * j \<le> 32"
    "(n', y) = (if x \<le> c then (n + j, push_bit j x) else (n, x))"
  shows "unat y = k * 2 ^ n'" "2 ^ (32 - j) \<le> unat y"
proof -
  have lt: "unat x < 2 ^ (32 - j) \<longleftrightarrow> x \<le> c" by (simp add: word_le_nat_alt less_Suc_eq_le flip: assms(3))
  have p: "unat (push_bit j x) = unat x * 2 ^ j" if "x \<le> c"
  proof -
    have "unat x * 2 ^ j < 2 ^ (32 - j) * 2 ^ j" using lt that by simp
    also have "\<dots> = (2 :: nat) ^ 32" using assms(5) by (simp flip: power_add)
    finally show ?thesis by (simp only: unsigned_push_bit_eq) (simp add: push_bit_eq_mult take_bit_nat_eq_self_iff)
  qed
  show "unat y = k * 2 ^ n'" using assms(1,6) p by (auto simp: power_add split: if_splits)
  have "(2 :: nat) ^ (32 - j) = 2 ^ (32 - 2 * j) * 2 ^ j" using assms(5) by (simp flip: power_add)
  also have "\<dots> \<le> unat x * 2 ^ j" using assms(2) by simp
  finally show "2 ^ (32 - j) \<le> unat y" using assms(6) p lt by (auto split: if_splits)
qed

lemma nlz_correct:
  assumes "x \<noteq> 0"
  shows "nlz x \<le> 31" "2 ^ 31 \<le> unat x * 2 ^ nlz x" "unat x * 2 ^ nlz x < 2 ^ 32"
proof -
  obtain n1 x1 where 1: "(n1, x1) = (if x \<le> 0x0000FFFF then (0 + 16 :: nat, push_bit 16 x) else (0, x))" by (metis surj_pair)
  obtain n2 x2 where 2: "(n2, x2) = (if x1 \<le> 0x00FFFFFF then (n1 + 8, push_bit 8 x1) else (n1, x1))" by (metis surj_pair)
  obtain n3 x3 where 3: "(n3, x3) = (if x2 \<le> 0x0FFFFFFF then (n2 + 4, push_bit 4 x2) else (n2, x2))" by (metis surj_pair)
  obtain n4 x4 where 4: "(n4, x4) = (if x3 \<le> 0x3FFFFFFF then (n3 + 2, push_bit 2 x3) else (n3, x3))" by (metis surj_pair)
  have x: "unat x = unat x * 2 ^ 0" "2 ^ (32 - 2 * 16) \<le> unat x" using assms by (simp_all add: unat_gt_0 Suc_le_eq)
  note t1 = nlz_test[OF x _ _ _ 1]
  have "2 ^ (32 - 2 * 8) \<le> unat x1" using t1(2) by simp
  note t2 = nlz_test[OF t1(1) this _ _ _ 2]
  have "2 ^ (32 - 2 * 4) \<le> unat x2" using t2(2) by simp
  note t3 = nlz_test[OF t2(1) this _ _ _ 3]
  have "2 ^ (32 - 2 * 2) \<le> unat x3" using t3(2) by simp
  note t4 = nlz_test[OF t3(1) this _ _ _ 4]
  have e: "unat x4 = unat x * 2 ^ n4" "2 ^ 30 \<le> unat x4" using t4 by simp_all
  have n: "nlz x = (if x4 \<le> 0x7FFFFFFF then n4 + 1 else n4)"
    unfolding nlz_def Let_def by (simp only: 1[symmetric] 2[symmetric] 3[symmetric] 4[symmetric] prod.case)
  have lt: "x4 \<le> 0x7FFFFFFF \<longleftrightarrow> unat x4 < 2 ^ 31" by (simp add: word_le_nat_alt) linarith
  have "unat x4 < 2 ^ 32" using unat_32[of x4] by simp
  then show b: "2 ^ 31 \<le> unat x * 2 ^ nlz x" "unat x * 2 ^ nlz x < 2 ^ 32" using e lt unfolding n by auto
  have "2 ^ nlz x \<le> unat x * 2 ^ nlz x" using x(2) by simp
  also have "\<dots> < 2 ^ 32" by (rule b(2))
  finally have "nlz x < 32" using power_less_imp_less_exp[of 2 "nlz x" 32] by simp
  then show "nlz x \<le> 31" by simp
qed

section \<open>Unsigned division\<close>

lemma divl_ok:
  fixes n :: "64 word" and d :: "32 word"
  assumes "0 < unat d" "unat n < unat d * 2 ^ 32"
  shows "\<exists>q. divl n d = Some q \<and> unat q = unat n div unat d"
proof -
  let ?q = "n div ucast d"
  have q: "unat ?q = unat n div unat d" by (simp add: unat_div_distrib)
  have "unat n div unat d < 2 ^ 32" using assms by (simp add: less_mult_imp_div_less mult.commute)
  then have "\<not> 2 ^ 32 \<le> ?q" "unat (ucast ?q :: 32 word) = unat n div unat d"
    using q by (simp_all add: word_le_nat_alt unsigned_ucast_eq take_bit_nat_eq_self_iff)
  then show ?thesis using assms(1) by (auto simp: divl_def unat_gt_0)
qed

text \<open>The estimate of the quotient for a divisor with more than 32 bits: \<open>e\<close> agrees with \<open>d\<close> in its 32 leading bits.\<close>

lemma estimate:
  fixes n d e g :: nat
  assumes "n < 2 ^ 64" "e \<le> d" "d < e + g" "0 < e" "g * 2 ^ 31 \<le> e" "d \<le> n"
  shows "n div d \<le> n div e" "n div e \<le> n div d + 1" "1 \<le> n div e"
proof -
  show a: "n div d \<le> n div e" using assms(2,4) by (intro div_le_mono2) simp_all
  let ?q = "n div d"
  have "0 < ?q" using assms(2,4,6) by (simp add: div_greater_zero_iff)
  then show "1 \<le> n div e" using a by simp
  obtain h where g: "g = Suc h" using assms(2,3) by (cases g) auto
  have "n < (?q + 1) * d" using assms(2,4) by (metis Suc_eq_plus1 dividend_less_div_times less_le_trans mult_Suc add.commute)
  also have "\<dots> \<le> (?q + 1) * (e + h)" using assms(3) g by (intro mult_left_mono) simp_all
  finally have n: "n < (?q + 1) * e + (?q + 1) * h" by (simp add: algebra_simps)
  have "n < (?q + 2) * e"
  proof (rule ccontr)
    assume "\<not> n < (?q + 2) * e"
    then have c: "(?q + 1) * e + e \<le> n" by (simp add: algebra_simps)
    then have "e < (?q + 1) * h" using n by linarith
    then have "e * e < (?q + 1) * e * h" using mult_strict_left_mono[of e "(?q + 1) * h" e] assms(4) by (simp add: algebra_simps)
    also have "\<dots> \<le> 2 ^ 64 * h" using c assms(1) by (intro mult_right_mono) simp_all
    finally have 1: "e * e < 2 ^ 64 * h" .
    have "(g * 2 ^ 31) * (g * 2 ^ 31) \<le> e * e" using assms(5) by (intro mult_mono) simp_all
    moreover have "4 * h \<le> g * g" unfolding g by (cases h) (simp_all add: algebra_simps)
    ultimately have "2 ^ 64 * h \<le> e * e" by simp
    then show False using 1 by simp
  qed
  then have "n div e < ?q + 2" using assms(4) by (simp add: less_mult_imp_div_less)
  then show "n div e \<le> ?q + 1" by simp
qed


text \<open>Division of a number of two digits in base \<open>b\<close>.\<close>

lemma two_digits:
  fixes n d b :: nat
  assumes "0 < d" "0 < b" "m = b * (n div b mod d) + n mod b"
  shows "m < d * b" "n div d = m div d + b * (n div b div d)"
proof -
  have "b * Suc (n div b mod d) \<le> b * d" using assms(1) by (intro mult_le_mono2) (simp add: Suc_le_eq)
  moreover have "n mod b < b" using assms(2) by simp
  ultimately show "m < d * b" unfolding assms(3) mult_Suc_right mult.commute[of d b] by linarith
  have "n = b * (d * (n div b div d) + n div b mod d) + n mod b" by simp
  also have "\<dots> = m + d * (b * (n div b div d))" unfolding assms(3) by (simp only: distrib_left mult.left_commute add.commute add.left_commute)
  finally have "n div d = (m + d * (b * (n div b div d))) div d" by (rule arg_cong)
  also have "\<dots> = m div d + b * (n div b div d)" using assms(1) by (subst div_mult_self2) simp_all
  finally show "n div d = m div d + b * (n div b div d)" .
qed

lemma udiv64_small:
  assumes "drop_bit 32 d = 0" "d \<noteq> 0"
  shows "udiv64 n d = Some (n div d)"
proof -
  let ?n1 = "ucast (drop_bit 32 n) :: 32 word" and ?n0 = "ucast n :: 32 word" and ?d0 = "ucast d :: 32 word"
  have "unat (drop_bit 32 d) = 0" using assms(1) by simp
  then have lt: "unat d < 2 ^ 32" by (simp add: unat_shr div_eq_0_iff)
  then have d: "unat ?d0 = unat d" "0 < unat d" using assms(2) unfolding unat_ucast_down by (simp_all add: unat_gt_0)
  have "unat n div 2 ^ 32 < 2 ^ 32" using unat_64[of n] by (intro less_mult_imp_div_less) simp
  then have n: "unat ?n1 = unat n div 2 ^ 32" "unat ?n0 = unat n mod 2 ^ 32" by (simp_all add: unat_ucast_down unat_shr)
  have b: "unat (push_bit 32 1 :: 64 word) = 2 ^ 32" by (simp add: unsigned_push_bit_eq push_bit_eq_mult)
  define m where "m = 2 ^ 32 * (unat n div 2 ^ 32 mod unat d) + unat n mod 2 ^ 32"
  note t = two_digits[OF d(2) _ m_def, simplified]
  let ?m = "push_bit 32 1 * ucast (?n1 mod ?d0) + ucast ?n0 :: 64 word"
  have "m < 2 ^ 64" using t(1) lt by simp
  then have um: "unat ?m = m" using b n d(1) by (simp add: unat_word_ariths unat_mod_distrib m_def)
  obtain q where q: "divl ?m ?d0 = Some q" "unat q = m div unat d" using divl_ok[of ?d0 ?m] um t(1) d by auto
  have "unat n div unat d < 2 ^ 64" using unat_64[of n] by (rule le_less_trans[OF div_le_dividend])
  then have "unat (ucast q + push_bit 32 1 * ucast (?n1 div ?d0) :: 64 word) = unat n div unat d"
    using t(2) q(2) b n(1) d(1) by (simp add: unat_word_ariths unat_div_distrib)
  then have "ucast q + push_bit 32 1 * ucast (?n1 div ?d0) = n div d" by (simp add: word_unat_eq_iff unat_div_distrib)
  moreover have "?d0 \<noteq> 0" using d by (auto simp: unat_eq_0)
  ultimately show ?thesis using assms(1) q(1) by (simp add: udiv64_def assert_def)
qed

text \<open>A divisor shifted until its leading bit is set, and its upper half \<open>v\<close>.\<close>

lemma normalized:
  fixes d s v g b :: nat
  assumes "g * 2 ^ s = b" "d div b * 2 ^ s < b" "h \<le> d div b * 2 ^ s" "v = d * 2 ^ s div b"
  shows "d * 2 ^ s < b * b" "v < b" "h \<le> v" "v * g \<le> d" "d < v * g + g" "g * h \<le> v * g"
proof -
  have b: "0 < b" using assms(2) by (cases b) simp_all
  then have g: "0 < g" using assms(1) by (cases g) simp_all
  have "d div b * 2 ^ s < g * 2 ^ s" using assms(1,2) by simp
  then have "Suc (d div b) \<le> g" by (simp add: Suc_le_eq)
  then have "Suc (d div b) * b \<le> g * b" by (rule mult_le_mono1)
  moreover have "d < Suc (d div b) * b" using dividend_less_div_times[OF b, of d] by simp
  ultimately have "d < g * b" by linarith
  then have "d * 2 ^ s < g * b * 2 ^ s" by simp
  then show sh: "d * 2 ^ s < b * b" using assms(1) by (metis mult.commute mult.left_commute)
  then show "v < b" unfolding assms(4) by (rule less_mult_imp_div_less)
  have "d div b * 2 ^ s * b \<le> d * 2 ^ s" using div_times_less_eq_dividend[of d b] by (simp add: mult.commute mult.left_commute)
  then have "d div b * 2 ^ s \<le> v" using b by (simp add: less_eq_div_iff_mult_less_eq assms(4))
  then show hv: "h \<le> v" using assms(3) by simp
  then show "g * h \<le> v * g" by (simp add: mult.commute)
  have "v * g * 2 ^ s \<le> d * 2 ^ s" using div_times_less_eq_dividend[of "d * 2 ^ s" b] assms(1) by (simp add: assms(4) mult.assoc)
  then show "v * g \<le> d" by simp
  have "d * 2 ^ s < b + v * b" using dividend_less_div_times[OF b, of "d * 2 ^ s"] by (simp add: assms(4))
  also have "\<dots> = (v * g + g) * 2 ^ s" using assms(1) by (simp add: algebra_simps)
  finally show "d < v * g + g" by simp
qed

lemma udiv64_large:
  assumes "drop_bit 32 d \<noteq> 0" "d \<le> n"
  shows "udiv64 n d = Some (n div d)"
proof -
  define N D where "N = unat n" and "D = unat d"
  let ?d1 = "ucast (drop_bit 32 d) :: 32 word"
  define s v g where "s = nlz ?d1" and "v = D * 2 ^ s div 2 ^ 32" and "g = (2 :: nat) ^ (32 - s)"
  have "D div 2 ^ 32 < 2 ^ 32" using unat_64[of d] unfolding D_def by (intro less_mult_imp_div_less) simp
  then have d1: "unat ?d1 = D div 2 ^ 32" by (simp add: unat_ucast_down unat_shr D_def)
  have "?d1 \<noteq> 0" using assms(1) d1 unat_shr(1)[of 32 d] by (metis D_def unat_eq_zero)
  note z = nlz_correct[OF this, folded s_def, unfolded d1]
  have gs: "g * 2 ^ s = 2 ^ 32" using z(1) by (simp add: g_def flip: power_add)
  note nz = normalized[OF gs z(3,2) v_def]
  have us: "unat (push_bit s d) = D * 2 ^ s" using nz(1) by (simp only: unsigned_push_bit_eq) (simp add: push_bit_eq_mult take_bit_nat_eq_self_iff D_def)
  have uv: "unat (ucast (drop_bit 32 (push_bit s d)) :: 32 word) = v" using nz(2) by (simp add: unat_ucast_down unat_shr us v_def)
  have u2: "unat (drop_bit 1 n) = N div 2" by (simp add: unat_shr N_def)
  have "N div 2 < 2 ^ 63" using unat_64[of n] unfolding N_def by (intro less_mult_imp_div_less) simp
  also have "(2 :: nat) ^ 63 \<le> v * 2 ^ 32" using mult_le_mono1[OF nz(3), of "2 ^ 32"] by simp
  finally obtain q0 where q0: "divl (drop_bit 1 n) (ucast (drop_bit 32 (push_bit s d))) = Some q0" "unat q0 = N div 2 div v"
    using divl_ok[of "ucast (drop_bit 32 (push_bit s d))" "drop_bit 1 n"] uv u2 nz(3) by auto
  define q where "q = (ucast (drop_bit (31 - s) q0) :: 64 word)"
  have "2 * 2 ^ (31 - s) = g" using z(1) unfolding g_def by (simp add: Suc_diff_le flip: power_Suc)
  then have "2 * v * 2 ^ (31 - s) = v * g" by (metis mult.assoc mult.left_commute)
  then have uq: "unat q = N div (v * g)" by (simp only: q_def unat_ucast_up unat_shr q0(2) flip: div_mult2_eq)
  have DN: "D \<le> N" using assms(2) by (simp add: word_le_nat_alt D_def N_def)
  have vg: "0 < v * g" using nz(3) gs by (cases "v * g") auto
  note e = estimate[OF unat_64[of n, folded N_def] nz(4,5) vg nz(6) DN]
  have "q \<noteq> 0" using uq e(3) by auto
  then have q1: "unat (q - 1) = N div (v * g) - 1" using uq by (simp add: unat_minus_one)
  have le: "(N div (v * g) - 1) * D \<le> N" using e(2) by (meson div_times_less_eq_dividend le_diff_conv mult_le_mono1 order_trans)
  then have "unat ((q - 1) * d) = (N div (v * g) - 1) * D" using q1 unat_64[of n, folded N_def] by (simp add: unat_word_ariths D_def)
  then have "unat (n - (q - 1) * d) = N - (N div (v * g) - 1) * D" using le by (simp add: unat_sub word_le_nat_alt N_def)
  then have c: "n - (q - 1) * d < d \<longleftrightarrow> N - (N div (v * g) - 1) * D < D" by (simp add: word_less_nat_alt D_def)
  have D: "0 < D" using nz(4) vg by linarith
  have nd: "unat (n div d) = N div D" by (simp add: unat_div_distrib N_def D_def)
  have "(if n - (q - 1) * d < d then q - 1 else q) = n div d"
  proof (cases "N div (v * g) = N div D")
    case True
    have "(N div D - 1) * D + D = N div D * D" using e(3) True by (simp add: diff_mult_distrib)
    then have "\<not> N - (N div D - 1) * D < D" using div_times_less_eq_dividend[of N D] by linarith
    then show ?thesis using c True uq nd by (simp add: word_unat_eq_iff)
  next
    case False
    then have k: "N div (v * g) = N div D + 1" using e(1,2) by linarith
    have "N - N div D * D < D" using D by (simp add: minus_div_mult_eq_mod)
    then show ?thesis using c k q1 nd by (simp add: word_unat_eq_iff)
  qed
  moreover have "\<not> n < d" using assms(2) by simp
  ultimately show ?thesis using assms(1) q0(1) unfolding udiv64_def Let_def s_def q_def by simp
qed


lemma udiv64_ok: "udiv64 n d = (if d = 0 then None else Some (n div d))"
proof (cases "drop_bit 32 d = 0")
  case True
  then show ?thesis using udiv64_small[of d n] by (cases "d = 0") (simp_all add: udiv64_def assert_def)
next
  case False
  then have "d \<noteq> 0" by auto
  moreover have "n < d \<Longrightarrow> n div d = 0" by (simp add: word_unat_eq_iff unat_div_distrib word_less_nat_alt)
  ultimately show ?thesis using False udiv64_large[of d n] by (cases "n < d") (simp_all add: udiv64_def)
qed

section \<open>Signed division\<close>

lemma sint_64: "- (2 ^ 63) \<le> sint (w :: 64 word)" "sint (w :: 64 word) < 2 ^ 63"
  using sint_range_size[of w] by (simp_all add: word_size)

lemma uint_small: "0 \<le> x \<Longrightarrow> x < 2 ^ 64 \<Longrightarrow> uint (word_of_int x :: 64 word) = x"
  by (simp add: unsigned_of_int take_bit_int_eq_self)

lemma sint_small: "- (2 ^ 63) \<le> x \<Longrightarrow> x < 2 ^ 63 \<Longrightarrow> sint (word_of_int x :: 64 word) = x"
  by (simp add: int_word_sint)

text \<open>The absolute value as the unsigned number that \<^verbatim>\<open>sdiv64\<close> computes with.\<close>

lemma uint_abs: "uint (if sint n \<ge> 0 then n else - n) = \<bar>sint n\<bar>" for n :: "64 word"
proof (cases "sint n \<ge> 0")
  case True
  then show ?thesis using uint_small[of "sint n"] sint_64(2)[of n] by simp
next
  case False
  then have "uint (word_of_int (- sint n) :: 64 word) = - sint n" using uint_small[of "- sint n"] sint_64(1)[of n] by simp
  then show ?thesis using False by simp
qed

lemma sint_eqD: "sint d = k \<Longrightarrow> d = word_of_int k" for d :: "64 word"
  by (drule arg_cong[of _ _ "word_of_int :: int \<Rightarrow> 64 word"]) simp

lemma sint_cases: "sint d = 0 \<longleftrightarrow> d = 0" "sint d = 1 \<longleftrightarrow> d = 1" "sint d = - 1 \<longleftrightarrow> d = - 1" for d :: "64 word"
  by (auto dest: sint_eqD)

lemma abs_div_bound:
  fixes a b :: int
  shows "\<bar>a\<bar> div \<bar>b\<bar> \<le> \<bar>a\<bar>" "0 \<le> \<bar>a\<bar> div \<bar>b\<bar>" "\<bar>b\<bar> \<ge> 2 \<Longrightarrow> \<bar>a\<bar> div \<bar>b\<bar> \<le> \<bar>a\<bar> div 2"
proof -
  show "0 \<le> \<bar>a\<bar> div \<bar>b\<bar>" by (cases "b = 0") (simp_all add: pos_imp_zdiv_nonneg_iff)
  show "\<bar>a\<bar> div \<bar>b\<bar> \<le> \<bar>a\<bar>"
  proof (cases "b = 0")
    case False
    then have "\<bar>a\<bar> div \<bar>b\<bar> \<le> \<bar>a\<bar> div 1" by (intro zdiv_mono2) linarith+
    then show ?thesis by simp
  qed simp
  show "\<bar>b\<bar> \<ge> 2 \<Longrightarrow> \<bar>a\<bar> div \<bar>b\<bar> \<le> \<bar>a\<bar> div 2" by (intro zdiv_mono2) linarith+
qed

text \<open>The quotient of the absolute values does not fit only for the smallest number and a divisor of absolute value 1.\<close>

lemma quotient_fits:
  fixes n d :: "64 word"
  assumes "\<not> (sint n = - (2 ^ 63) \<and> \<bar>sint d\<bar> = 1)"
  shows "\<bar>sint n\<bar> div \<bar>sint d\<bar> < 2 ^ 63"
proof -
  have n: "\<bar>sint n\<bar> \<le> 2 ^ 63" using sint_64[of n] by linarith
  consider "sint d = 0" | "\<bar>sint d\<bar> = 1" | "\<bar>sint d\<bar> \<ge> 2" by linarith
  then show ?thesis
  proof cases
    case 2
    then have "\<bar>sint n\<bar> \<noteq> 2 ^ 63" using assms sint_64(2)[of n] by linarith
    then show ?thesis using 2 n by simp
  next
    case 3
    have "\<bar>sint n\<bar> div 2 < 2 ^ 63" using n by simp
    then show ?thesis using abs_div_bound(3)[OF 3, of "sint n"] by linarith
  qed simp
qed

lemma sdiv64_ok:
  "sdiv64 n d = (if d = 0 \<or> sint n = - (2 ^ 63) \<and> d = 1 then None else Some (word_of_int (sint n sdiv sint d)))"
proof (cases "d = 0")
  case True
  then show ?thesis by (simp add: sdiv64_def udiv64_ok)
next
  case False
  let ?n = "if sint n \<ge> 0 then n else - n" and ?d = "if sint d \<ge> 0 then d else - d"
  define v where "v = \<bar>sint n\<bar> div \<bar>sint d\<bar>"
  have v: "v \<le> 2 ^ 63" "0 \<le> v" using abs_div_bound(1,2)[of "sint n" "sint d"] sint_64[of n] unfolding v_def by linarith+
  have "uint (?n div ?d) = v" unfolding uint_div_distrib uint_abs v_def ..
  then have q: "?n div ?d = word_of_int v" using uint_small[of v] v by (simp add: word_uint_eq_iff)
  have u: "udiv64 ?n ?d = Some (word_of_int v)" unfolding udiv64_ok q using False by simp
  have sd: "sint n sdiv sint d = sgn (sint n) * sgn (sint d) * v" by (simp only: signed_divide_int_def v_def)
  have z: "sint n = 0 \<Longrightarrow> v = 0" "sint d \<noteq> 0" using False sint_cases(1)[of d] by (simp_all add: v_def)
  show ?thesis
  proof (cases "(sint n < 0) = (sint d < 0)")
    case True
    have "sgn (sint n) * sgn (sint d) * v = v" using True z by (cases "sint n = 0") (auto simp: sgn_if)
    then have "sint n sdiv sint d = v" unfolding sd .
    moreover have "\<not> (sint n = - (2 ^ 63) \<and> d = 1)" using True by auto
    ultimately show ?thesis unfolding sdiv64_def Let_def u using True False by simp
  next
    case opp: False
    have "sgn (sint n) * sgn (sint d) * v = - v" using opp z by (cases "sint n = 0") (auto simp: sgn_if)
    then have e: "sint n sdiv sint d = - v" unfolding sd .
    show ?thesis
    proof (cases "sint n = - (2 ^ 63) \<and> d = 1")
      case True
      then have "v = 2 ^ 63" by (simp add: v_def)
      then have "sint (word_of_int v :: 64 word) = - (2 ^ 63)" by (simp add: int_word_sint)
      then show ?thesis unfolding sdiv64_def Let_def u using opp True by (simp add: int64_def)
    next
      case no: False
      have "v < 2 ^ 63" unfolding v_def using no opp sint_cases(2)[of d] by (intro quotient_fits) auto
      then have "sint (word_of_int v :: 64 word) = v" "int64 (- v) = Some (- v)" using v(2) by (simp_all add: sint_small int64_def)
      then show ?thesis unfolding sdiv64_def Let_def u e using opp no False by simp
    qed
  qed
qed


section \<open>Remainders\<close>

lemma umod64_ok: "umod64 n d = (if d = 0 then None else Some (ucast (n mod d)))"
  by (simp add: umod64_def udiv64_ok minus_mult_div_eq_mod)

lemma smod_between:
  fixes n d :: int
  shows "0 \<le> n \<Longrightarrow> 0 \<le> n smod d \<and> n smod d \<le> n" "n < 0 \<Longrightarrow> n \<le> n smod d \<and> n smod d \<le> 0"
proof -
  have "0 \<le> \<bar>n\<bar> mod \<bar>d\<bar> \<and> \<bar>n\<bar> mod \<bar>d\<bar> \<le> \<bar>n\<bar>" by (cases "d = 0") (simp_all add: zmod_le_nonneg_dividend)
  then show "0 \<le> n \<Longrightarrow> 0 \<le> n smod d \<and> n smod d \<le> n" "n < 0 \<Longrightarrow> n \<le> n smod d \<and> n smod d \<le> 0"
    by (auto simp: signed_modulo_int_def sgn_if)
qed

lemma smod64_ok:
  "smod64 n d = (if d = 0 \<or> sint n = - (2 ^ 63) \<and> (d = 1 \<or> d = - 1) then None else Some (word_of_int (sint n smod sint d)))"
proof -
  consider "d = 0 \<or> sint n = - (2 ^ 63) \<and> d = 1" | "sint n = - (2 ^ 63)" "d = - 1" | "d \<noteq> 0" "\<not> (sint n = - (2 ^ 63) \<and> (d = 1 \<or> d = - 1))" by blast
  then show ?thesis
  proof cases
    case 1
    then show ?thesis by (auto simp: smod64_def sdiv64_ok)
  next
    case 2
    then show ?thesis by (simp add: smod64_def sdiv64_ok int_word_sint int64_def)
  next
    case 3
    let ?q = "sint n sdiv sint d" and ?r = "sint n smod sint d"
    have a: "\<bar>sint n\<bar> div \<bar>sint d\<bar> < 2 ^ 63" using 3(2) sint_cases(2,3)[of d] by (intro quotient_fits) auto
    have "?q = sgn (sint n) * sgn (sint d) * (\<bar>sint n\<bar> div \<bar>sint d\<bar>)" by (rule signed_divide_int_def)
    then have "- (2 ^ 63) \<le> ?q \<and> ?q < 2 ^ 63" using a abs_div_bound(2)[of "sint n" "sint d"] by (auto simp: sgn_if)
    then have q: "sint (word_of_int ?q :: 64 word) = ?q" by (intro sint_small) simp_all
    have e: "sint d * ?q = sint n - ?r" using sdiv_mult_smod_eq[of "sint n" "sint d"] by (simp add: algebra_simps)
    have r: "int64 (sint n - ?r) = Some (sint n - ?r)" "int64 ?r = Some ?r"
      using smod_between[of "sint n" "sint d"] sint_64[of n] by (cases "0 \<le> sint n"; simp add: int64_def)+
    show ?thesis using 3 by (auto simp: smod64_def sdiv64_ok q e r)
  qed
qed

text \<open>Going to 32 bits and back.\<close>

lemma cut_unsigned: "(ucast (ucast w :: 32 word) :: 64 word) = take_bit 32 w" for w :: "64 word"
  by (simp add: word_unat_eq_iff unat_ucast_down unat_mod_distrib take_bit_eq_mod)

lemma cut_signed: "(scast (word_of_int k :: 32 word) :: 64 word) = word_of_int (signed_take_bit 31 k)"
  by (simp add: signed_of_int)

lemma if_Some_bind: "((if b then None else Some x) \<bind> (\<lambda>r. Some (f r))) = (if b then None else Some (f x))"
  by simp

section \<open>Properties\<close>

text \<open>C10. Unsigned 64-bit division, done with a 32-bit divide instruction and a shifted estimate of the quotient, is division of
  the unsigned numbers. It traps for the divisor zero and for no other, so the divide instruction never
  overflows.\<close>

theorem udivdi3_correct: "udivdi3 n d = (if d = 0 then None else Some (n div d))"
  by (simp add: udivdi3_def udiv64_ok)

text \<open>C30. Signed 64-bit division rounds the quotient towards zero, as C asks for. The outcome is undefined for the divisor
  zero, and for the smallest number divided by one, where the negation of the quotient overflows although
  the quotient is a 64-bit number.\<close>

theorem divdi3_correct: "divdi3 n d = (if d = 0 \<or> sint n = - (2 ^ 63) \<and> d = 1 then None else Some (word_of_int (sint n sdiv sint d)))"
  by (simp add: divdi3_def sdiv64_ok)

text \<open>The 64-bit remainders lose their upper half. What the routines for unsigned and for signed remainders return is
  the remainder cut to 32 bits, without and with sign, so the result is wrong for every remainder that
  does not fit.\<close>

theorem moddi3_truncates:
  "umoddi3 n d = (if d = 0 then None else Some (take_bit 32 (n mod d))) \<and>
   moddi3 n d = (if d = 0 \<or> sint n = - (2 ^ 63) \<and> (d = 1 \<or> d = - 1) then None else Some (word_of_int (signed_take_bit 31 (sint n smod sint d))))"
proof
  show "umoddi3 n d = (if d = 0 then None else Some (take_bit 32 (n mod d)))"
    unfolding umoddi3_def umod64_ok cut_unsigned[symmetric] by (rule if_Some_bind)
  show "moddi3 n d = (if d = 0 \<or> sint n = - (2 ^ 63) \<and> (d = 1 \<or> d = - 1) then None else Some (word_of_int (signed_take_bit 31 (sint n smod sint d))))"
    unfolding moddi3_def smod64_ok cut_signed[symmetric] by (rule if_Some_bind)
qed

end
