(* ===== verification/CString.thy ===== *)
theory CString
  imports FsDir
begin

text \<open>
  The kernel's string functions, \<^verbatim>\<open>lib/string.c\<close>, on a memory of bytes. A pointer is an address, with 0 for
  NULL; a load or store outside the memory and a failed assertion are \<^term>\<open>None\<close>. A loop over a string goes
  on until it finds what it looks for or leaves the memory, so every loop ends.

  \<open>str_at m p s\<close> says that the string \<open>s\<close> lies at \<open>p\<close>. The lemmas say what each function returns in terms of the
  strings, and what it leaves in the memory.
\<close>

section \<open>Memory\<close>

type_synonym memory = "char list"

definition load :: "memory \<Rightarrow> nat \<Rightarrow> char option" where
  "load m p = (if 0 < p \<and> p < length m then Some (m ! p) else None)"

definition store :: "memory \<Rightarrow> nat \<Rightarrow> char \<Rightarrow> memory option" where
  "store m p c = (if 0 < p \<and> p < length m then Some (m[p := c]) else None)"

lemma load_bound [dest]: "load m p = Some c \<Longrightarrow> 0 < p \<and> p < length m"
  by (simp add: load_def split: if_splits)

abbreviation byte :: "char \<Rightarrow> nat" where
  "byte c \<equiv> of_char c"

section \<open>Blocks\<close>

fun copy_up :: "memory \<Rightarrow> nat \<Rightarrow> nat \<Rightarrow> nat \<Rightarrow> memory option" where
  "copy_up m dst src 0 = Some m"
| "copy_up m dst src (Suc n) = do { c \<leftarrow> load m src; m \<leftarrow> store m dst c; copy_up m (dst + 1) (src + 1) n }"

definition memcpy :: "memory \<Rightarrow> nat \<Rightarrow> nat \<Rightarrow> nat \<Rightarrow> (nat \<times> memory) option" where
  "memcpy m dst src sz = do {
     assert (dst \<noteq> 0 \<or> sz = 0);
     assert (src \<noteq> 0 \<or> sz = 0);
     m \<leftarrow> copy_up m dst src sz;
     Some (dst, m)
   }"

text \<open>Copying from the end: both pointers point behind the byte that is copied next.\<close>

fun copy_down :: "memory \<Rightarrow> nat \<Rightarrow> nat \<Rightarrow> nat \<Rightarrow> memory option" where
  "copy_down m dst src 0 = Some m"
| "copy_down m dst src (Suc n) = do { c \<leftarrow> load m (src - 1); m \<leftarrow> store m (dst - 1) c; copy_down m (dst - 1) (src - 1) n }"

text \<open>\<^verbatim>\<open>memmove\<close> returns the variable that has moved.\<close>

definition memmove :: "memory \<Rightarrow> nat \<Rightarrow> nat \<Rightarrow> nat \<Rightarrow> (nat \<times> memory) option" where
  "memmove m dst src sz = do {
     assert (dst \<noteq> 0 \<or> sz = 0);
     assert (src \<noteq> 0 \<or> sz = 0);
     if dst < src then do { m \<leftarrow> copy_up m dst src sz; Some (dst + sz, m) }
     else do { m \<leftarrow> copy_down m (dst + sz) (src + sz) sz; Some (dst + sz - sz, m) }
   }"

fun memcmp_loop :: "memory \<Rightarrow> nat \<Rightarrow> nat \<Rightarrow> nat \<Rightarrow> int option" where
  "memcmp_loop m a b 0 = Some 0"
| "memcmp_loop m a b (Suc n) = do {
     x \<leftarrow> load m a;
     y \<leftarrow> load m b;
     if x \<noteq> y then Some (if byte x > byte y then 1 else - 1) else memcmp_loop m (a + 1) (b + 1) n
   }"

definition memcmp :: "memory \<Rightarrow> nat \<Rightarrow> nat \<Rightarrow> nat \<Rightarrow> int option" where
  "memcmp m a b sz = do { assert (a \<noteq> 0 \<or> sz = 0); assert (b \<noteq> 0 \<or> sz = 0); memcmp_loop m a b sz }"

fun memchr_loop :: "memory \<Rightarrow> nat \<Rightarrow> char \<Rightarrow> nat \<Rightarrow> nat option" where
  "memchr_loop m p ch 0 = Some 0"
| "memchr_loop m p ch (Suc n) = do { c \<leftarrow> load m p; if c = ch then Some p else memchr_loop m (p + 1) ch n }"

definition memchr :: "memory \<Rightarrow> nat \<Rightarrow> char \<Rightarrow> nat \<Rightarrow> nat option" where
  "memchr m p ch sz = do { assert (p \<noteq> 0 \<or> sz = 0); memchr_loop m p ch sz }"

fun memset_loop :: "memory \<Rightarrow> nat \<Rightarrow> char \<Rightarrow> nat \<Rightarrow> memory option" where
  "memset_loop m p v 0 = Some m"
| "memset_loop m p v (Suc n) = do { m \<leftarrow> store m p v; memset_loop m (p + 1) v n }"

definition memset :: "memory \<Rightarrow> nat \<Rightarrow> char \<Rightarrow> nat \<Rightarrow> (nat \<times> memory) option" where
  "memset m dst v sz = do { assert (dst \<noteq> 0 \<or> sz = 0); m \<leftarrow> memset_loop m dst v sz; Some (dst, m) }"

section \<open>Strings\<close>

function strcmp_loop :: "memory \<Rightarrow> nat \<Rightarrow> nat \<Rightarrow> int option" where
  "strcmp_loop m a b =
     (case load m a of None \<Rightarrow> None
      | Some x \<Rightarrow> do {
          y \<leftarrow> load m b;
          if x \<noteq> NUL \<and> x = y then strcmp_loop m (a + 1) (b + 1)
          else Some (if byte x < byte y then - 1 else if byte x > byte y then 1 else 0)
        })"
  by pat_completeness auto
termination strcmp_loop by (relation "measure (\<lambda>(m, a, b). length m - a)") (auto dest: load_bound)

definition strcmp :: "memory \<Rightarrow> nat \<Rightarrow> nat \<Rightarrow> int option" where
  "strcmp m a b = do { assert (a \<noteq> 0); assert (b \<noteq> 0); strcmp_loop m a b }"

function strchr_loop :: "memory \<Rightarrow> nat \<Rightarrow> char \<Rightarrow> nat option" where
  "strchr_loop m p c =
     (case load m p of None \<Rightarrow> None
      | Some x \<Rightarrow> if x = c then Some p else if x = NUL then Some 0 else strchr_loop m (p + 1) c)"
  by pat_completeness auto
termination strchr_loop by (relation "measure (\<lambda>(m, p, c). length m - p)") (auto dest: load_bound)

definition strchr :: "memory \<Rightarrow> nat \<Rightarrow> char \<Rightarrow> nat option" where
  "strchr m p c = do { assert (p \<noteq> 0); strchr_loop m p c }"

text \<open>The loop that \<^verbatim>\<open>strcspn\<close> and \<^verbatim>\<open>strspn\<close> share: it stops at the end of the string or where membership in the second
  string is \<open>v\<close>.\<close>

function span_loop :: "memory \<Rightarrow> nat \<Rightarrow> nat \<Rightarrow> bool \<Rightarrow> nat \<Rightarrow> nat option" where
  "span_loop m p q v len =
     (case load m (p + len) of None \<Rightarrow> None
      | Some x \<Rightarrow>
          if x = NUL then Some len
          else do { r \<leftarrow> strchr m q x; if (r \<noteq> 0) = v then Some len else span_loop m p q v (len + 1) })"
  by pat_completeness auto
termination span_loop by (relation "measure (\<lambda>(m, p, q, v, len). length m - (p + len))") (auto dest: load_bound)

definition strcspn :: "memory \<Rightarrow> nat \<Rightarrow> nat \<Rightarrow> nat option" where
  "strcspn m p stop = span_loop m p stop True 0"

definition strspn :: "memory \<Rightarrow> nat \<Rightarrow> nat \<Rightarrow> nat option" where
  "strspn m p skip = span_loop m p skip False 0"

function strpbrk :: "memory \<Rightarrow> nat \<Rightarrow> nat \<Rightarrow> nat option" where
  "strpbrk m p stop =
     (case load m p of None \<Rightarrow> None
      | Some x \<Rightarrow>
          if x = NUL then Some 0
          else do { r \<leftarrow> strchr m stop x; if r \<noteq> 0 then Some p else strpbrk m (p + 1) stop })"
  by pat_completeness auto
termination strpbrk by (relation "measure (\<lambda>(m, p, stop). length m - p)") (auto dest: load_bound)

function strrchr_loop :: "memory \<Rightarrow> nat \<Rightarrow> char \<Rightarrow> nat \<Rightarrow> nat option" where
  "strrchr_loop m p c found =
     (case load m p of None \<Rightarrow> None
      | Some x \<Rightarrow> if x = NUL then Some found else strrchr_loop m (p + 1) c (if x = c then p else found))"
  by pat_completeness auto
termination strrchr_loop by (relation "measure (\<lambda>(m, p, c, found). length m - p)") (auto dest: load_bound)

definition strrchr :: "memory \<Rightarrow> nat \<Rightarrow> char \<Rightarrow> nat option" where
  "strrchr m p c = strrchr_loop m p c 0"

function strlen_loop :: "memory \<Rightarrow> nat \<Rightarrow> nat option" where
  "strlen_loop m p = (case load m p of None \<Rightarrow> None | Some x \<Rightarrow> if x \<noteq> NUL then strlen_loop m (p + 1) else Some p)"
  by pat_completeness auto
termination strlen_loop by (relation "measure (\<lambda>(m, p). length m - p)") (auto dest: load_bound)

definition strlen :: "memory \<Rightarrow> nat \<Rightarrow> nat option" where
  "strlen m p = do { assert (p \<noteq> 0); e \<leftarrow> strlen_loop m p; Some (e - p) }"

text \<open>The test of \<^verbatim>\<open>strnlen\<close> reads the byte before it compares the length.\<close>

function strnlen_loop :: "memory \<Rightarrow> nat \<Rightarrow> nat \<Rightarrow> nat \<Rightarrow> nat option" where
  "strnlen_loop m p maxlen len =
     (case load m (p + len) of None \<Rightarrow> None
      | Some x \<Rightarrow> if x \<noteq> NUL \<and> len < maxlen then strnlen_loop m p maxlen (len + 1) else Some len)"
  by pat_completeness auto
termination strnlen_loop by (relation "measure (\<lambda>(m, p, maxlen, len). maxlen - len)") auto

definition strnlen :: "memory \<Rightarrow> nat \<Rightarrow> nat \<Rightarrow> nat option" where
  "strnlen m p maxlen = strnlen_loop m p maxlen 0"

function strstr_loop :: "memory \<Rightarrow> nat \<Rightarrow> nat \<Rightarrow> nat \<Rightarrow> nat \<Rightarrow> nat \<Rightarrow> nat option" where
  "strstr_loop m haystack needle haystack_len needle_len i =
     (if i \<le> haystack_len - needle_len then do {
        r \<leftarrow> memcmp m (haystack + i) needle needle_len;
        if r = 0 then Some (haystack + i) else strstr_loop m haystack needle haystack_len needle_len (i + 1)
      } else Some 0)"
  by pat_completeness auto
termination strstr_loop by (relation "measure (\<lambda>(m, h, n, hl, nl, i). Suc (hl - nl) - i)") auto

definition strstr :: "memory \<Rightarrow> nat \<Rightarrow> nat \<Rightarrow> nat option" where
  "strstr m haystack needle = do {
     haystack_len \<leftarrow> strlen m haystack;
     needle_len \<leftarrow> strlen m needle;
     if haystack_len \<ge> needle_len then strstr_loop m haystack needle haystack_len needle_len 0 else Some 0
   }"

text \<open>\<^verbatim>\<open>strtok_r\<close> skips delimiters, \<open>None\<close> inside when the string is over, and then what is not a delimiter.\<close>

function skip_delims :: "memory \<Rightarrow> nat \<Rightarrow> nat \<Rightarrow> (bool \<times> nat) option" where
  "skip_delims m delimiters s =
     (case load m s of None \<Rightarrow> None
      | Some x \<Rightarrow> do {
          r \<leftarrow> strchr m delimiters x;
          if r \<noteq> 0 then if x = NUL then Some (True, s) else skip_delims m delimiters (s + 1)
          else Some (False, s)
        })"
  by pat_completeness auto
termination skip_delims by (relation "measure (\<lambda>(m, d, s). length m - s)") (auto dest: load_bound)

function skip_token :: "memory \<Rightarrow> nat \<Rightarrow> nat \<Rightarrow> nat option" where
  "skip_token m delimiters s =
     (case load m s of None \<Rightarrow> None
      | Some x \<Rightarrow> do { r \<leftarrow> strchr m delimiters x; if r = 0 then skip_token m delimiters (s + 1) else Some s })"
  by pat_completeness auto
termination skip_token by (relation "measure (\<lambda>(m, d, s). length m - s)") (auto dest: load_bound)

text \<open>The result is the token, the saved position and the memory.\<close>

definition strtok_r :: "memory \<Rightarrow> nat \<Rightarrow> nat \<Rightarrow> nat \<Rightarrow> (nat \<times> nat \<times> memory) option" where
  "strtok_r m s delimiters save_ptr = do {
     assert (delimiters \<noteq> 0);
     let s = (if s = 0 then save_ptr else s);
     assert (s \<noteq> 0);
     (over, s) \<leftarrow> skip_delims m delimiters s;
     if over then Some (0, s, m)
     else do {
       let token = s;
       s \<leftarrow> skip_token m delimiters s;
       x \<leftarrow> load m s;
       if x \<noteq> NUL then do { m \<leftarrow> store m s NUL; Some (token, s + 1, m) }
       else Some (token, s, m)
     }
   }"

definition strlcpy :: "memory \<Rightarrow> nat \<Rightarrow> nat \<Rightarrow> nat \<Rightarrow> (nat \<times> memory) option" where
  "strlcpy m dst src sz = do {
     assert (dst \<noteq> 0);
     assert (src \<noteq> 0);
     src_len \<leftarrow> strlen m src;
     m \<leftarrow> (if sz > 0 then do {
            let dst_len = (if src_len < sz - 1 then src_len else sz - 1);
            (_, m) \<leftarrow> memcpy m dst src dst_len;
            store m (dst + dst_len) NUL
          } else Some m);
     Some (src_len, m)
   }"

definition strlcat :: "memory \<Rightarrow> nat \<Rightarrow> nat \<Rightarrow> nat \<Rightarrow> (nat \<times> memory) option" where
  "strlcat m dst src sz = do {
     assert (dst \<noteq> 0);
     assert (src \<noteq> 0);
     src_len \<leftarrow> strlen m src;
     dst_len \<leftarrow> strlen m dst;
     m \<leftarrow> (if sz > 0 \<and> dst_len < sz then do {
            let copy_cnt = (if src_len < sz - dst_len - 1 then src_len else sz - dst_len - 1);
            (_, m) \<leftarrow> memcpy m (dst + dst_len) src copy_cnt;
            store m (dst + dst_len + copy_cnt) NUL
          } else Some m);
     Some (src_len + dst_len, m)
   }"

declare strcmp_loop.simps [simp del] strchr_loop.simps [simp del] span_loop.simps [simp del] strpbrk.simps [simp del]
  strrchr_loop.simps [simp del] strlen_loop.simps [simp del] strnlen_loop.simps [simp del] strstr_loop.simps [simp del]
  skip_delims.simps [simp del] skip_token.simps [simp del]

section \<open>Strings in memory\<close>

primrec str_at :: "memory \<Rightarrow> nat \<Rightarrow> string \<Rightarrow> bool" where
  "str_at m p [] \<longleftrightarrow> load m p = Some NUL"
| "str_at m p (c # s) \<longleftrightarrow> c \<noteq> NUL \<and> load m p = Some c \<and> str_at m (Suc p) s"

lemma str_at_pos: "str_at m p s \<Longrightarrow> 0 < p \<and> p + length s < length m"
  by (induction s arbitrary: p) fastforce+

lemma str_at_cstr: "str_at m p s \<Longrightarrow> cstr s"
  by (induction s arbitrary: p) auto

lemma str_at_drop: "str_at m p (s @ t) \<Longrightarrow> str_at m (p + length s) t"
proof (induction s arbitrary: p)
  case (Cons c s)
  then show ?case using Cons.IH[of "Suc p"] by simp
qed simp

lemma str_at_unique: "str_at m p s \<Longrightarrow> str_at m p t \<Longrightarrow> s = t"
  by (induction s arbitrary: p t) (case_tac t; auto)+

text \<open>The bytes of a string, with its terminator.\<close>

lemma str_at_seg: "str_at m p s \<longleftrightarrow> cstr s \<and> 0 < p \<and> p + length s < length m \<and> seg m p (Suc (length s)) = s @ [NUL]"
proof (induction s arbitrary: p)
  case Nil
  then show ?case by (auto simp: load_def seg_Suc)
next
  case (Cons c s)
  show ?case unfolding str_at.simps Cons.IH by (auto simp: load_def seg_Suc)
qed

lemma load_in_str: "str_at m p s \<Longrightarrow> i < length s \<Longrightarrow> load m (p + i) = Some (s ! i)"
proof (induction s arbitrary: p i)
  case (Cons c s)
  then show ?case using Cons.IH[of "Suc p" "i - 1"] by (cases i) auto
qed simp

lemma str_at_skip: "str_at m p (s @ c # t) \<Longrightarrow> load m (p + length s) = Some c"
  using str_at_drop[of m p s "c # t"] by simp

lemma strlen_loop_ok: "str_at m p s \<Longrightarrow> strlen_loop m p = Some (p + length s)"
  by (induction s arbitrary: p) (simp_all add: strlen_loop.simps)

lemma strlen_ok: "str_at m p s \<Longrightarrow> strlen m p = Some (length s)"
  using str_at_pos[of m p s] by (simp add: strlen_def assert_def strlen_loop_ok)

lemma strnlen_loop_ok: "str_at m (p + k) s \<Longrightarrow> k \<le> n \<Longrightarrow> strnlen_loop m p n k = Some (min n (k + length s))"
proof (induction s arbitrary: k)
  case Nil
  then show ?case by (subst strnlen_loop.simps) simp
next
  case (Cons c s)
  then show ?case using Cons.IH[of "Suc k"] by (subst strnlen_loop.simps) auto
qed

text \<open>The place of the first element that satisfies a predicate.\<close>

abbreviation upto :: "('a \<Rightarrow> bool) \<Rightarrow> 'a list \<Rightarrow> nat" where
  "upto P s \<equiv> length (takeWhile (\<lambda>x. \<not> P x) s)"

lemma upto_less: "x \<in> set s \<Longrightarrow> P x \<Longrightarrow> upto P s < length s"
  by (induction s) auto

lemma strchr_ok:
  assumes "str_at m p s"
  shows "strchr m p c = Some (if c = NUL then p + length s else if c \<in> set s then p + upto ((=) c) s else 0)"
proof -
  have "strchr_loop m p c = Some (if c = NUL then p + length s else if c \<in> set s then p + upto ((=) c) s else 0)"
    using assms by (induction s arbitrary: p) (auto simp: strchr_loop.simps)
  then show ?thesis using str_at_pos[OF assms] by (simp add: strchr_def assert_def)
qed

lemma strchr_member: "str_at m q t \<Longrightarrow> \<exists>r. strchr m q c = Some r \<and> (r \<noteq> 0 \<longleftrightarrow> c = NUL \<or> c \<in> set t)"
  using str_at_pos[of m q t] by (auto simp: strchr_ok)

lemma span_loop_ok:
  assumes "str_at m q t"
  shows "str_at m (p + k) s \<Longrightarrow> span_loop m p q v k = Some (k + upto (\<lambda>c. (c \<in> set t) = v) s)"
proof (induction s arbitrary: k)
  case Nil
  then show ?case by (subst span_loop.simps) simp
next
  case (Cons c s)
  obtain r where r: "strchr m q c = Some r" "r \<noteq> 0 \<longleftrightarrow> c = NUL \<or> c \<in> set t" using strchr_member[OF assms] by blast
  show ?case using Cons.prems Cons.IH[of "Suc k"] r by (subst span_loop.simps) auto
qed

lemma strspn_ok: "str_at m p s \<Longrightarrow> str_at m q t \<Longrightarrow> strspn m p q = Some (length (takeWhile (\<lambda>c. c \<in> set t) s))"
  using span_loop_ok[of m q t p 0 s False] by (simp add: strspn_def)

lemma strcspn_ok: "str_at m p s \<Longrightarrow> str_at m q t \<Longrightarrow> strcspn m p q = Some (length (takeWhile (\<lambda>c. c \<notin> set t) s))"
  using span_loop_ok[of m q t p 0 s True] by (simp add: strcspn_def)

lemma strpbrk_ok:
  assumes "str_at m q t"
  shows "str_at m p s \<Longrightarrow> strpbrk m p q = Some (if set s \<inter> set t = {} then 0 else p + upto (\<lambda>c. c \<in> set t) s)"
proof (induction s arbitrary: p)
  case Nil
  then show ?case by (subst strpbrk.simps) simp
next
  case (Cons c s)
  obtain r where r: "strchr m q c = Some r" "r \<noteq> 0 \<longleftrightarrow> c = NUL \<or> c \<in> set t" using strchr_member[OF assms] by blast
  show ?case using Cons.prems Cons.IH[of "Suc p"] r by (subst strpbrk.simps) auto
qed

lemma strrchr_loop_ok:
  "str_at m p s \<Longrightarrow> strrchr_loop m p c k = Some (if c \<in> set s then p + (length s - Suc (upto ((=) c) (rev s))) else k)"
proof (induction s arbitrary: p k)
  case Nil
  then show ?case by (subst strrchr_loop.simps) simp
next
  case (Cons d s)
  have "c \<in> set s \<Longrightarrow> upto ((=) c) (rev s @ [d]) = upto ((=) c) (rev s)" "c \<notin> set s \<Longrightarrow> upto ((=) c) (rev s @ [d]) = length s + (if c = d then 0 else 1)"
    by (auto simp: takeWhile_append)
  moreover have "c \<in> set s \<Longrightarrow> upto ((=) c) (rev s) < length s" using upto_less[of c "rev s" "(=) c"] by simp
  ultimately show ?case using Cons.prems Cons.IH[of "Suc p"] by (subst strrchr_loop.simps) (auto simp: Suc_diff_Suc)
qed

section \<open>Copying and comparing blocks\<close>

lemma put_update: "i < length xs \<Longrightarrow> i + length ys < length xs \<Longrightarrow> put (xs[i := y]) (Suc i) ys = put xs i (y # ys)"
  by (simp add: put_def take_Suc_conv_app_nth take_update_cancel drop_update_cancel)

lemma seg_update: "j < i \<or> i + n \<le> j \<Longrightarrow> seg (xs[j := y]) i n = seg xs i n"
  by (auto simp: seg_def drop_update_swap drop_update_cancel intro: take_update_cancel)

lemma copy_up_ok:
  "0 < dst \<Longrightarrow> 0 < src \<Longrightarrow> dst + n \<le> length m \<Longrightarrow> src + n \<le> length m \<Longrightarrow> dst \<le> src \<or> src + n \<le> dst \<Longrightarrow>
   copy_up m dst src n = Some (put m dst (seg m src n))"
proof (induction n arbitrary: m dst src)
  case (Suc n)
  let ?m = "m[dst := m ! src]"
  have "copy_up ?m (dst + 1) (src + 1) n = Some (put ?m (dst + 1) (seg ?m (src + 1) n))" using Suc.prems by (intro Suc.IH) auto
  moreover have "seg ?m (src + 1) n = seg m (src + 1) n" using Suc.prems(5) by (intro seg_update) auto
  moreover have "put ?m (Suc dst) (seg m (Suc src) n) = put m dst (seg m src (Suc n))"
    using Suc.prems(3,4) by (subst put_update) (simp_all add: seg_Suc)
  ultimately show ?case using Suc.prems by (simp add: load_def store_def)
qed simp

lemma seg_Suc_end: "i + Suc n \<le> length xs \<Longrightarrow> seg xs i (Suc n) = seg xs i n @ [xs ! (i + n)]"
  using seg_append[of i n xs 1] by (simp add: seg_Suc)

lemma put_update_end: "i + length ys < length xs \<Longrightarrow> put (xs[i + length ys := y]) i ys = put xs i (ys @ [y])"
  by (simp add: put_def take_update_cancel drop_update_swap Cons_nth_drop_Suc[symmetric])

lemma copy_down_ok:
  "0 < src \<Longrightarrow> src \<le> dst \<Longrightarrow> dst + n \<le> length m \<Longrightarrow> copy_down m (dst + n) (src + n) n = Some (put m dst (seg m src n))"
proof (induction n arbitrary: m)
  case (Suc n)
  let ?m = "m[dst + n := m ! (src + n)]"
  have "copy_down ?m (dst + n) (src + n) n = Some (put ?m dst (seg ?m src n))" using Suc.prems by (intro Suc.IH) auto
  moreover have "seg ?m src n = seg m src n" using Suc.prems(2) by (intro seg_update) auto
  moreover have "put ?m dst (seg m src n) = put m dst (seg m src (Suc n))"
    using Suc.prems put_update_end[of dst "seg m src n" m "m ! (src + n)"] by (simp add: seg_Suc_end)
  ultimately show ?case using Suc.prems by (simp add: load_def store_def)
qed simp

lemma memcpy_ok:
  assumes "0 < dst" "0 < src" "dst + n \<le> length m" "src + n \<le> length m" "dst \<le> src \<or> src + n \<le> dst"
  shows "memcpy m dst src n = Some (dst, put m dst (seg m src n))"
  using assms by (simp add: memcpy_def assert_def copy_up_ok)

lemma memset_ok: "0 < p \<Longrightarrow> p + n \<le> length m \<Longrightarrow> memset m p v n = Some (p, put m p (replicate n v))"
proof -
  assume a: "0 < p" "p + n \<le> length m"
  have "memset_loop m p v n = Some (put m p (replicate n v))" using a
  proof (induction n arbitrary: m p)
    case (Suc n)
    then show ?case using Suc.IH[of "Suc p" "m[p := v]"] by (simp add: store_def put_update)
  qed simp
  then show ?thesis using a by (simp add: memset_def assert_def)
qed

text \<open>The order of strings by their bytes, which are unsigned.\<close>

definition less_bytes :: "(char \<times> char) set" where
  "less_bytes = {(x, y). byte x < byte y}"

definition order_of :: "string \<Rightarrow> string \<Rightarrow> int" where
  "order_of s t = (if s = t then 0 else if (s, t) \<in> lexord less_bytes then - 1 else 1)"

lemma byte_pos: "c \<noteq> NUL \<Longrightarrow> 0 < byte c"
  using of_char_eq_iff[where ?'a = nat, of c NUL] by (cases "byte c") simp_all

lemma order_of_simps [simp]:
  "order_of [] [] = 0" "order_of [] (y # t) = - 1" "order_of (x # s) [] = 1"
  "order_of (x # s) (y # t) = (if x = y then order_of s t else if byte x < byte y then - 1 else 1)"
  by (auto simp: order_of_def less_bytes_def)

lemma byte_neq: "x \<noteq> y \<Longrightarrow> byte x < byte y \<or> byte y < byte x"
  using of_char_eq_iff[where ?'a = nat, of x y] by linarith

lemma strcmp_loop_ok: "str_at m a s \<Longrightarrow> str_at m b t \<Longrightarrow> strcmp_loop m a b = Some (order_of s t)"
proof (induction s arbitrary: a b t)
  case Nil
  then show ?case using byte_pos by (cases t) (auto simp: strcmp_loop.simps)
next
  case (Cons x s)
  show ?case
  proof (cases t)
    case Nil
    then show ?thesis using Cons.prems byte_pos[of x] by (subst strcmp_loop.simps) auto
  next
    case (Cons y t')
    then show ?thesis using Cons.prems Cons.IH[of "Suc a" "Suc b" t'] byte_neq[of x y] by (subst strcmp_loop.simps) auto
  qed
qed

lemma memcmp_ok:
  assumes "0 < a" "0 < b" "a + n \<le> length m" "b + n \<le> length m"
  shows "memcmp m a b n = Some (order_of (seg m a n) (seg m b n))"
proof -
  have "memcmp_loop m a b n = Some (order_of (seg m a n) (seg m b n))" using assms
  proof (induction n arbitrary: a b)
    case (Suc n)
    then show ?case using byte_neq[of "m ! a" "m ! b"] by (auto simp: load_def seg_Suc)
  qed simp
  then show ?thesis using assms by (simp add: memcmp_def assert_def)
qed

lemma order_of_zero [simp]: "order_of s t = 0 \<longleftrightarrow> s = t"
  by (simp add: order_of_def)

section \<open>Searching a string\<close>

text \<open>\<open>t\<close> occurs in \<open>s\<close> at place \<open>i\<close>.\<close>

definition occurs :: "string \<Rightarrow> string \<Rightarrow> nat \<Rightarrow> bool" where
  "occurs t s i \<longleftrightarrow> i + length t \<le> length s \<and> seg s i (length t) = t"

lemma seg_seg: "j + k \<le> n \<Longrightarrow> seg (seg xs i n) j k = seg xs (i + j) k"
  by (simp add: seg_def drop_take min_def add.commute)

lemma str_at_bytes: "str_at m p s \<Longrightarrow> seg m p (length s) = s"
  using seg_seg[of 0 "length s" "Suc (length s)" m p] by (simp add: str_at_seg) (simp add: seg_def)

lemma str_occurs: "str_at m p s \<Longrightarrow> i + length t \<le> length s \<Longrightarrow> seg m (p + i) (length t) = t \<longleftrightarrow> occurs t s i"
  using seg_seg[of i "length t" "length s" m p] str_at_bytes[of m p s] by (simp add: occurs_def)

lemma strstr_loop_ok:
  assumes "str_at m p s" "str_at m q t" "length t \<le> length s" "\<forall>j < i. \<not> occurs t s j"
  shows "\<exists>r. strstr_loop m p q (length s) (length t) i = Some r \<and>
    (if \<exists>j. occurs t s j then r = p + (LEAST j. occurs t s j) else r = 0)"
  using assms(4)
proof (induction "Suc (length s - length t) - i" arbitrary: i)
  case 0
  then have "\<not> occurs t s j" for j using assms(3) by (cases "j < i") (auto simp: occurs_def)
  then show ?case using 0 by (subst strstr_loop.simps) auto
next
  case (Suc n)
  have i: "i + length t \<le> length s" using Suc.hyps(2) assms(3) by linarith
  note ps = str_at_pos[OF assms(1)] str_at_pos[OF assms(2)]
  have c: "memcmp m (p + i) q (length t) = Some (order_of (seg m (p + i) (length t)) t)"
    using memcmp_ok[of "p + i" q "length t" m] ps i str_at_bytes[OF assms(2)] by simp
  show ?case
  proof (cases "occurs t s i")
    case True
    then have "(LEAST j. occurs t s j) = i" using Suc.prems by (intro Least_equality) (auto simp: not_less[symmetric])
    then show ?thesis using True c str_occurs[OF assms(1) i] i by (subst strstr_loop.simps) auto
  next
    case False
    then have "\<forall>j < Suc i. \<not> occurs t s j" using Suc.prems less_Suc_eq by auto
    from Suc.hyps(1)[OF _ this] Suc.hyps(2) show ?thesis using False c str_occurs[OF assms(1) i] i by (subst strstr_loop.simps) auto
  qed
qed

lemma strstr_ok:
  assumes "str_at m p s" "str_at m q t"
  shows "strstr m p q = Some (if \<exists>j. occurs t s j then p + (LEAST j. occurs t s j) else 0)"
proof -
  have "\<not> occurs t s j" if "length s < length t" for j using that by (simp add: occurs_def)
  then show ?thesis using strstr_loop_ok[OF assms, of 0] strlen_ok[OF assms(1)] strlen_ok[OF assms(2)] by (auto simp: strstr_def not_le split: if_splits)
qed

section \<open>Splitting a string\<close>

text \<open>The pieces of a string between delimiters.\<close>

function tokens :: "char set \<Rightarrow> string \<Rightarrow> string list" where
  "tokens ds s = (case dropWhile (\<lambda>c. c \<in> ds) s of [] \<Rightarrow> []
     | c # r \<Rightarrow> takeWhile (\<lambda>c. c \<notin> ds) (c # r) # tokens ds (drop 1 (dropWhile (\<lambda>c. c \<notin> ds) (c # r))))"
  by pat_completeness auto
termination tokens
proof (relation "measure (\<lambda>(ds, s). length s)", simp)
  fix ds :: "char set" and s c r assume e: "dropWhile (\<lambda>c. c \<in> ds) s = c # r"
  have "length (dropWhile (\<lambda>c. c \<notin> ds) (c # r)) \<le> length (c # r)" by (rule length_dropWhile_le)
  moreover have "length (c # r) \<le> length s" using length_dropWhile_le[of "\<lambda>c. c \<in> ds" s] unfolding e .
  ultimately show "((ds, drop 1 (dropWhile (\<lambda>c. c \<notin> ds) (c # r))), ds, s) \<in> measure (\<lambda>(ds, s). length s)" by simp
qed

declare tokens.simps [simp del]

lemma skip_delims_ok:
  assumes "str_at m q d"
  shows "str_at m p s \<Longrightarrow> skip_delims m q p = Some (dropWhile (\<lambda>c. c \<in> set d) s = [], p + length (takeWhile (\<lambda>c. c \<in> set d) s))"
proof (induction s arbitrary: p)
  case Nil
  then show ?case using strchr_member[OF assms, of NUL] by (subst skip_delims.simps) auto
next
  case (Cons c s)
  obtain r where r: "strchr m q c = Some r" "r \<noteq> 0 \<longleftrightarrow> c = NUL \<or> c \<in> set d" using strchr_member[OF assms] by blast
  show ?case using Cons.prems Cons.IH[of "Suc p"] r by (subst skip_delims.simps) auto
qed

lemma skip_token_ok:
  assumes "str_at m q d"
  shows "str_at m p s \<Longrightarrow> skip_token m q p = Some (p + length (takeWhile (\<lambda>c. c \<notin> set d) s))"
proof (induction s arbitrary: p)
  case Nil
  then show ?case using strchr_member[OF assms, of NUL] by (subst skip_token.simps) auto
next
  case (Cons c s)
  obtain r where r: "strchr m q c = Some r" "r \<noteq> 0 \<longleftrightarrow> c = NUL \<or> c \<in> set d" using strchr_member[OF assms] by blast
  show ?case using Cons.prems Cons.IH[of "Suc p"] r by (subst skip_token.simps) auto
qed

lemma str_at_frame:
  "str_at m p s \<Longrightarrow> length m' = length m \<Longrightarrow> \<forall>i. p \<le> i \<and> i \<le> p + length s \<longrightarrow> m' ! i = m ! i \<Longrightarrow> str_at m' p s"
  by (induction s arbitrary: p) (auto simp: load_def split: if_splits)

lemma str_at_cut:
  assumes "str_at m p (s @ c # t)"
  shows "str_at (m[p + length s := NUL]) p s" "str_at (m[p + length s := NUL]) (p + length s + 1) t"
proof -
  have "str_at m (p + length s + 1) t" using str_at_drop[OF assms] by simp
  then show "str_at (m[p + length s := NUL]) (p + length s + 1) t" by (rule str_at_frame) auto
  show "str_at (m[p + length s := NUL]) p s" using assms
  proof (induction s arbitrary: p)
    case (Cons a s)
    then show ?case using Cons.IH[of "Suc p"] by (auto simp: load_def split: if_splits)
  qed (auto simp: load_def split: if_splits)
qed

text \<open>One call: the first token is cut off, and the rest of the string is what follows its delimiter.\<close>

lemma strtok_r_ok:
  assumes "str_at m p s" "str_at m q d" "s = u @ r" "u = takeWhile (\<lambda>c. c \<in> set d) s" "r = t @ v" "t = takeWhile (\<lambda>c. c \<notin> set d) r" "a = p + length u"
  shows "strtok_r m p q k = Some (if r = [] then (0, p + length s, m) else if v = [] then (a, p + length s, m) else (a, a + length t + 1, m[a + length t := NUL]))"
    "strtok_r m 0 q p = strtok_r m p q k"
proof -
  have pos: "0 < p" "0 < q" using str_at_pos[OF assms(1)] str_at_pos[OF assms(2)] by simp_all
  have r: "str_at m a r" using str_at_drop[of m p u r] assms(1,3,7) by simp
  have "dropWhile (\<lambda>c. c \<in> set d) s = r" using assms(3,4) takeWhile_dropWhile_id[of "\<lambda>c. c \<in> set d" s] by (metis same_append_eq)
  then have sd: "skip_delims m q p = Some (r = [], a)" using skip_delims_ok[OF assms(2,1)] assms(4,7) by simp
  have st: "skip_token m q a = Some (a + length t)" using skip_token_ok[OF assms(2) r] assms(6) by simp
  have v: "str_at m (a + length t) v" using str_at_drop[of m a t v] r assms(5) by simp
  have e: "a + length r = p + length s" using assms(3,7) by simp
  show "strtok_r m p q k = Some (if r = [] then (0, p + length s, m) else if v = [] then (a, p + length s, m) else (a, a + length t + 1, m[a + length t := NUL]))"
    using pos sd st v e assms(5) by (cases v) (auto simp: strtok_r_def assert_def store_def dest: load_bound)
  show "strtok_r m 0 q p = strtok_r m p q k" using pos by (simp add: strtok_r_def)
qed

text \<open>The loop over all tokens, as in the comment before \<^verbatim>\<open>strtok_r\<close>.\<close>

partial_function (option) tokenize :: "memory \<Rightarrow> nat \<Rightarrow> nat \<Rightarrow> nat \<Rightarrow> (nat list \<times> memory) option" where
  "tokenize m s delimiters save_ptr = do {
     (token, save_ptr, m) \<leftarrow> strtok_r m s delimiters save_ptr;
     if token = 0 then Some ([], m)
     else do { (ts, m) \<leftarrow> tokenize m 0 delimiters save_ptr; Some (token # ts, m) }
   }"

lemma tokens_split:
  assumes "s = u @ r" "u = takeWhile (\<lambda>c. c \<in> ds) s" "r = t @ v" "t = takeWhile (\<lambda>c. c \<notin> ds) r"
  shows "tokens ds s = (if r = [] then [] else t # tokens ds (drop 1 v))" "r \<noteq> [] \<Longrightarrow> length (drop 1 v) < length s"
proof -
  have d: "dropWhile (\<lambda>c. c \<in> ds) s = r" "dropWhile (\<lambda>c. c \<notin> ds) r = v"
    using assms takeWhile_dropWhile_id[of "\<lambda>c. c \<in> ds" s] takeWhile_dropWhile_id[of "\<lambda>c. c \<notin> ds" r] by (metis same_append_eq)+
  show "tokens ds s = (if r = [] then [] else t # tokens ds (drop 1 v))"
    using d assms(4) by (subst tokens.simps) (auto split: list.split)
  show "r \<noteq> [] \<Longrightarrow> length (drop 1 v) < length s" using assms(1,3) by (cases t; cases v) auto
qed

text \<open>Two pieces of memory do not overlap.\<close>

definition disjoint :: "nat \<Rightarrow> nat \<Rightarrow> nat \<Rightarrow> nat \<Rightarrow> bool" where
  "disjoint p m q n \<longleftrightarrow> p + m \<le> q \<or> q + n \<le> p"

lemma tokenize_ok:
  "str_at m p s \<Longrightarrow> str_at m q d \<Longrightarrow> disjoint p (Suc (length s)) q (Suc (length d)) \<Longrightarrow>
   \<exists>ts m'. tokenize m p q k = Some (ts, m') \<and> tokenize m 0 q p = Some (ts, m') \<and> list_all2 (str_at m') ts (tokens (set d) s) \<and>
     length m' = length m \<and> (\<forall>i. i < p \<or> p + length s \<le> i \<longrightarrow> m' ! i = m ! i)"
proof (induction "length s" arbitrary: m p s k rule: less_induct)
  case less
  define u r where "u = takeWhile (\<lambda>c. c \<in> set d) s" and "r = dropWhile (\<lambda>c. c \<in> set d) s"
  define t v where "t = takeWhile (\<lambda>c. c \<notin> set d) r" and "v = dropWhile (\<lambda>c. c \<notin> set d) r"
  define a where "a = p + length u"
  have sp: "s = u @ r" "r = t @ v" by (simp_all add: u_def r_def t_def v_def)
  note st = strtok_r_ok[OF less.prems(1,2) sp(1) u_def sp(2) t_def a_def] and tk = tokens_split[OF sp(1) u_def sp(2) t_def]
  have un: "tokenize m p q k = tokenize m 0 q p" by (subst (1 2) tokenize.simps) (simp only: st(2)[of k])
  have pos: "0 < p" using str_at_pos[OF less.prems(1)] by simp
  show ?case
  proof (cases "r = []")
    case True
    then have "tokenize m p q k = Some ([], m)" using st(1)[of k] by (subst tokenize.simps) simp
    then show ?thesis using True tk un by auto
  next
    case r: False
    then have ar: "str_at m a (t @ v)" "0 < a" "a \<noteq> 0" using str_at_drop[of m p u r] less.prems(1) sp pos by (simp_all add: a_def)
    define m1 where "m1 = (if v = [] then m else m[a + length t := NUL])"
    define b where "b = a + length t + (if v = [] then 0 else 1)"
    have m1: "str_at m1 a t" "str_at m1 b (drop 1 v)" "length m1 = length m"
      using ar(1) str_at_cut[of m a t] str_at_drop[of m a t v] by (cases v; simp add: m1_def b_def)+
    have ps: "p + length s = a + length t + length v" using sp by (simp add: a_def)
    have dj: "disjoint b (Suc (length (drop 1 v))) q (Suc (length d))" using less.prems(3) ps by (cases v) (auto simp: disjoint_def b_def a_def)
    have f1: "m1 ! i = m ! i" if "i < p \<or> p + length s \<le> i" for i using that ps by (cases v) (auto simp: m1_def a_def nth_list_update)
    have q1: "str_at m1 q d" using less.prems(2) m1(3) f1 less.prems(3) by (intro str_at_frame[OF less.prems(2)]) (auto simp: disjoint_def)
    obtain ts m' where n: "tokenize m1 0 q b = Some (ts, m')" "list_all2 (str_at m') ts (tokens (set d) (drop 1 v))" "length m' = length m1"
      "\<forall>i. i < b \<or> b + length (drop 1 v) \<le> i \<longrightarrow> m' ! i = m1 ! i"
      using less.hyps[OF tk(2)[OF r] m1(2) q1 dj] by blast
    have call: "strtok_r m p q k = Some (a, b, m1)" using st(1)[of k] r ps by (auto simp: m1_def b_def)
    have "tokenize m p q k = Some (a # ts, m')" using call ar(3) n(1) by (subst tokenize.simps) simp
    moreover have "str_at m' a t"
    proof (cases v)
      case Nil
      then have "m' = m1 \<or> m' \<noteq> m1" "drop 1 v = []" by simp_all
      then show ?thesis using n(3,4) m1(1) Nil by (intro str_at_frame[OF m1(1)]) (auto simp: b_def)
    next
      case (Cons c w)
      then show ?thesis using n(3,4) m1(1) by (intro str_at_frame[OF m1(1)]) (auto simp: b_def)
    qed
    moreover have "m' ! i = m ! i" if "i < p \<or> p + length s \<le> i" for i
      using that n(4) f1[OF that] ps by (cases v) (auto simp: b_def a_def)
    ultimately show ?thesis using n(2,3) m1(3) tk(1) r un by auto
  qed
qed

section \<open>Copying strings\<close>

lemma put_snoc: "i + length ys < length xs \<Longrightarrow> (put xs i ys)[i + length ys := y] = put xs i (ys @ [y])"
  by (simp add: put_def list_update_append Cons_nth_drop_Suc[symmetric])

lemma nth_put_out: "i + length ys \<le> length xs \<Longrightarrow> j < i \<or> i + length ys \<le> j \<Longrightarrow> put xs i ys ! j = xs ! j"
  by (auto simp: put_def nth_append)

lemma str_at_put: "cstr s \<Longrightarrow> 0 < p \<Longrightarrow> p + length s < length m \<Longrightarrow> str_at (put m p (s @ [NUL])) p s"
  by (simp add: str_at_seg) (simp add: seg_def put_def)

lemma take_seg: "k \<le> length s \<Longrightarrow> str_at m p s \<Longrightarrow> seg m p k = take k s"
  using str_at_bytes[of m p s] by (metis min.absorb1 seg_def take_take)

text \<open>What \<^verbatim>\<open>strlcpy\<close> and \<^verbatim>\<open>strlcat\<close> share: as much of the string as \<open>n\<close> bytes can hold, with a terminator.\<close>

lemma copy_terminate:
  assumes "str_at m src s" "0 < d" "0 < n" "d + n \<le> length m" "disjoint src (Suc (length s)) d n" "k = (if length s < n - 1 then length s else n - 1)"
  shows "memcpy m d src k = Some (d, put m d (take (n - 1) s))" "store (put m d (take (n - 1) s)) (d + k) NUL = Some (put m d (take (n - 1) s @ [NUL]))"
proof -
  have src: "0 < src" "src + length s < length m" using str_at_pos[OF assms(1)] by simp_all
  have k: "k \<le> length s" "k < n" "take k s = take (n - 1) s" "length (take (n - 1) s) = k" using assms(3) by (auto simp: assms(6))
  have "memcpy m d src k = Some (d, put m d (seg m src k))" using assms(2-5) src k(1,2) by (intro memcpy_ok) (auto simp: disjoint_def)
  moreover have "seg m src k = take (n - 1) s" using take_seg[OF k(1) assms(1)] k(3) by simp
  ultimately show "memcpy m d src k = Some (d, put m d (take (n - 1) s))" by simp
  show "store (put m d (take (n - 1) s)) (d + k) NUL = Some (put m d (take (n - 1) s @ [NUL]))"
    using put_snoc[of d "take (n - 1) s" m NUL] assms(2,4) k(2) unfolding k(4) by (simp add: store_def k(4))
qed

lemma strlcpy_mem_ok:
  assumes "str_at m src s" "0 < dst" "0 < sz" "dst + sz \<le> length m" "disjoint src (Suc (length s)) dst sz"
  shows "strlcpy m dst src sz = Some (length s, put m dst (take (sz - 1) s @ [NUL]))"
proof -
  have "0 < src" using str_at_pos[OF assms(1)] by simp
  then show ?thesis using assms(2,3) strlen_ok[OF assms(1)] copy_terminate[OF assms refl]
    unfolding strlcpy_def assert_def Let_def by (simp del: One_nat_def split del: if_split)
qed

text \<open>On the bytes of the destination this is the function that directories use for the names in their entries.\<close>

lemma seg_put: "length xs \<le> n \<Longrightarrow> i + n \<le> length m \<Longrightarrow> seg (put m i xs) i n = put (seg m i n) 0 xs"
  by (simp add: seg_def put_def drop_take add.commute min_def)

lemma strlcpy_buffer:
  assumes "str_at m src s" "0 < dst" "0 < sz" "dst + sz \<le> length m" "disjoint src (Suc (length s)) dst sz"
  shows "\<exists>m'. strlcpy m dst src sz = Some (length s, m') \<and> seg m' dst sz = FsDir.strlcpy (seg m dst sz) s sz"
  using strlcpy_mem_ok[OF assms] seg_put[of "take (sz - 1) s @ [NUL]" sz dst m] assms(3,4) by (auto simp: FsDir.strlcpy_def)

lemma strlcat_ok:
  assumes "str_at m src s" "str_at m dst t" "length t < sz" "dst + sz \<le> length m" "disjoint src (Suc (length s)) dst sz"
  shows "strlcat m dst src sz = Some (length s + length t, put m (dst + length t) (take (sz - length t - 1) s @ [NUL]))"
proof -
  have pos: "0 < src" "0 < dst" using str_at_pos[OF assms(1)] str_at_pos[OF assms(2)] by simp_all
  have c: "0 < dst + length t" "0 < sz - length t" "dst + length t + (sz - length t) \<le> length m" "disjoint src (Suc (length s)) (dst + length t) (sz - length t)"
    using pos assms(3-5) by (auto simp: disjoint_def)
  show ?thesis using assms(3) pos strlen_ok[OF assms(1)] strlen_ok[OF assms(2)] copy_terminate[OF assms(1) c refl]
    unfolding strlcat_def assert_def Let_def by (simp del: One_nat_def diff_diff_left split del: if_split)
qed

section \<open>Properties\<close>

text \<open>C20. Taking tokens from a string until there are none left always ends, and the tokens found are the pieces of the
  string between delimiters, none of them empty, in order. Nothing outside the string is written to.\<close>

theorem strtok_r_splits:
  assumes "str_at m p s" "str_at m q d" "disjoint p (Suc (length s)) q (Suc (length d))"
  shows "\<exists>ts m'. tokenize m p q k = Some (ts, m') \<and> list_all2 (str_at m') ts (tokens (set d) s) \<and>
    length m' = length m \<and> (\<forall>i. i < p \<or> p + length s \<le> i \<longrightarrow> m' ! i = m ! i)"
  using tokenize_ok[OF assms, of k] by blast

definition sample_memory :: memory where
  "sample_memory = ''?'' @ ''  a bc '' @ [NUL] @ '' '' @ [NUL]"

lemma sample_strings: "str_at sample_memory 1 ''  a bc ''" "str_at sample_memory 9 '' ''" "disjoint 1 (Suc (length ''  a bc '')) 9 (Suc (length '' ''))"
  by (simp_all add: sample_memory_def load_def disjoint_def)

theorem strtok_r_splits_witness:
  "\<exists>ts m'. tokenize sample_memory 1 9 0 = Some (ts, m') \<and> list_all2 (str_at m') ts [''a'', ''bc''] \<and> length m' = length sample_memory"
proof -
  have "tokens (set '' '') ''  a bc '' = [''a'', ''bc'']" by (simp add: tokens.simps)
  then show ?thesis using strtok_r_splits[OF sample_strings, of 0] unfolding list.set(2) by auto
qed

text \<open>C32. Moving a block copies its bytes as they were before, wherever the two blocks lie and however they overlap. The
  pointer returned is the destination only when the copy went from the end; otherwise it points behind the
  block.\<close>

theorem memmove_correct:
  assumes "0 < dst" "0 < src" "dst + n \<le> length m" "src + n \<le> length m"
  shows "memmove m dst src n = Some (if dst < src then dst + n else dst, put m dst (seg m src n))"
  using assms copy_up_ok[of dst src n m] copy_down_ok[of src dst n m] by (auto simp: memmove_def assert_def)

theorem memmove_correct_witness: "memmove (''?'' @ ''abcde'') 1 2 4 = Some (5, ''?'' @ ''bcdee'')"
  using memmove_correct[of 1 2 4 "''?'' @ ''abcde''"] by (simp add: put_def seg_def)

text \<open>C33. Comparing two strings gives zero when they are equal and otherwise the sign of their lexicographic order by
  unsigned bytes, and searching for a string finds its first occurrence.\<close>

theorem strcmp_strstr_correct:
  assumes "str_at m a s" "str_at m b t"
  shows "strcmp m a b = Some (if s = t then 0 else if (s, t) \<in> lexord {(x, y). byte x < byte y} then - 1 else 1) \<and>
    strstr m a b = Some (if \<exists>j. occurs t s j then a + (LEAST j. occurs t s j) else 0)"
proof -
  have "0 < a" "0 < b" using str_at_pos[OF assms(1)] str_at_pos[OF assms(2)] by simp_all
  then have "strcmp m a b = Some (order_of s t)" using strcmp_loop_ok[OF assms] by (simp add: strcmp_def assert_def)
  then show ?thesis using strstr_ok[OF assms] by (simp add: order_of_def less_bytes_def)
qed

theorem strcmp_strstr_correct_witness:
  "strcmp sample_memory 1 9 = Some 1 \<and> strstr sample_memory 1 9 = Some 1"
proof -
  have o: "occurs '' '' ''  a bc '' 0" by (simp add: occurs_def seg_def)
  then have "(LEAST j. occurs '' '' ''  a bc '' j) = 0" by (intro Least_eq_0)
  moreover have "\<exists>j. occurs '' '' ''  a bc '' j" using o by blast
  ultimately show ?thesis using strcmp_strstr_correct[OF sample_strings(1,2)] by simp
qed

lemma str_at_strlcpy:
  assumes "str_at m src s" "0 < dst" "0 < sz" "dst + sz \<le> length m"
  shows "str_at (put m dst (take (sz - 1) s @ [NUL])) dst (take (sz - 1) s)"
proof -
  have "cstr (take (sz - 1) s)" using str_at_cstr[OF assms(1)] by (auto simp: cstr_def dest: in_set_takeD)
  then show ?thesis using assms(2-4) by (intro str_at_put) auto
qed

lemma str_at_strlcat:
  assumes "str_at m src s" "str_at m dst t" "length t < sz" "dst + sz \<le> length m"
  shows "str_at (put m (dst + length t) (take (sz - length t - 1) s @ [NUL])) dst (take (sz - 1) (t @ s))"
proof -
  let ?v = "take (sz - length t - 1) s"
  have c: "cstr ?v" "cstr t" using str_at_cstr[OF assms(1)] str_at_cstr[OF assms(2)] by (auto simp: cstr_def dest: in_set_takeD)
  have l: "dst + length t + length (?v @ [NUL]) \<le> dst + sz" using assms(3) by auto
  have "put m (dst + length t) (?v @ [NUL]) = put m dst (t @ ?v @ [NUL])"
    using str_at_bytes[OF assms(2)] by (simp add: put_def seg_def take_add add.assoc)
  moreover have "take (sz - 1) (t @ s) = t @ ?v" using assms(3) by simp
  ultimately show ?thesis using str_at_put[of "t @ ?v" dst m] c str_at_pos[OF assms(2)] l assms(4) by simp
qed

text \<open>C31. Copying with a size into any writable buffer of that size writes nothing outside it, terminates the copy unless
  the size is 0, cuts what does not fit, and returns the length of the source. Appending to a string that is
  shorter than the size does the same with the concatenation; appending to a string that already fills the
  size or more writes nothing at all, not even a terminator. Both results are the length that the whole
  string would have.\<close>

theorem strlcpy_strlcat_bounded:
  assumes "str_at m src s" "0 < dst" "dst + sz \<le> length m" "disjoint src (Suc (length s)) dst sz"
  shows "(\<exists>m1. strlcpy m dst src sz = Some (length s, m1) \<and> (if sz = 0 then m1 = m else str_at m1 dst (take (sz - 1) s)) \<and>
      length m1 = length m \<and> (\<forall>i. i < dst \<or> dst + sz \<le> i \<longrightarrow> m1 ! i = m ! i)) \<and>
    (\<forall>t. str_at m dst t \<longrightarrow> (\<exists>m2. strlcat m dst src sz = Some (length s + length t, m2) \<and>
      (if length t < sz then str_at m2 dst (take (sz - 1) (t @ s)) else m2 = m) \<and>
      length m2 = length m \<and> (\<forall>i. i < dst \<or> dst + sz \<le> i \<longrightarrow> m2 ! i = m ! i)))"
proof (intro conjI allI impI)
  have l: "dst + length (take (sz - 1) s @ [NUL]) \<le> dst + sz" if "0 < sz" using that by auto
  show "\<exists>m1. strlcpy m dst src sz = Some (length s, m1) \<and> (if sz = 0 then m1 = m else str_at m1 dst (take (sz - 1) s)) \<and>
      length m1 = length m \<and> (\<forall>i. i < dst \<or> dst + sz \<le> i \<longrightarrow> m1 ! i = m ! i)"
  proof (cases "sz = 0")
    case True
    then show ?thesis using strlen_ok[OF assms(1)] str_at_pos[OF assms(1)] assms(2) by (simp add: strlcpy_def assert_def)
  next
    case False
    then have z: "0 < sz" by simp
    show ?thesis using strlcpy_mem_ok[OF assms(1,2) z assms(3,4)] str_at_strlcpy[OF assms(1,2) z assms(3)] l[OF z] assms(3) z
      by (auto intro!: nth_put_out)
  qed
next
  fix t assume t: "str_at m dst t"
  show "\<exists>m2. strlcat m dst src sz = Some (length s + length t, m2) \<and>
      (if length t < sz then str_at m2 dst (take (sz - 1) (t @ s)) else m2 = m) \<and>
      length m2 = length m \<and> (\<forall>i. i < dst \<or> dst + sz \<le> i \<longrightarrow> m2 ! i = m ! i)"
  proof (cases "length t < sz")
    case True
    have "dst + length t + length (take (sz - length t - 1) s @ [NUL]) \<le> dst + sz" using True by auto
    then show ?thesis using strlcat_ok[OF assms(1) t True assms(3,4)] str_at_strlcat[OF assms(1) t True assms(3)] assms(3) True
      by (auto intro!: nth_put_out)
  next
    case False
    then show ?thesis using strlen_ok[OF assms(1)] strlen_ok[OF t] str_at_pos[OF assms(1)] assms(2) by (simp add: strlcat_def assert_def)
  qed
qed

definition sample_pair :: memory where
  "sample_pair = ''?ab'' @ [NUL] @ ''x'' @ [NUL, NUL, NUL]"

lemma sample_pair_ok: "str_at sample_pair 1 ''ab''" "0 < (4::nat)" "4 + 2 \<le> length sample_pair" "disjoint 1 (Suc (length ''ab'')) 4 2" "str_at sample_pair 4 ''x''"
  by (simp_all add: sample_pair_def load_def disjoint_def)

theorem strlcpy_strlcat_bounded_witness:
  "\<exists>m1 m2. strlcpy sample_pair 4 1 2 = Some (length ''ab'', m1) \<and> str_at m1 4 (take (2 - 1) ''ab'') \<and>
    strlcat sample_pair 4 1 2 = Some (length ''ab'' + length ''x'', m2) \<and> str_at m2 4 (take (2 - 1) (''x'' @ ''ab''))"
proof -
  note t = strlcpy_strlcat_bounded[OF sample_pair_ok(1-4)]
  have n: "(2::nat) \<noteq> 0" "length ''x'' < 2" by simp_all
  show ?thesis using conjunct1[OF t] conjunct2[OF t, rule_format, OF sample_pair_ok(5)] unfolding if_not_P[OF n(1)] if_P[OF n(2)] by blast
qed

end
