(* ===== verification/StdLib.thy ===== *)
theory StdLib
  imports FsInode "HOL-Library.Multiset"
begin

text \<open>
  The kernel's \<^verbatim>\<open>lib/stdlib.c\<close>: conversion of numbers, heap sort and binary search. An array of \<open>cnt\<close> elements of
  \<open>sz\<close> bytes is a sequence of bytes; the comparison function, with its auxiliary data, is a parameter on the
  bytes of two elements. An access outside the array is \<^term>\<open>None\<close>. Sums and products of indices do not wrap,
  because the bytes of an array have addresses.

  On the list of elements, sorting is a heap sort, which is shown to sort for every comparison that is a
  total preorder, and binary search finds an element if and only if there is one.
\<close>

section \<open>Operations\<close>

definition isspace :: "char \<Rightarrow> bool" where
  "isspace c \<longleftrightarrow> c \<in> set '' '' \<union> {CHR 0x0C, CHR 0x0A, CHR 0x0D, CHR 0x09, CHR 0x0B}"

definition isdigit :: "char \<Rightarrow> bool" where
  "isdigit c \<longleftrightarrow> c \<in> set ''0123456789''"

text \<open>The bytes from the pointer on, \<^term>\<open>None\<close> behind the end of the memory; a signed overflow is undefined.\<close>

fun skip_space :: "char list \<Rightarrow> char list option" where
  "skip_space [] = None"
| "skip_space (c # s) = (if isspace c then skip_space s else Some (c # s))"

fun digits_loop :: "int \<Rightarrow> char list \<Rightarrow> int option" where
  "digits_loop v [] = None"
| "digits_loop v (c # s) =
     (if isdigit c then do { w \<leftarrow> int32 (v * 10); w \<leftarrow> int32 (w - (int (of_char c) - 48)); digits_loop w s } else Some v)"

definition atoi :: "char list \<Rightarrow> int option" where
  "atoi s = do {
     s \<leftarrow> skip_space s;
     let (negative, s) = (if hd s = CHR ''+'' then (False, tl s) else if hd s = CHR ''-'' then (True, tl s) else (False, s));
     v \<leftarrow> digits_loop 0 s;
     if \<not> negative then int32 (- v) else Some v
   }"

type_synonym bytes = "char list"

text \<open>Elements have indices from 1.\<close>

fun swap_loop :: "bytes \<Rightarrow> nat \<Rightarrow> nat \<Rightarrow> nat \<Rightarrow> bytes option" where
  "swap_loop arr a b 0 = Some arr"
| "swap_loop arr a b (Suc n) = do {
     assert (a < length arr \<and> b < length arr);
     let t = arr ! a;
     let arr = arr[a := arr ! b];
     let arr = arr[b := t];
     swap_loop arr (a + 1) (b + 1) n
   }"

definition do_swap :: "bytes \<Rightarrow> nat \<Rightarrow> nat \<Rightarrow> nat \<Rightarrow> bytes option" where
  "do_swap arr a_idx b_idx sz = swap_loop arr ((a_idx - 1) * sz) ((b_idx - 1) * sz) sz"

definition do_compare :: "(bytes \<Rightarrow> bytes \<Rightarrow> int) \<Rightarrow> bytes \<Rightarrow> nat \<Rightarrow> nat \<Rightarrow> nat \<Rightarrow> int option" where
  "do_compare compare arr a_idx b_idx sz = do {
     assert ((a_idx - 1) * sz + sz \<le> length arr \<and> (b_idx - 1) * sz + sz \<le> length arr);
     Some (compare (seg arr ((a_idx - 1) * sz) sz) (seg arr ((b_idx - 1) * sz) sz))
   }"

text \<open>The index of the largest of an element and its children.\<close>

definition max_child :: "(bytes \<Rightarrow> bytes \<Rightarrow> int) \<Rightarrow> bytes \<Rightarrow> nat \<Rightarrow> nat \<Rightarrow> nat \<Rightarrow> nat option" where
  "max_child compare arr i cnt sz = do {
     let left = 2 * i;
     let right = 2 * i + 1;
     mx \<leftarrow> (if left \<le> cnt then do { c \<leftarrow> do_compare compare arr left i sz; Some (if c > 0 then left else i) } else Some i);
     if right \<le> cnt then do { c \<leftarrow> do_compare compare arr right mx sz; Some (if c > 0 then right else mx) } else Some mx
   }"

lemma max_child_cases: "max_child compare arr i cnt sz = Some k \<Longrightarrow> k = i \<or> k \<in> {2 * i, 2 * i + 1} \<and> k \<le> cnt"
  by (auto simp: max_child_def Let_def bind_eq_Some_conv split: if_splits)

function heapify :: "(bytes \<Rightarrow> bytes \<Rightarrow> int) \<Rightarrow> bytes \<Rightarrow> nat \<Rightarrow> nat \<Rightarrow> nat \<Rightarrow> bytes option" where
  "heapify compare arr i cnt sz =
     (case max_child compare arr i cnt sz of None \<Rightarrow> None
      | Some mx \<Rightarrow>
          if mx = i then Some arr
          else (case do_swap arr i mx sz of None \<Rightarrow> None | Some arr \<Rightarrow> heapify compare arr mx cnt sz))"
  by pat_completeness auto
termination heapify
proof (relation "measure (\<lambda>(compare, arr, i, cnt, sz). cnt + 1 - i)", simp)
  fix compare :: "bytes \<Rightarrow> bytes \<Rightarrow> int" and arr arr' :: bytes and i cnt sz k
  assume "max_child compare arr i cnt sz = Some k" "k \<noteq> i"
  then have "k = 2 * i \<or> k = 2 * i + 1" "k \<le> cnt" using max_child_cases by blast+
  then show "((compare, arr', k, cnt, sz), compare, arr, i, cnt, sz) \<in> measure (\<lambda>(compare, arr, i, cnt, sz). cnt + 1 - i)"
    using \<open>k \<noteq> i\<close> by auto
qed

declare heapify.simps [simp del]

fun build_loop :: "(bytes \<Rightarrow> bytes \<Rightarrow> int) \<Rightarrow> bytes \<Rightarrow> nat \<Rightarrow> nat \<Rightarrow> nat \<Rightarrow> bytes option" where
  "build_loop compare arr cnt sz 0 = Some arr"
| "build_loop compare arr cnt sz (Suc i) = do { arr \<leftarrow> heapify compare arr (Suc i) cnt sz; build_loop compare arr cnt sz i }"

fun extract_loop :: "(bytes \<Rightarrow> bytes \<Rightarrow> int) \<Rightarrow> bytes \<Rightarrow> nat \<Rightarrow> nat \<Rightarrow> bytes option" where
  "extract_loop compare arr sz i =
     (if i > 1 then do {
        arr \<leftarrow> do_swap arr 1 i sz;
        arr \<leftarrow> heapify compare arr 1 (i - 1) sz;
        extract_loop compare arr sz (i - 1)
      } else Some arr)"

declare extract_loop.simps [simp del]

definition sort_array :: "(bytes \<Rightarrow> bytes \<Rightarrow> int) \<Rightarrow> bytes \<Rightarrow> nat \<Rightarrow> nat \<Rightarrow> bytes option" where
  "sort_array compare arr cnt sz = do {
     assert (sz > 0);
     arr \<leftarrow> build_loop compare arr cnt sz (cnt div 2);
     extract_loop compare arr sz cnt
   }"

definition qsort :: "(bytes \<Rightarrow> bytes \<Rightarrow> int) \<Rightarrow> bytes \<Rightarrow> nat \<Rightarrow> nat \<Rightarrow> bytes option" where
  "qsort compare arr cnt sz = sort_array compare arr cnt sz"

text \<open>The result is the position of a match in the array, or \<^term>\<open>None\<close> inside for NULL.\<close>

function search_loop :: "(bytes \<Rightarrow> bytes \<Rightarrow> int) \<Rightarrow> bytes \<Rightarrow> bytes \<Rightarrow> nat \<Rightarrow> nat \<Rightarrow> nat \<Rightarrow> nat option option" where
  "search_loop compare key arr sz first lst =
     (if first < lst \<and> sz > 0 then
        let middle = first + (lst - first) div sz div 2 * sz in
        if middle + sz \<le> length arr then
          let cmp = compare key (seg arr middle sz) in
          if cmp < 0 then search_loop compare key arr sz first middle
          else if cmp > 0 then search_loop compare key arr sz (middle + sz) lst
          else Some (Some middle)
        else None
      else if first < lst then None else Some None)"
  by pat_completeness auto
termination search_loop
proof (relation "measure (\<lambda>(compare, key, arr, sz, first, lst). lst - first)", simp)
  show "((compare, key, arr, sz, first, middle), compare, key, arr, sz, first, lst) \<in> measure (\<lambda>(compare, key, arr, sz, first, lst). lst - first)"
    if "first < lst \<and> 0 < sz" "middle = first + (lst - first) div sz div 2 * sz" for compare key arr sz first lst middle
  proof -
    have "(lst - first) div sz div 2 * sz \<le> (lst - first) div 2" using that by (metis div_mult2_eq mult.commute div_times_less_eq_dividend)
    then show ?thesis using that by auto
  qed
  show "((compare, key, arr, sz, middle + sz, lst), compare, key, arr, sz, first, lst) \<in> measure (\<lambda>(compare, key, arr, sz, first, lst). lst - first)"
    if "first < lst \<and> 0 < sz" "middle = first + (lst - first) div sz div 2 * sz" for compare key arr sz first lst middle
    using that by auto
qed

declare search_loop.simps [simp del]

definition binary_search :: "(bytes \<Rightarrow> bytes \<Rightarrow> int) \<Rightarrow> bytes \<Rightarrow> bytes \<Rightarrow> nat \<Rightarrow> nat \<Rightarrow> nat option option" where
  "binary_search compare key arr cnt sz = search_loop compare key arr sz 0 (sz * cnt)"

definition bsearch :: "(bytes \<Rightarrow> bytes \<Rightarrow> int) \<Rightarrow> bytes \<Rightarrow> bytes \<Rightarrow> nat \<Rightarrow> nat \<Rightarrow> nat option option" where
  "bsearch compare key arr cnt sz = binary_search compare key arr cnt sz"

section \<open>The elements of an array\<close>

definition elems :: "bytes \<Rightarrow> nat \<Rightarrow> nat \<Rightarrow> bytes list" where
  "elems arr cnt sz = map (\<lambda>i. seg arr (i * sz) sz) [0..<cnt]"

definition swp :: "'a list \<Rightarrow> nat \<Rightarrow> nat \<Rightarrow> 'a list" where
  "swp xs a b = xs[a - 1 := xs ! (b - 1), b - 1 := xs ! (a - 1)]"

text \<open>What the comments ask of the comparison: its sign orders the elements.\<close>

definition strcmp_type :: "('a \<Rightarrow> 'a \<Rightarrow> int) \<Rightarrow> bool" where
  "strcmp_type compare \<longleftrightarrow> (\<forall>x y. compare x y > 0 \<longleftrightarrow> compare y x < 0)
     \<and> (\<forall>x y z. compare x y \<le> 0 \<longrightarrow> compare y z \<le> 0 \<longrightarrow> compare x z \<le> 0)"

lemma length_elems [simp]: "length (elems arr cnt sz) = cnt"
  by (simp add: elems_def)

lemma nth_elems: "i < cnt \<Longrightarrow> elems arr cnt sz ! i = seg arr (i * sz) sz"
  by (simp add: elems_def)

lemma elem_bound: "i < cnt \<Longrightarrow> cnt * sz \<le> n \<Longrightarrow> i * sz + sz \<le> (n :: nat)"
  by (metis add.commute less_eq_Suc_le mult_Suc mult_le_mono1 order_trans)

lemma swap_loop_ok:
  "a + n \<le> length arr \<Longrightarrow> b + n \<le> length arr \<Longrightarrow> a + n \<le> b \<or> b + n \<le> a \<Longrightarrow>
   \<exists>arr'. swap_loop arr a b n = Some arr' \<and> length arr' = length arr
     \<and> (\<forall>j < length arr. arr' ! j = (if a \<le> j \<and> j < a + n then arr ! (b + (j - a)) else if b \<le> j \<and> j < b + n then arr ! (a + (j - b)) else arr ! j))"
proof (induction n arbitrary: arr a b)
  case (Suc n)
  let ?arr = "arr[a := arr ! b, b := arr ! a]"
  obtain arr' where *: "swap_loop ?arr (a + 1) (b + 1) n = Some arr'" "length arr' = length ?arr"
    "\<forall>j < length ?arr. arr' ! j = (if a + 1 \<le> j \<and> j < a + 1 + n then ?arr ! (b + 1 + (j - (a + 1))) else if b + 1 \<le> j \<and> j < b + 1 + n then ?arr ! (a + 1 + (j - (b + 1))) else ?arr ! j)"
    using Suc.IH[of "a + 1" ?arr "b + 1"] Suc.prems by auto
  have "arr' ! j = (if a \<le> j \<and> j < a + Suc n then arr ! (b + (j - a)) else if b \<le> j \<and> j < b + Suc n then arr ! (a + (j - b)) else arr ! j)"
    if j: "j < length arr" for j
  proof -
    define f where "f x = ?arr ! x" for x
    have "a < j \<Longrightarrow> b + 1 + (j - (a + 1)) = b + (j - a)" "b < j \<Longrightarrow> a + 1 + (j - (b + 1)) = a + (j - b)" by simp_all
    then have 1: "arr' ! j = (if a < j \<and> j < a + Suc n then f (b + (j - a)) else if b < j \<and> j < b + Suc n then f (a + (j - b)) else f j)"
      using *(3)[rule_format, of j] j by (simp only: length_list_update f_def) (auto simp: Suc_le_eq)
    have 2: "f x = arr ! x" if "x \<noteq> a" "x \<noteq> b" for x using that by (simp add: f_def)
    have 3: "f a = arr ! b" "f b = arr ! a" using Suc.prems by (cases "a = b"; simp add: f_def)+
    have 4: "a < j \<and> j < a + Suc n \<Longrightarrow> b + (j - a) \<noteq> a \<and> b + (j - a) \<noteq> b" "b < j \<and> j < b + Suc n \<Longrightarrow> a + (j - b) \<noteq> a \<and> a + (j - b) \<noteq> b"
      using Suc.prems(3) by linarith+
    have 5: "\<not> (b < a \<and> a < b + Suc n)" "\<not> (a < b \<and> b < a + Suc n)" "a \<noteq> b" using Suc.prems(3) by linarith+
    consider "j = a" | "j = b" | "j \<noteq> a" "j \<noteq> b" by blast
    then show ?thesis
    proof cases
      case 3
      then have "a \<le> j \<longleftrightarrow> a < j" "b \<le> j \<longleftrightarrow> b < j" by auto
      then show ?thesis using 1 2 3 4 by simp
    qed (use 1 3 5 in auto)
  qed
  then show ?case using * Suc.prems by (auto simp: assert_def)
qed auto

lemma do_swap_ok:
  assumes "cnt * sz = length arr" "0 < a" "a \<le> cnt" "0 < b" "b \<le> cnt" "a \<noteq> b"
  obtains arr' where "do_swap arr a b sz = Some arr'" "length arr' = length arr" "elems arr' cnt sz = swp (elems arr cnt sz) a b"
proof -
  define a' b' where ab: "a' = a - 1" "b' = b - 1"
  have l: "a' < cnt" "b' < cnt" "a' \<noteq> b'" using assms ab by auto
  have bd: "i * sz + sz \<le> length arr" if "i < cnt" for i using elem_bound[OF that] assms(1) by simp
  have dis: "i * sz + sz \<le> j * sz \<or> j * sz + sz \<le> i * sz" if "i \<noteq> j" for i j :: nat
    using that elem_bound[of i j sz] elem_bound[of j i sz] by (metis le_refl linorder_neqE_nat)
  obtain arr' where *: "swap_loop arr (a' * sz) (b' * sz) sz = Some arr'" "length arr' = length arr"
    "\<forall>j < length arr. arr' ! j = (if a' * sz \<le> j \<and> j < a' * sz + sz then arr ! (b' * sz + (j - a' * sz)) else if b' * sz \<le> j \<and> j < b' * sz + sz then arr ! (a' * sz + (j - b' * sz)) else arr ! j)"
    using swap_loop_ok[OF bd[OF l(1)] bd[OF l(2)] dis[OF l(3)]] by blast
  have "seg arr' (i * sz) sz = seg arr ((if i = a' then b' else if i = b' then a' else i) * sz) sz" if i: "i < cnt" for i
    using bd[OF i] bd[OF l(1)] bd[OF l(2)] *(2,3) dis[of i a'] dis[of i b'] dis[OF l(3)] l(3)
    by (intro nth_equalityI) (auto simp: nth_seg)
  moreover have "swp (elems arr cnt sz) a b = (elems arr cnt sz)[a' := elems arr cnt sz ! b', b' := elems arr cnt sz ! a']"
    by (simp add: swp_def ab)
  ultimately have "elems arr' cnt sz = swp (elems arr cnt sz) a b"
    using l by (simp only: list_eq_iff_nth_eq) (simp add: nth_elems nth_list_update)
  then show ?thesis using that * by (simp add: do_swap_def ab)
qed

lemma do_compare_ok:
  "cnt * sz = length arr \<Longrightarrow> 0 < a \<Longrightarrow> a \<le> cnt \<Longrightarrow> 0 < b \<Longrightarrow> b \<le> cnt \<Longrightarrow>
   do_compare compare arr a b sz = Some (compare (elems arr cnt sz ! (a - 1)) (elems arr cnt sz ! (b - 1)))"
  using elem_bound[of "a - 1" cnt sz "length arr"] elem_bound[of "b - 1" cnt sz "length arr"]
  by (simp add: do_compare_def assert_def nth_elems)

section \<open>Heaps\<close>

definition child :: "nat \<Rightarrow> nat \<Rightarrow> bool" where
  "child i c \<longleftrightarrow> c = 2 * i \<or> c = 2 * i + 1"

definition heap :: "('a \<Rightarrow> 'a \<Rightarrow> int) \<Rightarrow> nat \<Rightarrow> nat \<Rightarrow> 'a list \<Rightarrow> bool" where
  "heap compare k n xs \<longleftrightarrow> (\<forall>j c. k \<le> j \<longrightarrow> child j c \<longrightarrow> c \<le> n \<longrightarrow> compare (xs ! (c - 1)) (xs ! (j - 1)) \<le> 0)"

text \<open>A heap but for the element \<open>i\<close>, which may be smaller than its children.\<close>

definition heap_but :: "('a \<Rightarrow> 'a \<Rightarrow> int) \<Rightarrow> nat \<Rightarrow> nat \<Rightarrow> nat \<Rightarrow> 'a list \<Rightarrow> bool" where
  "heap_but compare i k n xs \<longleftrightarrow>
     (\<forall>j c. k \<le> j \<longrightarrow> j \<noteq> i \<longrightarrow> child j c \<longrightarrow> c \<le> n \<longrightarrow> compare (xs ! (c - 1)) (xs ! (j - 1)) \<le> 0)
     \<and> (\<forall>p c. k \<le> p \<longrightarrow> child p i \<longrightarrow> child i c \<longrightarrow> c \<le> n \<longrightarrow> compare (xs ! (c - 1)) (xs ! (p - 1)) \<le> 0)"

lemma strcmp_type_le: "strcmp_type compare \<Longrightarrow> \<not> 0 < compare x y \<Longrightarrow> compare x y \<le> 0"
  by simp

lemma strcmp_type_gt: "strcmp_type compare \<Longrightarrow> 0 < compare x y \<Longrightarrow> compare y x \<le> 0"
  by (metis strcmp_type_def less_imp_le)

lemma strcmp_type_trans: "strcmp_type compare \<Longrightarrow> compare x y \<le> 0 \<Longrightarrow> compare y z \<le> 0 \<Longrightarrow> compare x z \<le> 0"
  unfolding strcmp_type_def by blast

lemma strcmp_type_refl: "strcmp_type compare \<Longrightarrow> compare x x \<le> 0"
  by (metis strcmp_type_def less_asym not_le)

lemma max_child_ok:
  assumes st: "strcmp_type compare" and N: "N * sz = length arr" "n \<le> N" "0 < i" "i \<le> n"
  obtains k where "max_child compare arr i n sz = Some k" "k = i \<or> child i k \<and> k \<le> n"
    "\<And>c. child i c \<Longrightarrow> c \<le> n \<Longrightarrow> compare (elems arr N sz ! (c - 1)) (elems arr N sz ! (k - 1)) \<le> 0"
    "compare (elems arr N sz ! (i - 1)) (elems arr N sz ! (k - 1)) \<le> 0"
proof -
  let ?x = "\<lambda>j. elems arr N sz ! (j - 1)"
  have cmp: "do_compare compare arr a b sz = Some (compare (?x a) (?x b))" if "0 < a" "a \<le> n" "0 < b" "b \<le> n" for a b
    by (rule do_compare_ok[OF N(1)]) (use that N(2) in auto)
  define l where "l = (if 2 * i \<le> n \<and> 0 < compare (?x (2 * i)) (?x i) then 2 * i else i)"
  define k where "k = (if 2 * i + 1 \<le> n \<and> 0 < compare (?x (2 * i + 1)) (?x l) then 2 * i + 1 else l)"
  have l: "0 < l" "l \<le> n" "l = i \<or> l = 2 * i" using N by (auto simp: l_def)
  have li: "compare (?x i) (?x l) \<le> 0" "2 * i \<le> n \<Longrightarrow> compare (?x (2 * i)) (?x l) \<le> 0"
    using strcmp_type_gt[OF st] strcmp_type_refl[OF st] by (auto simp: l_def)
  have lk: "compare (?x l) (?x k) \<le> 0" "2 * i + 1 \<le> n \<Longrightarrow> compare (?x (2 * i + 1)) (?x k) \<le> 0"
    using strcmp_type_gt[OF st] strcmp_type_refl[OF st] by (auto simp: k_def)
  have m: "max_child compare arr i n sz = Some k"
    using cmp N l by (auto simp: max_child_def l_def k_def Let_def)
  show ?thesis
  proof (rule that[OF m])
    show "k = i \<or> child i k \<and> k \<le> n" using l by (auto simp: k_def child_def)
    show "compare (?x i) (?x k) \<le> 0" by (rule strcmp_type_trans[OF st li(1) lk(1)])
    show "compare (?x c) (?x k) \<le> 0" if "child i c" "c \<le> n" for c
      using that lk(2) strcmp_type_trans[OF st li(2) lk(1)] by (auto simp: child_def)
  qed
qed

lemma nth_swp:
  "0 < a \<Longrightarrow> a \<le> length xs \<Longrightarrow> 0 < b \<Longrightarrow> b \<le> length xs \<Longrightarrow> 0 < j \<Longrightarrow> j \<le> length xs \<Longrightarrow>
   swp xs a b ! (j - 1) = xs ! ((if j = a then b else if j = b then a else j) - 1)"
  by (auto simp: swp_def nth_list_update)

lemma length_swp [simp]: "length (swp xs a b) = length xs"
  by (simp add: swp_def)

lemma take_swp:
  assumes "0 < a" "a \<le> n" "0 < b" "b \<le> n" "n \<le> length xs"
  shows "mset (take n (swp xs a b)) = mset (take n xs)" and "drop n (swp xs a b) = drop n xs"
proof -
  have t: "take n (swp xs a b) = (take n xs)[a - 1 := take n xs ! (b - 1), b - 1 := take n xs ! (a - 1)]"
    using assms by (simp add: swp_def take_update_swap)
  show "mset (take n (swp xs a b)) = mset (take n xs)"
    unfolding t by (rule mset_swap) (use assms in auto)
  show "drop n (swp xs a b) = drop n xs" using assms by (simp add: swp_def)
qed

lemma heap_but_swp:
  assumes h: "heap_but compare i k n xs" and ck: "child i m" "m \<le> n" "0 < k" "k \<le> i" "n \<le> length xs"
    and mx: "\<And>c. child i c \<Longrightarrow> c \<le> n \<Longrightarrow> compare (xs ! (c - 1)) (xs ! (m - 1)) \<le> 0" "compare (xs ! (i - 1)) (xs ! (m - 1)) \<le> 0"
  shows "heap_but compare m k n (swp xs i m)"
proof -
  have im: "i < m" "0 < i" using ck by (auto simp: child_def)
  have sw: "swp xs i m ! (j - 1) = xs ! ((if j = i then m else if j = m then i else j) - 1)" if "0 < j" "j \<le> n" for j
    using that im ck nth_swp[of i xs m j] by auto
  have lt: "j < c" if "child j c" "k \<le> j" for j c using that ck(3) by (auto simp: child_def)
  have uniq: "j = j'" if "child j c" "child j' c" for j j' c using that by (auto simp: child_def)
  show ?thesis unfolding heap_but_def
  proof (intro conjI allI impI)
    fix j c assume a: "k \<le> j" "j \<noteq> m" "child j c" "c \<le> n"
    have jc: "0 < j" "j \<le> n" "0 < c" "c \<noteq> j" using a lt[OF a(3,1)] ck by auto
    consider "j = i" | "j \<noteq> i" "c = i" | "j \<noteq> i" "c \<noteq> i" by blast
    then show "compare (swp xs i m ! (c - 1)) (swp xs i m ! (j - 1)) \<le> 0"
    proof cases
      case 1 then show ?thesis using a jc mx by (cases "c = m") (auto simp del: One_nat_def simp: sw)
    next
      case 2 then show ?thesis using a jc h ck im by (auto simp del: One_nat_def simp: sw heap_but_def)
    next
      case 3
      then have "c \<noteq> m" using uniq[OF a(3)] ck(1) by blast
      then show ?thesis using 3 a jc h by (auto simp del: One_nat_def simp: sw heap_but_def)
    qed
  next
    fix p c assume a: "k \<le> p" "child p m" "child m c" "c \<le> n"
    have p: "p = i" using uniq[OF a(2) ck(1)] .
    have c: "m < c" "0 < c" using lt[OF a(3)] im ck by auto
    have "compare (xs ! (c - 1)) (xs ! (m - 1)) \<le> 0" using h a im ck by (auto simp: heap_but_def)
    then show "compare (swp xs i m ! (c - 1)) (swp xs i m ! (p - 1)) \<le> 0" using a p c im ck by (simp del: One_nat_def add: sw)
  qed
qed

lemma heap_but_done:
  "heap_but compare i k n xs \<Longrightarrow> (\<And>c. child i c \<Longrightarrow> c \<le> n \<Longrightarrow> compare (xs ! (c - 1)) (xs ! (i - 1)) \<le> 0) \<Longrightarrow> heap compare k n xs"
  by (auto simp: heap_def heap_but_def)

lemma heapify_ok:
  assumes "strcmp_type compare" "n \<le> N" "0 < k"
  shows "N * sz = length arr \<Longrightarrow> k \<le> i \<Longrightarrow> i \<le> n \<Longrightarrow> heap_but compare i k n (elems arr N sz) \<Longrightarrow>
    \<exists>arr'. heapify compare arr i n sz = Some arr' \<and> length arr' = length arr \<and> heap compare k n (elems arr' N sz)
      \<and> mset (take n (elems arr' N sz)) = mset (take n (elems arr N sz)) \<and> drop n (elems arr' N sz) = drop n (elems arr N sz)"
proof (induction "n - i" arbitrary: arr i rule: less_induct)
  case less
  let ?xs = "elems arr N sz"
  have i: "0 < i" using less.prems assms by simp
  obtain m where m: "max_child compare arr i n sz = Some m" "m = i \<or> child i m \<and> m \<le> n"
    "\<And>c. child i c \<Longrightarrow> c \<le> n \<Longrightarrow> compare (?xs ! (c - 1)) (?xs ! (m - 1)) \<le> 0" "compare (?xs ! (i - 1)) (?xs ! (m - 1)) \<le> 0"
    using max_child_ok[OF assms(1) less.prems(1) assms(2) i less.prems(3)] by blast
  show ?case
  proof (cases "m = i")
    case True
    then show ?thesis using m heap_but_done[OF less.prems(4)] by (simp add: heapify.simps[of compare arr i])
  next
    case False
    then have cm: "child i m" "m \<le> n" "i < m" using m(2) i by (auto simp: child_def)
    obtain arr1 where s: "do_swap arr i m sz = Some arr1" "length arr1 = length arr" "elems arr1 N sz = swp ?xs i m"
      by (rule do_swap_ok[OF less.prems(1), of i m]) (use i cm assms False in auto)
    have hb: "heap_but compare m k n (elems arr1 N sz)"
      unfolding s(3) by (rule heap_but_swp[OF less.prems(4) cm(1,2)]) (use assms less.prems m(3,4) in auto)
    have "\<exists>arr'. heapify compare arr1 m n sz = Some arr' \<and> length arr' = length arr1 \<and> heap compare k n (elems arr' N sz)
      \<and> mset (take n (elems arr' N sz)) = mset (take n (elems arr1 N sz)) \<and> drop n (elems arr' N sz) = drop n (elems arr1 N sz)"
      by (rule less.hyps) (use cm less.prems s(2) hb in auto)
    moreover have "mset (take n (elems arr1 N sz)) = mset (take n ?xs)" "drop n (elems arr1 N sz) = drop n ?xs"
      unfolding s(3) by (rule take_swp; use i cm less.prems assms in auto)+
    ultimately show ?thesis using m(1) False s by (simp add: heapify.simps[of compare arr i])
  qed
qed


section \<open>Sorting\<close>

lemma heap_start: "heap compare (Suc (cnt div 2)) cnt xs"
  by (auto simp: heap_def child_def)

lemma heap_but_start: "0 < i \<Longrightarrow> heap compare (Suc i) n xs \<Longrightarrow> heap_but compare i i n xs"
  by (auto simp: heap_def heap_but_def child_def)

lemma build_loop_ok:
  assumes st: "strcmp_type compare"
  shows "N * sz = length arr \<Longrightarrow> i \<le> N \<Longrightarrow> heap compare (Suc i) N (elems arr N sz) \<Longrightarrow>
    \<exists>arr'. build_loop compare arr N sz i = Some arr' \<and> length arr' = length arr \<and> heap compare 1 N (elems arr' N sz)
      \<and> mset (elems arr' N sz) = mset (elems arr N sz)"
proof (induction i arbitrary: arr)
  case (Suc i)
  obtain arr1 where h: "heapify compare arr (Suc i) N sz = Some arr1" "length arr1 = length arr" "heap compare (Suc i) N (elems arr1 N sz)"
    "mset (elems arr1 N sz) = mset (elems arr N sz)"
    using heapify_ok[OF st order_refl _ Suc.prems(1) order_refl Suc.prems(2) heap_but_start[OF _ Suc.prems(3)]] by auto
  then show ?case using Suc.IH[of arr1] Suc.prems by simp
qed auto

lemma heap_root:
  assumes "strcmp_type compare" "heap compare 1 n xs"
  shows "0 < j \<Longrightarrow> j \<le> n \<Longrightarrow> compare (xs ! (j - 1)) (xs ! 0) \<le> 0"
proof (induction j rule: less_induct)
  case (less j)
  show ?case
  proof (cases "j = 1")
    case True then show ?thesis using strcmp_type_refl[OF assms(1)] by simp
  next
    case False
    then have p: "0 < j div 2" "j div 2 < j" "child (j div 2) j" using less.prems by (auto simp: child_def)
    then have "compare (xs ! (j - 1)) (xs ! (j div 2 - 1)) \<le> 0" using assms(2) less.prems by (auto simp: heap_def)
    moreover have "compare (xs ! (j div 2 - 1)) (xs ! 0) \<le> 0" using less.IH p less.prems by simp
    ultimately show ?thesis by (rule strcmp_type_trans[OF assms(1)])
  qed
qed

text \<open>The first \<open>i\<close> elements are a heap, and the others are sorted and not smaller.\<close>

definition extracting :: "('a \<Rightarrow> 'a \<Rightarrow> int) \<Rightarrow> nat \<Rightarrow> 'a list \<Rightarrow> bool" where
  "extracting compare i xs \<longleftrightarrow> heap compare 1 i xs \<and> sorted_wrt (\<lambda>x y. compare x y \<le> 0) (drop i xs)
     \<and> (\<forall>x \<in> set (take i xs). \<forall>y \<in> set (drop i xs). compare x y \<le> 0)"

lemma extracting_swp:
  assumes st: "strcmp_type compare" and e: "extracting compare (Suc i) xs" "0 < i" "Suc i \<le> length xs"
  shows "heap_but compare 1 1 i (swp xs 1 (Suc i))" and "drop i (swp xs 1 (Suc i)) = xs ! 0 # drop (Suc i) xs"
    and "set (take i (swp xs 1 (Suc i))) \<subseteq> set (take (Suc i) xs)" and "\<forall>x \<in> set (take (Suc i) xs). compare x (xs ! 0) \<le> 0"
proof -
  show "heap_but compare 1 1 i (swp xs 1 (Suc i))"
    using e by (auto simp: heap_but_def extracting_def heap_def swp_def child_def nth_list_update)
  show d: "drop i (swp xs 1 (Suc i)) = xs ! 0 # drop (Suc i) xs"
    using e(2,3) by (simp add: swp_def Cons_nth_drop_Suc[symmetric])
  have "set (take i (swp xs 1 (Suc i))) \<subseteq> set (take (Suc i) (swp xs 1 (Suc i)))" by (rule set_take_subset_set_take) simp
  moreover have "mset (take (Suc i) (swp xs 1 (Suc i))) = mset (take (Suc i) xs)" by (rule take_swp) (use e in auto)
  ultimately show "set (take i (swp xs 1 (Suc i))) \<subseteq> set (take (Suc i) xs)" using mset_eq_setD by blast
  show "\<forall>x \<in> set (take (Suc i) xs). compare x (xs ! 0) \<le> 0"
  proof
    fix x assume "x \<in> set (take (Suc i) xs)"
    then obtain j where "j < Suc i" "x = xs ! j" using e(3) by (auto simp: in_set_conv_nth)
    then show "compare x (xs ! 0) \<le> 0" using heap_root[OF st, of "Suc i" xs "Suc j"] e(1) by (simp add: extracting_def)
  qed
qed

lemma extracting_step:
  assumes e: "extracting compare (Suc i) xs" "Suc i \<le> length xs" and h: "heap compare 1 i zs"
    and ys: "set ys \<subseteq> set (take (Suc i) xs)" "\<forall>x \<in> set (take (Suc i) xs). compare x (xs ! 0) \<le> 0"
    and zs: "mset (take i zs) = mset ys" "drop i zs = xs ! 0 # drop (Suc i) xs"
  shows "extracting compare i zs"
proof -
  have s: "set (take i zs) = set ys" using zs(1) by (rule mset_eq_setD)
  have "xs ! 0 \<in> set (take (Suc i) xs)" using e(2) by (metis Suc_le_lessD length_take in_set_conv_nth min.absorb2 nth_take zero_less_Suc)
  then show ?thesis using e(1) h ys unfolding extracting_def s zs(2) by auto
qed

lemma extract_loop_ok:
  assumes st: "strcmp_type compare"
  shows "N * sz = length arr \<Longrightarrow> i \<le> N \<Longrightarrow> extracting compare i (elems arr N sz) \<Longrightarrow>
    \<exists>arr'. extract_loop compare arr sz i = Some arr' \<and> length arr' = length arr \<and> extracting compare (min i 1) (elems arr' N sz)
      \<and> mset (elems arr' N sz) = mset (elems arr N sz)"
proof (induction i arbitrary: arr)
  case 0 then show ?case by (simp add: extract_loop.simps[of _ _ _ 0])
next
  case (Suc i)
  let ?xs = "elems arr N sz"
  show ?case
  proof (cases "i = 0")
    case True then show ?thesis using Suc.prems by (simp add: extract_loop.simps[of _ _ _ "Suc 0"])
  next
    case False
    then have i: "0 < i" "Suc i \<le> length ?xs" "i \<le> N" using Suc.prems by auto
    note sw = extracting_swp[OF st Suc.prems(3) i(1,2)]
    obtain arr1 where s: "do_swap arr 1 (Suc i) sz = Some arr1" "length arr1 = length arr" "elems arr1 N sz = swp ?xs 1 (Suc i)"
      by (rule do_swap_ok[OF Suc.prems(1), of 1 "Suc i"]) (use Suc.prems False in auto)
    obtain arr2 where h: "heapify compare arr1 1 i sz = Some arr2" "length arr2 = length arr1" "heap compare 1 i (elems arr2 N sz)"
      "mset (take i (elems arr2 N sz)) = mset (take i (elems arr1 N sz))" "drop i (elems arr2 N sz) = drop i (elems arr1 N sz)"
      using heapify_ok[OF st i(3), of 1 sz arr1 1] Suc.prems(1) s i(1) sw(1) by (auto simp: s(3))
    have "extracting compare i (elems arr2 N sz)"
      by (rule extracting_step[OF Suc.prems(3) i(2) h(3) sw(3,4)]) (use h(4,5) s(3) sw(2) in simp_all)
    then obtain arr' where r: "extract_loop compare arr2 sz i = Some arr'" "length arr' = length arr2"
      "extracting compare (min i 1) (elems arr' N sz)" "mset (elems arr' N sz) = mset (elems arr2 N sz)"
      using Suc.IH[of arr2] Suc.prems s(2) h(2) by auto
    have "mset (elems arr2 N sz) = mset (elems arr1 N sz)"
      using h(4,5) by (metis append_take_drop_id mset_append)
    moreover have "mset (elems arr1 N sz) = mset ?xs"
      using take_swp(1)[of 1 N "Suc i" ?xs] i Suc.prems(2) by (simp add: s(3))
    ultimately show ?thesis using r h(1,2) s(1,2) i(1) by (simp add: extract_loop.simps[of _ _ _ "Suc i"])
  qed
qed

lemma extracting_start: "heap compare 1 (length xs) xs \<Longrightarrow> extracting compare (length xs) xs"
  by (simp add: extracting_def)

lemma extracting_end: "extracting compare (min (length xs) 1) xs \<Longrightarrow> sorted_wrt (\<lambda>x y. compare x y \<le> 0) xs"
  by (cases xs) (auto simp: extracting_def min_def split: if_splits)

lemma sort_array_ok:
  assumes st: "strcmp_type compare" and l: "cnt * sz = length arr" "0 < sz"
  obtains arr' where "sort_array compare arr cnt sz = Some arr'" "length arr' = length arr"
    "mset (elems arr' cnt sz) = mset (elems arr cnt sz)" "sorted_wrt (\<lambda>x y. compare x y \<le> 0) (elems arr' cnt sz)"
proof -
  obtain arr1 where b: "build_loop compare arr cnt sz (cnt div 2) = Some arr1" "length arr1 = length arr" "heap compare 1 cnt (elems arr1 cnt sz)"
    "mset (elems arr1 cnt sz) = mset (elems arr cnt sz)"
    using build_loop_ok[OF st l(1) _ heap_start] by auto
  obtain arr2 where "extract_loop compare arr1 sz cnt = Some arr2" "length arr2 = length arr1" "extracting compare (min cnt 1) (elems arr2 cnt sz)"
    "mset (elems arr2 cnt sz) = mset (elems arr1 cnt sz)"
    using extract_loop_ok[OF st, of cnt sz arr1 cnt] l(1) b(2) extracting_start[of compare "elems arr1 cnt sz"] b(3) by auto
  then show ?thesis using that[of arr2] b l extracting_end[of compare "elems arr2 cnt sz"] by (simp add: sort_array_def assert_def)
qed

section \<open>Searching\<close>

definition keyed :: "(bytes \<Rightarrow> bytes \<Rightarrow> int) \<Rightarrow> bytes \<Rightarrow> bytes list \<Rightarrow> bool" where
  "keyed compare key xs \<longleftrightarrow> (\<forall>i j. i < j \<longrightarrow> j < length xs \<longrightarrow>
     (compare key (xs ! i) < 0 \<longrightarrow> compare key (xs ! j) < 0) \<and> (compare key (xs ! j) > 0 \<longrightarrow> compare key (xs ! i) > 0))"

lemma sorted_keyed: "strcmp_type compare \<Longrightarrow> sorted_wrt (\<lambda>x y. compare x y \<le> 0) xs \<Longrightarrow> keyed compare key xs"
  unfolding keyed_def sorted_wrt_iff_nth_less strcmp_type_def by (meson not_le)

lemma search_loop_ok:
  assumes k: "keyed compare key (elems arr cnt sz)" and l: "cnt * sz = length arr" "0 < sz"
  shows "f \<le> lst \<Longrightarrow> lst \<le> cnt \<Longrightarrow> \<forall>i < f. compare key (elems arr cnt sz ! i) > 0 \<Longrightarrow> \<forall>i. lst \<le> i \<longrightarrow> i < cnt \<longrightarrow> compare key (elems arr cnt sz ! i) < 0 \<Longrightarrow>
    case search_loop compare key arr sz (f * sz) (lst * sz) of None \<Rightarrow> False
    | Some None \<Rightarrow> \<forall>x \<in> set (elems arr cnt sz). compare key x \<noteq> 0
    | Some (Some p) \<Rightarrow> \<exists>i < cnt. p = i * sz \<and> compare key (elems arr cnt sz ! i) = 0"
proof (induction "lst - f" arbitrary: f lst rule: less_induct)
  case less
  let ?x = "\<lambda>i. elems arr cnt sz ! i"
  show ?case
  proof (cases "f < lst")
    case False
    then have "compare key (?x i) \<noteq> 0" if "i < cnt" for i using less.prems that by (metis less_irrefl not_le le_antisym)
    then have "\<forall>x \<in> set (elems arr cnt sz). compare key x \<noteq> 0" by (auto simp: in_set_conv_nth)
    moreover have "search_loop compare key arr sz (f * sz) (lst * sz) = Some None"
      by (subst search_loop.simps) (use False less.prems(1) in simp)
    ultimately show ?thesis by simp
  next
    case True
    define m where "m = f + (lst - f) div 2"
    have m: "f \<le> m" "m < lst" "m < cnt" using True less.prems by (auto simp: m_def)
    have e: "f * sz + (lst * sz - f * sz) div sz div 2 * sz = m * sz"
      using l(2) by (simp add: m_def diff_mult_distrib[symmetric] add_mult_distrib)
    have g: "m * sz + sz \<le> length arr" using elem_bound[OF m(3)] l(1) by simp
    have s: "search_loop compare key arr sz (f * sz) (lst * sz) =
        (if compare key (?x m) < 0 then search_loop compare key arr sz (f * sz) (m * sz)
         else if compare key (?x m) > 0 then search_loop compare key arr sz (Suc m * sz) (lst * sz) else Some (Some (m * sz)))"
      by (subst search_loop.simps) (simp only: e Let_def, use True l(2) g nth_elems[OF m(3)] in \<open>simp add: add.commute\<close>)
    consider "compare key (?x m) < 0" | "compare key (?x m) > 0" | "compare key (?x m) = 0" by linarith
    then show ?thesis
    proof cases
      case 1
      then have "\<forall>i. m \<le> i \<longrightarrow> i < cnt \<longrightarrow> compare key (?x i) < 0" using k by (metis keyed_def le_neq_implies_less length_elems)
      then show ?thesis using less.hyps[of m f] m less.prems 1 unfolding s by auto
    next
      case 2
      then have "\<forall>i < Suc m. compare key (?x i) > 0" using k m(3) by (metis keyed_def less_Suc_eq length_elems)
      then show ?thesis using less.hyps[of lst "Suc m"] m less.prems 2 unfolding s by auto
    next
      case 3 then show ?thesis using m unfolding s by auto
    qed
  qed
qed

section \<open>Numbers\<close>

definition decimal :: "char list \<Rightarrow> nat" where
  "decimal ds = foldl (\<lambda>n c. n * 10 + (of_char c - 48)) 0 ds"

lemma isdigit_of_char: "isdigit c \<Longrightarrow> int (of_char c) - 48 = int (of_char c - 48) \<and> (of_char c - 48 :: nat) \<le> 9"
  by (auto simp: isdigit_def)

lemma foldl_decimal_mono: "n \<le> foldl (\<lambda>n c. n * 10 + (of_char c - 48)) (n :: nat) ds"
proof (induction ds arbitrary: n)
  case (Cons d ds)
  have "n \<le> n * 10 + (of_char d - 48)" by simp
  also have "\<dots> \<le> foldl (\<lambda>n c. n * 10 + (of_char c - 48)) n (d # ds)" using Cons by simp
  finally show ?case .
qed simp

lemma digits_loop_ok:
  "list_all isdigit ds \<Longrightarrow> \<not> isdigit c \<Longrightarrow> n \<le> 2147483648 \<Longrightarrow> digits_loop (- int n) (ds @ c # s) =
     (let v = foldl (\<lambda>n c. n * 10 + (of_char c - 48)) n ds in if v \<le> 2147483648 then Some (- int v) else None)"
proof (induction ds arbitrary: n)
  case (Cons d ds)
  define k :: nat where "k = of_char d - 48"
  let ?n = "n * 10 + k"
  have d: "int (of_char d) - 48 = int k" "isdigit d" using Cons.prems(1) isdigit_of_char[of d] by (simp_all only: k_def list.pred_inject)
  have st: "digits_loop (- int n) ((d # ds) @ c # s) = do { w \<leftarrow> int32 (- int n * 10); w \<leftarrow> int32 (w - int k); digits_loop w (ds @ c # s) }"
    by (simp only: append_Cons digits_loop.simps d if_True)
  show ?case unfolding st foldl_Cons k_def[symmetric]
  proof (cases "?n \<le> 2147483648")
    case True
    have "int32 (- int n * 10) = Some (- int (n * 10))" "int32 (- int (n * 10) - int k) = Some (- int ?n)" using True by (simp_all add: int32_def)
    then show "do { w \<leftarrow> int32 (- int n * 10); w \<leftarrow> int32 (w - int k); digits_loop w (ds @ c # s) } =
      (let v = foldl (\<lambda>n c. n * 10 + (of_char c - 48)) ?n ds in if v \<le> 2147483648 then Some (- int v) else None)"
      using Cons.IH[of ?n] Cons.prems True by simp
  next
    case False
    then have "do { w \<leftarrow> int32 (- int n * 10); w \<leftarrow> int32 (w - int k); digits_loop w (ds @ c # s) } = None"
      by (cases "n * 10 \<le> 2147483648") (simp_all add: int32_def)
    moreover have "\<not> foldl (\<lambda>n c. n * 10 + (of_char c - 48)) ?n ds \<le> 2147483648" using False foldl_decimal_mono[of ?n ds] by linarith
    ultimately show "do { w \<leftarrow> int32 (- int n * 10); w \<leftarrow> int32 (w - int k); digits_loop w (ds @ c # s) } =
      (let v = foldl (\<lambda>n c. n * 10 + (of_char c - 48)) ?n ds in if v \<le> 2147483648 then Some (- int v) else None)"
      by (simp add: Let_def)
  qed
qed (simp add: Let_def)

lemma skip_space_ok: "list_all isspace sp \<Longrightarrow> \<not> isspace c \<Longrightarrow> skip_space (sp @ c # s) = Some (c # s)"
  by (induction sp) auto

section \<open>Properties\<close>

text \<open>C15. For every comparison whose sign orders the elements, \<^const>\<open>qsort\<close> of an array of \<open>cnt\<close> elements of \<open>sz\<close> bytes
  returns, stays inside the array, and leaves it with the same elements, as often as before, in
  non-descending order.
\<close>
theorem qsort_sorts:
  assumes "strcmp_type compare" "cnt * sz = length arr" "0 < sz"
  shows "\<exists>arr'. qsort compare arr cnt sz = Some arr' \<and> length arr' = length arr
    \<and> mset (elems arr' cnt sz) = mset (elems arr cnt sz) \<and> sorted_wrt (\<lambda>x y. compare x y \<le> 0) (elems arr' cnt sz)"
  using sort_array_ok[OF assms] by (metis qsort_def)

definition by_first :: "bytes \<Rightarrow> bytes \<Rightarrow> int" where
  "by_first x y = int (of_char (hd x)) - int (of_char (hd y))"

lemma strcmp_type_by_first: "strcmp_type by_first"
  by (auto simp: strcmp_type_def by_first_def)

theorem qsort_sorts_witness:
  "strcmp_type by_first \<and> 3 * 2 = length ''cxazbq'' \<and> (\<exists>arr'. qsort by_first ''cxazbq'' 3 2 = Some arr' \<and> length arr' = length ''cxazbq''
    \<and> mset (elems arr' 3 2) = mset (elems ''cxazbq'' 3 2) \<and> sorted_wrt (\<lambda>x y. by_first x y \<le> 0) (elems arr' 3 2))"
  using qsort_sorts[OF strcmp_type_by_first, of 3 2 "''cxazbq''"] strcmp_type_by_first by simp

text \<open>C29. On an array sorted according to the comparison, \<^const>\<open>bsearch\<close> always returns: the address of an element that
  compares equal to the key if there is one, and NULL only if there is none. It reads nothing outside the
  array.
\<close>
theorem bsearch_finds:
  assumes "strcmp_type compare" "cnt * sz = length arr" "0 < sz" "sorted_wrt (\<lambda>x y. compare x y \<le> 0) (elems arr cnt sz)"
  shows "case bsearch compare key arr cnt sz of None \<Rightarrow> False
    | Some None \<Rightarrow> \<forall>x \<in> set (elems arr cnt sz). compare key x \<noteq> 0
    | Some (Some p) \<Rightarrow> \<exists>i < cnt. p = i * sz \<and> compare key (elems arr cnt sz ! i) = 0"
  using search_loop_ok[OF sorted_keyed[OF assms(1,4)] assms(2,3), of 0 cnt key] by (simp add: bsearch_def binary_search_def mult.commute)

theorem bsearch_finds_witness:
  "strcmp_type by_first \<and> 3 * 2 = length ''azbqcx'' \<and> (case bsearch by_first ''b'' ''azbqcx'' 3 2 of None \<Rightarrow> False
    | Some None \<Rightarrow> \<forall>x \<in> set (elems ''azbqcx'' 3 2). by_first ''b'' x \<noteq> 0
    | Some (Some p) \<Rightarrow> \<exists>i < 3. p = i * 2 \<and> by_first ''b'' (elems ''azbqcx'' 3 2 ! i) = 0)"
proof -
  have "sorted_wrt (\<lambda>x y. by_first x y \<le> 0) (elems ''azbqcx'' 3 2)" by code_simp
  then show ?thesis using bsearch_finds[OF strcmp_type_by_first, of 3 2 "''azbqcx''" "''b''"] strcmp_type_by_first by simp
qed

text \<open>\<^const>\<open>atoi\<close> of optional white space, an optional sign, digits and something that is not a digit is the number
  written there whenever it fits an \<open>int\<close>, the smallest one included; a number that does not fit makes a
  signed operation overflow, which is undefined.
\<close>
theorem atoi_correct:
  assumes "list_all isspace sp" "sign \<in> {[], ''+'', ''-''}" "ds \<noteq> []" "list_all isdigit ds" "\<not> isdigit c"
  shows "atoi (sp @ sign @ ds @ c # s) =
    (let v = (if sign = ''-'' then - int (decimal ds) else int (decimal ds)) in
     if -2147483648 \<le> v \<and> v \<le> 2147483647 then Some v else None)"
proof -
  obtain d ds' where ds: "ds = d # ds'" "isdigit d" using assms(3,4) by (cases ds) auto
  have d: "\<not> isspace d" "d \<noteq> CHR ''+''" "d \<noteq> CHR ''-''" "\<not> isspace (CHR ''+'')" "\<not> isspace (CHR ''-'')"
    using ds(2) by (auto simp: isdigit_def isspace_def)
  have l: "digits_loop 0 (ds @ c # s) = (if decimal ds \<le> 2147483648 then Some (- int (decimal ds)) else None)"
    using digits_loop_ok[OF assms(4,5), of 0 s] by (simp add: decimal_def Let_def)
  have "skip_space (sp @ sign @ ds @ c # s) = Some (sign @ ds @ c # s)"
    using assms(1,2) d skip_space_ok[OF assms(1)] ds(1) by auto
  then have "atoi (sp @ sign @ ds @ c # s) = do { v \<leftarrow> digits_loop 0 (ds @ c # s); if sign \<noteq> ''-'' then int32 (- v) else Some v }"
    using assms(2) d ds(1) by (auto simp: atoi_def)
  then show ?thesis unfolding l by (auto simp: int32_def Let_def)
qed

theorem atoi_correct_witness:
  "atoi ('' '' @ ''-'' @ ''2147483648'' @ CHR 0x00 # []) =
    (let v = (if ''-'' = ''-'' then - int (decimal ''2147483648'') else int (decimal ''2147483648'')) in
     if -2147483648 \<le> v \<and> v \<le> 2147483647 then Some v else None) \<and> decimal ''2147483648'' = 2147483648"
  using atoi_correct[of "'' ''" "''-''" "''2147483648''" "CHR 0x00" "[]"] by (simp add: isspace_def isdigit_def decimal_def)

end
