(* ===== verification/Palloc.thy ===== *)
theory Palloc
  imports Bitmap
begin

text \<open>
  The page allocator of the kernel, \<^verbatim>\<open>threads/palloc.c\<close>, with the address arithmetic of \<^verbatim>\<open>threads/vaddr.h\<close>: two
  pools of pages, each with a bitmap of the pages in use. Addresses are 32-bit numbers, with the wrap-around
  written out. The bytes of the pages are \<open>ram\<close>; the pages that hold a pool's bitmap lie below its base and are
  the bitmap itself. A pool's lock makes the search for pages one step. A failed assertion and a panic are
  \<^term>\<open>None\<close>.

  From the start of the kernel on, whatever the sequence of calls, pages that are handed out never overlap
  and lie inside the memory of the machine, and a call that frees pages returns only if they were allocated.
\<close>

unbundle bit_operations_syntax

section \<open>Addresses\<close>

definition PGSIZE :: nat where
  "PGSIZE = 4096"

definition PHYS_BASE :: nat where
  "PHYS_BASE = 0xC0000000"

definition pg_ofs :: "nat \<Rightarrow> nat" where
  "pg_ofs va = va mod PGSIZE"

definition pg_no :: "nat \<Rightarrow> nat" where
  "pg_no va = va div PGSIZE"

definition ptov :: "nat \<Rightarrow> nat option" where
  "ptov paddr = do { assert (paddr < PHYS_BASE); Some (size_add paddr PHYS_BASE) }"

definition div_round_up :: "nat \<Rightarrow> nat \<Rightarrow> nat" where
  "div_round_up x step = (x + step - 1) div step"

section \<open>Operations\<close>

definition PAL_ASSERT :: "32 word" where
  "PAL_ASSERT = 1"

definition PAL_ZERO :: "32 word" where
  "PAL_ZERO = 2"

definition PAL_USER :: "32 word" where
  "PAL_USER = 4"

record pool =
  used_map :: bitmap
  pool_base :: nat

record palloc =
  kernel_pool :: pool
  user_pool :: pool
  ram :: "nat \<Rightarrow> char"

text \<open>A pointer to one of the two pools is whether it is the user pool.\<close>

definition pool_at :: "palloc \<Rightarrow> bool \<Rightarrow> pool" where
  "pool_at s user = (if user then user_pool s else kernel_pool s)"

definition set_used_map :: "palloc \<Rightarrow> bool \<Rightarrow> bitmap \<Rightarrow> palloc" where
  "set_used_map s user b =
     (if user then s\<lparr>user_pool := (user_pool s)\<lparr>used_map := b\<rparr>\<rparr> else s\<lparr>kernel_pool := (kernel_pool s)\<lparr>used_map := b\<rparr>\<rparr>)"

definition fill_ram :: "(nat \<Rightarrow> char) \<Rightarrow> nat \<Rightarrow> char \<Rightarrow> nat \<Rightarrow> nat \<Rightarrow> char" where
  "fill_ram r p v n = (\<lambda>a. if p \<le> a \<and> a < p + n then v else r a)"

text \<open>\<open>words\<close> is what the memory held before. The free memory has a negative size, which is undefined, only
  when the machine has less than 1 MB.\<close>

definition init_pool :: "(nat \<Rightarrow> 32 word) \<Rightarrow> nat \<Rightarrow> nat \<Rightarrow> pool option" where
  "init_pool words base page_cnt = do {
     let bm_pages = div_round_up (bitmap_buf_size page_cnt) PGSIZE;
     assert (\<not> bm_pages > page_cnt);
     let page_cnt = page_cnt - bm_pages;
     b \<leftarrow> bitmap_create_in_buf page_cnt (map (\<lambda>i. words (base + 4 * i)) [0..<bm_pages * PGSIZE div 4]) (bm_pages * PGSIZE);
     Some \<lparr>used_map = b, pool_base = size_add base (bm_pages * PGSIZE)\<rparr>
   }"

definition palloc_init :: "(nat \<Rightarrow> 32 word) \<Rightarrow> (nat \<Rightarrow> char) \<Rightarrow> nat \<Rightarrow> nat \<Rightarrow> palloc option" where
  "palloc_init words r init_ram_pages user_page_limit = do {
     free_start \<leftarrow> ptov (1024 * 1024);
     free_end \<leftarrow> ptov (init_ram_pages * PGSIZE mod 4294967296);
     assert (free_start \<le> free_end);
     let free_pages = (free_end - free_start) div PGSIZE;
     let user_pages = free_pages div 2;
     let user_pages = (if user_pages > user_page_limit then user_page_limit else user_pages);
     let kernel_pages = free_pages - user_pages;
     kp \<leftarrow> init_pool words free_start kernel_pages;
     up \<leftarrow> init_pool words (size_add free_start (kernel_pages * PGSIZE)) user_pages;
     Some \<lparr>kernel_pool = kp, user_pool = up, ram = r\<rparr>
   }"

definition palloc_get_multiple :: "32 word \<Rightarrow> nat \<Rightarrow> palloc \<Rightarrow> (nat \<times> palloc) option" where
  "palloc_get_multiple flags page_cnt s =
     (let user = (flags AND PAL_USER \<noteq> 0); pool = pool_at s user in
      if page_cnt = 0 then Some (0, s)
      else do {
        (page_idx, b) \<leftarrow> bitmap_scan_and_flip (used_map pool) 0 page_cnt False;
        let s = set_used_map s user b;
        let pages = (if page_idx \<noteq> BITMAP_ERROR then size_add (pool_base pool) (PGSIZE * page_idx) else 0);
        if pages \<noteq> 0
        then Some (pages, if flags AND PAL_ZERO \<noteq> 0 then s\<lparr>ram := fill_ram (ram s) pages (CHR 0x00) (PGSIZE * page_cnt)\<rparr> else s)
        else do { assert (flags AND PAL_ASSERT = 0); Some (0, s) }
      })"

definition palloc_get_page :: "32 word \<Rightarrow> palloc \<Rightarrow> (nat \<times> palloc) option" where
  "palloc_get_page flags s = palloc_get_multiple flags 1 s"

definition page_from_pool :: "pool \<Rightarrow> nat \<Rightarrow> bool" where
  "page_from_pool p page =
     (let page_no = pg_no page; start_page = pg_no (pool_base p); end_page = start_page + bitmap_size (used_map p) in
      page_no \<ge> start_page \<and> page_no < end_page)"

definition palloc_free_multiple :: "nat \<Rightarrow> nat \<Rightarrow> palloc \<Rightarrow> palloc option" where
  "palloc_free_multiple pages page_cnt s = do {
     assert (pg_ofs pages = 0);
     if pages = 0 \<or> page_cnt = 0 then Some s
     else do {
       user \<leftarrow> (if page_from_pool (pool_at s False) pages then Some False
               else if page_from_pool (pool_at s True) pages then Some True
               else None);
       let pool = pool_at s user;
       let page_idx = pg_no pages - pg_no (pool_base pool);
       let s = s\<lparr>ram := fill_ram (ram s) pages (CHR 0xCC) (PGSIZE * page_cnt)\<rparr>;
       a \<leftarrow> bitmap_all (used_map pool) page_idx page_cnt;
       assert a;
       b \<leftarrow> bitmap_set_multiple (used_map pool) page_idx page_cnt False;
       Some (set_used_map s user b)
     }
   }"

definition palloc_free_page :: "nat \<Rightarrow> palloc \<Rightarrow> palloc option" where
  "palloc_free_page page s = palloc_free_multiple page 1 s"

section \<open>Pools\<close>

text \<open>The pages of a pool by their numbers, and those that are in use.\<close>

definition pool_pages :: "pool \<Rightarrow> nat set" where
  "pool_pages p = {pg_no (pool_base p)..<pg_no (pool_base p) + bit_cnt (used_map p)}"

definition used_pool :: "pool \<Rightarrow> nat set" where
  "used_pool p = (+) (pg_no (pool_base p)) ` used_bits (used_map p)"

definition pool_ok :: "pool \<Rightarrow> bool" where
  "pool_ok p \<longleftrightarrow> bm_ok (used_map p) \<and> 0 < pool_base p \<and> pg_ofs (pool_base p) = 0 \<and> pool_base p + PGSIZE * bit_cnt (used_map p) < 4294967296"

text \<open>There is a page between the pools, because the bitmap of the user pool is there.\<close>

definition palloc_ok :: "palloc \<Rightarrow> bool" where
  "palloc_ok s \<longleftrightarrow> (\<forall>u. pool_ok (pool_at s u)) \<and>
     pg_no (pool_base (pool_at s False)) + bit_cnt (used_map (pool_at s False)) < pg_no (pool_base (pool_at s True))"

definition used_pages :: "palloc \<Rightarrow> nat set" where
  "used_pages s = used_pool (pool_at s False) \<union> used_pool (pool_at s True)"

lemma used_pool_pages: "used_pool p \<subseteq> pool_pages p"
  by (auto simp: used_pool_def pool_pages_def used_bits_def)

lemma pool_base_pg: "pool_ok p \<Longrightarrow> pool_base p = PGSIZE * pg_no (pool_base p) \<and> 0 < pg_no (pool_base p)"
  by (auto simp: pool_ok_def pg_ofs_def pg_no_def PGSIZE_def)

lemma shift_extent: "(+) b ` extent (i, n) = extent (b + i, n)"
  by (simp add: extent_def ac_simps)

lemma pool_pages_upd [simp]: "bit_cnt b = bit_cnt (used_map p) \<Longrightarrow> pool_pages (p\<lparr>used_map := b\<rparr>) = pool_pages p"
  by (simp add: pool_pages_def)

lemma pool_ok_upd [simp]: "pool_ok p \<Longrightarrow> bm_ok b \<Longrightarrow> bit_cnt b = bit_cnt (used_map p) \<Longrightarrow> pool_ok (p\<lparr>used_map := b\<rparr>)"
  by (simp add: pool_ok_def)

lemma scan_pool:
  assumes p: "pool_ok p"
  obtains b r where "bitmap_scan_and_flip (used_map p) 0 n False = Some (r, b)" "pool_ok (p\<lparr>used_map := b\<rparr>)" "bit_cnt b = bit_cnt (used_map p)"
    "if r = BITMAP_ERROR then used_pool (p\<lparr>used_map := b\<rparr>) = used_pool p
     else size_add (pool_base p) (PGSIZE * r) = PGSIZE * (pg_no (pool_base p) + r) \<and> extent (pg_no (pool_base p) + r, n) \<subseteq> pool_pages p
       \<and> extent (pg_no (pool_base p) + r, n) \<inter> used_pool p = {} \<and> used_pool (p\<lparr>used_map := b\<rparr>) = used_pool p \<union> extent (pg_no (pool_base p) + r, n)"
proof -
  let ?m = "used_map p" and ?g = "pg_no (pool_base p)"
  have ok: "bm_ok ?m" using p by (simp add: pool_ok_def)
  obtain x b where a: "bitmap_alloc ?m n = Some (x, b)" "bm_ok b" "bit_cnt b = bit_cnt ?m"
    "case x of None \<Rightarrow> used_bits b = used_bits ?m
     | Some i \<Rightarrow> i + n \<le> bit_cnt ?m \<and> extent (i, n) \<inter> used_bits ?m = {} \<and> used_bits b = used_bits ?m \<union> extent (i, n)"
    using bitmap_alloc_ok[OF ok, of n] by (force split: option.splits)
  obtain r where r: "bitmap_scan_and_flip ?m 0 n False = Some (r, b)" "x = (if r = BITMAP_ERROR then None else Some r)"
    using a(1) by (auto simp: bitmap_alloc_def)
  have "if r = BITMAP_ERROR then used_pool (p\<lparr>used_map := b\<rparr>) = used_pool p
     else size_add (pool_base p) (PGSIZE * r) = PGSIZE * (?g + r) \<and> extent (?g + r, n) \<subseteq> pool_pages p
       \<and> extent (?g + r, n) \<inter> used_pool p = {} \<and> used_pool (p\<lparr>used_map := b\<rparr>) = used_pool p \<union> extent (?g + r, n)"
  proof (cases "r = BITMAP_ERROR")
    case True
    then show ?thesis using a(4) r(2) by (simp add: used_pool_def)
  next
    case False
    then have f: "r + n \<le> bit_cnt ?m" "extent (r, n) \<inter> used_bits ?m = {}" "used_bits b = used_bits ?m \<union> extent (r, n)"
      using a(4) r(2) by auto
    have "PGSIZE * r \<le> PGSIZE * bit_cnt ?m" using f(1) by simp
    then have "size_add (pool_base p) (PGSIZE * r) = PGSIZE * ?g + PGSIZE * r"
      using p pool_base_pg[OF p] unfolding size_add_def pool_ok_def by (metis add_le_cancel_left le_less_trans mod_less)
    moreover have "extent (?g + r, n) \<subseteq> pool_pages p" using f(1) by (auto simp: extent_def pool_pages_def)
    moreover have "extent (?g + r, n) \<inter> used_pool p = {}" "used_pool (p\<lparr>used_map := b\<rparr>) = used_pool p \<union> extent (?g + r, n)"
      using f(2,3) by (auto simp: used_pool_def shift_extent[symmetric] image_Un)
    ultimately show ?thesis using False by (simp add: distrib_left)
  qed
  then show ?thesis using that r(1) a(2,3) p by simp
qed

lemma free_pool:
  assumes p: "pool_ok p" and e: "extent (i, n) \<subseteq> used_pool p" "0 < n"
  obtains b where "bitmap_all (used_map p) (i - pg_no (pool_base p)) n = Some True" "bitmap_set_multiple (used_map p) (i - pg_no (pool_base p)) n False = Some b"
    "pool_ok (p\<lparr>used_map := b\<rparr>)" "bit_cnt b = bit_cnt (used_map p)" "used_pool (p\<lparr>used_map := b\<rparr>) = used_pool p - extent (i, n)"
    "pg_no (pool_base p) \<le> i"
proof -
  let ?m = "used_map p" and ?g = "pg_no (pool_base p)"
  have "i \<in> used_pool p" using e by (auto simp: extent_def)
  then have g: "?g \<le> i" by (auto simp: used_pool_def)
  then have x: "extent (i, n) = (+) ?g ` extent (i - ?g, n)" by (simp add: shift_extent)
  then have u: "extent (i - ?g, n) \<subseteq> used_bits ?m" using e(1) by (auto simp: used_pool_def)
  have "i - ?g + n - 1 \<in> extent (i - ?g, n)" using e(2) by (simp add: extent_def)
  then have "i - ?g + n - 1 \<in> used_bits ?m" using u by blast
  then have l: "i - ?g + n \<le> bit_cnt ?m" using e(2) by (auto simp: used_bits_def)
  obtain b where b: "bitmap_release ?m (i - ?g) n = Some b" "bm_ok b" "bit_cnt b = bit_cnt ?m" "used_bits b = used_bits ?m - extent (i - ?g, n)"
    using bitmap_release_ok[OF _ l u] p by (auto simp: pool_ok_def)
  have "used_pool (p\<lparr>used_map := b\<rparr>) = used_pool p - extent (i, n)"
    unfolding x by (simp add: used_pool_def b(4) image_set_diff)
  moreover have "bitmap_all ?m (i - ?g) n = Some True" "bitmap_set_multiple ?m (i - ?g) n False = Some b"
    using b(1) by (auto simp: bitmap_release_def bind_eq_Some_conv assert_def split: if_splits)
  ultimately show ?thesis using that b p g by simp
qed


section \<open>The allocator\<close>

lemma pool_at_upd [simp]:
  "pool_at (set_used_map s u b) v = (if v = u then (pool_at s u)\<lparr>used_map := b\<rparr> else pool_at s v)" "pool_at (s\<lparr>ram := r\<rparr>) v = pool_at s v"
  by (auto simp: pool_at_def set_used_map_def)

lemma used_pages_ram [simp]: "used_pages (s\<lparr>ram := r\<rparr>) = used_pages s" "palloc_ok (s\<lparr>ram := r\<rparr>) = palloc_ok s"
  by (simp_all add: used_pages_def palloc_ok_def)

lemma palloc_ok_pool: "palloc_ok s \<Longrightarrow> pool_ok (pool_at s u)"
  by (simp add: palloc_ok_def)

lemma palloc_ok_set:
  "palloc_ok s \<Longrightarrow> pool_ok ((pool_at s u)\<lparr>used_map := b\<rparr>) \<Longrightarrow> bit_cnt b = bit_cnt (used_map (pool_at s u)) \<Longrightarrow>
   palloc_ok (set_used_map s u b)"
  by (cases u) (auto simp: palloc_ok_def)

lemma used_pages_pool: "used_pages s = used_pool (pool_at s u) \<union> used_pool (pool_at s (\<not> u))"
  by (cases u) (auto simp: used_pages_def)

lemma other_pool: "palloc_ok s \<Longrightarrow> pool_pages (pool_at s u) \<inter> used_pool (pool_at s (\<not> u)) = {}"
  using used_pool_pages[of "pool_at s (\<not> u)"] by (cases u) (auto simp: palloc_ok_def pool_pages_def)

lemma palloc_get_ok:
  assumes ok: "palloc_ok s" and n: "0 < n" and f: "flags AND PAL_ASSERT = 0"
  obtains p s' where "palloc_get_multiple flags n s = Some (p, s')" "palloc_ok s'" "\<forall>u. pool_pages (pool_at s' u) = pool_pages (pool_at s u)"
    "if p = 0 then used_pages s' = used_pages s
     else (\<exists>i. p = PGSIZE * i \<and> extent (i, n) \<inter> used_pages s = {} \<and> used_pages s' = used_pages s \<union> extent (i, n))"
proof -
  define u where "u \<longleftrightarrow> flags AND PAL_USER \<noteq> 0"
  let ?pl = "pool_at s u"
  let ?g = "pg_no (pool_base ?pl)"
  note pok = palloc_ok_pool[OF ok, of u]
  obtain b r where b: "bitmap_scan_and_flip (used_map ?pl) 0 n False = Some (r, b)" "pool_ok (?pl\<lparr>used_map := b\<rparr>)"
    "bit_cnt b = bit_cnt (used_map ?pl)"
    "if r = BITMAP_ERROR then used_pool (?pl\<lparr>used_map := b\<rparr>) = used_pool ?pl
     else size_add (pool_base ?pl) (PGSIZE * r) = PGSIZE * (?g + r) \<and> extent (?g + r, n) \<subseteq> pool_pages ?pl
       \<and> extent (?g + r, n) \<inter> used_pool ?pl = {} \<and> used_pool (?pl\<lparr>used_map := b\<rparr>) = used_pool ?pl \<union> extent (?g + r, n)"
    using scan_pool[OF pok, of n] by blast
  let ?s = "set_used_map s u b"
  have ok': "palloc_ok ?s" by (rule palloc_ok_set[OF ok b(2,3)])
  have used: "used_pages ?s = used_pool (?pl\<lparr>used_map := b\<rparr>) \<union> used_pool (pool_at s (\<not> u))" by (simp add: used_pages_pool[of _ u])
  show ?thesis
  proof (cases "r = BITMAP_ERROR")
    case True
    then have "palloc_get_multiple flags n s = Some (0, ?s)" using b(1) n f by (simp add: palloc_get_multiple_def u_def assert_def)
    then show ?thesis using that ok' used b(3,4) True by (simp add: used_pages_pool[of _ u])
  next
    case False
    then have e: "size_add (pool_base ?pl) (PGSIZE * r) = PGSIZE * (?g + r)" "extent (?g + r, n) \<subseteq> pool_pages ?pl" "extent (?g + r, n) \<inter> used_pool ?pl = {}"
      "used_pool (?pl\<lparr>used_map := b\<rparr>) = used_pool ?pl \<union> extent (?g + r, n)" using b(4) by simp_all
    have nz: "PGSIZE * (?g + r) \<noteq> 0" using pool_base_pg[OF pok] by (simp add: PGSIZE_def)
    obtain r' where g: "palloc_get_multiple flags n s = Some (PGSIZE * (?g + r), ?s\<lparr>ram := r'\<rparr>)"
    proof (cases "flags AND PAL_ZERO = 0")
      case True
      then have "palloc_get_multiple flags n s = Some (PGSIZE * (?g + r), ?s\<lparr>ram := ram ?s\<rparr>)"
        using b(1) n False e(1) nz unfolding palloc_get_multiple_def u_def Let_def by simp
      then show ?thesis by (rule that)
    next
      case z: False
      then show ?thesis using b(1) n False e(1) nz by (intro that[of "fill_ram (ram ?s) (PGSIZE * (?g + r)) (CHR 0x00) (PGSIZE * n)"])
        (unfold palloc_get_multiple_def u_def Let_def, simp)
    qed
    have "extent (?g + r, n) \<inter> used_pages s = {}" using e(2,3) other_pool[OF ok, of u] by (auto simp: used_pages_pool[of _ u])
    moreover have "used_pages ?s = used_pages s \<union> extent (?g + r, n)" using e(4) by (auto simp: used used_pages_pool[of s u])
    ultimately show ?thesis using nz ok' b(3) by (intro that[OF g]) auto
  qed
qed

lemma in_pool: "pool_ok p \<Longrightarrow> page_from_pool p (PGSIZE * i) \<longleftrightarrow> i \<in> pool_pages p"
  by (auto simp: page_from_pool_def pool_pages_def pg_no_def PGSIZE_def bitmap_size_def Let_def)

lemma extent_one_pool:
  assumes ok: "palloc_ok s" and e: "extent (i, n) \<subseteq> used_pages s" "0 < n"
  obtains u where "extent (i, n) \<subseteq> used_pool (pool_at s u)"
proof -
  let ?g = "pg_no (pool_base (pool_at s False)) + bit_cnt (used_map (pool_at s False))"
  have gap: "?g \<notin> used_pages s" "\<And>j. j \<in> used_pool (pool_at s False) \<Longrightarrow> j < ?g" "\<And>j. j \<in> used_pool (pool_at s True) \<Longrightarrow> ?g < j"
    using ok used_pool_pages[of "pool_at s False"] used_pool_pages[of "pool_at s True"] by (fastforce simp: palloc_ok_def used_pages_def pool_pages_def)+
  have "extent (i, n) \<subseteq> used_pool (pool_at s (?g < i))"
  proof
    fix j assume j: "j \<in> extent (i, n)"
    have "?g \<notin> extent (i, n)" using e gap(1) by blast
    then have "?g < i \<longleftrightarrow> ?g < j" using j by (auto simp: extent_def)
    moreover have "j \<in> used_pages s" using e(1) j by blast
    ultimately show "j \<in> used_pool (pool_at s (?g < i))" using gap(2,3)[of j] by (cases "?g < i") (auto simp: used_pages_def)
  qed
  then show ?thesis by (rule that)
qed

lemma palloc_free_ok:
  assumes ok: "palloc_ok s" and e: "extent (i, n) \<subseteq> used_pages s" "0 < n"
  obtains s' where "palloc_free_multiple (PGSIZE * i) n s = Some s'" "palloc_ok s'" "\<forall>u. pool_pages (pool_at s' u) = pool_pages (pool_at s u)"
    "used_pages s' = used_pages s - extent (i, n)"
proof -
  obtain u where u: "extent (i, n) \<subseteq> used_pool (pool_at s u)" by (rule extent_one_pool[OF ok e])
  let ?pl = "pool_at s u"
  note pok = palloc_ok_pool[OF ok, of u]
  obtain b where b: "bitmap_all (used_map ?pl) (i - pg_no (pool_base ?pl)) n = Some True" "bitmap_set_multiple (used_map ?pl) (i - pg_no (pool_base ?pl)) n False = Some b"
    "pool_ok (?pl\<lparr>used_map := b\<rparr>)" "bit_cnt b = bit_cnt (used_map ?pl)" "used_pool (?pl\<lparr>used_map := b\<rparr>) = used_pool ?pl - extent (i, n)"
    "pg_no (pool_base ?pl) \<le> i"
    by (rule free_pool[OF pok u e(2)])
  have "i \<in> extent (i, n)" using e(2) by (simp add: extent_def)
  then have i: "i \<in> pool_pages ?pl" using u used_pool_pages[of ?pl] by blast
  have pos: "i \<noteq> 0" using b(6) pool_base_pg[OF pok] by simp
  have no: "pg_no (PGSIZE * i) = i" "pg_ofs (PGSIZE * i) = 0" by (simp_all add: pg_no_def pg_ofs_def PGSIZE_def)
  have "u \<Longrightarrow> i \<notin> pool_pages (pool_at s False)" using ok i by (auto simp: palloc_ok_def pool_pages_def)
  then have fp: "(if page_from_pool (pool_at s False) (PGSIZE * i) then Some False else if page_from_pool (pool_at s True) (PGSIZE * i) then Some True else None) = Some u"
    using i by (cases u) (simp_all add: in_pool palloc_ok_pool[OF ok])
  let ?s = "set_used_map (s\<lparr>ram := fill_ram (ram s) (PGSIZE * i) (CHR 0xCC) (PGSIZE * n)\<rparr>) u b"
  have "palloc_free_multiple (PGSIZE * i) n s = Some ?s"
    using pos e(2) b(1,2) unfolding palloc_free_multiple_def fp by (simp add: assert_def no Let_def) (simp add: PGSIZE_def)
  moreover have "palloc_ok ?s" by (rule palloc_ok_set) (use ok b(3,4) in simp_all)
  moreover have "\<forall>v. pool_pages (pool_at ?s v) = pool_pages (pool_at s v)" using b(4) by simp
  moreover have "used_pages ?s = used_pages s - extent (i, n)"
    using b(5) u other_pool[OF ok, of u] used_pool_pages[of ?pl] by (auto simp: used_pages_pool[of _ u])
  ultimately show ?thesis by (rule that)
qed

text \<open>The bitmap of a pool fits in its first pages.\<close>

lemma init_pool_ok:
  assumes n: "0 < n" "n < 262144" and b: "pg_ofs base = 0" "0 < base" "base + PGSIZE * n < 4294967296"
  obtains p where "init_pool words base n = Some p" "pool_ok p" "used_pool p = {}" "base < pool_base p" "pool_base p + PGSIZE * bit_cnt (used_map p) = base + PGSIZE * n"
proof -
  define k where "k = div_round_up (bitmap_buf_size n) PGSIZE"
  have c: "elem_cnt n = (n + 31) div 32" "elem_cnt (n - k) = (n - k + 31) div 32"
    using n by (simp_all add: elem_cnt_def size_add_def ELEM_BITS_def)
  have sz: "bitmap_buf_size n = 8 + 4 * elem_cnt n" "bitmap_buf_size (n - k) = 8 + 4 * elem_cnt (n - k)"
    using n c by (simp_all add: bitmap_buf_size_def byte_cnt_def size_add_def)
  have k: "0 < k" "k \<le> n" "8 + 4 * elem_cnt n \<le> k * PGSIZE"
    using n unfolding k_def sz div_round_up_def PGSIZE_def c by auto
  have le: "elem_cnt (n - k) \<le> elem_cnt n" unfolding c by (simp add: div_le_mono)
  let ?b = "\<lparr>bit_cnt = n - k, bits = drop 2 (map (\<lambda>i. words (base + 4 * i)) [0..<k * PGSIZE div 4])\<rparr>"
  have "k * PGSIZE div 4 = 1024 * k" by (simp add: PGSIZE_def)
  moreover have "elem_cnt (n - k) \<le> 1024 * k - 2" using k(3) le unfolding PGSIZE_def by linarith
  ultimately have "bm_ok ?b" using n by (simp add: bm_ok_def)
  then obtain m where m: "bitmap_set_multiple ?b 0 (n - k) False = Some m" "bm_ok m" "bit_cnt m = n - k" "bools m = fill (bools ?b) 0 (n - k) False"
    using bitmap_set_multiple_ok[of ?b 0 "n - k" False] by auto
  have z: "bools m = replicate (n - k) False" using m(4) by (simp add: fill_def)
  have "PGSIZE * k \<le> PGSIZE * n" using k(2) by simp
  then have "base + PGSIZE * k < 4294967296" using b(3) by linarith
  then have add: "size_add base (k * PGSIZE) = base + PGSIZE * k" by (simp add: size_add_def mult.commute)
  have "init_pool words base n = Some \<lparr>used_map = m, pool_base = base + PGSIZE * k\<rparr>"
    using k le m(1) add unfolding init_pool_def k_def[symmetric] Let_def
    by (simp add: assert_def bitmap_create_in_buf_def bitmap_set_all_def bitmap_size_def sz)
  moreover have "base + PGSIZE * k + PGSIZE * (n - k) = base + PGSIZE * n" using k(2) by (simp add: distrib_left[symmetric])
  ultimately show ?thesis using b m(2,3) z k(1)
    by (intro that) (auto simp: pool_ok_def pg_ofs_def PGSIZE_def used_pool_def used_bits_def)
qed

lemma palloc_init_ok:
  assumes r: "258 \<le> init_ram_pages" "init_ram_pages < 262144" and l: "0 < user_page_limit"
  obtains s where "palloc_init words r init_ram_pages user_page_limit = Some s" "palloc_ok s" "used_pages s = {}"
    "\<forall>u. pool_pages (pool_at s u) \<subseteq> {0xC0100..<0xC0000 + init_ram_pages}"
proof -
  define fp where "fp = init_ram_pages - 256"
  define up where "up = (if fp div 2 > user_page_limit then user_page_limit else fp div 2)"
  have up: "0 < up" "up \<le> fp div 2" "fp < 262144 - 256" "0 < fp - up" using r l by (auto simp: up_def fp_def)
  let ?base = "0xC0100000 :: nat"
  obtain kp where kp: "init_pool words ?base (fp - up) = Some kp" "pool_ok kp" "used_pool kp = {}" "?base < pool_base kp"
    "pool_base kp + PGSIZE * bit_cnt (used_map kp) = ?base + PGSIZE * (fp - up)"
    by (rule init_pool_ok[of "fp - up" ?base words]) (use up in \<open>auto simp: pg_ofs_def PGSIZE_def\<close>)
  let ?ub = "?base + PGSIZE * (fp - up)"
  obtain u where u: "init_pool words ?ub up = Some u" "pool_ok u" "used_pool u = {}" "?ub < pool_base u"
    "pool_base u + PGSIZE * bit_cnt (used_map u) = ?ub + PGSIZE * up"
    by (rule init_pool_ok[of up ?ub words]) (use up in \<open>auto simp: pg_ofs_def PGSIZE_def\<close>)
  have fs: "ptov (1024 * 1024) = Some ?base" "ptov (init_ram_pages * PGSIZE mod 4294967296) = Some (0xC0000000 + PGSIZE * init_ram_pages)"
    using r(2) by (simp_all add: ptov_def assert_def PHYS_BASE_def size_add_def PGSIZE_def)
  have fr: "(0xC0000000 + PGSIZE * init_ram_pages - ?base) div PGSIZE = fp" "?base \<le> 0xC0000000 + PGSIZE * init_ram_pages"
    using r(1) by (auto simp: PGSIZE_def fp_def)
  have ub: "size_add ?base ((fp - up) * PGSIZE) = ?ub" using up(3) by (simp add: size_add_def PGSIZE_def)
  let ?s = "\<lparr>kernel_pool = kp, user_pool = u, ram = r\<rparr>"
  have s: "palloc_init words r init_ram_pages user_page_limit = Some ?s"
    unfolding palloc_init_def fs bind.bind_lunit Let_def fr(1) up_def[symmetric] ub using kp(1) u(1) fr(2) by (simp add: assert_def)
  have n: "pool_base kp = PGSIZE * pg_no (pool_base kp)" "pool_base u = PGSIZE * pg_no (pool_base u)"
    using pool_base_pg kp(2) u(2) by blast+
  have a: "pool_at ?s False = kp" "pool_at ?s True = u" by (simp_all add: pool_at_def)
  have "palloc_ok ?s" using kp(2,5) u(2,4) n by (auto simp: palloc_ok_def all_bool_eq a PGSIZE_def)
  moreover have "used_pages ?s = {}" using kp(3) u(3) by (simp add: used_pages_def a)
  moreover have "\<forall>x. pool_pages (pool_at ?s x) \<subseteq> {0xC0100..<0xC0000 + init_ram_pages}"
    using kp(4,5) u(4,5) n up r(1) by (auto simp: all_bool_eq a pool_pages_def PGSIZE_def fp_def)
  ultimately show ?thesis using s that by blast
qed

section \<open>Sequences of calls\<close>

lemma extent_run_append:
  "extent_run alloc release (cs @ ds) live s = do { (live, s) \<leftarrow> extent_run alloc release cs live s; extent_run alloc release ds live s }"
  by (induction cs live s rule: extent_run.induct[of _ alloc release]) (auto split: bind_splits)

text \<open>An allocator that gives up on some requests behaves like one that does not, up to the first such request.\<close>

context extent_alloc
begin

lemma run_or_refuse:
  assumes "ok s" "\<forall>n. Alloc n \<in> set cs \<longrightarrow> 0 < n" "used s = {}"
    and strict: "\<And>s n. ok s \<Longrightarrow> strict s n = alloc s n \<or> strict s n = None \<and> refused s n"
  shows "extent_run strict release cs [] s = extent_run alloc release cs [] s \<or>
    extent_run strict release cs [] s = None \<and>
      (\<exists>as n bs live s1. cs = as @ Alloc n # bs \<and> extent_run strict release as [] s = Some (live, s1) \<and> refused s1 n)"
  using assms(2)
proof (induction cs rule: rev_induct)
  case (snoc c cs)
  then have pos: "\<forall>n. Alloc n \<in> set cs \<longrightarrow> 0 < n" by simp
  show ?case using snoc.IH[OF pos]
  proof (elim disjE conjE exE)
    assume eq: "extent_run strict release cs [] s = extent_run alloc release cs [] s"
    obtain live s1 where r: "extent_run alloc release cs [] s = Some (live, s1)" "ok s1"
      using run_apart[OF assms(1), of "[]" "{}" cs] assms(3) pos by auto
    show ?thesis
    proof (cases c)
      case (Alloc n)
      have "extent_run strict release (cs @ [c]) [] s = extent_run alloc release (cs @ [c]) [] s" if "strict s1 n = alloc s1 n"
        using that eq r(1) Alloc by (cases "alloc s1 n") (auto simp: extent_run_append)
      moreover have "extent_run strict release (cs @ [c]) [] s = None" if "strict s1 n = None"
        using that eq r(1) Alloc by (simp add: extent_run_append)
      ultimately show ?thesis using strict[OF r(2), of n] eq r(1) Alloc by auto
    next
      case (Free k)
      have "extent_run strict release [Free k] live s1 = extent_run alloc release [Free k] live s1"
        by (cases "release s1 (fst (live ! k)) (snd (live ! k))") auto
      then show ?thesis using eq r(1) Free by (simp only: extent_run_append) simp
    qed
  next
    fix as n bs live s1
    assume *: "extent_run strict release cs [] s = None" "cs = as @ Alloc n # bs" "extent_run strict release as [] s = Some (live, s1)" "refused s1 n"
    have "extent_run strict release (cs @ [c]) [] s = None" unfolding extent_run_append *(1) by simp
    moreover have "cs @ [c] = as @ Alloc n # (bs @ [c])" using *(2) by simp
    ultimately show ?thesis using *(3,4) by blast
  qed
qed simp

end

text \<open>The \<open>k\<close>-th allocation has the flags \<open>flags k\<close>; ranges of pages are named by the number of their first page.\<close>

definition page_alloc :: "(nat \<Rightarrow> 32 word) \<Rightarrow> palloc \<times> nat \<Rightarrow> nat \<Rightarrow> (nat option \<times> palloc \<times> nat) option" where
  "page_alloc flags x n = map_option (\<lambda>(p, s). (if p = 0 then None else Some (pg_no p), s, Suc (snd x))) (palloc_get_multiple (flags (snd x)) n (fst x))"

definition page_release :: "palloc \<times> nat \<Rightarrow> nat \<Rightarrow> nat \<Rightarrow> (palloc \<times> nat) option" where
  "page_release x i n = map_option (\<lambda>s. (s, snd x)) (palloc_free_multiple (PGSIZE * i) n (fst x))"

text \<open>The same flags without \<^const>\<open>PAL_ASSERT\<close>, and a request that finds no free pages in a row in its pool and has the flag.\<close>

definition calm :: "32 word \<Rightarrow> 32 word" where
  "calm flags = flags AND NOT PAL_ASSERT"

definition request_pool :: "palloc \<Rightarrow> 32 word \<Rightarrow> pool" where
  "request_pool s flags = pool_at s (flags AND PAL_USER \<noteq> 0)"

definition refused :: "(nat \<Rightarrow> 32 word) \<Rightarrow> palloc \<times> nat \<Rightarrow> nat \<Rightarrow> bool" where
  "refused flags x n \<longleftrightarrow> (let f = flags (snd x); p = request_pool (fst x) f in
     f AND PAL_ASSERT \<noteq> 0 \<and> \<not> (\<exists>i. extent (i, n) \<subseteq> pool_pages p - used_pool p))"

lemma calm_flags: "calm f AND PAL_ASSERT = 0" "calm f AND PAL_USER = f AND PAL_USER" "calm f AND PAL_ZERO = f AND PAL_ZERO"
  by (simp_all add: calm_def PAL_ASSERT_def PAL_USER_def PAL_ZERO_def and.assoc)

definition no_panic :: "nat set \<Rightarrow> (nat \<Rightarrow> 32 word) \<Rightarrow> palloc \<times> nat \<Rightarrow> bool" where
  "no_panic A flags x \<longleftrightarrow> palloc_ok (fst x) \<and> (\<forall>u. pool_pages (pool_at (fst x) u) \<subseteq> A) \<and> (\<forall>k. flags k AND PAL_ASSERT = 0)"

lemma palloc_get_none: "palloc_get_multiple flags 0 s = Some (0, s)"
  by (simp add: palloc_get_multiple_def Let_def)

interpretation pa: extent_alloc "no_panic A flags" "\<lambda>x. used_pages (fst x)" "page_alloc flags" page_release for A flags
proof unfold_locales
  fix x n
  assume a: "no_panic A flags x"
  show "\<exists>r x'. page_alloc flags x n = Some (r, x') \<and> no_panic A flags x' \<and>
    (case r of None \<Rightarrow> used_pages (fst x') = used_pages (fst x)
     | Some i \<Rightarrow> extent (i, n) \<inter> used_pages (fst x) = {} \<and> used_pages (fst x') = used_pages (fst x) \<union> extent (i, n))"
  proof (cases "n = 0")
    case True
    then show ?thesis using a by (simp add: page_alloc_def palloc_get_none no_panic_def)
  next
    case False
    have ok: "palloc_ok (fst x)" "flags (snd x) AND PAL_ASSERT = 0" using a by (simp_all add: no_panic_def)
    obtain p s' where p: "palloc_get_multiple (flags (snd x)) n (fst x) = Some (p, s')" "palloc_ok s'" "\<forall>u. pool_pages (pool_at s' u) = pool_pages (pool_at (fst x) u)"
      "if p = 0 then used_pages s' = used_pages (fst x)
       else (\<exists>i. p = PGSIZE * i \<and> extent (i, n) \<inter> used_pages (fst x) = {} \<and> used_pages s' = used_pages (fst x) \<union> extent (i, n))"
      by (rule palloc_get_ok[OF ok(1) _ ok(2), of n]) (use False in auto)
    have no: "pg_no (PGSIZE * i) = i" for i by (simp add: pg_no_def PGSIZE_def)
    show ?thesis using p a by (cases "p = 0") (auto simp: page_alloc_def no_panic_def no)
  qed
next
  fix x :: "palloc \<times> nat" and n i
  assume a: "no_panic A flags x" "0 < n" "extent (i, n) \<subseteq> used_pages (fst x)"
  then have "palloc_ok (fst x)" by (simp add: no_panic_def)
  then obtain s' where "palloc_free_multiple (PGSIZE * i) n (fst x) = Some s'" "palloc_ok s'" "\<forall>u. pool_pages (pool_at s' u) = pool_pages (pool_at (fst x) u)"
    "used_pages s' = used_pages (fst x) - extent (i, n)" by (rule palloc_free_ok[OF _ a(3,2)])
  then show "\<exists>x'. page_release x i n = Some x' \<and> no_panic A flags x' \<and> used_pages (fst x') = used_pages (fst x) - extent (i, n)"
    using a(1) by (simp add: page_release_def no_panic_def)
qed

lemma no_panic_used: "no_panic A flags x \<Longrightarrow> used_pages (fst x) \<subseteq> A"
  using used_pool_pages by (fastforce simp: used_pages_def no_panic_def)

lemma bitmap_all_used:
  assumes "bm_ok b" "bitmap_all b i n = Some True" "i + n \<le> 4294967264"
  shows "extent (i, n) \<subseteq> used_bits b"
proof -
  have l: "i + n \<le> bit_cnt b"
    using assms(2,3) by (auto simp: bitmap_all_def bitmap_contains_def assert_def size_add_def split: if_splits)
  then have "(\<not> True) \<notin> set (seg (bools b) i n)" using assms(2) bitmap_contains_ok[OF assms(1) l, of False] by (simp add: bitmap_all_def)
  then show ?thesis using l seg_const[of i n "bools b" True] seg_eq_replicate[of i n "bools b" True]
    by (auto simp: used_bits_def extent_def)
qed

lemma scan_full:
  assumes "pool_ok p" "bitmap_scan_and_flip (used_map p) 0 n False = Some (BITMAP_ERROR, b)" "0 < n"
  shows "\<not> (\<exists>i. extent (i, n) \<subseteq> pool_pages p - used_pool p)"
proof
  let ?g = "pg_no (pool_base p)" and ?m = "used_map p"
  have ok: "bm_ok ?m" using assms(1) by (simp add: pool_ok_def)
  have none: "first_fit (bools ?m) 0 n False = None"
  proof (rule ccontr)
    assume "first_fit (bools ?m) 0 n False \<noteq> None"
    then obtain i where i: "first_fit (bools ?m) 0 n False = Some i" by blast
    then have "BITMAP_ERROR + n \<le> bit_cnt ?m" using bitmap_scan_and_flip_ok[OF ok, of 0 n False] first_fit_Some(2)[OF i] assms(2) by auto
    then show False using ok by (simp add: bm_ok_def BITMAP_ERROR_def)
  qed
  assume "\<exists>i. extent (i, n) \<subseteq> pool_pages p - used_pool p"
  then obtain i where i: "extent (i, n) \<subseteq> pool_pages p - used_pool p" by blast
  have "i \<in> extent (i, n)" "i + n - 1 \<in> extent (i, n)" using assms(3) by (auto simp: extent_def)
  then have "i \<in> pool_pages p" "i + n - 1 \<in> pool_pages p" using i by blast+
  then have b: "?g \<le> i" "i - ?g + n \<le> bit_cnt ?m" using assms(3) by (auto simp: pool_pages_def)
  have "extent (i - ?g, n) \<inter> used_bits ?m = {}" using i b(1) shift_extent[of ?g "i - ?g" n] by (auto simp: used_pool_def)
  then show False using none b(2) by (auto simp: first_fit_used)
qed

lemma page_alloc_calm:
  assumes "palloc_ok (fst x)"
  shows "page_alloc flags x n = page_alloc (calm \<circ> flags) x n \<or> page_alloc flags x n = None \<and> refused flags x n"
proof (cases "n = 0")
  case True
  then show ?thesis by (simp add: page_alloc_def palloc_get_none)
next
  case False
  let ?f = "flags (snd x)" and ?p = "request_pool (fst x) (flags (snd x))"
  have p: "pool_ok ?p" using palloc_ok_pool[OF assms] by (simp add: request_pool_def)
  obtain b r where b: "bitmap_scan_and_flip (used_map ?p) 0 n False = Some (r, b)" by (rule scan_pool[OF p])
  show ?thesis
  proof (cases "?f AND PAL_ASSERT \<noteq> 0 \<and> r = BITMAP_ERROR")
    case True
    then show ?thesis using scan_full[OF p] b False
      by (simp add: page_alloc_def palloc_get_multiple_def request_pool_def refused_def assert_def Let_def)
  next
    case c: False
    have "size_add (pool_base ?p) (PGSIZE * r) \<noteq> 0" if "r \<noteq> BITMAP_ERROR"
      using that scan_pool[OF p, of n] b pool_base_pg[OF p] by (fastforce simp: PGSIZE_def)
    then have "palloc_get_multiple ?f n (fst x) = palloc_get_multiple (calm ?f) n (fst x)" using b False c
      by (auto simp: palloc_get_multiple_def request_pool_def calm_flags assert_def Let_def)
    then show ?thesis by (simp add: page_alloc_def)
  qed
qed

lemma palloc_init_no_user:
  assumes "258 \<le> init_ram_pages" "init_ram_pages < 262144"
  shows "palloc_init words r init_ram_pages 0 = None"
proof -
  have "bitmap_buf_size 0 = 8" by (simp add: bitmap_buf_size_def byte_cnt_def elem_cnt_def size_add_def ELEM_BITS_def)
  then have "init_pool words base 0 = None" for base by (simp add: init_pool_def div_round_up_def PGSIZE_def assert_def)
  then show ?thesis by (simp add: palloc_init_def Let_def bind_eq_None_conv)
qed

section \<open>Properties\<close>

text \<open>C14. Take a kernel on a machine with less than 1 GB of memory and at least two pages of it above 1 MB. When the user
  pool is limited to no pages, the allocator panics as it starts. Otherwise it starts; and however it
  then allocates and frees non-empty groups of pages, from both pools and with any flags, the groups that are handed out and
  not yet freed never overlap, and they lie in the memory between 1 MB and its end. The only call that can
  stop the kernel is a request with \<^verbatim>\<open>PAL_ASSERT\<close> for more pages in a row than its pool has free.
\<close>
theorem palloc_disjoint:
  assumes "258 \<le> init_ram_pages" "init_ram_pages < 262144" "\<forall>n. Alloc n \<in> set cs \<longrightarrow> 0 < n"
  shows "if user_page_limit = 0 then palloc_init words r init_ram_pages user_page_limit = None
    else \<exists>s. palloc_init words r init_ram_pages user_page_limit = Some s \<and>
      (case extent_run (page_alloc flags) page_release cs [] (s, 0) of
         None \<Rightarrow> \<exists>as n bs live x. cs = as @ Alloc n # bs \<and> extent_run (page_alloc flags) page_release as [] (s, 0) = Some (live, x) \<and> refused flags x n
       | Some (live, x) \<Rightarrow> apart live \<and> used_pages (fst x) = extents live \<and> extents live \<subseteq> {0xC0100..<0xC0000 + init_ram_pages})"
proof (cases "user_page_limit = 0")
  case True
  then show ?thesis using palloc_init_no_user[OF assms(1,2)] by simp
next
  case False
  let ?A = "{0xC0100..<0xC0000 + init_ram_pages}" and ?q = "calm \<circ> flags"
  obtain s where s: "palloc_init words r init_ram_pages user_page_limit = Some s" "palloc_ok s" "used_pages s = {}"
    "\<forall>u. pool_pages (pool_at s u) \<subseteq> ?A" using palloc_init_ok[OF assms(1,2), of user_page_limit words r] False by blast
  have np: "no_panic ?A ?q (s, 0)" using s(2,4) by (simp add: no_panic_def calm_flags)
  from pa.run_apart[OF this, of "[]" "{}" cs] s(3) assms(3)
  obtain live x where run: "extent_run (page_alloc ?q) page_release cs [] (s, 0) = Some (live, x)" "no_panic ?A ?q x" "apart live"
    "used_pages (fst x) = extents live" by auto
  have sub: "extents live \<subseteq> ?A" using no_panic_used[OF run(2)] run(4) by simp
  have st: "page_alloc flags x n = page_alloc ?q x n \<or> page_alloc flags x n = None \<and> refused flags x n" if "no_panic ?A ?q x" for x n
    using page_alloc_calm that by (simp add: no_panic_def)
  have "extent_run (page_alloc flags) page_release cs [] (s, 0) = extent_run (page_alloc ?q) page_release cs [] (s, 0) \<or>
    extent_run (page_alloc flags) page_release cs [] (s, 0) = None \<and>
      (\<exists>as n bs live x. cs = as @ Alloc n # bs \<and> extent_run (page_alloc flags) page_release as [] (s, 0) = Some (live, x) \<and> refused flags x n)"
    by (rule pa.run_or_refuse[OF np assms(3) _ st]) (use s(3) in simp_all)
  then show ?thesis
  proof
    assume "extent_run (page_alloc flags) page_release cs [] (s, 0) = extent_run (page_alloc ?q) page_release cs [] (s, 0)"
    then show ?thesis using run sub s(1) False by simp
  next
    assume *: "extent_run (page_alloc flags) page_release cs [] (s, 0) = None \<and>
      (\<exists>as n bs live x. cs = as @ Alloc n # bs \<and> extent_run (page_alloc flags) page_release as [] (s, 0) = Some (live, x) \<and> refused flags x n)"
    show ?thesis unfolding if_not_P[OF False] by (intro exI[of _ s] conjI s(1)) (use * in \<open>simp only: option.case\<close>)
  qed
qed

theorem palloc_disjoint_witness:
  "\<exists>s live s'. palloc_init (\<lambda>_. 7) (\<lambda>_. CHR ''x'') 1024 512 = Some s \<and>
    extent_run (page_alloc (\<lambda>k. if even k then PAL_USER else PAL_ZERO)) page_release [Alloc 2, Alloc 3, Free 0, Alloc 1] [] (s, 0) = Some (live, s') \<and>
    apart live \<and> used_pages (fst s') = extents live \<and> extents live \<subseteq> {0xC0100..<0xC0000 + 1024}"
  (is "\<exists>s live s'. ?i = Some s \<and> extent_run ?a _ ?cs _ _ = _ \<and> _")
proof -
  have "\<not> refused (\<lambda>k. if even k then PAL_USER else PAL_ZERO) x n" for x n
    by (simp add: refused_def PAL_USER_def PAL_ZERO_def PAL_ASSERT_def)
  then show ?thesis using palloc_disjoint[of 1024 ?cs 512 "\<lambda>_. 7" "\<lambda>_. CHR ''x''" "\<lambda>k. if even k then PAL_USER else PAL_ZERO"]
    by (auto split: option.splits)
qed

text \<open>Freeing is checked: when a call of \<^const>\<open>palloc_free_multiple\<close> returns, then all its pages were allocated and
  exactly these are free afterwards. Freeing pages twice, or pages of no pool, fails an assertion.
\<close>
theorem palloc_free_checked:
  assumes "palloc_ok s" "palloc_free_multiple pages n s = Some s'" "pages \<noteq> 0" "0 < n" "pages + PGSIZE * n \<le> 4294967296"
  shows "extent (pg_no pages, n) \<subseteq> used_pages s \<and> palloc_ok s' \<and> used_pages s' = used_pages s - extent (pg_no pages, n)"
proof -
  have al: "pages = PGSIZE * pg_no pages" using assms(2) by (auto simp: palloc_free_multiple_def pg_ofs_def pg_no_def PGSIZE_def assert_def split: if_splits)
  obtain u where u: "page_from_pool (pool_at s u) pages" "bitmap_all (used_map (pool_at s u)) (pg_no pages - pg_no (pool_base (pool_at s u))) n = Some True"
    using assms(2-4) by (auto simp: palloc_free_multiple_def assert_def bind_eq_Some_conv Let_def split: if_splits)
  let ?p = "pool_at s u"
  have g: "pg_no (pool_base ?p) \<le> pg_no pages" using u(1) by (simp add: page_from_pool_def Let_def)
  have "pg_no pages + n \<le> 1048576" using assms(5) al by (simp add: PGSIZE_def)
  then have "extent (pg_no pages - pg_no (pool_base ?p), n) \<subseteq> used_bits (used_map ?p)"
    by (intro bitmap_all_used[OF _ u(2)]) (use palloc_ok_pool[OF assms(1), of u] in \<open>auto simp: pool_ok_def\<close>)
  then have "(+) (pg_no (pool_base ?p)) ` extent (pg_no pages - pg_no (pool_base ?p), n) \<subseteq> used_pool ?p" unfolding used_pool_def by (rule image_mono)
  then have e: "extent (pg_no pages, n) \<subseteq> used_pages s" using g by (auto simp: shift_extent used_pages_pool[of s u])
  obtain s1 where "palloc_free_multiple (PGSIZE * pg_no pages) n s = Some s1" "palloc_ok s1" "used_pages s1 = used_pages s - extent (pg_no pages, n)"
    by (rule palloc_free_ok[OF assms(1) e assms(4)])
  then show ?thesis using e assms(2) al by simp
qed

definition two_pools :: palloc where
  "two_pools = \<lparr>kernel_pool = \<lparr>used_map = \<lparr>bit_cnt = 8, bits = [6]\<rparr>, pool_base = 0xC0101000\<rparr>,
     user_pool = \<lparr>used_map = \<lparr>bit_cnt = 8, bits = [0]\<rparr>, pool_base = 0xC010A000\<rparr>, ram = (\<lambda>_. CHR ''x'')\<rparr>"

lemma two_pools_ok: "palloc_ok two_pools" "used_pages two_pools = {0xC0102, 0xC0103}"
proof -
  show "palloc_ok two_pools"
    by (simp add: palloc_ok_def two_pools_def pool_at_def pool_ok_def bm_ok_def elem_cnt_def size_add_def ELEM_BITS_def pg_ofs_def pg_no_def PGSIZE_def)
  have "used_bits \<lparr>bit_cnt = 8, bits = [6]\<rparr> = set (filter (\<lambda>i. bit (6 :: 32 word) i) [0..<8])"
    "used_bits \<lparr>bit_cnt = 8, bits = [0]\<rparr> = {}"
    by (auto simp: used_bits_def nth_bools)
  moreover have "set (filter (\<lambda>i. bit (6 :: 32 word) i) [0..<8]) = {1, 2}" by code_simp
  ultimately show "used_pages two_pools = {0xC0102, 0xC0103}"
    by (simp add: used_pages_def used_pool_def two_pools_def pool_at_def pg_no_def PGSIZE_def)
qed

theorem palloc_free_checked_witness:
  "\<exists>s'. palloc_free_multiple 0xC0102000 2 two_pools = Some s' \<and> palloc_ok s' \<and> used_pages s' = used_pages two_pools - extent (pg_no 0xC0102000, 2)"
proof -
  have "extent (0xC0102, 2) \<subseteq> used_pages two_pools" by (auto simp: two_pools_ok extent_def)
  then obtain s' where s': "palloc_free_multiple (PGSIZE * 0xC0102) 2 two_pools = Some s'" by (rule palloc_free_ok[OF two_pools_ok(1)]) simp
  then have "palloc_free_multiple 0xC0102000 2 two_pools = Some s'" by (simp add: PGSIZE_def)
  from palloc_free_checked[OF two_pools_ok(1) this] this show ?thesis by (simp add: PGSIZE_def)
qed

end
