(* ===== verification/FixedPoint.thy ===== *)
theory FixedPoint
  imports FsInode "HOL-Library.Signed_Division" Complex_Main
begin

text \<open>
  The fixed-point numbers of the scheduler, \<^verbatim>\<open>threads/fixed-point.h\<close>: a number is an \<open>int\<close> of 32 bits that counts
  units of 1/65536. An operation is \<^term>\<open>None\<close> when an assertion fails, when a signed 32-bit operation overflows, and for
  a division by zero. The operations that compute with 64 bits cut their result to 32 bits, as the compiler
  does for a conversion to \<open>int\<close>.
\<close>

section \<open>Operations\<close>

definition FIX_F :: int where
  "FIX_F = 65536"

definition FIX_MAX_INT :: int where
  "FIX_MAX_INT = 65535"

definition FIX_MIN_INT :: int where
  "FIX_MIN_INT = - FIX_MAX_INT"

datatype fixed_point_t = Fix (fix_f: int)

text \<open>The conversion of a 64-bit number to \<open>int\<close>.\<close>

definition to_int32 :: "int \<Rightarrow> int" where
  "to_int32 x = (x + 2147483648) mod 4294967296 - 2147483648"

definition fix_int :: "int \<Rightarrow> fixed_point_t option" where
  "fix_int n = do { assert (n \<ge> FIX_MIN_INT \<and> n \<le> FIX_MAX_INT); f \<leftarrow> int32 (n * FIX_F); Some (Fix f) }"

definition fix_frac :: "int \<Rightarrow> int \<Rightarrow> fixed_point_t option" where
  "fix_frac n d = do {
     assert (d \<noteq> 0);
     q \<leftarrow> int32 (n sdiv d);
     assert (q \<ge> FIX_MIN_INT \<and> q \<le> FIX_MAX_INT);
     Some (Fix (to_int32 (n * FIX_F sdiv d)))
   }"

definition fix_round :: "fixed_point_t \<Rightarrow> int option" where
  "fix_round x = do { y \<leftarrow> int32 (fix_f x + FIX_F sdiv 2); Some (y sdiv FIX_F) }"

definition fix_trunc :: "fixed_point_t \<Rightarrow> int" where
  "fix_trunc x = fix_f x sdiv FIX_F"

definition fix_add :: "fixed_point_t \<Rightarrow> fixed_point_t \<Rightarrow> fixed_point_t option" where
  "fix_add x y = map_option Fix (int32 (fix_f x + fix_f y))"

definition fix_sub :: "fixed_point_t \<Rightarrow> fixed_point_t \<Rightarrow> fixed_point_t option" where
  "fix_sub x y = map_option Fix (int32 (fix_f x - fix_f y))"

definition fix_mul :: "fixed_point_t \<Rightarrow> fixed_point_t \<Rightarrow> fixed_point_t" where
  "fix_mul x y = Fix (to_int32 (fix_f x * fix_f y sdiv FIX_F))"

definition fix_scale :: "fixed_point_t \<Rightarrow> int \<Rightarrow> fixed_point_t option" where
  "fix_scale x n = do { assert (n \<ge> 0); f \<leftarrow> int32 (fix_f x * n); Some (Fix f) }"

definition fix_div :: "fixed_point_t \<Rightarrow> fixed_point_t \<Rightarrow> fixed_point_t option" where
  "fix_div x y = (if fix_f y = 0 then None else Some (Fix (to_int32 (fix_f x * FIX_F sdiv fix_f y))))"

definition fix_unscale :: "fixed_point_t \<Rightarrow> int \<Rightarrow> fixed_point_t option" where
  "fix_unscale x n = do { assert (n > 0); Some (Fix (fix_f x sdiv n)) }"

definition fix_inv :: "fixed_point_t \<Rightarrow> fixed_point_t option" where
  "fix_inv x = do { one \<leftarrow> fix_int 1; fix_div one x }"

definition fix_compare :: "fixed_point_t \<Rightarrow> fixed_point_t \<Rightarrow> int" where
  "fix_compare x y = (if fix_f x < fix_f y then -1 else if fix_f x > fix_f y then 1 else 0)"

section \<open>The numbers they stand for\<close>

definition fix_val :: "fixed_point_t \<Rightarrow> rat" where
  "fix_val x = of_int (fix_f x) / 65536"

definition fix_ok :: "fixed_point_t \<Rightarrow> bool" where
  "fix_ok x \<longleftrightarrow> -2147483648 \<le> fix_f x \<and> fix_f x \<le> 2147483647"

lemma to_int32_id: "-2147483648 \<le> x \<Longrightarrow> x \<le> 2147483647 \<Longrightarrow> to_int32 x = x"
  by (simp add: to_int32_def)

lemma to_int32_ok: "fix_ok (Fix (to_int32 x))"
  by (simp add: to_int32_def fix_ok_def)

text \<open>Division that rounds towards zero is off by less than one.\<close>

lemma sdiv_error:
  fixes a b :: int
  assumes "b \<noteq> 0"
  shows "\<bar>of_int (a sdiv b) - of_int a / of_int b :: rat\<bar> < 1"
proof -
  let ?q = "\<bar>a\<bar> div \<bar>b\<bar>"
  have b: "0 < \<bar>b\<bar>" using assms by simp
  have "?q * \<bar>b\<bar> \<le> \<bar>a\<bar>" "\<bar>a\<bar> < (?q + 1) * \<bar>b\<bar>"
    using div_mult_mod_eq[of "\<bar>a\<bar>" "\<bar>b\<bar>"] pos_mod_bound[OF b, of "\<bar>a\<bar>"] pos_mod_sign[OF b, of "\<bar>a\<bar>"] unfolding distrib_right mult_1 by linarith+
  then have "of_int (?q * \<bar>b\<bar>) \<le> (of_int \<bar>a\<bar> :: rat)" "(of_int \<bar>a\<bar> :: rat) < of_int ((?q + 1) * \<bar>b\<bar>)" by (simp_all only: of_int_le_iff of_int_less_iff)
  then have q: "of_int ?q \<le> (of_int \<bar>a\<bar> / of_int \<bar>b\<bar> :: rat)" "(of_int \<bar>a\<bar> / of_int \<bar>b\<bar> :: rat) < of_int ?q + 1"
    using b by (simp_all add: pos_le_divide_eq pos_divide_less_eq)
  have "of_int (a sdiv b) = (of_int (sgn a * sgn b) * of_int ?q :: rat)" by (simp add: signed_divide_int_def)
  moreover have "(of_int a / of_int b :: rat) = of_int (sgn a * sgn b) * (of_int \<bar>a\<bar> / of_int \<bar>b\<bar>)"
    by (cases "a = 0"; cases "0 < a"; cases "0 < b") (use assms in auto)
  ultimately have "(of_int (a sdiv b) - of_int a / of_int b :: rat) = of_int (sgn a * sgn b) * (of_int ?q - of_int \<bar>a\<bar> / of_int \<bar>b\<bar>)"
    by (simp add: right_diff_distrib)
  then have "\<bar>of_int (a sdiv b) - of_int a / of_int b :: rat\<bar> = \<bar>of_int (sgn a * sgn b) :: rat\<bar> * \<bar>of_int ?q - of_int \<bar>a\<bar> / of_int \<bar>b\<bar>\<bar>"
    by (simp add: abs_mult)
  also have "\<dots> \<le> 1 * \<bar>of_int ?q - of_int \<bar>a\<bar> / of_int \<bar>b\<bar>\<bar>" by (rule mult_right_mono) (auto simp: sgn_if)
  also have "\<dots> < 1"
  proof -
    have "\<bar>x - y\<bar> < 1" if "x \<le> y" "y < x + 1" for x y :: rat using that by linarith
    from this[OF q] show ?thesis by (simp only: mult_1)
  qed
  finally show ?thesis .
qed

lemma sdiv_in_range:
  fixes a b :: int
  assumes "b \<noteq> 0" "\<bar>of_int a / of_int b :: rat\<bar> \<le> 2147483647"
  shows "to_int32 (a sdiv b) = a sdiv b"
proof -
  have "\<bar>of_int (a sdiv b) :: rat\<bar> < 2147483648" using sdiv_error[OF assms(1), of a] assms(2) by linarith
  then have "\<bar>a sdiv b\<bar> < 2147483648" by (metis of_int_abs of_int_less_numeral_iff)
  then show ?thesis by (intro to_int32_id) auto
qed

lemma trunc_result:
  fixes a b :: int
  assumes "b \<noteq> 0" "\<bar>of_int a / of_int b / 65536 :: rat\<bar> \<le> 32767"
  shows "\<bar>fix_val (Fix (to_int32 (a sdiv b))) - of_int a / of_int b / 65536\<bar> < 1 / 65536"
proof -
  have "\<bar>of_int a / of_int b :: rat\<bar> \<le> 2147483647" using assms(2) by simp
  then have "to_int32 (a sdiv b) = a sdiv b" by (rule sdiv_in_range[OF assms(1)])
  then have "fix_val (Fix (to_int32 (a sdiv b))) - of_int a / of_int b / 65536 = (of_int (a sdiv b) - of_int a / of_int b) / 65536"
    by (simp add: fix_val_def diff_divide_distrib)
  then have "\<bar>fix_val (Fix (to_int32 (a sdiv b))) - of_int a / of_int b / 65536\<bar> = \<bar>of_int (a sdiv b) - of_int a / of_int b\<bar> / 65536"
    by (simp only: abs_divide abs_numeral)
  then show ?thesis using sdiv_error[OF assms(1), of a] by (simp only:) (rule divide_strict_right_mono, simp_all)
qed

section \<open>Properties\<close>

text \<open>C19. Fixed-point products and quotients are exact up to one unit in the last place whenever their absolute value is at
  most 32767, although they are computed from truncated integer divisions. Sums and differences are defined
  exactly when they lie in the range [-32768, 32768) of the type, and then they are exact. A quotient is undefined
  exactly for a zero divisor. Every result is a number of 32 bits.
\<close>
theorem fix_arithmetic_error:
  "fix_ok (fix_mul x y) \<and> (fix_div x y = None \<longleftrightarrow> fix_val y = 0) \<and> (\<forall>z. fix_div x y = Some z \<longrightarrow> fix_ok z) \<and>
   (\<bar>fix_val x * fix_val y\<bar> \<le> 32767 \<longrightarrow> \<bar>fix_val (fix_mul x y) - fix_val x * fix_val y\<bar> < 1 / 65536) \<and>
   (fix_val y \<noteq> 0 \<and> \<bar>fix_val x / fix_val y\<bar> \<le> 32767 \<longrightarrow>
      (\<exists>z. fix_div x y = Some z \<and> \<bar>fix_val z - fix_val x / fix_val y\<bar> < 1 / 65536)) \<and>
   (case fix_add x y of None \<Rightarrow> \<not> (-32768 \<le> fix_val x + fix_val y \<and> fix_val x + fix_val y < 32768) | Some z \<Rightarrow> -32768 \<le> fix_val x + fix_val y \<and> fix_val x + fix_val y < 32768 \<and> fix_ok z \<and> fix_val z = fix_val x + fix_val y) \<and>
   (case fix_sub x y of None \<Rightarrow> \<not> (-32768 \<le> fix_val x - fix_val y \<and> fix_val x - fix_val y < 32768) | Some z \<Rightarrow> -32768 \<le> fix_val x - fix_val y \<and> fix_val x - fix_val y < 32768 \<and> fix_ok z \<and> fix_val z = fix_val x - fix_val y)"
proof (intro conjI impI allI)
  show "fix_ok (fix_mul x y)" by (simp add: fix_mul_def to_int32_ok)
  show "fix_div x y = None \<longleftrightarrow> fix_val y = 0" by (simp add: fix_div_def fix_val_def)
  show "fix_ok z" if "fix_div x y = Some z" for z using that to_int32_ok by (auto simp: fix_div_def split: if_splits)
next
  assume a: "\<bar>fix_val x * fix_val y\<bar> \<le> 32767"
  have e: "fix_val x * fix_val y = of_int (fix_f x * fix_f y) / of_int FIX_F / 65536" by (simp add: fix_val_def FIX_F_def)
  show "\<bar>fix_val (fix_mul x y) - fix_val x * fix_val y\<bar> < 1 / 65536"
    unfolding fix_mul_def e by (rule trunc_result) (use a in \<open>simp_all only: e\<close>, simp add: FIX_F_def)
next
  assume a: "fix_val y \<noteq> 0 \<and> \<bar>fix_val x / fix_val y\<bar> \<le> 32767"
  then have y: "fix_f y \<noteq> 0" by (auto simp: fix_val_def)
  have e: "fix_val x / fix_val y = of_int (fix_f x * FIX_F) / of_int (fix_f y) / 65536" using y by (simp add: fix_val_def FIX_F_def)
  have "\<bar>of_int (fix_f x * FIX_F) / of_int (fix_f y) / 65536 :: rat\<bar> \<le> 32767" using a unfolding e by blast
  from trunc_result[OF y this] show "\<exists>z. fix_div x y = Some z \<and> \<bar>fix_val z - fix_val x / fix_val y\<bar> < 1 / 65536"
    using y unfolding e fix_div_def by simp
next
  have bound: "-32768 \<le> (of_int n / 65536 :: rat) \<longleftrightarrow> -2147483648 \<le> n" "(of_int n / 65536 :: rat) < 32768 \<longleftrightarrow> n \<le> 2147483647" for n
  proof -
    have "-32768 \<le> (of_int n / 65536 :: rat) \<longleftrightarrow> of_int (-2147483648) \<le> (of_int n :: rat)" by (simp add: pos_le_divide_eq)
    then show "-32768 \<le> (of_int n / 65536 :: rat) \<longleftrightarrow> -2147483648 \<le> n" by (simp only: of_int_le_iff)
    have "(of_int n / 65536 :: rat) < 32768 \<longleftrightarrow> (of_int n :: rat) < of_int 2147483648" by (simp add: pos_divide_less_eq)
    then show "(of_int n / 65536 :: rat) < 32768 \<longleftrightarrow> n \<le> 2147483647" by (simp only: of_int_less_iff) arith
  qed
  have s: "fix_val x + fix_val y = of_int (fix_f x + fix_f y) / 65536" "fix_val x - fix_val y = of_int (fix_f x - fix_f y) / 65536"
    by (simp_all add: fix_val_def add_divide_distrib diff_divide_distrib)
  show "case fix_add x y of None \<Rightarrow> \<not> (-32768 \<le> fix_val x + fix_val y \<and> fix_val x + fix_val y < 32768) | Some z \<Rightarrow> -32768 \<le> fix_val x + fix_val y \<and> fix_val x + fix_val y < 32768 \<and> fix_ok z \<and> fix_val z = fix_val x + fix_val y"
    unfolding s(1) bound by (simp add: fix_add_def int32_def fix_val_def fix_ok_def split: option.split)
  show "case fix_sub x y of None \<Rightarrow> \<not> (-32768 \<le> fix_val x - fix_val y \<and> fix_val x - fix_val y < 32768) | Some z \<Rightarrow> -32768 \<le> fix_val x - fix_val y \<and> fix_val x - fix_val y < 32768 \<and> fix_ok z \<and> fix_val z = fix_val x - fix_val y"
    unfolding s(2) bound by (simp add: fix_sub_def int32_def fix_val_def fix_ok_def split: option.split)
qed

theorem fix_arithmetic_error_witness:
  "\<bar>fix_val (fix_mul (Fix 98304) (Fix 21845)) - fix_val (Fix 98304) * fix_val (Fix 21845)\<bar> < 1 / 65536 \<and>
   (\<exists>z. fix_div (Fix 98304) (Fix 21845) = Some z \<and> \<bar>fix_val z - fix_val (Fix 98304) / fix_val (Fix 21845)\<bar> < 1 / 65536)"
  using fix_arithmetic_error[of "Fix 98304" "Fix 21845"] by (simp add: fix_val_def)

text \<open>Conversion to and from integers. \<^const>\<open>fix_int\<close> accepts integers of 16 bits and a sign in its assertion, but from 15 bits
  on the multiplication overflows; \<^const>\<open>fix_round\<close> rounds to the nearest integer, halves upwards, for numbers that
  are not below -1/2, and rounds every smaller number to the integer that truncation towards zero
  leaves after 1/2 is added, which is not the nearest one.
\<close>
theorem fix_conversions:
  "fix_int n = (if -32768 \<le> n \<and> n \<le> 32767 then Some (Fix (n * 65536)) else None) \<and>
   fix_round (Fix f) = (if -2147516416 \<le> f \<and> f \<le> 2147450879
     then Some (if -32768 \<le> f then \<lfloor>fix_val (Fix f) + 1 / 2\<rfloor> else \<lceil>fix_val (Fix f) + 1 / 2\<rceil>) else None)"
proof
  show "fix_int n = (if -32768 \<le> n \<and> n \<le> 32767 then Some (Fix (n * 65536)) else None)"
    by (auto simp: fix_int_def FIX_MIN_INT_def FIX_MAX_INT_def FIX_F_def int32_def assert_def)
  have v: "fix_val (Fix f) + 1 / 2 = of_int (f + 32768) / of_int 65536" by (simp add: fix_val_def)
  have s: "(f + 32768) sdiv 65536 = (if -32768 \<le> f then (f + 32768) div 65536 else - ((- (f + 32768)) div 65536))"
    by (auto simp: signed_divide_int_def sgn_if)
  show "fix_round (Fix f) = (if -2147516416 \<le> f \<and> f \<le> 2147450879
     then Some (if -32768 \<le> f then \<lfloor>fix_val (Fix f) + 1 / 2\<rfloor> else \<lceil>fix_val (Fix f) + 1 / 2\<rceil>) else None)"
    unfolding v floor_divide_of_int_eq ceiling_divide_eq_div by (simp add: fix_round_def FIX_F_def int32_def s) 
qed

end
