(* ===== verification/Threads.thy ===== *)
theory Threads
  imports PListSpec FixedPoint
begin

text \<open>
  Threads and their synchronisation: \<^verbatim>\<open>threads/thread.c\<close>, \<^verbatim>\<open>threads/synch.c\<close> and the sleeping threads of
  \<^verbatim>\<open>devices/timer.c\<close>. The machine runs one thread at a time. A step is what the running thread does
  with interrupts disabled until it blocks, yields or enables them again; what it still has to do in the kernel
  is the list \<open>kont\<close> of the parts of the interrupted functions. What threads do outside of these operations, and
  which interrupts come, is left open: they are the events of the step relation. The code sorts the waiters of a
  condition, and inserts into them, with interrupts enabled but under a lock; this is part of the step that follows.

  Lists of the kernel are the sequences of their elements, which is what \<^verbatim>\<open>PListSpec\<close> shows of \<^verbatim>\<open>list.c\<close>. A thread is
  its address. A failed assertion, an undefined operation and a loop that does not end are \<^term>\<open>None\<close>.

  The parts of \<^verbatim>\<open>thread_create\<close> and \<^verbatim>\<open>thread_exit\<close> that belong to user processes, the frames on the stack of a new thread and the
  statistics of ticks are left out. The page of a thread that ended is freed, except that of the initial thread, and may become a new thread.
  A thread that ends keeps its locks, so the holder of a lock may be such a page: reading or writing it is undefined, hence \<^term>\<open>None\<close>. The threads that wait for
  a lock, among them the donors of a thread, are blocked and have not ended. The value of a semaphore does not wrap. A conversion between pointers in
  \<^verbatim>\<open>compare_priority\<close> makes the order of donations depend on the pointer \<open>wakeup_list_elem.prev\<close>, so this pointer is
  part of the model.
\<close>

section \<open>State\<close>

type_synonym tid = nat

datatype thread_status = THREAD_RUNNING | THREAD_READY | THREAD_BLOCKED | THREAD_DYING

definition PRI_MIN :: int where
  "PRI_MIN = 0"

definition PRI_DEFAULT :: int where
  "PRI_DEFAULT = 31"

definition PRI_MAX :: int where
  "PRI_MAX = 63"

definition TIME_SLICE :: nat where
  "TIME_SLICE = 4"

definition TIMER_FREQ :: int where
  "TIMER_FREQ = 100"

record thread =
  tid :: int
  status :: thread_status
  priority :: int
  orig_priority :: int
  wakeup_tick :: int
  wakeup_prev :: int
  wait_lock :: "nat option"
  ordered_donations :: "tid list"
  nice :: int
  recent_cpu :: fixed_point_t

text \<open>Semaphores: those of locks, those of the threads that wait for a condition, and others.\<close>

datatype sema = Lock_Sema nat | Wait_Sema tid | Sema nat

text \<open>What a thread still has to do in the kernel.\<close>

datatype act =
    Sema_Down sema
  | Lock_Taken nat
  | Lock_Acquire nat
  | Cond_Broadcast nat nat
  | Sleep_Insert int
  | Sleep_Block
  | Allocate_Tid tid
  | Create_Unblock tid int
  | Check_Priority_Order
  | Kernel_Thread
  | Idle

record kernel =
  threads :: "tid \<Rightarrow> thread"
  all_list :: "tid list"
  ready_list :: "tid list"
  idle_thread :: tid
  initial_thread :: tid
  current :: tid
  kont :: "tid \<Rightarrow> act list"
  sema_value :: "sema \<Rightarrow> nat"
  sema_waiters :: "sema \<Rightarrow> tid list"
  holder :: "nat \<Rightarrow> tid option"
  cond_waiters :: "nat \<Rightarrow> tid list"
  thread_mlfqs :: bool
  load_avg :: fixed_point_t
  thread_ticks :: nat
  ticks :: int
  threads_to_wakeup :: "tid list"
  next_tid :: int

definition upd :: "tid \<Rightarrow> (thread \<Rightarrow> thread) \<Rightarrow> kernel \<Rightarrow> kernel" where
  "upd t f k = k\<lparr>threads := (threads k)(t := f (threads k t))\<rparr>"

definition set_status :: "tid \<Rightarrow> thread_status \<Rightarrow> kernel \<Rightarrow> kernel" where
  "set_status t st k = upd t (\<lambda>x. x\<lparr>status := st\<rparr>) k"

definition set_kont :: "act list \<Rightarrow> kernel \<Rightarrow> kernel" where
  "set_kont ks k = k\<lparr>kont := (kont k)(current k := ks)\<rparr>"

text \<open>The thread has not ended, or its page is not freed.\<close>

definition page_alive :: "kernel \<Rightarrow> tid \<Rightarrow> bool" where
  "page_alive k t \<longleftrightarrow> t \<in> set (all_list k) \<or> t = initial_thread k"

section \<open>Lists\<close>

definition insert_ordered :: "(nat \<Rightarrow> nat \<Rightarrow> bool) \<Rightarrow> nat \<Rightarrow> nat list \<Rightarrow> nat list" where
  "insert_ordered lt x xs = takeWhile (\<lambda>y. \<not> lt x y) xs @ x # dropWhile (\<lambda>y. \<not> lt x y) xs"

partial_function (option) sort_passes :: "(nat \<Rightarrow> nat \<Rightarrow> bool) \<Rightarrow> nat list \<Rightarrow> nat list option" where
  "sort_passes lt xs = (let (ys, n) = pass lt xs in if n > 1 then sort_passes lt ys else Some ys)"

declare sort_passes.simps [code]

definition sort_seq :: "(nat \<Rightarrow> nat \<Rightarrow> bool) \<Rightarrow> nat list \<Rightarrow> nat list option" where
  "sort_seq lt xs = do { ys \<leftarrow> sort_passes lt xs; assert (descents lt ys = 0); Some ys }"

definition max_seq :: "(nat \<Rightarrow> nat \<Rightarrow> bool) \<Rightarrow> nat list \<Rightarrow> nat" where
  "max_seq lt xs = fold (\<lambda>e m. if lt m e then e else m) (tl xs) (hd xs)"

definition compare_priority :: "kernel \<Rightarrow> tid \<Rightarrow> tid \<Rightarrow> bool" where
  "compare_priority k a b \<longleftrightarrow> priority (threads k a) > priority (threads k b)"

definition thread_lower_priority :: "kernel \<Rightarrow> tid \<Rightarrow> tid \<Rightarrow> bool" where
  "thread_lower_priority k a b \<longleftrightarrow> \<not> compare_priority k a b"

text \<open>
  The function \<^verbatim>\<open>compare_priority\<close> applied to \<open>donation_list_elem\<close>s: it subtracts the offset of \<open>elem\<close> from the address, and
  what it then reads as the priority is the word at the same distance, which is \<open>wakeup_list_elem.prev\<close>.
\<close>

definition compare_donation :: "kernel \<Rightarrow> tid \<Rightarrow> tid \<Rightarrow> bool" where
  "compare_donation k a b \<longleftrightarrow> wakeup_prev (threads k a) > wakeup_prev (threads k b)"

section \<open>Scheduling\<close>

definition next_thread_to_run :: "kernel \<Rightarrow> tid \<times> kernel" where
  "next_thread_to_run k = (case ready_list k of [] \<Rightarrow> (idle_thread k, k) | t # ts \<Rightarrow> (t, k\<lparr>ready_list := ts\<rparr>))"

definition thread_schedule_tail :: "kernel \<Rightarrow> kernel" where
  "thread_schedule_tail k = (set_status (current k) THREAD_RUNNING k)\<lparr>thread_ticks := 0\<rparr>"

definition schedule :: "kernel \<Rightarrow> kernel option" where
  "schedule k = (let cur = current k; (nxt, k) = next_thread_to_run k in do {
     assert (status (threads k cur) \<noteq> THREAD_RUNNING);
     Some (thread_schedule_tail (k\<lparr>current := nxt\<rparr>))
   })"

definition thread_block :: "kernel \<Rightarrow> kernel option" where
  "thread_block k = schedule (set_status (current k) THREAD_BLOCKED k)"

definition thread_unblock :: "tid \<Rightarrow> kernel \<Rightarrow> kernel option" where
  "thread_unblock t k = do {
     assert (status (threads k t) = THREAD_BLOCKED);
     let k = k\<lparr>ready_list := insert_ordered (compare_priority k) t (ready_list k)\<rparr>;
     Some (set_status t THREAD_READY k)
   }"

definition thread_yield :: "kernel \<Rightarrow> kernel option" where
  "thread_yield k = (let cur = current k;
     k = (if cur \<noteq> idle_thread k then k\<lparr>ready_list := insert_ordered (compare_priority k) cur (ready_list k)\<rparr> else k)
   in schedule (set_status cur THREAD_READY k))"

definition check_priority_order :: "kernel \<Rightarrow> kernel option" where
  "check_priority_order k =
     (if ready_list k = [] then Some k
      else let m = max_seq (thread_lower_priority k) (ready_list k) in
        if priority (threads k m) > priority (threads k (current k)) then thread_yield k else Some k)"

section \<open>Priority donation\<close>

partial_function (option) donate_loop :: "tid \<Rightarrow> kernel \<Rightarrow> kernel option" where
  "donate_loop cur k =
     (case wait_lock (threads k cur) of None \<Rightarrow> Some k
      | Some l \<Rightarrow>
          (case holder k l of None \<Rightarrow> Some k
           | Some h \<Rightarrow>
               if \<not> page_alive k h then None
               else if priority (threads k h) \<ge> priority (threads k cur) then Some k
               else donate_loop h (upd h (\<lambda>x. x\<lparr>priority := priority (threads k cur)\<rparr>) k)))"

declare donate_loop.simps [code]

definition check_to_donate :: "tid \<Rightarrow> kernel \<Rightarrow> kernel option" where
  "check_to_donate cur k = donate_loop cur k"

definition remove_donations :: "nat \<Rightarrow> kernel \<Rightarrow> kernel" where
  "remove_donations l k = upd (current k) (\<lambda>x. x\<lparr>ordered_donations := filter (\<lambda>d. wait_lock (threads k d) \<noteq> Some l) (ordered_donations x)\<rparr>) k"

definition check_needs_donations :: "tid \<Rightarrow> kernel \<Rightarrow> kernel" where
  "check_needs_donations cur k =
     (let k = upd cur (\<lambda>x. x\<lparr>priority := orig_priority x\<rparr>) k in
      case ordered_donations (threads k cur) of [] \<Rightarrow> k
      | s # _ \<Rightarrow> if priority (threads k s) > priority (threads k cur)
                then upd cur (\<lambda>x. x\<lparr>priority := priority (threads k s)\<rparr>) k else k)"

section \<open>Semaphores, locks and conditions\<close>

text \<open>The function with the parts of the callers that are left to do after it.\<close>

definition sema_down :: "sema \<Rightarrow> act list \<Rightarrow> kernel \<Rightarrow> kernel option" where
  "sema_down s rs k =
     (if sema_value k s = 0 then do {
        k \<leftarrow> (if \<not> thread_mlfqs k then check_to_donate (current k) k else Some k);
        let k = k\<lparr>sema_waiters := (sema_waiters k)(s := insert_ordered (compare_priority k) (current k) (sema_waiters k s))\<rparr>;
        thread_block (set_kont (Sema_Down s # rs) k)
      } else Some (set_kont rs (k\<lparr>sema_value := (sema_value k)(s := sema_value k s - 1)\<rparr>)))"

definition sema_try_down :: "sema \<Rightarrow> kernel \<Rightarrow> bool \<times> kernel" where
  "sema_try_down s k = (if sema_value k s > 0 then (True, k\<lparr>sema_value := (sema_value k)(s := sema_value k s - 1)\<rparr>) else (False, k))"

definition sema_up :: "bool \<Rightarrow> sema \<Rightarrow> kernel \<Rightarrow> kernel option" where
  "sema_up intr_context s k = do {
     k \<leftarrow> (if sema_waiters k s \<noteq> [] then do {
            ws \<leftarrow> sort_seq (compare_priority k) (sema_waiters k s);
            thread_unblock (hd ws) (k\<lparr>sema_waiters := (sema_waiters k)(s := tl ws)\<rparr>)
          } else Some k);
     let k = k\<lparr>sema_value := (sema_value k)(s := sema_value k s + 1)\<rparr>;
     if \<not> intr_context then check_priority_order k else Some k
   }"

definition lock_acquire :: "nat \<Rightarrow> act list \<Rightarrow> kernel \<Rightarrow> kernel option" where
  "lock_acquire l rs k = do {
     assert (holder k l \<noteq> Some (current k));
     k \<leftarrow> (case holder k l of
         Some h \<Rightarrow> if \<not> thread_mlfqs k then do {
             let k = upd (current k) (\<lambda>x. x\<lparr>wait_lock := Some l\<rparr>) k;
             assert (page_alive k h);
             Some (upd h (\<lambda>x. x\<lparr>ordered_donations := insert_ordered (compare_donation k) (current k) (ordered_donations x)\<rparr>) k)
           } else Some k
       | None \<Rightarrow> Some k);
     sema_down (Lock_Sema l) (Lock_Taken l # rs) k
   }"

definition lock_taken :: "nat \<Rightarrow> act list \<Rightarrow> kernel \<Rightarrow> kernel" where
  "lock_taken l rs k = set_kont rs ((upd (current k) (\<lambda>x. x\<lparr>wait_lock := None\<rparr>) k)\<lparr>holder := (holder k)(l := Some (current k))\<rparr>)"

definition lock_try_acquire :: "nat \<Rightarrow> kernel \<Rightarrow> (bool \<times> kernel) option" where
  "lock_try_acquire l k = do {
     assert (holder k l \<noteq> Some (current k));
     let (success, k) = sema_try_down (Lock_Sema l) k;
     Some (success, if success then k\<lparr>holder := (holder k)(l := Some (current k))\<rparr> else k)
   }"

definition lock_release :: "nat \<Rightarrow> act list \<Rightarrow> kernel \<Rightarrow> kernel option" where
  "lock_release l rs k = do {
     assert (holder k l = Some (current k));
     let k = set_kont rs (k\<lparr>holder := (holder k)(l := None)\<rparr>);
     let k = (if \<not> thread_mlfqs k then check_needs_donations (current k) (remove_donations l k) else k);
     sema_up False (Lock_Sema l) k
   }"

text \<open>
  The order of the threads that wait for a condition. The lists of waiters that it sorts on the way have at most one
  element, the thread that owns the semaphore.
\<close>

definition compare_condvar_priority :: "kernel \<Rightarrow> tid \<Rightarrow> tid \<Rightarrow> bool" where
  "compare_condvar_priority k a b =
     (if sema_waiters k (Wait_Sema b) = [] then True
      else if sema_waiters k (Wait_Sema a) = [] then False
      else priority (threads k (hd (sema_waiters k (Wait_Sema a)))) > priority (threads k (hd (sema_waiters k (Wait_Sema b)))))"

definition cond_wait :: "nat \<Rightarrow> nat \<Rightarrow> kernel \<Rightarrow> kernel option" where
  "cond_wait c l k = do {
     assert (holder k l = Some (current k));
     let waiter = current k;
     let k = k\<lparr>sema_value := (sema_value k)(Wait_Sema waiter := 0), sema_waiters := (sema_waiters k)(Wait_Sema waiter := [])\<rparr>;
     let k = k\<lparr>cond_waiters := (cond_waiters k)(c := insert_ordered (compare_condvar_priority k) waiter (cond_waiters k c))\<rparr>;
     lock_release l [Sema_Down (Wait_Sema waiter), Lock_Acquire l] k
   }"

definition cond_signal :: "nat \<Rightarrow> nat \<Rightarrow> kernel \<Rightarrow> kernel option" where
  "cond_signal c l k = do {
     assert (holder k l = Some (current k));
     if cond_waiters k c \<noteq> [] then do {
       ws \<leftarrow> sort_seq (compare_condvar_priority k) (cond_waiters k c);
       sema_up False (Wait_Sema (hd ws)) (k\<lparr>cond_waiters := (cond_waiters k)(c := tl ws)\<rparr>)
     } else Some k
   }"

text \<open>One round of the loop; the next one is left to do, because a signal may let another thread run.\<close>

definition cond_broadcast :: "nat \<Rightarrow> nat \<Rightarrow> kernel \<Rightarrow> kernel option" where
  "cond_broadcast c l k =
     (if cond_waiters k c \<noteq> [] then cond_signal c l (set_kont [Cond_Broadcast c l] k) else Some (set_kont [] k))"

section \<open>Threads\<close>

text \<open>A new thread has an address that no other thread has, or there is no memory for it.\<close>

definition init_thread :: "tid \<Rightarrow> int \<Rightarrow> kernel \<Rightarrow> kernel option" where
  "init_thread t prio k = do {
     assert (PRI_MIN \<le> prio \<and> prio \<le> PRI_MAX);
     zero \<leftarrow> fix_int 0;
     let k = k\<lparr>threads := (threads k)(t := \<lparr>tid = 0, status = THREAD_BLOCKED, priority = prio, orig_priority = prio, wakeup_tick = 0,
       wakeup_prev = 0, wait_lock = None, ordered_donations = [], nice = 0, recent_cpu = zero\<rparr>)\<rparr>;
     Some (k\<lparr>all_list := all_list k @ [t]\<rparr>)
   }"

text \<open>The lock of the numbers of threads is lock 1.\<close>

definition tid_lock :: nat where
  "tid_lock = 1"

text \<open>
  Interrupts stay enabled, so a new thread is made in several steps: it gets its fields, its number under a lock, becomes ready,
  and may then run at once. When it runs for the first time it is in \<^verbatim>\<open>kernel_thread\<close>, which enables interrupts.
\<close>

definition thread_create :: "tid option \<Rightarrow> int \<Rightarrow> kernel \<Rightarrow> kernel option" where
  "thread_create page prio k =
     (case page of None \<Rightarrow> Some k
      | Some t \<Rightarrow> do {
          k \<leftarrow> init_thread t prio k;
          Some (set_kont [Lock_Acquire tid_lock, Allocate_Tid t] (k\<lparr>kont := (kont k)(t := [Kernel_Thread])\<rparr>))
        })"

definition allocate_tid :: "tid \<Rightarrow> kernel \<Rightarrow> kernel option" where
  "allocate_tid t k = do {
     let n = next_tid k;
     n' \<leftarrow> int32 (n + 1);
     lock_release tid_lock [Create_Unblock t n] (k\<lparr>next_tid := n'\<rparr>)
   }"

definition create_unblock :: "tid \<Rightarrow> int \<Rightarrow> kernel \<Rightarrow> kernel option" where
  "create_unblock t n k = thread_unblock t (set_kont [Check_Priority_Order] (upd t (\<lambda>x. x\<lparr>tid := n\<rparr>) k))"

definition thread_exit :: "kernel \<Rightarrow> kernel option" where
  "thread_exit k = do {
     let cur = current k;
     let k = k\<lparr>all_list := filter (\<lambda>t. t \<noteq> cur) (all_list k)\<rparr>;
     k \<leftarrow> (case wait_lock (threads k cur) of None \<Rightarrow> Some k
       | Some l \<Rightarrow> (case holder k l of None \<Rightarrow> Some k
         | Some h \<Rightarrow> do {
             assert (h = cur \<or> page_alive k h);
             Some (upd h (\<lambda>x. x\<lparr>ordered_donations := filter (\<lambda>t. t \<noteq> cur) (ordered_donations x)\<rparr>) k)
           }));
     schedule (set_status cur THREAD_DYING k)
   }"

definition thread_set_priority :: "int \<Rightarrow> kernel \<Rightarrow> kernel option" where
  "thread_set_priority new_priority k =
     (if thread_mlfqs k then Some k
      else do {
        let cur = current k;
        let prev_priority = priority (threads k cur);
        let k = check_needs_donations cur (upd cur (\<lambda>x. x\<lparr>orig_priority := new_priority\<rparr>) k);
        k \<leftarrow> (if prev_priority < priority (threads k cur) then check_to_donate cur k else Some k);
        if prev_priority > priority (threads k cur) then check_priority_order k else Some k
      })"

section \<open>The multi-level feedback queue scheduler\<close>

definition clamp_priority :: "int \<Rightarrow> int" where
  "clamp_priority p = (if p < PRI_MIN then PRI_MIN else if p > PRI_MAX then PRI_MAX else p)"

definition calculate_priority :: "tid \<Rightarrow> kernel \<Rightarrow> kernel option" where
  "calculate_priority t k =
     (if t = idle_thread k then Some k
      else do {
        priority_max \<leftarrow> fix_int PRI_MAX;
        rc \<leftarrow> fix_unscale (recent_cpu (threads k t)) 4;
        nice_value \<leftarrow> fix_int (2 * nice (threads k t));
        p \<leftarrow> fix_sub priority_max rc;
        p \<leftarrow> fix_sub p nice_value;
        p \<leftarrow> fix_round p;
        Some (upd t (\<lambda>x. x\<lparr>priority := clamp_priority p\<rparr>) k)
      })"

definition calculate_recent_cpu :: "tid \<Rightarrow> kernel \<Rightarrow> kernel option" where
  "calculate_recent_cpu t k =
     (if t = idle_thread k then Some k
      else do {
        load_num \<leftarrow> fix_scale (load_avg k) 2;
        one \<leftarrow> fix_int 1;
        load_den \<leftarrow> fix_add load_num one;
        load_frac \<leftarrow> fix_div load_num load_den;
        n \<leftarrow> fix_int (nice (threads k t));
        rc \<leftarrow> fix_add (fix_mul load_frac (recent_cpu (threads k t))) n;
        Some (upd t (\<lambda>x. x\<lparr>recent_cpu := rc\<rparr>) k)
      })"

definition calculate_load_avg :: "kernel \<Rightarrow> kernel option" where
  "calculate_load_avg k = do {
     let ready_list_size = int (length (ready_list k)) + (if current k \<noteq> idle_thread k then 1 else 0);
     c \<leftarrow> fix_frac 59 60;
     ready \<leftarrow> fix_frac ready_list_size 60;
     l \<leftarrow> fix_add (fix_mul c (load_avg k)) ready;
     Some (k\<lparr>load_avg := l\<rparr>)
   }"

definition tick_increment :: "kernel \<Rightarrow> kernel option" where
  "tick_increment k =
     (if current k = idle_thread k then Some k
      else do {
        one \<leftarrow> fix_int 1;
        rc \<leftarrow> fix_add (recent_cpu (threads k (current k))) one;
        Some (upd (current k) (\<lambda>x. x\<lparr>recent_cpu := rc\<rparr>) k)
      })"

fun recalculate_loop :: "tid list \<Rightarrow> kernel \<Rightarrow> kernel option" where
  "recalculate_loop [] k = Some k"
| "recalculate_loop (t # ts) k = do { k \<leftarrow> calculate_recent_cpu t k; k \<leftarrow> calculate_priority t k; recalculate_loop ts k }"

definition do_recalculate :: "kernel \<Rightarrow> kernel option" where
  "do_recalculate k = recalculate_loop (all_list k) k"

definition NICE_MIN :: int where
  "NICE_MIN = -20"

definition NICE_MAX :: int where
  "NICE_MAX = 20"

definition thread_set_nice :: "int \<Rightarrow> kernel \<Rightarrow> kernel option" where
  "thread_set_nice n k = do {
     let n = (if n < NICE_MIN then NICE_MIN else if n > NICE_MAX then NICE_MAX else n);
     k \<leftarrow> calculate_priority (current k) (upd (current k) (\<lambda>x. x\<lparr>nice := n\<rparr>) k);
     check_priority_order k
   }"

definition thread_get_load_avg :: "kernel \<Rightarrow> int option" where
  "thread_get_load_avg k = do { x \<leftarrow> fix_scale (load_avg k) 100; fix_round x }"

definition thread_get_recent_cpu :: "kernel \<Rightarrow> int option" where
  "thread_get_recent_cpu k = do { x \<leftarrow> fix_scale (recent_cpu (threads k (current k))) 100; fix_round x }"

section \<open>Sleeping\<close>

text \<open>The lock of the list of sleeping threads is lock 0. \<open>addr\<close> gives the addresses of the list elements
  \<open>wakeup_list_elem\<close> and, for \<^term>\<open>None\<close>, of the head of the list, as signed numbers.\<close>

definition wakeup_lock :: nat where
  "wakeup_lock = 0"

definition compare_threads_by_wakeup_time :: "kernel \<Rightarrow> tid \<Rightarrow> tid \<Rightarrow> bool" where
  "compare_threads_by_wakeup_time k a b \<longleftrightarrow> wakeup_tick (threads k a) \<le> wakeup_tick (threads k b)"

text \<open>After a change of the list each element has the address of its predecessor.\<close>

fun link_prevs :: "(tid option \<Rightarrow> int) \<Rightarrow> tid option \<Rightarrow> tid list \<Rightarrow> (tid \<Rightarrow> thread) \<Rightarrow> tid \<Rightarrow> thread" where
  "link_prevs addr p [] th = th"
| "link_prevs addr p (t # ts) th = link_prevs addr (Some t) ts (th(t := (th t)\<lparr>wakeup_prev := addr p\<rparr>))"

definition timer_sleep :: "int \<Rightarrow> kernel \<Rightarrow> kernel option" where
  "timer_sleep n k =
     (let start_ticks = to_int32 (ticks k) in
      if n \<le> 0 then Some k else lock_acquire wakeup_lock [Sleep_Insert (start_ticks + n)] k)"

definition sleep_insert :: "(tid option \<Rightarrow> int) \<Rightarrow> int \<Rightarrow> kernel \<Rightarrow> kernel option" where
  "sleep_insert addr w k = do {
     let cur = current k;
     let k = upd cur (\<lambda>x. x\<lparr>wakeup_tick := w\<rparr>) k;
     let ts = insert_ordered (compare_threads_by_wakeup_time k) cur (threads_to_wakeup k);
     let k = k\<lparr>threads_to_wakeup := ts, threads := link_prevs addr None ts (threads k)\<rparr>;
     lock_release wakeup_lock [Sleep_Block] k
   }"

function wake_loop :: "(tid option \<Rightarrow> int) \<Rightarrow> kernel \<Rightarrow> kernel option" where
  "wake_loop addr k =
     (case threads_to_wakeup k of [] \<Rightarrow> Some k
      | t # ts \<Rightarrow>
          if ticks k < wakeup_tick (threads k t) then Some k
          else (case thread_unblock t (k\<lparr>threads_to_wakeup := ts, threads := link_prevs addr None ts (threads k)\<rparr>) of
                  None \<Rightarrow> None | Some k \<Rightarrow> wake_loop addr k))"
  by pat_completeness auto
termination wake_loop
proof (relation "measure (\<lambda>(addr, k). length (threads_to_wakeup k))", simp)
  fix addr :: "tid option \<Rightarrow> int" and k k' t ts
  assume "threads_to_wakeup k = t # ts" "thread_unblock t (k\<lparr>threads_to_wakeup := ts, threads := link_prevs addr None ts (threads k)\<rparr>) = Some k'"
  then show "((addr, k'), addr, k) \<in> measure (\<lambda>(addr, k). length (threads_to_wakeup k))"
    by (auto simp: thread_unblock_def assert_def set_status_def upd_def split: if_splits)
qed

declare wake_loop.simps [simp del]

text \<open>The timer interrupt, with the yield on return that \<^verbatim>\<open>thread_tick\<close> may ask for.\<close>

definition timer_interrupt :: "(tid option \<Rightarrow> int) \<Rightarrow> kernel \<Rightarrow> kernel option" where
  "timer_interrupt addr k = do {
     let k = k\<lparr>ticks := ticks k + 1, thread_ticks := thread_ticks k + 1\<rparr>;
     let yield_on_return = (thread_ticks k \<ge> TIME_SLICE);
     k \<leftarrow> (if thread_mlfqs k then do {
            k \<leftarrow> tick_increment k;
            if ticks k mod TIMER_FREQ = 0 then do { k \<leftarrow> calculate_load_avg k; do_recalculate k }
            else if ticks k mod int TIME_SLICE = 0 then calculate_priority (current k) k
            else Some k
          } else Some k);
     k \<leftarrow> wake_loop addr k;
     if yield_on_return then thread_yield k else Some k
   }"

section \<open>Steps\<close>

text \<open>What the running thread may call when it is not in the kernel.\<close>

datatype op =
    Op_Sema_Down nat | Op_Sema_Try_Down nat | Op_Sema_Up nat
  | Op_Lock_Acquire nat | Op_Lock_Try_Acquire nat | Op_Lock_Release nat
  | Op_Cond_Wait nat nat | Op_Cond_Signal nat nat | Op_Cond_Broadcast nat nat
  | Op_Create "tid option" int | Op_Exit | Op_Yield
  | Op_Set_Priority int | Op_Set_Nice int | Op_Sleep int

fun exec_op :: "op \<Rightarrow> kernel \<Rightarrow> kernel option" where
  "exec_op (Op_Sema_Down n) k = sema_down (Sema n) [] k"
| "exec_op (Op_Sema_Try_Down n) k = Some (snd (sema_try_down (Sema n) k))"
| "exec_op (Op_Sema_Up n) k = sema_up False (Sema n) k"
| "exec_op (Op_Lock_Acquire l) k = lock_acquire l [] k"
| "exec_op (Op_Lock_Try_Acquire l) k = map_option snd (lock_try_acquire l k)"
| "exec_op (Op_Lock_Release l) k = lock_release l [] k"
| "exec_op (Op_Cond_Wait c l) k = cond_wait c l k"
| "exec_op (Op_Cond_Signal c l) k = cond_signal c l k"
| "exec_op (Op_Cond_Broadcast c l) k = cond_broadcast c l k"
| "exec_op (Op_Create page p) k = thread_create page p k"
| "exec_op Op_Exit k = thread_exit k"
| "exec_op Op_Yield k = thread_yield k"
| "exec_op (Op_Set_Priority p) k = thread_set_priority p k"
| "exec_op (Op_Set_Nice n) k = thread_set_nice n k"
| "exec_op (Op_Sleep n) k = timer_sleep n k"

text \<open>The running thread goes on with what it has to do in the kernel.\<close>

fun exec_act :: "(tid option \<Rightarrow> int) \<Rightarrow> act \<Rightarrow> act list \<Rightarrow> kernel \<Rightarrow> kernel option" where
  "exec_act addr (Sema_Down s) rs k = sema_down s rs k"
| "exec_act addr (Lock_Taken l) rs k = Some (lock_taken l rs k)"
| "exec_act addr (Lock_Acquire l) rs k = lock_acquire l rs k"
| "exec_act addr (Cond_Broadcast c l) rs k = cond_broadcast c l k"
| "exec_act addr (Sleep_Insert w) rs k = sleep_insert addr w k"
| "exec_act addr (Allocate_Tid t) rs k = allocate_tid t k"
| "exec_act addr (Create_Unblock t n) rs k = create_unblock t n k"
| "exec_act addr Check_Priority_Order rs k = check_priority_order (set_kont rs k)"
| "exec_act addr Kernel_Thread rs k = Some (set_kont rs k)"
| "exec_act addr Sleep_Block rs k = thread_block (set_kont rs k)"
| "exec_act addr Idle rs k = thread_block k"

text \<open>Interrupts are enabled outside of the kernel, between the rounds of a broadcast, after a thread that waits for a condition
  has released the lock, between the steps that make a thread, and in the idle thread.\<close>

fun interruptible :: "act list \<Rightarrow> bool" where
  "interruptible [] = True"
| "interruptible (Sema_Down (Wait_Sema t) # rs) = True"
| "interruptible (Lock_Acquire l # rs) = True"
| "interruptible (Cond_Broadcast c l # rs) = True"
| "interruptible (Allocate_Tid t # rs) = True"
| "interruptible (Create_Unblock t n # rs) = True"
| "interruptible (Check_Priority_Order # rs) = True"
| "interruptible (Idle # rs) = True"
| "interruptible ks = False"

datatype event = Run op | Continue | Tick | Device_Up nat

text \<open>A new thread's page is not in use.\<close>

fun op_enabled :: "kernel \<Rightarrow> op \<Rightarrow> bool" where
  "op_enabled k (Op_Create (Some t) p) \<longleftrightarrow> t \<notin> set (all_list k) \<and> t \<noteq> idle_thread k \<and> t \<noteq> initial_thread k"
| "op_enabled k c \<longleftrightarrow> True"

fun enabled :: "kernel \<Rightarrow> event \<Rightarrow> bool" where
  "enabled k (Run c) \<longleftrightarrow> kont k (current k) = [] \<and> op_enabled k c"
| "enabled k Continue \<longleftrightarrow> kont k (current k) \<noteq> []"
| "enabled k Tick \<longleftrightarrow> interruptible (kont k (current k))"
| "enabled k (Device_Up n) \<longleftrightarrow> interruptible (kont k (current k))"

fun exec :: "(tid option \<Rightarrow> int) \<Rightarrow> event \<Rightarrow> kernel \<Rightarrow> kernel option" where
  "exec addr (Run c) k = exec_op c k"
| "exec addr Continue k = exec_act addr (hd (kont k (current k))) (tl (kont k (current k))) k"
| "exec addr Tick k = timer_interrupt addr k"
| "exec addr (Device_Up n) k = sema_up True (Sema n) k"

inductive step :: "(tid option \<Rightarrow> int) \<Rightarrow> kernel \<Rightarrow> event \<Rightarrow> kernel \<Rightarrow> bool" for addr where
  step: "enabled k e \<Longrightarrow> exec addr e k = Some k' \<Longrightarrow> step addr k e k'"

text \<open>After the start of the threads the main thread runs and the idle thread waits.\<close>

definition boot_kernel :: "bool \<Rightarrow> tid \<Rightarrow> tid \<Rightarrow> kernel" where
  "boot_kernel mlfqs main idle =
     (let th = \<lparr>tid = 1, status = THREAD_RUNNING, priority = PRI_DEFAULT, orig_priority = PRI_DEFAULT, wakeup_tick = 0, wakeup_prev = 0,
         wait_lock = None, ordered_donations = [], nice = 0, recent_cpu = Fix 0\<rparr> in
      \<lparr>threads = (\<lambda>_. th\<lparr>status := THREAD_DYING\<rparr>)(main := th, idle := th\<lparr>tid := 2, status := THREAD_BLOCKED, priority := PRI_MIN, orig_priority := PRI_MIN\<rparr>),
       all_list = [main, idle], ready_list = [], idle_thread = idle, initial_thread = main, current = main, kont = (\<lambda>_. [])(idle := [Idle]),
       sema_value = (\<lambda>s. case s of Lock_Sema l \<Rightarrow> 1 | _ \<Rightarrow> 0), sema_waiters = (\<lambda>_. []), holder = (\<lambda>_. None), cond_waiters = (\<lambda>_. []),
       thread_mlfqs = mlfqs, load_avg = Fix 0, thread_ticks = 0, ticks = 0, threads_to_wakeup = [], next_tid = 3\<rparr>)"

inductive reachable :: "(tid option \<Rightarrow> int) \<Rightarrow> kernel \<Rightarrow> bool" for addr where
  boot: "main \<noteq> idle \<Longrightarrow> reachable addr (boot_kernel mlfqs main idle)"
| move: "reachable addr k \<Longrightarrow> step addr k e k' \<Longrightarrow> reachable addr k'"

text \<open>A sequence of events, executed.\<close>

fun run_events :: "(tid option \<Rightarrow> int) \<Rightarrow> event list \<Rightarrow> kernel \<Rightarrow> kernel option" where
  "run_events addr [] k = Some k"
| "run_events addr (e # es) k = (if enabled k e then do { k \<leftarrow> exec addr e k; run_events addr es k } else None)"

end
