(* ===== verification/ThreadsInv.thy ===== *)
theory ThreadsInv
  imports Threads
begin

text \<open>
  The invariant of the threads and of their synchronisation, and that every step keeps it. It is a predicate on the
  parts of the state that do not depend on priorities, so that a change of priorities keeps it at once. A thread that
  is about to be replaced is, for a moment, not running; the predicate has a second form for that.
\<close>

section \<open>The invariant\<close>

definition at_down :: "(tid \<Rightarrow> act list) \<Rightarrow> sema \<Rightarrow> tid \<Rightarrow> bool" where
  "at_down kn s t \<longleftrightarrow> (\<exists>rs. kn t = Sema_Down s # rs)"

definition taking :: "(tid \<Rightarrow> act list) \<Rightarrow> nat \<Rightarrow> tid \<Rightarrow> bool" where
  "taking kn l t \<longleftrightarrow> (\<exists>rs. kn t = Lock_Taken l # rs)"

text \<open>What can be left to do.\<close>

definition wf_tail :: "act list \<Rightarrow> bool" where
  "wf_tail rs \<longleftrightarrow> rs = [] \<or> (\<exists>w. rs = [Sleep_Insert w]) \<or> (\<exists>t. rs = [Allocate_Tid t])"

fun wf_kont :: "tid \<Rightarrow> tid \<Rightarrow> act list \<Rightarrow> bool" where
  "wf_kont idle t [] \<longleftrightarrow> t \<noteq> idle"
| "wf_kont idle t (Sema_Down (Sema n) # rs) \<longleftrightarrow> rs = [] \<and> t \<noteq> idle"
| "wf_kont idle t (Sema_Down (Wait_Sema u) # rs) \<longleftrightarrow> u = t \<and> (\<exists>l. rs = [Lock_Acquire l]) \<and> t \<noteq> idle"
| "wf_kont idle t (Sema_Down (Lock_Sema l) # rs) \<longleftrightarrow> (\<exists>r. rs = Lock_Taken l # r \<and> wf_tail r) \<and> t \<noteq> idle"
| "wf_kont idle t (Lock_Taken l # rs) \<longleftrightarrow> wf_tail rs \<and> t \<noteq> idle"
| "wf_kont idle t (Lock_Acquire l # rs) \<longleftrightarrow> wf_tail rs \<and> t \<noteq> idle"
| "wf_kont idle t (Idle # rs) \<longleftrightarrow> rs = [] \<and> t = idle"
| "wf_kont idle t (a # rs) \<longleftrightarrow> rs = [] \<and> t \<noteq> idle"

text \<open>A thread that makes a new one.\<close>

definition creates :: "act list \<Rightarrow> tid set" where
  "creates ks = {t. Allocate_Tid t \<in> set ks \<or> (\<exists>n. Create_Unblock t n \<in> set ks)}"

text \<open>The threads that have been woken up at a semaphore and have not looked at its value yet.\<close>

definition woken :: "(tid \<Rightarrow> thread_status) \<Rightarrow> (tid \<Rightarrow> act list) \<Rightarrow> tid set \<Rightarrow> sema \<Rightarrow> tid set" where
  "woken st kn al s = {t \<in> al. st t \<in> {THREAD_RUNNING, THREAD_READY} \<and> at_down kn s t}"

definition run_ok :: "tid option \<Rightarrow> (tid \<Rightarrow> thread_status) \<Rightarrow> bool" where
  "run_ok ru st \<longleftrightarrow> (\<forall>t. st t = THREAD_RUNNING \<longleftrightarrow> ru = Some t)"

definition ready_ok :: "(tid \<Rightarrow> thread_status) \<Rightarrow> tid list \<Rightarrow> tid \<Rightarrow> bool" where
  "ready_ok st rd idle \<longleftrightarrow> distinct rd \<and> (\<forall>t. t \<in> set rd \<longleftrightarrow> st t = THREAD_READY \<and> t \<noteq> idle)"

definition sleep_ok :: "(tid \<Rightarrow> thread_status) \<Rightarrow> (tid \<Rightarrow> act list) \<Rightarrow> tid list \<Rightarrow> bool" where
  "sleep_ok st kn sl \<longleftrightarrow> distinct sl \<and> (\<forall>t. t \<in> set sl \<longleftrightarrow> kn t = [Sleep_Block] \<or> st t = THREAD_BLOCKED \<and> kn t = [])"

definition wait_ok :: "(tid \<Rightarrow> thread_status) \<Rightarrow> (tid \<Rightarrow> act list) \<Rightarrow> (sema \<Rightarrow> tid list) \<Rightarrow> bool" where
  "wait_ok st kn wt \<longleftrightarrow> (\<forall>s. distinct (wt s) \<and> (\<forall>t. t \<in> set (wt s) \<longleftrightarrow> st t = THREAD_BLOCKED \<and> at_down kn s t))"

definition live_ok :: "(tid \<Rightarrow> thread_status) \<Rightarrow> tid set \<Rightarrow> tid \<Rightarrow> bool" where
  "live_ok st al idle \<longleftrightarrow> finite al \<and> (\<forall>t. t \<in> al \<longleftrightarrow> st t \<noteq> THREAD_DYING) \<and> idle \<in> al"

definition kont_ok :: "(tid \<Rightarrow> thread_status) \<Rightarrow> (tid \<Rightarrow> act list) \<Rightarrow> tid \<Rightarrow> bool" where
  "kont_ok st kn idle \<longleftrightarrow> (\<forall>t. wf_kont idle t (kn t) \<and> (st t = THREAD_BLOCKED \<longrightarrow> kn t = [] \<or> kn t = [Kernel_Thread] \<or> (\<exists>s. at_down kn s t) \<or> t = idle) \<and> (st t = THREAD_DYING \<longrightarrow> kn t = []))"

definition lock_ok :: "tid option \<Rightarrow> (tid \<Rightarrow> act list) \<Rightarrow> (sema \<Rightarrow> nat) \<Rightarrow> (nat \<Rightarrow> tid option) \<Rightarrow> bool" where
  "lock_ok ru kn v h \<longleftrightarrow> (\<forall>l. (\<forall>t. taking kn l t \<longrightarrow> ru = Some t \<and> h l = None) \<and>
     v (Lock_Sema l) = (if h l = None \<and> \<not> (\<exists>t. taking kn l t) then 1 else 0))"

definition wake_ok :: "(tid \<Rightarrow> thread_status) \<Rightarrow> (tid \<Rightarrow> act list) \<Rightarrow> (sema \<Rightarrow> tid list) \<Rightarrow> (sema \<Rightarrow> nat) \<Rightarrow> tid set \<Rightarrow> bool" where
  "wake_ok st kn wt v al \<longleftrightarrow> (\<forall>s. wt s \<noteq> [] \<longrightarrow> v s \<le> card (woken st kn al s))"

text \<open>A blocked thread that has not run yet is being made by exactly one thread.\<close>

definition born_ok :: "(tid \<Rightarrow> thread_status) \<Rightarrow> (tid \<Rightarrow> act list) \<Rightarrow> bool" where
  "born_ok st kn \<longleftrightarrow> (\<forall>t. (st t = THREAD_BLOCKED \<and> kn t = [Kernel_Thread]) = (\<exists>c. t \<in> creates (kn c))) \<and>
     (\<forall>c c' t. t \<in> creates (kn c) \<and> t \<in> creates (kn c') \<longrightarrow> c = c')"

text \<open>
  Status, continuation, ready list, sleeping threads, waiters and values of semaphores, holders of locks, all threads and
  the idle thread; \<open>ru\<close> is the running thread, if there is one.
\<close>

definition core_ok :: "tid option \<Rightarrow> (tid \<Rightarrow> thread_status) \<Rightarrow> (tid \<Rightarrow> act list) \<Rightarrow> tid list \<Rightarrow> tid list \<Rightarrow> (sema \<Rightarrow> tid list) \<Rightarrow>
    (sema \<Rightarrow> nat) \<Rightarrow> (nat \<Rightarrow> tid option) \<Rightarrow> tid set \<Rightarrow> tid \<Rightarrow> bool" where
  "core_ok ru st kn rd sl wt v h al idle \<longleftrightarrow> run_ok ru st \<and> ready_ok st rd idle \<and> sleep_ok st kn sl \<and> wait_ok st kn wt \<and>
     live_ok st al idle \<and> kont_ok st kn idle \<and> lock_ok ru kn v h \<and> wake_ok st kn wt v al \<and> born_ok st kn"

definition kernel_ok :: "kernel \<Rightarrow> bool" where
  "kernel_ok k \<longleftrightarrow> core_ok (Some (current k)) (\<lambda>t. status (threads k t)) (kont k) (ready_list k) (threads_to_wakeup k)
     (sema_waiters k) (sema_value k) (holder k) (set (all_list k)) (idle_thread k)"

text \<open>The state in the middle of a switch.\<close>

definition kernel_off :: "kernel \<Rightarrow> bool" where
  "kernel_off k \<longleftrightarrow> core_ok None (\<lambda>t. status (threads k t)) (kont k) (ready_list k) (threads_to_wakeup k)
     (sema_waiters k) (sema_value k) (holder k) (set (all_list k)) (idle_thread k)"

lemma core_okI:
  "run_ok ru st \<Longrightarrow> ready_ok st rd idle \<Longrightarrow> sleep_ok st kn sl \<Longrightarrow> wait_ok st kn wt \<Longrightarrow> live_ok st al idle \<Longrightarrow> kont_ok st kn idle \<Longrightarrow>
   lock_ok ru kn v h \<Longrightarrow> wake_ok st kn wt v al \<Longrightarrow> born_ok st kn \<Longrightarrow> core_ok ru st kn rd sl wt v h al idle"
  by (simp add: core_ok_def)

lemma core_okD:
  assumes "core_ok ru st kn rd sl wt v h al idle"
  shows "run_ok ru st" "ready_ok st rd idle" "sleep_ok st kn sl" "wait_ok st kn wt" "live_ok st al idle" "kont_ok st kn idle"
    "lock_ok ru kn v h" "wake_ok st kn wt v al" "born_ok st kn"
  using assms by (simp_all add: core_ok_def)

lemma kont_idle: "kont_ok st kn idle \<Longrightarrow> kn idle = [Idle]"
proof -
  assume "kont_ok st kn idle"
  then have "wf_kont idle idle (kn idle)" by (simp add: kont_ok_def)
  then show ?thesis by (cases "(idle, idle, kn idle)" rule: wf_kont.cases) auto
qed

lemma creates_simps [simp]:
  "creates [] = {}" "creates (Sema_Down s # ks) = creates ks" "creates (Lock_Taken l # ks) = creates ks" "creates (Lock_Acquire l # ks) = creates ks"
  "creates (Cond_Broadcast c l # ks) = creates ks" "creates (Sleep_Insert w # ks) = creates ks" "creates (Sleep_Block # ks) = creates ks"
  "creates (Idle # ks) = creates ks" "creates (Check_Priority_Order # ks) = creates ks" "creates (Kernel_Thread # ks) = creates ks"
  "creates (Allocate_Tid t # ks) = insert t (creates ks)" "creates (Create_Unblock t n # ks) = insert t (creates ks)"
  by (auto simp: creates_def)

text \<open>A change that keeps what the threads make.\<close>

lemma born_mono:
  assumes "born_ok st kn" "\<And>t. creates (kn' t) = creates (kn t)"
    and "\<And>t. st' t = THREAD_BLOCKED \<and> kn' t = [Kernel_Thread] \<longleftrightarrow> st t = THREAD_BLOCKED \<and> kn t = [Kernel_Thread]"
  shows "born_ok st' kn'"
  using assms(1) unfolding born_ok_def assms(2,3) .

lemma finite_woken: "finite al \<Longrightarrow> finite (woken st kn al s)"
  by (simp add: woken_def)

lemma mset_insert_ordered: "mset (insert_ordered lt x xs) = mset (x # xs)"
  by (simp add: insert_ordered_def) (metis mset_append takeWhile_dropWhile_id)

lemma set_insert_ordered [simp]: "set (insert_ordered lt x xs) = insert x (set xs)"
  using mset_eq_setD[OF mset_insert_ordered] by simp

lemma distinct_insert_ordered [simp]: "distinct (insert_ordered lt x xs) \<longleftrightarrow> x \<notin> set xs \<and> distinct xs"
  using mset_eq_imp_distinct_iff[OF mset_insert_ordered] by simp

lemma insert_ordered_Nil [simp]: "insert_ordered lt x xs \<noteq> []"
  by (simp add: insert_ordered_def)

section \<open>Switching\<close>

text \<open>The next thread starts to run.\<close>

lemma core_schedule:
  assumes "core_ok None st kn rd sl wt v h al idle" and n: "n = (case rd of [] \<Rightarrow> idle | t # ts \<Rightarrow> t)"
  shows "core_ok (Some n) (st(n := THREAD_RUNNING)) kn (tl rd) sl wt v h al idle"
proof -
  note D = core_okD[OF assms(1)]
  note idle = kont_idle[OF D(6)]
  have st: "st n = THREAD_READY \<or> n = idle" using D(2) by (cases rd) (auto simp: n ready_ok_def)
  have al: "st n \<noteq> THREAD_DYING" "n \<in> al" using D(5) st by (cases "n = idle"; simp add: live_ok_def)+
  have nd: "st n = THREAD_BLOCKED \<Longrightarrow> kn n = [Idle]" "n \<noteq> idle \<Longrightarrow> st n = THREAD_READY" using st idle by auto
  have w: "woken (st(n := THREAD_RUNNING)) kn al s = woken st kn al s" for s
    using nd st idle by (cases "n = idle") (auto simp: woken_def at_down_def)
  show ?thesis
  proof (rule core_okI)
    show "run_ok (Some n) (st(n := THREAD_RUNNING))" using D(1) by (auto simp: run_ok_def)
    show "ready_ok (st(n := THREAD_RUNNING)) (tl rd) idle" using D(2) by (cases rd) (auto simp: ready_ok_def n)
    show "sleep_ok (st(n := THREAD_RUNNING)) kn sl" using D(3) nd st idle by (auto simp: sleep_ok_def)
    show "wait_ok (st(n := THREAD_RUNNING)) kn wt" using D(4) nd st idle by (auto simp: wait_ok_def at_down_def)
    show "live_ok (st(n := THREAD_RUNNING)) al idle" using D(5) al by (auto simp: live_ok_def)
    show "kont_ok (st(n := THREAD_RUNNING)) kn idle" using D(6) by (auto simp: kont_ok_def)
    show "lock_ok (Some n) kn v h" using D(7) by (auto simp: lock_ok_def)
    show "wake_ok (st(n := THREAD_RUNNING)) kn wt v al" using D(8) by (simp add: wake_ok_def w)
    show "born_ok (st(n := THREAD_RUNNING)) kn" by (rule born_mono[OF D(9)]) (use nd(1) in auto)
  qed
qed

text \<open>The running thread stops: it yields, it waits at a semaphore whose value is zero, it sleeps, or it ends.\<close>

lemma core_yield:
  assumes "core_ok (Some c) st kn rd sl wt v h al idle" and nt: "\<And>l. \<not> taking kn l c"
    and rd': "set rd' = (if c = idle then set rd else insert c (set rd))" "distinct rd'"
  shows "core_ok None (st(c := THREAD_READY)) kn rd' sl wt v h al idle"
proof -
  note D = core_okD[OF assms(1)]
  have c: "st c = THREAD_RUNNING" using D(1) by (simp add: run_ok_def)
  have w: "woken (st(c := THREAD_READY)) kn al s = woken st kn al s" for s using c by (auto simp: woken_def)
  show ?thesis
  proof (rule core_okI)
    show "run_ok None (st(c := THREAD_READY))" using D(1) by (auto simp: run_ok_def)
    show "ready_ok (st(c := THREAD_READY)) rd' idle" using D(2) rd' by (auto simp: ready_ok_def split: if_splits)
    show "sleep_ok (st(c := THREAD_READY)) kn sl" using D(3) c by (auto simp: sleep_ok_def)
    show "wait_ok (st(c := THREAD_READY)) kn wt" using D(4) c by (auto simp: wait_ok_def)
    show "live_ok (st(c := THREAD_READY)) al idle" using D(5) c by (auto simp: live_ok_def)
    show "kont_ok (st(c := THREAD_READY)) kn idle" using D(6) by (auto simp: kont_ok_def)
    show "lock_ok None kn v h" using D(7) nt by (fastforce simp: lock_ok_def)
    show "wake_ok (st(c := THREAD_READY)) kn wt v al" using D(8) by (simp add: wake_ok_def w)
    show "born_ok (st(c := THREAD_READY)) kn" by (rule born_mono[OF D(9)]) (use c in auto)
  qed
qed

lemma core_wait:
  assumes "core_ok (Some c) st kn rd sl wt v h al idle" and z: "v s = 0" and nt: "\<And>l. \<not> taking kn l c" "kn c \<noteq> [Sleep_Block]"
    and ad0: "\<And>s'. at_down kn s' c \<Longrightarrow> s' = s" and cr: "creates (kn c) = creates rs"
    and wf: "wf_kont idle c (Sema_Down s # rs)" and ws: "set ws = insert c (set (wt s))" "distinct ws"
  shows "core_ok None (st(c := THREAD_BLOCKED)) (kn(c := Sema_Down s # rs)) rd sl (wt(s := ws)) v h al idle"
proof -
  note D = core_okD[OF assms(1)]
  have c: "st c = THREAD_RUNNING" using D(1) by (simp add: run_ok_def)
  have cw: "c \<notin> set (wt s')" for s' using D(4) c by (simp add: wait_ok_def)
  have tk: "taking (kn(c := Sema_Down s # rs)) l t \<longleftrightarrow> taking kn l t" for l t using nt by (auto simp: taking_def)
  have ad: "at_down (kn(c := Sema_Down s # rs)) s' t \<longleftrightarrow> (if t = c then s' = s else at_down kn s' t)" for s' t by (auto simp: at_down_def)
  have sub: "woken (st(c := THREAD_BLOCKED)) (kn(c := Sema_Down s # rs)) al s' = woken st kn al s'" if "s' \<noteq> s" for s'
    using that ad0 by (auto simp: woken_def ad)
  show ?thesis
  proof (rule core_okI)
    show "run_ok None (st(c := THREAD_BLOCKED))" using D(1) by (auto simp: run_ok_def)
    show "ready_ok (st(c := THREAD_BLOCKED)) rd idle" using D(2) c by (auto simp: ready_ok_def)
    show "sleep_ok (st(c := THREAD_BLOCKED)) (kn(c := Sema_Down s # rs)) sl" using D(3) c nt(2) by (auto simp: sleep_ok_def)
    show "wait_ok (st(c := THREAD_BLOCKED)) (kn(c := Sema_Down s # rs)) (wt(s := ws))" using D(4) c ws cw by (auto simp: wait_ok_def ad)
    show "live_ok (st(c := THREAD_BLOCKED)) al idle" using D(5) c by (auto simp: live_ok_def)
    show "kont_ok (st(c := THREAD_BLOCKED)) (kn(c := Sema_Down s # rs)) idle" using D(6) wf by (auto simp: kont_ok_def ad)
    show "lock_ok None (kn(c := Sema_Down s # rs)) v h" using D(7) nt unfolding lock_ok_def tk by fastforce
    show "wake_ok (st(c := THREAD_BLOCKED)) (kn(c := Sema_Down s # rs)) (wt(s := ws)) v al" using D(8) z sub by (simp add: wake_ok_def)
    show "born_ok (st(c := THREAD_BLOCKED)) (kn(c := Sema_Down s # rs))" by (rule born_mono[OF D(9)]) (use c cr in auto)
  qed
qed

lemma core_sleep:
  assumes "core_ok (Some c) st kn rd sl wt v h al idle" and k: "kn c = [Sleep_Block]"
  shows "core_ok None (st(c := THREAD_BLOCKED)) (kn(c := [])) rd sl wt v h al idle"
proof -
  note D = core_okD[OF assms(1)]
  have c: "st c = THREAD_RUNNING" "c \<noteq> idle" using D(1) kont_idle[OF D(6)] k by (auto simp: run_ok_def)
  have tk: "taking (kn(c := [])) l t \<longleftrightarrow> taking kn l t" for l t using k by (auto simp: taking_def)
  have ad: "at_down (kn(c := [])) s t \<longleftrightarrow> at_down kn s t" for s t using k by (auto simp: at_down_def)
  have nc: "\<not> taking kn l c" "\<not> at_down kn s c" for l s using k by (auto simp: taking_def at_down_def)
  have w: "woken (st(c := THREAD_BLOCKED)) (kn(c := [])) al s = woken st kn al s" for s using nc by (auto simp: woken_def ad)
  show ?thesis
  proof (rule core_okI)
    show "run_ok None (st(c := THREAD_BLOCKED))" using D(1) by (auto simp: run_ok_def)
    show "ready_ok (st(c := THREAD_BLOCKED)) rd idle" using D(2) c by (auto simp: ready_ok_def)
    show "sleep_ok (st(c := THREAD_BLOCKED)) (kn(c := [])) sl" using D(3) c k by (auto simp: sleep_ok_def)
    show "wait_ok (st(c := THREAD_BLOCKED)) (kn(c := [])) wt" using D(4) c nc by (auto simp: wait_ok_def ad)
    show "live_ok (st(c := THREAD_BLOCKED)) al idle" using D(5) c by (auto simp: live_ok_def)
    show "kont_ok (st(c := THREAD_BLOCKED)) (kn(c := [])) idle" using D(6) c by (auto simp: kont_ok_def ad)
    show "lock_ok None (kn(c := [])) v h" using D(7) nc unfolding lock_ok_def tk by fastforce
    show "wake_ok (st(c := THREAD_BLOCKED)) (kn(c := [])) wt v al" using D(8) by (simp add: wake_ok_def w)
    show "born_ok (st(c := THREAD_BLOCKED)) (kn(c := []))" by (rule born_mono[OF D(9)]) (use c k in auto)
  qed
qed

lemma core_idle:
  assumes "core_ok (Some idle) st kn rd sl wt v h al idle"
  shows "core_ok None (st(idle := THREAD_BLOCKED)) kn rd sl wt v h al idle"
proof -
  note D = core_okD[OF assms(1)]
  have c: "st idle = THREAD_RUNNING" "kn idle = [Idle]" using D(1) kont_idle[OF D(6)] by (auto simp: run_ok_def)
  have nc: "\<not> taking kn l idle" "\<not> at_down kn s idle" for l s using c by (auto simp: taking_def at_down_def)
  have w: "woken (st(idle := THREAD_BLOCKED)) kn al s = woken st kn al s" for s using nc by (auto simp: woken_def)
  show ?thesis
  proof (rule core_okI)
    show "run_ok None (st(idle := THREAD_BLOCKED))" using D(1) by (auto simp: run_ok_def)
    show "ready_ok (st(idle := THREAD_BLOCKED)) rd idle" using D(2) c by (auto simp: ready_ok_def)
    show "sleep_ok (st(idle := THREAD_BLOCKED)) kn sl" using D(3) c by (auto simp: sleep_ok_def)
    show "wait_ok (st(idle := THREAD_BLOCKED)) kn wt" using D(4) c nc by (auto simp: wait_ok_def)
    show "live_ok (st(idle := THREAD_BLOCKED)) al idle" using D(5) c by (auto simp: live_ok_def)
    show "kont_ok (st(idle := THREAD_BLOCKED)) kn idle" using D(6) c by (auto simp: kont_ok_def)
    show "lock_ok None kn v h" using D(7) nc by (fastforce simp: lock_ok_def)
    show "wake_ok (st(idle := THREAD_BLOCKED)) kn wt v al" using D(8) by (simp add: wake_ok_def w)
    show "born_ok (st(idle := THREAD_BLOCKED)) kn" by (rule born_mono[OF D(9)]) (use c in auto)
  qed
qed

lemma core_exit:
  assumes "core_ok (Some c) st kn rd sl wt v h al idle" and k: "kn c = []"
  shows "core_ok None (st(c := THREAD_DYING)) kn rd sl wt v h (al - {c}) idle"
proof -
  note D = core_okD[OF assms(1)]
  have c: "st c = THREAD_RUNNING" "c \<noteq> idle" using D(1) kont_idle[OF D(6)] k by (auto simp: run_ok_def)
  have nc: "\<not> taking kn l c" "\<not> at_down kn s c" for l s using k by (auto simp: taking_def at_down_def)
  have w: "woken (st(c := THREAD_DYING)) kn (al - {c}) s = woken st kn al s" for s using nc by (auto simp: woken_def)
  show ?thesis
  proof (rule core_okI)
    show "run_ok None (st(c := THREAD_DYING))" using D(1) by (auto simp: run_ok_def)
    show "ready_ok (st(c := THREAD_DYING)) rd idle" using D(2) c by (auto simp: ready_ok_def)
    show "sleep_ok (st(c := THREAD_DYING)) kn sl" using D(3) c k by (auto simp: sleep_ok_def)
    show "wait_ok (st(c := THREAD_DYING)) kn wt" using D(4) c nc by (auto simp: wait_ok_def)
    show "live_ok (st(c := THREAD_DYING)) (al - {c}) idle" using D(5) c by (auto simp: live_ok_def)
    show "kont_ok (st(c := THREAD_DYING)) kn idle" using D(6) k by (auto simp: kont_ok_def)
    show "lock_ok None kn v h" using D(7) nc by (fastforce simp: lock_ok_def)
    show "wake_ok (st(c := THREAD_DYING)) kn wt v (al - {c})" using D(8) by (simp add: wake_ok_def w)
    show "born_ok (st(c := THREAD_DYING)) kn" by (rule born_mono[OF D(9)]) (use c in auto)
  qed
qed

section \<open>Other changes\<close>

text \<open>A thread is woken up at a semaphore whose value grows; the locks are given for the result.\<close>

lemma core_up:
  assumes "core_ok (Some c) st kn rd sl wt v h0 al idle" and ws: "mset (t # ws) = mset (wt s)" and rd': "mset rd' = mset (t # rd)"
    and lk: "lock_ok (Some c) kn (v(s := v s + 1)) h"
  shows "core_ok (Some c) (st(t := THREAD_READY)) kn rd' sl (wt(s := ws)) (v(s := v s + 1)) h al idle"
proof -
  note D = core_okD[OF assms(1)]
  have ds: "distinct (t # ws)" using D(4) mset_eq_imp_distinct_iff[OF ws] by (simp add: wait_ok_def)
  have sw: "set (wt s) = insert t (set ws)" using mset_eq_setD[OF ws] by simp
  then have t: "st t = THREAD_BLOCKED" "at_down kn s t" using D(4) by (auto simp: wait_ok_def)
  have srd: "set rd' = insert t (set rd)" using mset_eq_setD[OF rd'] by simp
  have c: "st c = THREAD_RUNNING" using D(1) by (simp add: run_ok_def)
  have ti: "t \<noteq> idle" "kn t \<noteq> []" "t \<in> al" "t \<noteq> c" using t c kont_idle[OF D(6)] D(5) by (auto simp: at_down_def live_ok_def)
  have ad: "at_down kn s' t \<longleftrightarrow> s' = s" for s' using t(2) by (auto simp: at_down_def)
  have w: "woken (st(t := THREAD_READY)) kn al s' = (if s' = s then insert t (woken st kn al s) else woken st kn al s')" for s'
    using t(1) ti(3) by (auto simp: woken_def ad)
  have nw: "t \<notin> woken st kn al s" using t(1) by (simp add: woken_def)
  show ?thesis
  proof (rule core_okI)
    show "run_ok (Some c) (st(t := THREAD_READY))" using D(1) ti(4) by (auto simp: run_ok_def)
    have "t \<notin> set rd" using D(2) t(1) by (simp add: ready_ok_def)
    then have "distinct rd'" using mset_eq_imp_distinct_iff[OF rd'] D(2) by (simp add: ready_ok_def)
    then show "ready_ok (st(t := THREAD_READY)) rd' idle" using D(2) ti(1) by (simp add: ready_ok_def srd)
    show "sleep_ok (st(t := THREAD_READY)) kn sl" using D(3) ti(2) by (auto simp: sleep_ok_def)
    have "x \<in> set ws \<longleftrightarrow> x \<in> set (wt s) \<and> x \<noteq> t" for x using ds sw by auto
    then show "wait_ok (st(t := THREAD_READY)) kn (wt(s := ws))" using D(4) ds by (auto simp: wait_ok_def ad)
    show "live_ok (st(t := THREAD_READY)) al idle" using D(5) ti(3) by (auto simp: live_ok_def)
    show "kont_ok (st(t := THREAD_READY)) kn idle" using D(6) by (auto simp: kont_ok_def)
    show "lock_ok (Some c) kn (v(s := v s + 1)) h" by (rule lk)
    have f: "finite (woken st kn al s)" using D(5) finite_woken by (simp add: live_ok_def)
    have "wt s \<noteq> []" using sw by auto
    then show "wake_ok (st(t := THREAD_READY)) kn (wt(s := ws)) (v(s := v s + 1)) al" using D(8) nw f by (auto simp: wake_ok_def w)
    show "born_ok (st(t := THREAD_READY)) kn" by (rule born_mono[OF D(9)]) (use t(2) in \<open>auto simp: at_down_def\<close>)
  qed
qed

lemma core_up_free:
  assumes "core_ok (Some c) st kn rd sl wt v h0 al idle" "wt s = []" "lock_ok (Some c) kn (v(s := v s + 1)) h"
  shows "core_ok (Some c) st kn rd sl wt (v(s := v s + 1)) h al idle"
  using assms by (auto simp: core_ok_def wake_ok_def)

text \<open>A sleeping thread becomes ready.\<close>

lemma core_wake:
  assumes "core_ok (Some c) st kn rd sl wt v h al idle" and t: "st t = THREAD_BLOCKED" "kn t = []" and sl': "mset sl = mset (t # sl')" and rd': "mset rd' = mset (t # rd)"
  shows "core_ok (Some c) (st(t := THREAD_READY)) kn rd' sl' wt v h al idle"
proof -
  note D = core_okD[OF assms(1)]
  have nd: "\<not> at_down kn s t" for s using t(2) by (simp add: at_down_def)
  have c: "st c = THREAD_RUNNING" using D(1) by (simp add: run_ok_def)
  have ti: "t \<noteq> idle" "t \<in> al" "t \<noteq> c" "t \<notin> set rd" using t c kont_idle[OF D(6)] D(2,5) by (auto simp: live_ok_def ready_ok_def)
  have w: "woken (st(t := THREAD_READY)) kn al s = woken st kn al s" for s using nd by (auto simp: woken_def)
  have sl: "distinct (t # sl')" "set sl = insert t (set sl')" using D(3) mset_eq_imp_distinct_iff[OF sl'] mset_eq_setD[OF sl'] by (auto simp: sleep_ok_def)
  have rd: "distinct rd'" "set rd' = insert t (set rd)" using mset_eq_imp_distinct_iff[OF rd'] mset_eq_setD[OF rd'] D(2) ti(4) by (auto simp: ready_ok_def)
  show ?thesis
  proof (rule core_okI)
    show "run_ok (Some c) (st(t := THREAD_READY))" using D(1) ti(3) by (auto simp: run_ok_def)
    show "ready_ok (st(t := THREAD_READY)) rd' idle" using D(2) ti(1) by (simp add: ready_ok_def rd)
    show "sleep_ok (st(t := THREAD_READY)) kn sl'" using D(3) sl t(2) by (auto simp: sleep_ok_def)
    show "wait_ok (st(t := THREAD_READY)) kn wt" using D(4) nd by (auto simp: wait_ok_def)
    show "live_ok (st(t := THREAD_READY)) al idle" using D(5) ti(2) by (auto simp: live_ok_def)
    show "kont_ok (st(t := THREAD_READY)) kn idle" using D(6) by (auto simp: kont_ok_def)
    show "lock_ok (Some c) kn v h" by (rule D(7))
    show "wake_ok (st(t := THREAD_READY)) kn wt v al" using D(8) by (simp add: wake_ok_def w)
    show "born_ok (st(t := THREAD_READY)) kn" by (rule born_mono[OF D(9)]) (use t(2) in auto)
  qed
qed

text \<open>The running thread begins to make a new thread, and makes it ready.\<close>

lemma core_new:
  assumes "core_ok (Some c) st kn rd sl wt v h al idle" and k: "kn c = []" and t: "t \<notin> al"
  shows "core_ok (Some c) (st(t := THREAD_BLOCKED)) (kn(t := [Kernel_Thread], c := [Lock_Acquire l, Allocate_Tid t])) rd sl wt v h (insert t al) idle"
proof -
  let ?st = "st(t := THREAD_BLOCKED)" and ?kn = "kn(t := [Kernel_Thread], c := [Lock_Acquire l, Allocate_Tid t])"
  note D = core_okD[OF assms(1)]
  have st: "st t = THREAD_DYING" "kn t = []" using D(5,6) t by (auto simp: live_ok_def kont_ok_def)
  have c: "st c = THREAD_RUNNING" "c \<noteq> idle" using D(1) kont_idle[OF D(6)] k by (auto simp: run_ok_def)
  have ti: "t \<noteq> idle" using t D(5) unfolding live_ok_def by blast
  have tc: "t \<noteq> c" using st c by fastforce
  have ad: "at_down ?kn s u \<longleftrightarrow> at_down kn s u" for s u using k st(2) by (auto simp: at_down_def)
  have tk: "taking ?kn l' u \<longleftrightarrow> taking kn l' u" for l' u using k st(2) by (auto simp: taking_def)
  have nd: "\<not> at_down kn s t" for s using st(2) by (simp add: at_down_def)
  have w: "woken ?st ?kn (insert t al) s = woken st kn al s" for s using nd by (auto simp: woken_def ad)
  have nb: "t \<notin> creates (kn u)" for u using D(9) st(1) unfolding born_ok_def by (metis thread_status.distinct(11))
  have cr: "creates (?kn u) = (if u = c then {t} else creates (kn u))" for u using st(2) by simp
  show ?thesis
  proof (rule core_okI)
    show "run_ok (Some c) ?st" using D(1) tc by (auto simp: run_ok_def)
    show "ready_ok ?st rd idle" using D(2) st by (auto simp: ready_ok_def)
    show "sleep_ok ?st ?kn sl" using D(3) st k c tc by (auto simp: sleep_ok_def)
    show "wait_ok ?st ?kn wt" using D(4) nd st(1) by (auto simp: wait_ok_def ad)
    show "live_ok ?st (insert t al) idle" using D(5) by (auto simp: live_ok_def)
    show "kont_ok ?st ?kn idle" unfolding kont_ok_def ad using D(6) c ti tc by (simp add: kont_ok_def wf_tail_def)
    show "lock_ok (Some c) ?kn v h" using D(7) unfolding lock_ok_def tk .
    show "wake_ok ?st ?kn wt v (insert t al)" using D(8) by (simp add: wake_ok_def w)
    have b1: "(?st u = THREAD_BLOCKED \<and> ?kn u = [Kernel_Thread]) = (u = t \<or> st u = THREAD_BLOCKED \<and> kn u = [Kernel_Thread])" for u using c tc by auto
    have b2: "(\<exists>d. u \<in> creates (?kn d)) = (u = t \<or> (\<exists>d. u \<in> creates (kn d)))" for u
      unfolding cr using k by (cases "u = t") (auto, metis creates_simps(1) empty_iff)
    show "born_ok ?st ?kn"
      unfolding born_ok_def b1 b2 using D(9) nb unfolding born_ok_def cr by (auto split: if_splits)
  qed
qed

lemma core_born:
  assumes "core_ok (Some c) st kn rd sl wt v h al idle" and k: "kn c = [Create_Unblock t n]" and rd': "mset rd' = mset (t # rd)"
  shows "core_ok (Some c) (st(t := THREAD_READY)) (kn(c := [Check_Priority_Order])) rd' sl wt v h al idle"
proof -
  let ?st = "st(t := THREAD_READY)" and ?kn = "kn(c := [Check_Priority_Order])"
  note D = core_okD[OF assms(1)]
  have "t \<in> creates (kn c)" by (simp add: k)
  then have t: "st t = THREAD_BLOCKED" "kn t = [Kernel_Thread]" and only: "\<And>u. t \<in> creates (kn u) \<Longrightarrow> u = c" using D(9) unfolding born_ok_def by blast+
  have c: "st c = THREAD_RUNNING" "c \<noteq> idle" using D(1) kont_idle[OF D(6)] k by (auto simp: run_ok_def)
  have ti: "t \<noteq> idle" "t \<in> al" "t \<noteq> c" "t \<notin> set rd" using t c kont_idle[OF D(6)] D(2,5) by (auto simp: live_ok_def ready_ok_def)
  have ad: "at_down ?kn s u \<longleftrightarrow> at_down kn s u" for s u using k by (auto simp: at_down_def)
  have tk: "taking ?kn l u \<longleftrightarrow> taking kn l u" for l u using k by (auto simp: taking_def)
  have nd: "\<not> at_down kn s t" for s using t(2) by (simp add: at_down_def)
  have w: "woken ?st ?kn al s = woken st kn al s" for s using nd by (auto simp: woken_def ad)
  have rd: "distinct rd'" "set rd' = insert t (set rd)" using mset_eq_imp_distinct_iff[OF rd'] mset_eq_setD[OF rd'] D(2) ti(4) by (auto simp: ready_ok_def)
  have cr: "creates (?kn u) = creates (kn u) - {t}" for u
  proof (cases "u = c")
    case True then show ?thesis by (simp add: k)
  next
    case False
    then have "t \<notin> creates (kn u)" using only by blast
    then show ?thesis using False by simp
  qed
  show ?thesis
  proof (rule core_okI)
    show "run_ok (Some c) ?st" using D(1) ti(3) by (auto simp: run_ok_def)
    show "ready_ok ?st rd' idle" using D(2) ti(1) by (simp add: ready_ok_def rd)
    show "sleep_ok ?st ?kn sl" using D(3) t(2) k c by (auto simp: sleep_ok_def)
    show "wait_ok ?st ?kn wt" using D(4) nd by (auto simp: wait_ok_def ad)
    show "live_ok ?st al idle" using D(5) ti(2) by (auto simp: live_ok_def)
    show "kont_ok ?st ?kn idle" unfolding kont_ok_def ad using D(6) c by (simp add: kont_ok_def)
    show "lock_ok (Some c) ?kn v h" using D(7) unfolding lock_ok_def tk .
    show "wake_ok ?st ?kn wt v al" using D(8) by (simp add: wake_ok_def w)
    have b: "(?st u = THREAD_BLOCKED \<and> ?kn u = [Kernel_Thread]) = (u \<noteq> t \<and> st u = THREAD_BLOCKED \<and> kn u = [Kernel_Thread])" for u using c by auto
    show "born_ok ?st ?kn" using D(9) unfolding born_ok_def b cr by blast
  qed
qed

text \<open>The running thread goes on to another part of what it has to do.\<close>

lemma core_kont:
  assumes "core_ok (Some c) st kn rd sl wt v h0 al idle" and wf: "wf_kont idle c ks"
    and sl': "distinct sl'" "set sl' = (if ks = [Sleep_Block] then insert c (set sl) else set sl - {c})"
    and v': "\<And>s. v' s \<le> v s - 1 \<or> v' s \<le> v s \<and> (at_down kn s c \<longrightarrow> (\<exists>rs. ks = Sema_Down s # rs))"
    and lk: "lock_ok (Some c) (kn(c := ks)) v' h" and cr: "creates ks = creates (kn c)"
  shows "core_ok (Some c) st (kn(c := ks)) rd sl' wt v' h al idle"
proof -
  note D = core_okD[OF assms(1)]
  have c: "st c = THREAD_RUNNING" using D(1) by (simp add: run_ok_def)
  have cw: "c \<notin> set (wt s)" for s using D(4) c by (simp add: wait_ok_def)
  show ?thesis
  proof (rule core_okI)
    show "run_ok (Some c) st" by (rule D(1))
    show "ready_ok st rd idle" by (rule D(2))
    show "sleep_ok st (kn(c := ks)) sl'" using D(3) c sl' by (auto simp: sleep_ok_def)
    show "wait_ok st (kn(c := ks)) wt" using D(4) c cw by (auto simp: wait_ok_def at_down_def)
    show "live_ok st al idle" by (rule D(5))
    have "t \<noteq> c \<Longrightarrow> at_down (kn(c := ks)) s t \<longleftrightarrow> at_down kn s t" for s t by (simp add: at_down_def)
    then show "kont_ok st (kn(c := ks)) idle" using D(6) wf c by (auto simp: kont_ok_def)
    show "lock_ok (Some c) (kn(c := ks)) v' h" by (rule lk)
    have f: "finite (woken st kn al s)" for s using D(5) finite_woken by (simp add: live_ok_def)
    have "v' s \<le> card (woken st (kn(c := ks)) al s)" if "wt s \<noteq> []" for s
    proof -
      have *: "v s \<le> card (woken st kn al s)" using D(8) that by (simp add: wake_ok_def)
      have sub: "woken st kn al s - {c} \<subseteq> woken st (kn(c := ks)) al s" by (auto simp: woken_def at_down_def)
      have fin: "finite (woken st (kn(c := ks)) al s)" using D(5) finite_woken by (simp add: live_ok_def)
      have "card (woken st kn al s) - 1 \<le> card (woken st kn al s - {c})" by (simp add: card_Diff_singleton_if)
      also have "\<dots> \<le> card (woken st (kn(c := ks)) al s)" by (rule card_mono[OF fin sub])
      finally have m: "card (woken st kn al s) - 1 \<le> card (woken st (kn(c := ks)) al s)" .
      show ?thesis
      proof (cases "v' s \<le> v s - 1")
        case True
        then show ?thesis using * m by linarith
      next
        case False
        then have "woken st kn al s \<subseteq> woken st (kn(c := ks)) al s" using v'[of s] by (auto simp: woken_def at_down_def)
        then have "card (woken st kn al s) \<le> card (woken st (kn(c := ks)) al s)" by (rule card_mono[OF fin])
        then show ?thesis using * v'[of s] by linarith
      qed
    qed
    then show "wake_ok st (kn(c := ks)) wt v' al" by (simp add: wake_ok_def)
    show "born_ok st (kn(c := ks))" by (rule born_mono[OF D(9)]) (use c cr in auto)
  qed
qed

section \<open>The kernel\<close>

lemma upd_sel [simp]:
  "all_list (upd t f k) = all_list k" "ready_list (upd t f k) = ready_list k" "idle_thread (upd t f k) = idle_thread k" "current (upd t f k) = current k"
  "kont (upd t f k) = kont k" "sema_value (upd t f k) = sema_value k" "sema_waiters (upd t f k) = sema_waiters k" "holder (upd t f k) = holder k"
  "cond_waiters (upd t f k) = cond_waiters k" "thread_mlfqs (upd t f k) = thread_mlfqs k" "threads_to_wakeup (upd t f k) = threads_to_wakeup k"
  "initial_thread (upd t f k) = initial_thread k" "ticks (upd t f k) = ticks k" "load_avg (upd t f k) = load_avg k" "thread_ticks (upd t f k) = thread_ticks k"
  "threads (upd t f k) = (threads k)(t := f (threads k t))"
  by (simp_all add: upd_def)

lemma set_kont_sel [simp]:
  "all_list (set_kont ks k) = all_list k" "ready_list (set_kont ks k) = ready_list k" "idle_thread (set_kont ks k) = idle_thread k" "current (set_kont ks k) = current k"
  "kont (set_kont ks k) = (kont k)(current k := ks)" "sema_value (set_kont ks k) = sema_value k" "sema_waiters (set_kont ks k) = sema_waiters k" "holder (set_kont ks k) = holder k"
  "cond_waiters (set_kont ks k) = cond_waiters k" "thread_mlfqs (set_kont ks k) = thread_mlfqs k" "threads_to_wakeup (set_kont ks k) = threads_to_wakeup k"
  "threads (set_kont ks k) = threads k"
  by (simp_all add: set_kont_def)

lemma set_status_sel [simp]:
  "all_list (set_status t x k) = all_list k" "ready_list (set_status t x k) = ready_list k" "idle_thread (set_status t x k) = idle_thread k" "current (set_status t x k) = current k"
  "kont (set_status t x k) = kont k" "sema_value (set_status t x k) = sema_value k" "sema_waiters (set_status t x k) = sema_waiters k" "holder (set_status t x k) = holder k"
  "cond_waiters (set_status t x k) = cond_waiters k" "thread_mlfqs (set_status t x k) = thread_mlfqs k" "threads_to_wakeup (set_status t x k) = threads_to_wakeup k"
  "ticks (set_status t x k) = ticks k"
  by (simp_all add: set_status_def)

definition statuses :: "kernel \<Rightarrow> tid \<Rightarrow> thread_status" where
  "statuses k = (\<lambda>t. status (threads k t))"

lemma statuses_set [simp]: "statuses (set_status t x k) = (statuses k)(t := x)"
  by (auto simp: statuses_def set_status_def)

lemma statuses_kont [simp]: "statuses (set_kont ks k) = statuses k"
  by (simp add: statuses_def)

lemma kernel_ok_iff:
  "kernel_ok k \<longleftrightarrow> core_ok (Some (current k)) (statuses k) (kont k) (ready_list k) (threads_to_wakeup k)
     (sema_waiters k) (sema_value k) (holder k) (set (all_list k)) (idle_thread k)"
  "kernel_off k \<longleftrightarrow> core_ok None (statuses k) (kont k) (ready_list k) (threads_to_wakeup k)
     (sema_waiters k) (sema_value k) (holder k) (set (all_list k)) (idle_thread k)"
  by (simp_all add: kernel_ok_def kernel_off_def statuses_def)

text \<open>The part of the state that the invariant is about, and what does not change it.\<close>

definition core :: "kernel \<Rightarrow> tid \<times> (tid \<Rightarrow> thread_status) \<times> (tid \<Rightarrow> act list) \<times> tid list \<times> tid list \<times> (sema \<Rightarrow> tid list) \<times> (sema \<Rightarrow> nat) \<times>
    (nat \<Rightarrow> tid option) \<times> tid list \<times> tid \<times> bool" where
  "core k = (current k, statuses k, kont k, ready_list k, threads_to_wakeup k, sema_waiters k, sema_value k, holder k, all_list k, idle_thread k, thread_mlfqs k)"

lemma core_cong: "core k' = core k \<Longrightarrow> kernel_ok k' \<longleftrightarrow> kernel_ok k"
  by (simp add: kernel_ok_iff core_def)

lemma core_upd: "(\<And>x. status (f x) = status x) \<Longrightarrow> core (upd t f k) = core k"
  by (auto simp: core_def statuses_def)

lemma core_donate:
  assumes "donate_loop cur k = Some k'"
  shows "core k' = core k"
proof (rule donate_loop.raw_induct[where P = "\<lambda>cur k k'. core k' = core k", OF _ assms])
  fix f cur k k'
  assume IH: "\<And>cur k k'. f cur k = Some k' \<Longrightarrow> core k' = core k"
    and f: "(case wait_lock (threads k cur) of None \<Rightarrow> Some k
      | Some l \<Rightarrow> (case holder k l of None \<Rightarrow> Some k
           | Some h \<Rightarrow> if \<not> page_alive k h then None
               else if priority (threads k h) \<ge> priority (threads k cur) then Some k
               else f h (upd h (\<lambda>x. x\<lparr>priority := priority (threads k cur)\<rparr>) k))) = Some k'"
  show "core k' = core k"
    using f IH by (auto simp: core_upd split: option.splits if_splits)
qed

lemma core_check_to_donate: "check_to_donate cur k = Some k' \<Longrightarrow> core k' = core k"
  unfolding check_to_donate_def by (rule core_donate)

lemma core_donations: "core (remove_donations l k) = core k" "core (check_needs_donations cur k) = core k"
  by (auto simp: remove_donations_def check_needs_donations_def core_upd Let_def split: list.split)

lemma mset_sort_passes:
  assumes "sort_passes lt xs = Some ys"
  shows "mset ys = mset xs"
proof (rule sort_passes.raw_induct[where P = "\<lambda>lt xs ys. mset ys = mset xs", OF _ assms])
  fix f lt xs ys
  assume IH: "\<And>lt xs ys. f lt xs = Some ys \<Longrightarrow> mset ys = mset xs"
    and f: "(let (ys, n) = pass lt xs in if n > 1 then f lt ys else Some ys) = Some ys"
  show "mset ys = mset xs" using f IH pass_mset[of lt xs] by (auto simp: case_prod_beta Let_def split: if_splits)
qed

lemma mset_sort_seq: "sort_seq lt xs = Some ys \<Longrightarrow> mset ys = mset xs"
  using mset_sort_passes by (auto simp: sort_seq_def assert_def bind_eq_Some_conv split: if_splits)

text \<open>Scheduling.\<close>

lemma schedule_ok:
  assumes "kernel_off k" "schedule k = Some k'"
  shows "kernel_ok k'" "holder k' = holder k" "kont k' = kont k" "threads_to_wakeup k' = threads_to_wakeup k"
proof -
  define n where "n = (case ready_list k of [] \<Rightarrow> idle_thread k | t # ts \<Rightarrow> t)"
  have k': "current k' = n" "ready_list k' = tl (ready_list k)" "statuses k' = (statuses k)(n := THREAD_RUNNING)"
    "kont k' = kont k" "threads_to_wakeup k' = threads_to_wakeup k" "sema_waiters k' = sema_waiters k" "sema_value k' = sema_value k"
    "holder k' = holder k" "all_list k' = all_list k" "idle_thread k' = idle_thread k"
    using assms(2) by (cases "ready_list k"; auto simp: schedule_def next_thread_to_run_def thread_schedule_tail_def assert_def n_def statuses_def set_status_def
      bind_eq_Some_conv split: if_splits)+
  show "kernel_ok k'"
    using core_schedule[OF assms(1)[unfolded kernel_ok_iff] n_def] unfolding kernel_ok_iff k' .
  show "holder k' = holder k" "kont k' = kont k" "threads_to_wakeup k' = threads_to_wakeup k" by (simp_all add: k')
qed

lemma thread_yield_ok:
  assumes "kernel_ok k" "\<And>l. \<not> taking (kont k) l (current k)" "thread_yield k = Some k'"
  shows "kernel_ok k'" "holder k' = holder k" "kont k' = kont k"
proof -
  let ?rd = "if current k \<noteq> idle_thread k then insert_ordered (compare_priority k) (current k) (ready_list k) else ready_list k"
  let ?k = "set_status (current k) THREAD_READY (k\<lparr>ready_list := ?rd\<rparr>)"
  have s: "schedule ?k = Some k'" using assms(3) by (simp add: thread_yield_def Let_def split: if_splits)
  note ok = assms(1)[unfolded kernel_ok_iff]
  have "statuses k (current k) = THREAD_RUNNING" using core_okD(1)[OF ok] by (simp add: run_ok_def)
  then have "current k \<notin> set (ready_list k)" "distinct (ready_list k)" using core_okD(2)[OF ok] by (auto simp: ready_ok_def)
  then have "core_ok None ((statuses k)(current k := THREAD_READY)) (kont k) ?rd (threads_to_wakeup k) (sema_waiters k) (sema_value k) (holder k)
      (set (all_list k)) (idle_thread k)" by (intro core_yield[OF ok assms(2)]) auto
  moreover have "statuses ?k = (statuses k)(current k := THREAD_READY)" by (auto simp: statuses_def set_status_def)
  ultimately have "kernel_off ?k" unfolding kernel_ok_iff by (simp split del: if_split)
  from schedule_ok[OF this s] show "kernel_ok k'" "holder k' = holder k" "kont k' = kont k" by simp_all
qed

lemma check_priority_order_ok:
  assumes "kernel_ok k" "\<And>l. \<not> taking (kont k) l (current k)" "check_priority_order k = Some k'"
  shows "kernel_ok k'" "holder k' = holder k" "kont k' = kont k"
  using assms thread_yield_ok[OF assms(1,2)] by (auto simp: check_priority_order_def Let_def split: if_splits)

section \<open>Operations keep the invariant\<close>

lemma running:
  assumes "kernel_ok k"
  shows "statuses k (current k) = THREAD_RUNNING" "wf_kont (idle_thread k) (current k) (kont k (current k))" "current k \<in> set (all_list k)"
    "current k \<notin> set (ready_list k)" "\<And>s. current k \<notin> set (sema_waiters k s)"
    "kont k (current k) \<noteq> [Sleep_Block] \<Longrightarrow> current k \<notin> set (threads_to_wakeup k)"
proof -
  note D = core_okD[OF assms[unfolded kernel_ok_iff(1)]]
  show r: "statuses k (current k) = THREAD_RUNNING" using D(1) by (simp add: run_ok_def)
  show "wf_kont (idle_thread k) (current k) (kont k (current k))" using D(6) by (simp add: kont_ok_def)
  show "current k \<in> set (all_list k)" using D(5) r by (simp add: live_ok_def)
  show "current k \<notin> set (ready_list k)" using D(2) r by (simp add: ready_ok_def)
  show "current k \<notin> set (sema_waiters k s)" for s using D(4) r by (simp add: wait_ok_def)
  show "current k \<notin> set (threads_to_wakeup k)" if "kont k (current k) \<noteq> [Sleep_Block]" using D(3) r that by (simp add: sleep_ok_def)
qed

lemma wf_kont_down:
  assumes "wf_kont idle t (Sema_Down s # rs)"
  shows "wf_kont idle t rs" "rs \<noteq> [Sleep_Block]" "t \<noteq> idle" "(\<exists>rs'. rs = Lock_Taken l # rs') \<longleftrightarrow> s = Lock_Sema l" "rs \<noteq> Sema_Down s' # rs'"
  using assms by (cases s; auto simp: wf_tail_def)+

text \<open>The conditions on the running thread when it comes to the loop of \<^const>\<open>sema_down\<close>.\<close>

definition comes_down :: "kernel \<Rightarrow> sema \<Rightarrow> bool" where
  "comes_down k s \<longleftrightarrow> kont k (current k) \<noteq> [Sleep_Block] \<and> (\<forall>l. \<not> taking (kont k) l (current k)) \<and> (\<forall>s'. at_down (kont k) s' (current k) \<longrightarrow> s' = s)"

lemma sema_down_ok:
  assumes ok: "kernel_ok k" and cd: "comes_down k s" and wf: "wf_kont (idle_thread k) (current k) (Sema_Down s # rs)" and cr: "creates (kont k (current k)) = creates rs" and r: "sema_down s rs k = Some k'"
  shows "kernel_ok k'" "holder k' = holder k"
proof -
  let ?c = "current k"
  have nt: "\<And>l. \<not> taking (kont k) l ?c" "kont k ?c \<noteq> [Sleep_Block]" "\<And>s'. at_down (kont k) s' ?c \<Longrightarrow> s' = s" using cd by (auto simp: comes_down_def)
  note run = running[OF ok]
  have "kernel_ok k' \<and> holder k' = holder k"
  proof (cases "sema_value k s = 0")
    case True
    then obtain k1 where k1: "(if \<not> thread_mlfqs k then check_to_donate ?c k else Some k) = Some k1"
      "thread_block (set_kont (Sema_Down s # rs) (k1\<lparr>sema_waiters := (sema_waiters k1)(s := insert_ordered (compare_priority k1) (current k1) (sema_waiters k1 s))\<rparr>)) = Some k'"
      using r by (auto simp: sema_down_def Let_def bind_eq_Some_conv)
    have c1: "core k1 = core k" using k1(1) core_check_to_donate by (auto split: if_splits)
    then have cur: "current k1 = ?c" "sema_waiters k1 = sema_waiters k" "statuses k1 = statuses k" "kont k1 = kont k" "ready_list k1 = ready_list k"
      "threads_to_wakeup k1 = threads_to_wakeup k" "sema_value k1 = sema_value k" "holder k1 = holder k" "all_list k1 = all_list k" "idle_thread k1 = idle_thread k"
      by (simp_all add: core_def)
    let ?ws = "insert_ordered (compare_priority k1) ?c (sema_waiters k s)"
    let ?k = "set_status ?c THREAD_BLOCKED (set_kont (Sema_Down s # rs) (k1\<lparr>sema_waiters := (sema_waiters k)(s := ?ws)\<rparr>))"
    have sch: "schedule ?k = Some k'" using k1(2) by (simp add: thread_block_def cur)
    have "distinct (sema_waiters k s)" using core_okD(4)[OF ok[unfolded kernel_ok_iff]] by (simp add: wait_ok_def)
    then have "core_ok None ((statuses k)(?c := THREAD_BLOCKED)) ((kont k)(?c := Sema_Down s # rs)) (ready_list k) (threads_to_wakeup k)
      ((sema_waiters k)(s := ?ws)) (sema_value k) (holder k) (set (all_list k)) (idle_thread k)"
      by (intro core_wait[OF ok[unfolded kernel_ok_iff] True nt cr wf]) (use run(5) in auto)
    moreover have "statuses (k1\<lparr>sema_waiters := (sema_waiters k)(s := ?ws)\<rparr>) = statuses k" using cur(3) by (auto simp: statuses_def)
    ultimately have "kernel_off ?k" unfolding kernel_ok_iff by (simp add: cur)
    from schedule_ok[OF this sch] show ?thesis by (simp add: cur)
  next
    case False
    let ?v = "(sema_value k)(s := sema_value k s - 1)"
    have k': "k' = set_kont rs (k\<lparr>sema_value := ?v\<rparr>)" using r False by (simp add: sema_down_def)
    note w = wf_kont_down[OF wf]
    note D = core_okD[OF ok[unfolded kernel_ok_iff(1)]]
    have tk: "taking ((kont k)(?c := rs)) l t \<longleftrightarrow> taking (kont k) l t \<or> t = ?c \<and> s = Lock_Sema l" for l t
      using nt(1)[of l] w(4)[of l] by (cases "t = ?c") (simp_all add: taking_def)
    have free: "holder k l = None \<and> (\<forall>t. \<not> taking (kont k) l t)" if "s = Lock_Sema l" for l
      using D(7) False that by (auto simp: lock_ok_def split: if_splits)
    have lk: "lock_ok (Some ?c) ((kont k)(?c := rs)) ?v (holder k)"
      unfolding lock_ok_def tk
    proof (intro allI)
      fix l
      have l: "(\<forall>t. taking (kont k) l t \<longrightarrow> Some ?c = Some t \<and> holder k l = None) \<and>
        sema_value k (Lock_Sema l) = (if holder k l = None \<and> \<not> (\<exists>t. taking (kont k) l t) then 1 else 0)" using D(7) by (simp add: lock_ok_def)
      show "(\<forall>t. taking (kont k) l t \<or> t = ?c \<and> s = Lock_Sema l \<longrightarrow> Some ?c = Some t \<and> holder k l = None) \<and>
        ?v (Lock_Sema l) = (if holder k l = None \<and> \<not> (\<exists>t. taking (kont k) l t \<or> t = ?c \<and> s = Lock_Sema l) then 1 else 0)"
      proof (cases "s = Lock_Sema l")
        case True then show ?thesis using l free[OF True] by simp
      next
        case False then show ?thesis using l by simp
      qed
    qed
    have "core_ok (Some ?c) (statuses k) ((kont k)(?c := rs)) (ready_list k) (threads_to_wakeup k) (sema_waiters k) ?v (holder k) (set (all_list k)) (idle_thread k)"
    proof (rule core_kont[OF ok[unfolded kernel_ok_iff(1)] w(1) _ _ _ lk cr[symmetric]])
      show "distinct (threads_to_wakeup k)" using D(3) by (simp add: sleep_ok_def)
      show "set (threads_to_wakeup k) = (if rs = [Sleep_Block] then insert ?c (set (threads_to_wakeup k)) else set (threads_to_wakeup k) - {?c})"
        using run(6)[OF nt(2)] w(2) by simp
      show "?v s' \<le> sema_value k s' - 1 \<or> ?v s' \<le> sema_value k s' \<and> (at_down (kont k) s' ?c \<longrightarrow> (\<exists>r. rs = Sema_Down s' # r))" for s'
        using nt(3)[of s'] by (cases "s' = s") auto
    qed
    then have "kernel_ok k'" unfolding kernel_ok_iff k' by (simp add: statuses_def)
    then show ?thesis by (simp add: k')
  qed
  then show "kernel_ok k'" "holder k' = holder k" by auto
qed

text \<open>The locks are given for the result, because a lock that is released has no holder before its value grows.\<close>

lemma sema_up_ok:
  assumes ok: "core_ok (Some (current k)) (statuses k) (kont k) (ready_list k) (threads_to_wakeup k) (sema_waiters k) (sema_value k) h0
      (set (all_list k)) (idle_thread k)"
    and lk: "lock_ok (Some (current k)) (kont k) ((sema_value k)(s := sema_value k s + 1)) (holder k)"
    and nt: "\<And>l. \<not> taking (kont k) l (current k)" and r: "sema_up ic s k = Some k'"
  shows "kernel_ok k'" "holder k' = holder k"
proof -
  obtain k1 where k1: "(if sema_waiters k s \<noteq> [] then do { ws \<leftarrow> sort_seq (compare_priority k) (sema_waiters k s);
        thread_unblock (hd ws) (k\<lparr>sema_waiters := (sema_waiters k)(s := tl ws)\<rparr>) } else Some k) = Some k1"
    "(if \<not> ic then check_priority_order (k1\<lparr>sema_value := (sema_value k1)(s := sema_value k1 s + 1)\<rparr>)
      else Some (k1\<lparr>sema_value := (sema_value k1)(s := sema_value k1 s + 1)\<rparr>)) = Some k'"
    using r unfolding sema_up_def Let_def by (auto simp: bind_eq_Some_conv)
  let ?k = "k1\<lparr>sema_value := (sema_value k1)(s := sema_value k1 s + 1)\<rparr>"
  have "kernel_ok ?k \<and> holder ?k = holder k \<and> kont ?k = kont k \<and> current ?k = current k"
  proof (cases "sema_waiters k s = []")
    case True
    then have [simp]: "k1 = k" using k1(1) by simp
    have "statuses ?k = statuses k" by (simp add: statuses_def)
    then show ?thesis using core_up_free[OF ok True lk] by (simp add: kernel_ok_iff)
  next
    case False
    then obtain ws where ws: "sort_seq (compare_priority k) (sema_waiters k s) = Some ws"
      "thread_unblock (hd ws) (k\<lparr>sema_waiters := (sema_waiters k)(s := tl ws)\<rparr>) = Some k1" using k1(1) by (auto simp: bind_eq_Some_conv)
    note m = mset_sort_seq[OF ws(1)]
    then have ne: "ws \<noteq> []" using False by auto
    let ?rd = "insert_ordered (compare_priority k) (hd ws) (ready_list k)"
    have cmp: "compare_priority (k\<lparr>sema_waiters := w\<rparr>) = compare_priority k" for w by (simp add: compare_priority_def fun_eq_iff)
    have k1': "k1 = set_status (hd ws) THREAD_READY (k\<lparr>sema_waiters := (sema_waiters k)(s := tl ws), ready_list := ?rd\<rparr>)"
      using ws(2) by (auto simp: thread_unblock_def assert_def cmp split: if_splits)
    have st: "statuses ?k = (statuses k)(hd ws := THREAD_READY)" by (auto simp: k1' statuses_def set_status_def)
    have "core_ok (Some (current k)) ((statuses k)(hd ws := THREAD_READY)) (kont k) ?rd (threads_to_wakeup k) ((sema_waiters k)(s := tl ws))
      ((sema_value k)(s := sema_value k s + 1)) (holder k) (set (all_list k)) (idle_thread k)"
      by (rule core_up[OF ok _ mset_insert_ordered lk]) (use m ne in simp)
    then show ?thesis unfolding kernel_ok_iff st by (simp add: k1')
  qed
  then show "kernel_ok k'" "holder k' = holder k"
    using k1(2) check_priority_order_ok[of ?k k'] nt by (auto split: if_splits)
qed

lemma core_upd2: "(\<And>x. status (f x) = status x) \<Longrightarrow> kernel_ok (upd t f k) \<longleftrightarrow> kernel_ok k"
  using core_cong[OF core_upd] by blast

lemma lock_acquire_ok:
  assumes ok: "kernel_ok k" and cd: "comes_down k (Lock_Sema l)" and wf: "wf_tail rs" "current k \<noteq> idle_thread k" and cr: "creates (kont k (current k)) = creates rs" and r: "lock_acquire l rs k = Some k'"
  shows "kernel_ok k'" "holder k' = holder k"
proof -
  obtain k1 where k1: "core k1 = core k" "sema_down (Lock_Sema l) (Lock_Taken l # rs) k1 = Some k'"
    using r by (auto simp: lock_acquire_def Let_def assert_def bind_eq_Some_conv split: if_splits option.splits)
      (erule that[rotated], simp add: core_upd)
  then have k: "kernel_ok k1" "kont k1 = kont k" "current k1 = current k" "idle_thread k1 = idle_thread k" "holder k1 = holder k"
    using ok core_cong[OF k1(1)] by (simp_all only: core_def prod.inject)
  from sema_down_ok[OF k(1) _ _ _ k1(2)] show "kernel_ok k'" "holder k' = holder k"
    using cd wf cr by (simp_all add: k comes_down_def)
qed

lemma lock_taken_ok:
  assumes ok: "kernel_ok k" and k: "kont k (current k) = Lock_Taken l # rs"
  shows "kernel_ok (lock_taken l rs k)" "holder (lock_taken l rs k) = (holder k)(l := Some (current k))" "holder k l = None"
proof -
  let ?c = "current k"
  note D = core_okD[OF ok[unfolded kernel_ok_iff(1)]]
  have tc: "taking (kont k) l ?c" using k by (simp add: taking_def)
  then show n: "holder k l = None" using D(7) by (auto simp: lock_ok_def)
  have rs: "wf_kont (idle_thread k) ?c rs" "rs \<noteq> [Sleep_Block]" "\<And>l'. \<not> taking ((kont k)(?c := rs)) l' ?c"
    using running(2)[OF ok] k by (auto simp: wf_tail_def taking_def)
  have only: "taking (kont k) l' t \<longleftrightarrow> t = ?c \<and> l' = l" for l' t
    using D(7) k by (cases "t = ?c") (auto simp: lock_ok_def taking_def)
  have tk: "\<not> taking ((kont k)(?c := rs)) l' t" for l' t using only[of l' t] rs(3)[of l'] by (cases "t = ?c") (auto simp: taking_def)
  have lk: "lock_ok (Some ?c) ((kont k)(?c := rs)) (sema_value k) ((holder k)(l := Some ?c))"
    using D(7) n by (auto simp: lock_ok_def tk only)
  have "core_ok (Some ?c) (statuses k) ((kont k)(?c := rs)) (ready_list k) (threads_to_wakeup k) (sema_waiters k) (sema_value k)
      ((holder k)(l := Some ?c)) (set (all_list k)) (idle_thread k)"
  proof (rule core_kont[OF ok[unfolded kernel_ok_iff(1)] rs(1) _ _ _ lk _])
    show "distinct (threads_to_wakeup k)" using D(3) by (simp add: sleep_ok_def)
    show "set (threads_to_wakeup k) = (if rs = [Sleep_Block] then insert ?c (set (threads_to_wakeup k)) else set (threads_to_wakeup k) - {?c})"
      using running(6)[OF ok] k rs(2) by simp
  qed (use k in \<open>simp_all add: at_down_def\<close>)
  moreover have "statuses (lock_taken l rs k) = statuses k" by (auto simp: statuses_def lock_taken_def)
  ultimately show "kernel_ok (lock_taken l rs k)" unfolding kernel_ok_iff by (simp add: lock_taken_def)
  show "holder (lock_taken l rs k) = (holder k)(l := Some ?c)" by (simp add: lock_taken_def)
qed

text \<open>The sleeping threads are given for the result, because a thread that goes to sleep is in the list before it stops.\<close>

lemma lock_release_ok:
  assumes ok: "core_ok (Some (current k)) (statuses k) (kont k) (ready_list k) sl (sema_waiters k) (sema_value k) (holder k) (set (all_list k)) (idle_thread k)"
    and kn: "\<And>l. \<not> taking (kont k) l (current k)" "\<And>s. \<not> at_down (kont k) s (current k)"
    and rs: "wf_kont (idle_thread k) (current k) rs" "\<And>l rs'. rs \<noteq> Lock_Taken l # rs'"
    and sl: "distinct (threads_to_wakeup k)" "set (threads_to_wakeup k) = (if rs = [Sleep_Block] then insert (current k) (set sl) else set sl - {current k})"
    and cr: "creates rs = creates (kont k (current k))" and r: "lock_release l rs k = Some k'"
  shows "kernel_ok k'" "holder k' = (holder k)(l := None)" "holder k l = Some (current k)"
proof -
  let ?c = "current k"
  let ?k1 = "set_kont rs (k\<lparr>holder := (holder k)(l := None)\<rparr>)"
  let ?k2 = "if \<not> thread_mlfqs ?k1 then check_needs_donations ?c (remove_donations l ?k1) else ?k1"
  show h: "holder k l = Some ?c" using r by (auto simp: lock_release_def assert_def split: if_splits)
  have up: "sema_up False (Lock_Sema l) ?k2 = Some k'" using r h by (cases "thread_mlfqs k") (simp_all add: lock_release_def assert_def Let_def)
  have "core ?k2 = core ?k1" by (simp add: core_donations)
  then have e: "current ?k2 = ?c" "statuses ?k2 = statuses k" "kont ?k2 = (kont k)(?c := rs)" "ready_list ?k2 = ready_list k" "threads_to_wakeup ?k2 = threads_to_wakeup k"
    "sema_waiters ?k2 = sema_waiters k" "sema_value ?k2 = sema_value k" "holder ?k2 = (holder k)(l := None)" "all_list ?k2 = all_list k" "idle_thread ?k2 = idle_thread k"
    by (simp_all add: core_def statuses_def)
  note D = core_okD[OF ok]
  have tk: "taking ((kont k)(?c := rs)) l' t \<longleftrightarrow> taking (kont k) l' t" for l' t using kn(1)[of l'] rs(2)[of l'] by (cases "t = ?c") (auto simp: taking_def)
  have lk: "lock_ok (Some ?c) ((kont k)(?c := rs)) (sema_value k) (holder k)" using D(7) unfolding lock_ok_def tk .
  have core: "core_ok (Some ?c) (statuses k) ((kont k)(?c := rs)) (ready_list k) (threads_to_wakeup k) (sema_waiters k) (sema_value k) (holder k) (set (all_list k)) (idle_thread k)"
    by (rule core_kont[OF ok rs(1) sl _ lk cr]) (use kn(2) in simp)
  have lk': "lock_ok (Some ?c) ((kont k)(?c := rs)) ((sema_value k)(Lock_Sema l := sema_value k (Lock_Sema l) + 1)) ((holder k)(l := None))"
    unfolding lock_ok_def tk
  proof (intro allI)
    fix l'
    have *: "(\<forall>t. taking (kont k) l' t \<longrightarrow> Some ?c = Some t \<and> holder k l' = None) \<and>
      sema_value k (Lock_Sema l') = (if holder k l' = None \<and> \<not> (\<exists>t. taking (kont k) l' t) then 1 else 0)" using D(7) by (simp add: lock_ok_def)
    show "(\<forall>t. taking (kont k) l' t \<longrightarrow> Some ?c = Some t \<and> ((holder k)(l := None)) l' = None) \<and>
      ((sema_value k)(Lock_Sema l := sema_value k (Lock_Sema l) + 1)) (Lock_Sema l') =
        (if ((holder k)(l := None)) l' = None \<and> \<not> (\<exists>t. taking (kont k) l' t) then 1 else 0)"
      using * h by (cases "l' = l") auto
  qed
  have nt: "\<not> taking (kont ?k2) l' (current ?k2)" for l' unfolding e tk by (rule kn(1))
  from sema_up_ok[OF _ _ nt up, of "holder k"] core lk' show "kernel_ok k'" "holder k' = (holder k)(l := None)" unfolding e by simp_all
qed

lemma thread_create_ok:
  assumes ok: "kernel_ok k" and t: "\<And>t. page = Some t \<Longrightarrow> t \<notin> set (all_list k)" and kn: "kont k (current k) = []" and r: "thread_create page p k = Some k'"
  shows "kernel_ok k'" "holder k' = holder k"
proof -
  have "kernel_ok k' \<and> holder k' = holder k"
  proof (cases page)
    case None then show ?thesis using r ok by (simp add: thread_create_def)
  next
    case (Some t)
    then obtain k1 where k1: "init_thread t p k = Some k1" and k': "k' = set_kont [Lock_Acquire tid_lock, Allocate_Tid t] (k1\<lparr>kont := (kont k1)(t := [Kernel_Thread])\<rparr>)"
      using r by (auto simp: thread_create_def bind_eq_Some_conv)
    have e1: "current k1 = current k" "kont k1 = kont k" "ready_list k1 = ready_list k" "threads_to_wakeup k1 = threads_to_wakeup k" "sema_waiters k1 = sema_waiters k"
      "sema_value k1 = sema_value k" "holder k1 = holder k" "all_list k1 = all_list k @ [t]" "idle_thread k1 = idle_thread k" "statuses k1 = (statuses k)(t := THREAD_BLOCKED)"
      using k1 by (auto simp: init_thread_def assert_def bind_eq_Some_conv Let_def statuses_def split: if_splits)
    have "statuses k' = statuses k1" by (simp add: k' statuses_def)
    then show ?thesis using core_new[OF ok[unfolded kernel_ok_iff(1)] kn t[OF Some]] unfolding kernel_ok_iff by (simp add: k' e1)
  qed
  then show "kernel_ok k'" "holder k' = holder k" by auto
qed

lemma allocate_tid_ok:
  assumes ok: "kernel_ok k" and kn: "kont k (current k) = [Allocate_Tid t]" and r: "allocate_tid t k = Some k'"
  shows "kernel_ok k'" "holder k' = (holder k)(tid_lock := None)" "holder k tid_lock = Some (current k)"
proof -
  obtain m where rel: "lock_release tid_lock [Create_Unblock t (next_tid k)] (k\<lparr>next_tid := m\<rparr>) = Some k'"
    using r by (auto simp: allocate_tid_def Let_def bind_eq_Some_conv)
  let ?k = "k\<lparr>next_tid := m\<rparr>"
  have c: "core_ok (Some (current ?k)) (statuses ?k) (kont ?k) (ready_list ?k) (threads_to_wakeup k) (sema_waiters ?k) (sema_value ?k) (holder ?k)
      (set (all_list ?k)) (idle_thread ?k)" using ok by (simp add: kernel_ok_iff statuses_def)
  have i: "current k \<noteq> idle_thread k" using running(2)[OF ok] kn by simp
  have d: "distinct (threads_to_wakeup k)" using core_okD(3)[OF ok[unfolded kernel_ok_iff(1)]] by (simp add: sleep_ok_def)
  from lock_release_ok[OF c _ _ _ _ _ _ _ rel] show "kernel_ok k'" "holder k' = (holder k)(tid_lock := None)" "holder k tid_lock = Some (current k)"
    using kn i d running(6)[OF ok] by (simp_all add: taking_def at_down_def)
qed

lemma create_unblock_ok:
  assumes ok: "kernel_ok k" and kn: "kont k (current k) = [Create_Unblock t n]" and r: "create_unblock t n k = Some k'"
  shows "kernel_ok k'" "holder k' = holder k"
proof -
  let ?k = "set_kont [Check_Priority_Order] (upd t (\<lambda>x. x\<lparr>tid := n\<rparr>) k)"
  have k': "k' = set_status t THREAD_READY (?k\<lparr>ready_list := insert_ordered (compare_priority ?k) t (ready_list k)\<rparr>)"
    using r by (auto simp: create_unblock_def thread_unblock_def assert_def split: if_splits)
  have st: "statuses k' = (statuses k)(t := THREAD_READY)" by (auto simp: k' statuses_def set_status_def)
  show "kernel_ok k'"
    using core_born[OF ok[unfolded kernel_ok_iff(1)] kn mset_insert_ordered] unfolding kernel_ok_iff st by (simp add: k')
  show "holder k' = holder k" by (simp add: k')
qed

lemma thread_exit_ok:
  assumes ok: "kernel_ok k" and kn: "kont k (current k) = []" and r: "thread_exit k = Some k'"
  shows "kernel_ok k'" "holder k' = holder k"
proof -
  let ?c = "current k"
  let ?k1 = "k\<lparr>all_list := filter (\<lambda>t. t \<noteq> ?c) (all_list k)\<rparr>"
  obtain k2 where k2: "core k2 = core ?k1" "schedule (set_status ?c THREAD_DYING k2) = Some k'"
    using r by (auto simp: thread_exit_def Let_def assert_def bind_eq_Some_conv split: if_splits option.splits)
      (erule that[rotated], simp add: core_upd)+
  have e: "current k2 = ?c" "statuses k2 = statuses k" "kont k2 = kont k" "ready_list k2 = ready_list k" "threads_to_wakeup k2 = threads_to_wakeup k"
    "sema_waiters k2 = sema_waiters k" "sema_value k2 = sema_value k" "holder k2 = holder k" "all_list k2 = filter (\<lambda>t. t \<noteq> ?c) (all_list k)" "idle_thread k2 = idle_thread k"
    using k2(1) by (simp_all add: core_def statuses_def)
  have "set (all_list k2) = set (all_list k) - {?c}" by (auto simp: e)
  then have "kernel_off (set_status ?c THREAD_DYING k2)"
    using core_exit[OF ok[unfolded kernel_ok_iff(1)] kn] unfolding kernel_ok_iff by (simp add: e)
  from schedule_ok[OF this k2(2)] show "kernel_ok k'" "holder k' = holder k" by (simp_all add: e)
qed

lemma core_eq_sel: "core k' = core k \<Longrightarrow> kont k' = kont k \<and> current k' = current k \<and> holder k' = holder k \<and> all_list k' = all_list k \<and> idle_thread k' = idle_thread k
    \<and> threads_to_wakeup k' = threads_to_wakeup k \<and> ready_list k' = ready_list k"
  by (simp add: core_def)

lemma thread_set_priority_ok:
  assumes ok: "kernel_ok k" and nt: "\<And>l. \<not> taking (kont k) l (current k)" and r: "thread_set_priority p k = Some k'"
  shows "kernel_ok k'" "holder k' = holder k"
proof -
  let ?k1 = "check_needs_donations (current k) (upd (current k) (\<lambda>x. x\<lparr>orig_priority := p\<rparr>) k)"
  have c1: "core ?k1 = core k" by (simp add: core_donations core_upd)
  have "kernel_ok k' \<and> holder k' = holder k"
  proof (cases "thread_mlfqs k")
    case True then show ?thesis using r ok by (simp add: thread_set_priority_def)
  next
    case False
    then obtain k2 where k2: "k2 = ?k1 \<or> check_to_donate (current k) ?k1 = Some k2" "k' = k2 \<or> check_priority_order k2 = Some k'"
      using r by (auto simp: thread_set_priority_def Let_def bind_eq_Some_conv split: if_splits)
    then have c2: "core k2 = core k" using c1 core_check_to_donate by metis
    have "kernel_ok k2" "\<And>l. \<not> taking (kont k2) l (current k2)" "holder k2 = holder k" using core_cong[OF c2] ok nt core_eq_sel[OF c2] by auto
    then show ?thesis using k2(2) check_priority_order_ok[of k2 k'] by auto
  qed
  then show "kernel_ok k'" "holder k' = holder k" by auto
qed

lemma core_calculate:
  "calculate_priority t k = Some k' \<Longrightarrow> core k' = core k" "calculate_recent_cpu t k = Some k' \<Longrightarrow> core k' = core k"
  "tick_increment k = Some k' \<Longrightarrow> core k' = core k" "calculate_load_avg k = Some k' \<Longrightarrow> core k' = core k"
  by (auto simp: calculate_priority_def calculate_recent_cpu_def tick_increment_def calculate_load_avg_def bind_eq_Some_conv core_upd Let_def core_def statuses_def split: if_splits)

lemma core_recalculate: "recalculate_loop ts k = Some k' \<Longrightarrow> core k' = core k"
proof (induction ts arbitrary: k)
  case (Cons t ts)
  then obtain k1 k2 where "calculate_recent_cpu t k = Some k1" "calculate_priority t k1 = Some k2" "recalculate_loop ts k2 = Some k'"
    by (auto simp: bind_eq_Some_conv)
  then show ?case using core_calculate(1,2) Cons.IH by metis
qed simp

lemma thread_set_nice_ok:
  assumes ok: "kernel_ok k" and nt: "\<And>l. \<not> taking (kont k) l (current k)" and r: "thread_set_nice n k = Some k'"
  shows "kernel_ok k'" "holder k' = holder k"
proof -
  obtain m k1 where k1: "calculate_priority (current k) (upd (current k) (\<lambda>x. x\<lparr>nice := m\<rparr>) k) = Some k1" "check_priority_order k1 = Some k'"
    using r unfolding thread_set_nice_def Let_def bind_eq_Some_conv by blast
  have c: "core k1 = core k" using core_calculate(1)[OF k1(1)] by (simp add: core_upd)
  have "kernel_ok k1" "\<And>l. \<not> taking (kont k1) l (current k1)" "holder k1 = holder k" using core_cong[OF c] ok nt core_eq_sel[OF c] by auto
  then show "kernel_ok k'" "holder k' = holder k" using check_priority_order_ok[OF _ _ k1(2)] by auto
qed

text \<open>Conditions.\<close>

lemma wait_sema_free:
  assumes "kernel_ok k"
  shows "sema_waiters k (Wait_Sema (current k)) = []"
proof -
  note D = core_okD[OF assms[unfolded kernel_ok_iff(1)]]
  have "t \<notin> set (sema_waiters k (Wait_Sema (current k)))" for t
  proof
    assume "t \<in> set (sema_waiters k (Wait_Sema (current k)))"
    then have "statuses k t = THREAD_BLOCKED" "at_down (kont k) (Wait_Sema (current k)) t" using D(4) by (auto simp: wait_ok_def)
    moreover have "wf_kont (idle_thread k) t (kont k t)" using D(6) by (simp add: kont_ok_def)
    ultimately show False using running(1)[OF assms] by (auto simp: at_down_def)
  qed
  then show ?thesis by (metis list.set_intros(1) neq_Nil_conv)
qed

lemma cond_wait_ok:
  assumes ok: "kernel_ok k" and kn: "kont k (current k) = []" and r: "cond_wait c l k = Some k'"
  shows "kernel_ok k'" "holder k' = (holder k)(l := None)" "holder k l = Some (current k)"
proof -
  let ?c = "current k"
  let ?k1 = "k\<lparr>sema_value := (sema_value k)(Wait_Sema ?c := 0), sema_waiters := (sema_waiters k)(Wait_Sema ?c := [])\<rparr>"
  let ?k2 = "?k1\<lparr>cond_waiters := (cond_waiters ?k1)(c := insert_ordered (compare_condvar_priority ?k1) ?c (cond_waiters ?k1 c))\<rparr>"
  have w: "(sema_waiters k)(Wait_Sema ?c := []) = sema_waiters k" using wait_sema_free[OF ok] by auto
  have "core_ok (Some ?c) (statuses k) (kont k) (ready_list k) (threads_to_wakeup k) (sema_waiters k) ((sema_value k)(Wait_Sema ?c := 0)) (holder k)
      (set (all_list k)) (idle_thread k)"
    using ok unfolding kernel_ok_iff core_ok_def by (auto simp: lock_ok_def wake_ok_def)
  then have c2: "core_ok (Some (current ?k2)) (statuses ?k2) (kont ?k2) (ready_list ?k2) (threads_to_wakeup k) (sema_waiters ?k2) (sema_value ?k2) (holder ?k2)
      (set (all_list ?k2)) (idle_thread ?k2)" by (simp add: w statuses_def)
  have i: "?c \<noteq> idle_thread k" using running(2)[OF ok] kn by simp
  have d: "distinct (threads_to_wakeup k)" using core_okD(3)[OF ok[unfolded kernel_ok_iff(1)]] by (simp add: sleep_ok_def)
  have rel: "lock_release l [Sema_Down (Wait_Sema ?c), Lock_Acquire l] ?k2 = Some k'" using r by (simp add: cond_wait_def assert_def Let_def split: if_splits)
  from lock_release_ok[OF c2 _ _ _ _ _ _ _ rel] show "kernel_ok k'" "holder k' = (holder k)(l := None)" "holder k l = Some (current k)"
    using kn i d running(6)[OF ok] by (simp_all add: taking_def at_down_def)
qed

lemma cond_signal_ok:
  assumes ok: "kernel_ok k" and nt: "\<And>l. \<not> taking (kont k) l (current k)" and r: "cond_signal c l k = Some k'"
  shows "kernel_ok k'" "holder k' = holder k"
proof -
  have "kernel_ok k' \<and> holder k' = holder k"
  proof (cases "cond_waiters k c = []")
    case True then show ?thesis using r ok by (auto simp: cond_signal_def assert_def split: if_splits)
  next
    case False
    then obtain ws where up: "sema_up False (Wait_Sema (hd ws)) (k\<lparr>cond_waiters := (cond_waiters k)(c := tl ws)\<rparr>) = Some k'"
      using r by (auto simp: cond_signal_def assert_def bind_eq_Some_conv split: if_splits)
    have lk: "lock_ok (Some (current k)) (kont k) ((sema_value k)(Wait_Sema (hd ws) := sema_value k (Wait_Sema (hd ws)) + 1)) (holder k)"
      using core_okD(7)[OF ok[unfolded kernel_ok_iff(1)]] by (simp add: lock_ok_def)
    show ?thesis using sema_up_ok[OF _ _ _ up, of "holder k"] ok lk nt by (simp add: kernel_ok_iff statuses_def)
  qed
  then show "kernel_ok k'" "holder k' = holder k" by auto
qed

lemma set_kont_ok:
  assumes ok: "kernel_ok k" and kn: "kont k (current k) \<noteq> [Sleep_Block]" "\<And>l. \<not> taking (kont k) l (current k)" "\<And>s. \<not> at_down (kont k) s (current k)"
    and ks: "wf_kont (idle_thread k) (current k) ks" "\<And>l rs. ks \<noteq> Lock_Taken l # rs" "ks \<noteq> [Sleep_Block]" "creates ks = creates (kont k (current k))"
  shows "kernel_ok (set_kont ks k)"
proof -
  let ?c = "current k"
  note D = core_okD[OF ok[unfolded kernel_ok_iff(1)]]
  have tk: "taking ((kont k)(?c := ks)) l' t \<longleftrightarrow> taking (kont k) l' t" for l' t using kn(2)[of l'] ks(2)[of l'] by (cases "t = ?c") (auto simp: taking_def)
  have lk: "lock_ok (Some ?c) ((kont k)(?c := ks)) (sema_value k) (holder k)" using D(7) unfolding lock_ok_def tk .
  have d: "distinct (threads_to_wakeup k)" "set (threads_to_wakeup k) = (if ks = [Sleep_Block] then insert ?c (set (threads_to_wakeup k)) else set (threads_to_wakeup k) - {?c})"
    using D(3) running(6)[OF ok kn(1)] ks(3) by (simp_all add: sleep_ok_def)
  have "core_ok (Some ?c) (statuses k) ((kont k)(?c := ks)) (ready_list k) (threads_to_wakeup k) (sema_waiters k) (sema_value k) (holder k) (set (all_list k)) (idle_thread k)"
    by (rule core_kont[OF ok[unfolded kernel_ok_iff(1)] ks(1) d _ lk ks(4)]) (use kn(3) in simp)
  then show ?thesis by (simp add: kernel_ok_iff)
qed

lemma cond_broadcast_ok:
  assumes ok: "kernel_ok k" and kn: "kont k (current k) = [] \<or> kont k (current k) = [Cond_Broadcast c l]" and r: "cond_broadcast c l k = Some k'"
  shows "kernel_ok k'" "holder k' = holder k"
proof -
  have "current k \<noteq> idle_thread k" using running(2)[OF ok] kn by auto
  then have wf: "wf_kont (idle_thread k) (current k) []" "wf_kont (idle_thread k) (current k) [Cond_Broadcast c l]" by simp_all
  have cr: "creates [] = creates (kont k (current k))" "creates [Cond_Broadcast c l] = creates (kont k (current k))" using kn by auto
  have kc: "kont k (current k) \<noteq> [Sleep_Block]" "\<And>l. \<not> taking (kont k) l (current k)" "\<And>s. \<not> at_down (kont k) s (current k)"
    using kn by (auto simp: taking_def at_down_def)
  have ks: "kernel_ok (set_kont [] k)" "kernel_ok (set_kont [Cond_Broadcast c l] k)"
    by (rule set_kont_ok[OF ok kc wf(1) _ _ cr(1)] set_kont_ok[OF ok kc wf(2) _ _ cr(2)]; simp)+
  have "kernel_ok k' \<and> holder k' = holder k"
  proof (cases "cond_waiters k c = []")
    case True then show ?thesis using r ks by (auto simp: cond_broadcast_def)
  next
    case False
    then have "cond_signal c l (set_kont [Cond_Broadcast c l] k) = Some k'" using r by (simp add: cond_broadcast_def)
    from cond_signal_ok[OF _ _ this] show ?thesis using ks by (simp add: taking_def)
  qed
  then show "kernel_ok k'" "holder k' = holder k" by auto
qed

text \<open>Trying.\<close>

lemma take_value_ok:
  assumes ok: "kernel_ok k" and v: "0 < sema_value k s" and kn: "kont k (current k) = []"
    and h: "h = (case s of Lock_Sema l \<Rightarrow> (holder k)(l := Some (current k)) | _ \<Rightarrow> holder k)"
  shows "kernel_ok (k\<lparr>sema_value := (sema_value k)(s := sema_value k s - 1), holder := h\<rparr>)"
proof -
  let ?c = "current k" and ?v = "(sema_value k)(s := sema_value k s - 1)"
  note D = core_okD[OF ok[unfolded kernel_ok_iff(1)]]
  have l: "(\<forall>t. taking (kont k) l t \<longrightarrow> Some ?c = Some t \<and> holder k l = None) \<and>
      sema_value k (Lock_Sema l) = (if holder k l = None \<and> \<not> (\<exists>t. taking (kont k) l t) then 1 else 0)" for l using D(7) by (simp add: lock_ok_def)
  have lk: "lock_ok (Some ?c) (kont k) ?v h"
    unfolding lock_ok_def
  proof (intro allI)
    fix l
    show "(\<forall>t. taking (kont k) l t \<longrightarrow> Some ?c = Some t \<and> h l = None) \<and> ?v (Lock_Sema l) = (if h l = None \<and> \<not> (\<exists>t. taking (kont k) l t) then 1 else 0)"
      using l[of l] v h by (cases "s = Lock_Sema l") (auto split: sema.splits if_splits)
  qed
  have lk': "lock_ok (Some ?c) ((kont k)(?c := kont k ?c)) ?v h" using lk by simp
  have d: "distinct (threads_to_wakeup k)" "set (threads_to_wakeup k) = (if kont k ?c = [Sleep_Block] then insert ?c (set (threads_to_wakeup k)) else set (threads_to_wakeup k) - {?c})"
    using D(3) running(6)[OF ok] kn by (simp_all add: sleep_ok_def)
  have "core_ok (Some ?c) (statuses k) ((kont k)(?c := kont k ?c)) (ready_list k) (threads_to_wakeup k) (sema_waiters k) ?v h (set (all_list k)) (idle_thread k)"
    by (rule core_kont[OF ok[unfolded kernel_ok_iff(1)] running(2)[OF ok] d _ lk' refl]) (use kn in \<open>simp add: at_down_def\<close>)
  then show ?thesis by (simp add: kernel_ok_iff statuses_def)
qed

text \<open>Sleeping.\<close>

lemma status_link_prevs: "status (link_prevs addr p ts th t) = status (th t)"
  by (induction ts arbitrary: p th) auto

lemma sleep_insert_ok:
  assumes ok: "kernel_ok k" and kn: "kont k (current k) = [Sleep_Insert w]" and r: "sleep_insert addr w k = Some k'"
  shows "kernel_ok k'" "holder k' = (holder k)(wakeup_lock := None)" "holder k wakeup_lock = Some (current k)"
proof -
  let ?c = "current k"
  let ?k1 = "upd ?c (\<lambda>x. x\<lparr>wakeup_tick := w\<rparr>) k"
  let ?ts = "insert_ordered (compare_threads_by_wakeup_time ?k1) ?c (threads_to_wakeup k)"
  let ?k2 = "?k1\<lparr>threads_to_wakeup := ?ts, threads := link_prevs addr None ?ts (threads ?k1)\<rparr>"
  have st: "statuses ?k2 = statuses k" by (auto simp: statuses_def status_link_prevs)
  have c2: "core_ok (Some (current ?k2)) (statuses ?k2) (kont ?k2) (ready_list ?k2) (threads_to_wakeup k) (sema_waiters ?k2) (sema_value ?k2) (holder ?k2)
      (set (all_list ?k2)) (idle_thread ?k2)" unfolding st using ok by (simp add: kernel_ok_iff)
  have i: "?c \<noteq> idle_thread k" using running(2)[OF ok] kn by simp
  have d: "distinct (threads_to_wakeup k)" using core_okD(3)[OF ok[unfolded kernel_ok_iff(1)]] by (simp add: sleep_ok_def)
  have rel: "lock_release wakeup_lock [Sleep_Block] ?k2 = Some k'" using r by (simp add: sleep_insert_def Let_def)
  from lock_release_ok[OF c2 _ _ _ _ _ _ _ rel] show "kernel_ok k'" "holder k' = (holder k)(wakeup_lock := None)" "holder k wakeup_lock = Some (current k)"
    using kn i d running(6)[OF ok] by (simp_all add: taking_def at_down_def)
qed

lemma wake_loop_ok:
  "kernel_ok k \<Longrightarrow> wake_loop addr k = Some k' \<Longrightarrow> kernel_ok k' \<and> holder k' = holder k \<and> kont k' = kont k \<and> current k' = current k"
proof (induction addr k rule: wake_loop.induct)
  case (1 addr k)
  show ?case
  proof (cases "threads_to_wakeup k")
    case Nil then show ?thesis using 1(2,3) by (simp add: wake_loop.simps[of addr k])
  next
    case (Cons t ts)
    show ?thesis
    proof (cases "ticks k < wakeup_tick (threads k t)")
      case True then show ?thesis using 1(2,3) Cons by (simp add: wake_loop.simps[of addr k])
    next
      case False
      let ?k = "k\<lparr>threads_to_wakeup := ts, threads := link_prevs addr None ts (threads k)\<rparr>"
      obtain k1 where k1: "thread_unblock t ?k = Some k1" "wake_loop addr k1 = Some k'"
        using 1(3) Cons False by (auto simp: wake_loop.simps[of addr k] split: option.splits)
      note D = core_okD[OF 1(2)[unfolded kernel_ok_iff(1)]]
      have b: "statuses k t = THREAD_BLOCKED" using k1(1) by (auto simp: thread_unblock_def assert_def statuses_def status_link_prevs split: if_splits)
      have sl: "kont k t = [Sleep_Block] \<or> kont k t = []" using D(3) Cons unfolding sleep_ok_def by (metis list.set_intros(1))
      then have "t \<noteq> idle_thread k" using kont_idle[OF D(6)] by auto
      then have "kont k t = [] \<or> kont k t = [Kernel_Thread] \<or> (\<exists>s. at_down (kont k) s t)" using D(6) b by (auto simp: kont_ok_def)
      then have kn: "kont k t = []" using sl by (auto simp: at_down_def)
      have k1': "k1 = set_status t THREAD_READY (?k\<lparr>ready_list := insert_ordered (compare_priority ?k) t (ready_list k)\<rparr>)"
        using k1(1) by (auto simp: thread_unblock_def assert_def split: if_splits)
      have st: "statuses k1 = (statuses k)(t := THREAD_READY)" by (auto simp: k1' statuses_def set_status_def status_link_prevs)
      have "core_ok (Some (current k)) ((statuses k)(t := THREAD_READY)) (kont k) (insert_ordered (compare_priority ?k) t (ready_list k)) ts (sema_waiters k) (sema_value k)
          (holder k) (set (all_list k)) (idle_thread k)"
        by (rule core_wake[OF 1(2)[unfolded kernel_ok_iff(1)] b kn]) (simp_all add: Cons mset_insert_ordered)
      then have "kernel_ok k1" unfolding kernel_ok_iff st by (simp add: k1')
      then show ?thesis using 1(1)[OF Cons False k1(1) _ k1(2)] by (simp add: k1')
    qed
  qed
qed

lemma timer_interrupt_ok:
  assumes ok: "kernel_ok k" and nt: "\<And>l. \<not> taking (kont k) l (current k)" and r: "timer_interrupt addr k = Some k'"
  shows "kernel_ok k'" "holder k' = holder k"
proof -
  let ?k = "k\<lparr>ticks := ticks k + 1, thread_ticks := thread_ticks k + 1\<rparr>"
  obtain k1 k2 where k1: "core k1 = core ?k" and k2: "wake_loop addr k1 = Some k2" "thread_yield k2 = Some k' \<or> k' = k2"
  proof -
    obtain k1 k2 where *: "(if thread_mlfqs ?k then do {
            k \<leftarrow> tick_increment ?k;
            if ticks k mod TIMER_FREQ = 0 then do { k \<leftarrow> calculate_load_avg k; do_recalculate k }
            else if ticks k mod int TIME_SLICE = 0 then calculate_priority (current k) k
            else Some k
          } else Some ?k) = Some k1" "wake_loop addr k1 = Some k2" "thread_yield k2 = Some k' \<or> k' = k2"
      using r unfolding timer_interrupt_def Let_def bind_eq_Some_conv by (auto split: if_splits)
    have "core k1 = core ?k"
      using *(1) core_calculate core_recalculate by (auto simp: bind_eq_Some_conv do_recalculate_def split: if_splits)
    then show thesis using that *(2,3) by blast
  qed
  have c: "core ?k = core k" by (simp add: core_def statuses_def)
  have "kernel_ok k1" using core_cong[of k1 k] k1 c ok by simp
  then have w: "kernel_ok k2" "holder k2 = holder k" "kont k2 = kont k" "current k2 = current k"
    using wake_loop_ok[OF _ k2(1)] core_eq_sel[of k1 k] k1 c by simp_all
  show "kernel_ok k'" "holder k' = holder k" using k2(2) thread_yield_ok[of k2 k'] w nt by auto
qed

section \<open>Steps keep the invariant\<close>

text \<open>The events by which the running thread gives up a lock.\<close>

definition releases :: "kernel \<Rightarrow> event \<Rightarrow> nat \<Rightarrow> bool" where
  "releases k e l \<longleftrightarrow> e = Run (Op_Lock_Release l) \<or> (\<exists>c. e = Run (Op_Cond_Wait c l)) \<or>
     e = Continue \<and> l = wakeup_lock \<and> (\<exists>w. kont k (current k) = [Sleep_Insert w]) \<or>
     e = Continue \<and> l = tid_lock \<and> (\<exists>t. kont k (current k) = [Allocate_Tid t])"

text \<open>The result of a step: the invariant, and that no lock changes hands otherwise.\<close>

definition keeps :: "kernel \<Rightarrow> event \<Rightarrow> kernel \<Rightarrow> bool" where
  "keeps k e k' \<longleftrightarrow> kernel_ok k' \<and> (\<forall>l t. holder k l = Some t \<longrightarrow> holder k' l = Some t \<or> t = current k \<and> releases k e l) \<and>
     ran (holder k') \<subseteq> insert (current k) (ran (holder k))"

lemma keepsI: "kernel_ok k' \<Longrightarrow> holder k' = holder k \<Longrightarrow> keeps k e k'"
  by (auto simp: keeps_def)

lemma keeps_releaseI: "kernel_ok k' \<Longrightarrow> holder k' = (holder k)(l := None) \<Longrightarrow> holder k l = Some (current k) \<Longrightarrow> releases k e l \<Longrightarrow> keeps k e k'"
  by (auto simp: keeps_def ran_def split: if_splits)

lemma keeps_takeI: "kernel_ok k' \<Longrightarrow> holder k' = (holder k)(l := Some (current k)) \<Longrightarrow> holder k l = None \<Longrightarrow> keeps k e k'"
  by (auto simp: keeps_def ran_def split: if_splits)

lemma exec_op_keeps:
  assumes ok: "kernel_ok k" and kn: "kont k (current k) = []" and en: "op_enabled k c" and r: "exec_op c k = Some k'"
  shows "keeps k (Run c) k'"
proof -
  have i: "current k \<noteq> idle_thread k" using running(2)[OF ok] kn by simp
  have nt: "\<And>l. \<not> taking (kont k) l (current k)" and cd: "\<And>s. comes_down k s" using kn by (simp_all add: taking_def comes_down_def at_down_def)
  have core: "core_ok (Some (current k)) (statuses k) (kont k) (ready_list k) (threads_to_wakeup k) (sema_waiters k) (sema_value k) (holder k)
    (set (all_list k)) (idle_thread k)" using ok by (simp add: kernel_ok_iff)
  have sema: "lock_ok (Some (current k)) (kont k) ((sema_value k)(Sema n := m)) (holder k)" for n m
    using core_okD(7)[OF core] by (simp add: lock_ok_def)
  show ?thesis
  proof (cases c)
    case (Op_Sema_Down n)
    then show ?thesis using sema_down_ok[OF ok cd[of "Sema n"], of "[]"] i kn r by (intro keepsI) auto
  next
    case (Op_Sema_Try_Down n)
    then show ?thesis using take_value_ok[OF ok _ kn, of "Sema n"] r ok by (intro keepsI) (auto simp: sema_try_down_def split: if_splits)
  next
    case (Op_Sema_Up n)
    then show ?thesis using sema_up_ok[OF core sema nt, of False n k'] r by (intro keepsI) auto
  next
    case (Op_Lock_Acquire l)
    then show ?thesis using lock_acquire_ok[OF ok cd _ i, of "[]" l] kn r by (intro keepsI) (auto simp: wf_tail_def)
  next
    case (Op_Lock_Try_Acquire l)
    show ?thesis
    proof (cases "0 < sema_value k (Lock_Sema l)")
      case True
      then have "holder k l = None" using core_okD(7)[OF core] by (auto simp: lock_ok_def split: if_splits)
      then show ?thesis using take_value_ok[OF ok True kn] r Op_Lock_Try_Acquire True
        by (intro keeps_takeI[of _ _ l]) (auto simp: lock_try_acquire_def sema_try_down_def assert_def)
    next
      case False
      then show ?thesis using r Op_Lock_Try_Acquire ok by (intro keepsI) (auto simp: lock_try_acquire_def sema_try_down_def assert_def split: if_splits)
    qed
  next
    case (Op_Lock_Release l)
    have d: "distinct (threads_to_wakeup k)" "current k \<notin> set (threads_to_wakeup k)" using core_okD(3)[OF core] running(6)[OF ok] kn by (simp_all add: sleep_ok_def)
    have "kernel_ok k'" "holder k' = (holder k)(l := None)" "holder k l = Some (current k)"
      using lock_release_ok[OF core nt _ _ _ d(1), of "[]" l k'] kn i d(2) r Op_Lock_Release by (auto simp: at_down_def)
    then show ?thesis by (rule keeps_releaseI) (simp add: releases_def Op_Lock_Release)
  next
    case (Op_Cond_Wait c' l)
    then show ?thesis using cond_wait_ok[OF ok kn, of c' l k'] r by (intro keeps_releaseI[of _ _ l]) (auto simp: releases_def)
  next
    case (Op_Create page p)
    then show ?thesis using thread_create_ok[OF ok _ kn, of page p k'] r en by (intro keepsI) (cases page; auto)+
  next
    case (Op_Sleep n)
    then show ?thesis using lock_acquire_ok[OF ok cd _ i, of "[Sleep_Insert (to_int32 (ticks k) + n)]" wakeup_lock] kn r ok
      by (intro keepsI) (auto simp: timer_sleep_def wf_tail_def Let_def split: if_splits)
  qed (use r thread_yield_ok[OF ok nt] thread_exit_ok[OF ok kn] thread_set_priority_ok[OF ok nt] thread_set_nice_ok[OF ok nt]
      cond_signal_ok[OF ok nt] cond_broadcast_ok[OF ok] kn in \<open>auto intro: keepsI\<close>)
qed

lemma exec_act_keeps:
  assumes ok: "kernel_ok k" and kn: "kont k (current k) = a # rs" and r: "exec_act addr a rs k = Some k'"
  shows "keeps k Continue k'"
proof -
  let ?c = "current k"
  note wf = running(2)[OF ok, unfolded kn]
  have nt: "\<And>l. \<not> taking (kont k) l ?c" if "\<And>l. a \<noteq> Lock_Taken l" using kn that by (simp add: taking_def)
  show ?thesis
  proof (cases a)
    case (Sema_Down s)
    then have "comes_down k s" using kn by (simp add: comes_down_def taking_def at_down_def)
    then show ?thesis using sema_down_ok[OF ok] wf kn r Sema_Down by (intro keepsI) auto
  next
    case (Lock_Taken l)
    then show ?thesis using lock_taken_ok[OF ok, of l rs] kn r by (intro keeps_takeI[of _ _ l]) auto
  next
    case (Lock_Acquire l)
    then have "comes_down k (Lock_Sema l)" "wf_tail rs" "?c \<noteq> idle_thread k" using kn wf by (simp_all add: comes_down_def taking_def at_down_def)
    then show ?thesis using lock_acquire_ok[OF ok, of l rs] kn r Lock_Acquire by (intro keepsI) auto
  next
    case (Cond_Broadcast c l)
    then show ?thesis using cond_broadcast_ok[OF ok, of c l k'] kn wf r by (intro keepsI) auto
  next
    case (Sleep_Insert w)
    then show ?thesis using sleep_insert_ok[OF ok, of w addr k'] kn wf r by (intro keeps_releaseI[of _ _ wakeup_lock]) (auto simp: releases_def)
  next
    case (Allocate_Tid t)
    then show ?thesis using allocate_tid_ok[OF ok, of t k'] kn wf r by (intro keeps_releaseI[of _ _ tid_lock]) (auto simp: releases_def)
  next
    case (Create_Unblock t n)
    then show ?thesis using create_unblock_ok[OF ok, of t n k'] kn wf r by (intro keepsI) auto
  next
    case Check_Priority_Order
    then have "kernel_ok (set_kont [] k)" using kn wf by (intro set_kont_ok[OF ok]) (auto simp: taking_def at_down_def)
    then show ?thesis using check_priority_order_ok[of "set_kont [] k" k'] wf r Check_Priority_Order by (intro keepsI) (auto simp: taking_def)
  next
    case Kernel_Thread
    then have "kernel_ok (set_kont [] k)" using kn wf by (intro set_kont_ok[OF ok]) (auto simp: taking_def at_down_def)
    then show ?thesis using wf r Kernel_Thread by (intro keepsI) auto
  next
    case Sleep_Block
    then have rs: "rs = []" using wf by simp
    have "kernel_off (set_status ?c THREAD_BLOCKED (set_kont [] k))"
      using core_sleep[OF ok[unfolded kernel_ok_iff(1)]] kn Sleep_Block rs by (simp add: kernel_ok_iff)
    then show ?thesis using schedule_ok[of "set_status ?c THREAD_BLOCKED (set_kont [] k)" k'] r Sleep_Block rs
      by (intro keepsI) (auto simp: thread_block_def)
  next
    case Idle
    then have i: "?c = idle_thread k" using wf by simp
    have "kernel_off (set_status ?c THREAD_BLOCKED k)"
      using core_idle ok unfolding kernel_ok_iff i by (simp add: i)
    then show ?thesis using schedule_ok[of "set_status ?c THREAD_BLOCKED k" k'] r Idle by (intro keepsI) (auto simp: thread_block_def)
  qed
qed

lemma interruptible_taking: "interruptible (kn t) \<Longrightarrow> \<not> taking kn l t"
  by (auto simp: taking_def)

lemma step_keeps:
  assumes "step addr k e k'" "kernel_ok k"
  shows "keeps k e k'"
  using assms
proof (cases rule: step.cases)
  case step
  show ?thesis
  proof (cases e)
    case (Run c)
    then show ?thesis using exec_op_keeps[OF assms(2)] step by simp
  next
    case Continue
    then show ?thesis using exec_act_keeps[OF assms(2), of "hd (kont k (current k))" "tl (kont k (current k))"] step by simp
  next
    case Tick
    then show ?thesis using timer_interrupt_ok[OF assms(2) interruptible_taking] step by (intro keepsI) auto
  next
    case (Device_Up n)
    have core: "core_ok (Some (current k)) (statuses k) (kont k) (ready_list k) (threads_to_wakeup k) (sema_waiters k) (sema_value k) (holder k)
      (set (all_list k)) (idle_thread k)" using assms(2) by (simp add: kernel_ok_iff)
    have "lock_ok (Some (current k)) (kont k) ((sema_value k)(Sema n := m)) (holder k)" for m
      using core_okD(7)[OF core] by (simp add: lock_ok_def)
    from sema_up_ok[OF core this interruptible_taking] show ?thesis using step Device_Up by (intro keepsI) auto
  qed
qed

lemma boot_ok: "main \<noteq> idle \<Longrightarrow> kernel_ok (boot_kernel mlfqs main idle)"
  unfolding kernel_ok_iff core_ok_def
  by (auto simp: boot_kernel_def Let_def statuses_def run_ok_def ready_ok_def sleep_ok_def wait_ok_def live_ok_def kont_ok_def lock_ok_def wake_ok_def born_ok_def at_down_def taking_def)

lemma reachable_ok: "reachable addr k \<Longrightarrow> kernel_ok k \<and> finite (ran (holder k))"
proof (induction rule: reachable.induct)
  case (boot main idle mlfqs)
  then show ?case using boot_ok by (simp add: boot_kernel_def Let_def)
next
  case (move k e k')
  then have "keeps k e k'" using step_keeps by blast
  then show ?case using move by (auto simp: keeps_def intro: finite_subset)
qed

section \<open>Loops end\<close>

lemma page_alive_upd [simp]: "page_alive (upd t f k) = page_alive k"
  by (simp add: page_alive_def fun_eq_iff)

lemma donate_loop_returns:
  assumes "finite (ran (holder k))" "\<forall>h \<in> ran (holder k). page_alive k h"
  shows "\<exists>k'. donate_loop cur k = Some k'"
  using assms
proof (induction "card {h \<in> ran (holder k). priority (threads k h) < priority (threads k cur)}" arbitrary: cur k rule: less_induct)
  case less
  show ?case
  proof (cases "wait_lock (threads k cur)")
    case None then show ?thesis by (subst donate_loop.simps) simp
  next
    case (Some l)
    show ?thesis
    proof (cases "holder k l")
      case None then show ?thesis using Some by (subst donate_loop.simps) simp
    next
      case h: (Some h)
      then have al: "page_alive k h" using less.prems(2) by (blast intro: ranI)
      show ?thesis
      proof (cases "priority (threads k cur) \<le> priority (threads k h)")
        case True then show ?thesis using Some h al by (subst donate_loop.simps) simp
      next
        case False
        let ?k = "upd h (\<lambda>x. x\<lparr>priority := priority (threads k cur)\<rparr>) k"
        have "{h' \<in> ran (holder ?k). priority (threads ?k h') < priority (threads ?k h)} \<subseteq> {h \<in> ran (holder k). priority (threads k h) < priority (threads k cur)} - {h}"
          by auto
        moreover have "h \<in> {h \<in> ran (holder k). priority (threads k h) < priority (threads k cur)}" using h False by (auto intro: ranI)
        ultimately have "{h' \<in> ran (holder ?k). priority (threads ?k h') < priority (threads ?k h)} \<subset> {h \<in> ran (holder k). priority (threads k h) < priority (threads k cur)}"
          by blast
        then have "card {h' \<in> ran (holder ?k). priority (threads ?k h') < priority (threads ?k h)} < card {h \<in> ran (holder k). priority (threads k h) < priority (threads k cur)}"
          by (rule psubset_card_mono[rotated]) (use less.prems in simp)
        then have "\<exists>k'. donate_loop h ?k = Some k'" using less.hyps[of ?k h] less.prems by simp
        then show ?thesis using Some h al False by (subst donate_loop.simps) simp
      qed
    qed
  qed
qed

text \<open>A donation never lowers a priority, and the first holder gets at least that of the thread that waits.\<close>

lemma donate_loop_raises:
  assumes "donate_loop cur k = Some k'"
  shows "priority (threads k x) \<le> priority (threads k' x)"
proof (rule donate_loop.raw_induct[where P = "\<lambda>cur k k'. priority (threads k x) \<le> priority (threads k' x)", OF _ assms])
  fix f cur k k'
  assume IH: "\<And>cur k k'. f cur k = Some k' \<Longrightarrow> priority (threads k x) \<le> priority (threads k' x)"
    and f: "(case wait_lock (threads k cur) of None \<Rightarrow> Some k
      | Some l \<Rightarrow> (case holder k l of None \<Rightarrow> Some k
           | Some h \<Rightarrow> if \<not> page_alive k h then None
               else if priority (threads k h) \<ge> priority (threads k cur) then Some k
               else f h (upd h (\<lambda>x. x\<lparr>priority := priority (threads k cur)\<rparr>) k))) = Some k'"
  show "priority (threads k x) \<le> priority (threads k' x)"
    using f by (fastforce dest: IH split: option.splits if_splits)
qed

lemma donate_loop_first:
  assumes "donate_loop cur k = Some k'" "wait_lock (threads k cur) = Some l" "holder k l = Some h"
  shows "page_alive k h" "priority (threads k cur) \<le> priority (threads k' h)"
proof -
  let ?k = "upd h (\<lambda>x. x\<lparr>priority := priority (threads k cur)\<rparr>) k"
  have f: "page_alive k h" "priority (threads k cur) \<le> priority (threads k h) \<and> k' = k \<or> donate_loop h ?k = Some k'"
    using assms(1) by (subst (asm) donate_loop.simps; simp add: assms(2,3) split: if_splits)+
  then show "page_alive k h" by simp
  show "priority (threads k cur) \<le> priority (threads k' h)" using f(2) donate_loop_raises[of h ?k k' h] by auto
qed

lemma sort_passes_msort: "weak_order lt \<Longrightarrow> sort_passes lt xs = Some (msort lt xs)"
proof (induction lt xs rule: msort.induct)
  case (1 lt xs)
  show ?case
  proof (cases "snd (pass lt xs) > 1")
    case True
    then show ?thesis using 1 by (subst sort_passes.simps) (simp add: msort.simps[of lt xs] case_prod_beta Let_def)
  next
    case False
    then show ?thesis by (subst sort_passes.simps) (simp add: msort.simps[of lt xs] case_prod_beta Let_def)
  qed
qed

lemma sort_seq_msort: "weak_order lt \<Longrightarrow> sort_seq lt xs = Some (msort lt xs)"
  using descents_in_order[OF conjunct1[OF msort_sorts]] by (simp add: sort_seq_def sort_passes_msort assert_def)

text \<open>
  \<^const>\<open>sort_seq\<close> is what \<^const>\<open>list_sort\<close> does to the sequence of the elements, for every comparison, even one that is
  not an order: it returns if and only if the function on the linked list does.
\<close>

lemma sort_loop_seq:
  assumes "sort_loop lt h l = Some h'" "is_list h l xs"
  shows "\<exists>ys. sort_passes lt xs = Some ys \<and> is_list h' l ys"
proof -
  have "\<forall>xs. is_list h l xs \<longrightarrow> (\<exists>ys. sort_passes lt xs = Some ys \<and> is_list h' l ys)"
  proof (rule sort_loop.raw_induct[where P = "\<lambda>lt h l h'. \<forall>xs. is_list h l xs \<longrightarrow> (\<exists>ys. sort_passes lt xs = Some ys \<and> is_list h' l ys)", OF _ assms(1)], intro allI impI)
    fix f lt h l h' xs
    assume IH: "\<And>lt h l h'. f lt h l = Some h' \<Longrightarrow> \<forall>xs. is_list h l xs \<longrightarrow> (\<exists>ys. sort_passes lt xs = Some ys \<and> is_list h' l ys)"
      and f: "do { b \<leftarrow> list_begin h l; (cnt, h) \<leftarrow> pass_loop lt h l b 0; if cnt > 1 then f lt h l else Some h } = Some h'" and L: "is_list h l xs"
    obtain h1 where h1: "pass_loop lt h l (at_elem l xs) 0 = Some (snd (pass lt xs), h1)" "is_list h1 l (fst (pass lt xs))"
      using pass_loop_ok[of h l "[]" xs lt 0] L by auto
    have r: "(if snd (pass lt xs) > 1 then f lt h1 l else Some h1) = Some h'" using f h1(1) is_list_begin[OF L] by simp
    show "\<exists>ys. sort_passes lt xs = Some ys \<and> is_list h' l ys"
    proof (cases "snd (pass lt xs) > 1")
      case True
      then have "\<exists>ys. sort_passes lt (fst (pass lt xs)) = Some ys \<and> is_list h' l ys" using IH r h1(2) by auto
      then show ?thesis using True by (subst sort_passes.simps) (simp add: case_prod_beta)
    next
      case False
      then show ?thesis using r h1(2) by (subst sort_passes.simps) (simp add: case_prod_beta)
    qed
  qed
  then show ?thesis using assms(2) by blast
qed

lemma sort_passes_loop:
  assumes "sort_passes lt xs = Some ys" "is_list h l xs"
  shows "\<exists>h'. sort_loop lt h l = Some h' \<and> is_list h' l ys"
proof -
  have "\<forall>h. is_list h l xs \<longrightarrow> (\<exists>h'. sort_loop lt h l = Some h' \<and> is_list h' l ys)"
  proof (rule sort_passes.raw_induct[where P = "\<lambda>lt xs ys. \<forall>h. is_list h l xs \<longrightarrow> (\<exists>h'. sort_loop lt h l = Some h' \<and> is_list h' l ys)", OF _ assms(1)], intro allI impI)
    fix f lt xs ys h
    assume IH: "\<And>lt xs ys. f lt xs = Some ys \<Longrightarrow> \<forall>h. is_list h l xs \<longrightarrow> (\<exists>h'. sort_loop lt h l = Some h' \<and> is_list h' l ys)"
      and f: "(let (ys, n) = pass lt xs in if n > 1 then f lt ys else Some ys) = Some ys" and L: "is_list h l xs"
    obtain h1 where h1: "pass_loop lt h l (at_elem l xs) 0 = Some (snd (pass lt xs), h1)" "is_list h1 l (fst (pass lt xs))"
      using pass_loop_ok[of h l "[]" xs lt 0] L by auto
    show "\<exists>h'. sort_loop lt h l = Some h' \<and> is_list h' l ys"
    proof (cases "snd (pass lt xs) > 1")
      case True
      then have "\<exists>h'. sort_loop lt h1 l = Some h' \<and> is_list h' l ys" using IH f h1(2) by (auto simp: case_prod_beta)
      then show ?thesis using True h1(1) is_list_begin[OF L] by (subst sort_loop.simps) simp
    next
      case False
      then show ?thesis using f h1 is_list_begin[OF L] by (subst sort_loop.simps) (auto simp: case_prod_beta)
    qed
  qed
  then show ?thesis using assms(2) by blast
qed

lemma list_sort_seq:
  assumes "is_list h l xs"
  shows "(\<exists>h'. list_sort lt h l = Some h') \<longleftrightarrow> (\<exists>ys. sort_seq lt xs = Some ys)"
    and "list_sort lt h l = Some h' \<Longrightarrow> \<exists>ys. sort_seq lt xs = Some ys \<and> is_list h' l ys"
proof -
  have s: "is_sorted lt h' (at_elem l ys) (tail_of l) = Some (descents lt ys = 0)" if "is_list h' l ys" for h' ys
    using is_sorted_ok[of h' l "[]" ys "[]" lt] that by simp
  show 1: "list_sort lt h l = Some h' \<Longrightarrow> \<exists>ys. sort_seq lt xs = Some ys \<and> is_list h' l ys" for h'
  proof -
    assume a: "list_sort lt h l = Some h'"
    then have sl: "sort_loop lt h l = Some h'" by (auto simp: list_sort_def assert_def bind_eq_Some_conv split: if_splits)
    then obtain ys where ys: "sort_passes lt xs = Some ys" "is_list h' l ys" using sort_loop_seq[OF _ assms] by blast
    then show ?thesis using a sl s[OF ys(2)] is_list_begin[OF ys(2)] is_list_end[OF ys(2)]
      by (auto simp: list_sort_def sort_seq_def assert_def split: if_splits)
  qed
  have "\<exists>h'. list_sort lt h l = Some h'" if "sort_seq lt xs = Some ys" for ys
  proof -
    have ys: "sort_passes lt xs = Some ys" "descents lt ys = 0" using that by (auto simp: sort_seq_def assert_def bind_eq_Some_conv split: if_splits)
    then obtain h' where h': "sort_loop lt h l = Some h'" "is_list h' l ys" using sort_passes_loop[OF _ assms] by blast
    then show ?thesis using ys(2) s[OF h'(2)] is_list_begin[OF h'(2)] is_list_end[OF h'(2)] is_list_nz(1)[OF assms]
      by (simp add: list_sort_def assert_def)
  qed
  then show "(\<exists>h'. list_sort lt h l = Some h') \<longleftrightarrow> (\<exists>ys. sort_seq lt xs = Some ys)" using 1 by blast
qed

lemma weak_order_priority: "weak_order (compare_priority k)"
  by (auto simp: weak_order_def compare_priority_def)

end
