(* ===== verification/ThreadsProps.thy ===== *)
theory ThreadsProps
  imports ThreadsInv
begin

text \<open>
  What the invariant of \<^verbatim>\<open>ThreadsInv\<close> gives for threads, semaphores and locks, and runs of the kernel in which priority
  donation, sleeping and conditions do not do what they should.
\<close>

section \<open>Runs\<close>

lemma reachable_run:
  "reachable addr k \<Longrightarrow> run_events addr es k = Some k' \<Longrightarrow> reachable addr k'"
proof (induction es arbitrary: k)
  case (Cons e es)
  then obtain k1 where k1: "enabled k e" "exec addr e k = Some k1" "run_events addr es k1 = Some k'"
    by (auto simp: bind_eq_Some_conv split: if_splits)
  have "reachable addr k1" by (rule reachable.move[OF Cons.prems(1) step.step[OF k1(1,2)]])
  then show ?case using Cons.IH k1(3) by blast
qed simp

lemma reachable_boot_run: "main \<noteq> idle \<Longrightarrow> run_events addr es (boot_kernel mlfqs main idle) = Some k \<Longrightarrow> reachable addr k"
  by (rule reachable_run[OF reachable.boot])

definition addr0 :: "tid option \<Rightarrow> int" where
  "addr0 x = (case x of None \<Rightarrow> -1000 | Some t \<Rightarrow> int t - 2000)"

text \<open>A thread is made; if its priority is higher, it runs at once.\<close>

definition create :: "tid \<Rightarrow> int \<Rightarrow> event list" where
  "create t p = Run (Op_Create (Some t) p) # replicate 5 Continue"

definition create_run :: "tid \<Rightarrow> int \<Rightarrow> event list" where
  "create_run t p = create t p @ [Continue]"

definition run1 :: "event list" where
  "run1 = [Run (Op_Lock_Acquire 2), Continue] @ create_run 3 40 @ [Run (Op_Lock_Acquire 2)] @ create_run 4 50 @ [Run (Op_Lock_Acquire 2)]"

text \<open>The main thread holds a lock and two threads wait for it.\<close>

lemma run1_state:
  obtains k k' where "reachable addr0 k" "step addr0 k Tick k'" "holder k 2 = Some 1" "sema_waiters k (Lock_Sema 2) = [4, 3]"
    "status (threads k 4) = THREAD_BLOCKED" "idle_thread k = 2"
proof -
  have "(case run_events addr0 run1 (boot_kernel False 1 2) of None \<Rightarrow> False
    | Some k \<Rightarrow> enabled k Tick \<and> (case exec addr0 Tick k of None \<Rightarrow> False | Some _ \<Rightarrow> True) \<and> holder k 2 = Some 1 \<and>
        sema_waiters k (Lock_Sema 2) = [4, 3] \<and> status (threads k 4) = THREAD_BLOCKED \<and> idle_thread k = 2)"
    by code_simp
  then obtain k k' where k: "run_events addr0 run1 (boot_kernel False 1 2) = Some k" "enabled k Tick" "exec addr0 Tick k = Some k'" "holder k 2 = Some 1"
    "sema_waiters k (Lock_Sema 2) = [4, 3]" "status (threads k 4) = THREAD_BLOCKED" "idle_thread k = 2"
    by (auto split: option.splits)
  show ?thesis by (rule that[OF reachable_boot_run[OF _ k(1)] step.step[OF k(2,3)] k(4-7)]) simp
qed

text \<open>The main thread has released the lock, and the thread that was woken up has not run yet.\<close>

lemma run2_state:
  obtains k where "reachable addr0 k" "sema_waiters k (Lock_Sema 2) = [3]" "sema_value k (Lock_Sema 2) = 1"
proof -
  have "(case run_events addr0 (run1 @ [Run (Op_Lock_Release 2)]) (boot_kernel False 1 2) of None \<Rightarrow> False
    | Some k \<Rightarrow> sema_waiters k (Lock_Sema 2) = [3] \<and> sema_value k (Lock_Sema 2) = 1)"
    by code_simp
  then obtain k where k: "run_events addr0 (run1 @ [Run (Op_Lock_Release 2)]) (boot_kernel False 1 2) = Some k"
    "sema_waiters k (Lock_Sema 2) = [3]" "sema_value k (Lock_Sema 2) = 1" by (auto split: option.splits)
  show ?thesis by (rule that[OF reachable_boot_run[OF _ k(1)] k(2,3)]) simp
qed

text \<open>In the first of these runs the main thread has the priority of the first thread that waits.\<close>

lemma run1_donated:
  obtains k k' where "reachable addr0 k" "step addr0 k Tick k'" "holder k 2 = Some 1" "sema_waiters k (Lock_Sema 2) = [4, 3]"
    "wait_lock (threads k 4) = Some 2" "priority (threads k 4) \<le> priority (threads k 1)" "page_alive k 1"
proof -
  have "(case run_events addr0 run1 (boot_kernel False 1 2) of None \<Rightarrow> False
    | Some k \<Rightarrow> enabled k Tick \<and> (case exec addr0 Tick k of None \<Rightarrow> False | Some _ \<Rightarrow> True) \<and> holder k 2 = Some 1 \<and>
        sema_waiters k (Lock_Sema 2) = [4, 3] \<and> wait_lock (threads k 4) = Some 2 \<and> priority (threads k 4) \<le> priority (threads k 1) \<and> page_alive k 1)"
    by code_simp
  then obtain k k' where k: "run_events addr0 run1 (boot_kernel False 1 2) = Some k" "enabled k Tick" "exec addr0 Tick k = Some k'" "holder k 2 = Some 1"
    "sema_waiters k (Lock_Sema 2) = [4, 3]" "wait_lock (threads k 4) = Some 2" "priority (threads k 4) \<le> priority (threads k 1)" "page_alive k 1"
    by (auto split: option.splits)
  show ?thesis by (rule that[OF reachable_boot_run[OF _ k(1)] step.step[OF k(2,3)] k(4-8)]) simp
qed

section \<open>Waiting for a lock, and the list of sleeping threads\<close>



text \<open>What the timer interrupt reads of the sleeping threads; the accounting of the scheduler does not change it.\<close>

definition sleepers :: "kernel \<Rightarrow> tid list \<times> int \<times> (tid \<Rightarrow> thread_status \<times> int)" where
  "sleepers k = (threads_to_wakeup k, ticks k, \<lambda>t. (status (threads k t), wakeup_tick (threads k t)))"

definition tick_account :: "kernel \<Rightarrow> kernel option" where
  "tick_account k = (if thread_mlfqs k then do {
     k \<leftarrow> tick_increment k;
     if ticks k mod TIMER_FREQ = 0 then do { k \<leftarrow> calculate_load_avg k; do_recalculate k }
     else if ticks k mod int TIME_SLICE = 0 then calculate_priority (current k) k
     else Some k
   } else Some k)"

lemma timer_interrupt_account:
  "timer_interrupt addr k = (let k = k\<lparr>ticks := ticks k + 1, thread_ticks := thread_ticks k + 1\<rparr> in do {
     k1 \<leftarrow> tick_account k; k2 \<leftarrow> wake_loop addr k1; if thread_ticks k \<ge> TIME_SLICE then thread_yield k2 else Some k2 })"
  by (simp add: timer_interrupt_def tick_account_def Let_def)

lemma sleepers_upd: "(\<And>x. status (f x) = status x \<and> wakeup_tick (f x) = wakeup_tick x) \<Longrightarrow> sleepers (upd t f k) = sleepers k"
  by (auto simp: sleepers_def)

lemma sleepers_calculate:
  "calculate_priority t k = Some k' \<Longrightarrow> sleepers k' = sleepers k" "calculate_recent_cpu t k = Some k' \<Longrightarrow> sleepers k' = sleepers k"
  "tick_increment k = Some k' \<Longrightarrow> sleepers k' = sleepers k" "calculate_load_avg k = Some k' \<Longrightarrow> sleepers k' = sleepers k"
  by (auto simp: calculate_priority_def calculate_recent_cpu_def tick_increment_def calculate_load_avg_def bind_eq_Some_conv sleepers_upd Let_def split: if_splits)
    (simp_all add: sleepers_def)

lemma sleepers_recalculate: "recalculate_loop ts k = Some k' \<Longrightarrow> sleepers k' = sleepers k"
proof (induction ts arbitrary: k)
  case (Cons t ts)
  then show ?case using sleepers_calculate(1,2) by (fastforce simp: bind_eq_Some_conv)
qed simp

lemma tick_account_sleepers: "tick_account k = Some k' \<Longrightarrow> sleepers k' = sleepers k"
  using sleepers_calculate sleepers_recalculate by (fastforce simp: tick_account_def do_recalculate_def bind_eq_Some_conv split: if_splits)

lemma link_prevs_sleepers: "status (link_prevs addr p ts th x) = status (th x)" "wakeup_tick (link_prevs addr p ts th x) = wakeup_tick (th x)"
  by (induction ts arbitrary: p th) auto

lemma wake_loop_stuck:
  assumes "threads_to_wakeup k = as @ t # bs" "status (threads k t) \<noteq> THREAD_BLOCKED" "\<forall>x \<in> set (as @ [t]). wakeup_tick (threads k x) \<le> ticks k"
  shows "wake_loop addr k = None"
  using assms
proof (induction as arbitrary: k)
  case Nil
  then show ?case by (subst wake_loop.simps) (simp add: thread_unblock_def assert_def link_prevs_sleepers)
next
  case (Cons a as)
  let ?k = "k\<lparr>threads_to_wakeup := as @ t # bs, threads := link_prevs addr None (as @ t # bs) (threads k)\<rparr>"
  have "wake_loop addr k' = None" if k': "thread_unblock a ?k = Some k'" for k'
  proof (rule Cons.IH)
    have u: "status (threads k a) = THREAD_BLOCKED" "threads_to_wakeup k' = as @ t # bs" "ticks k' = ticks k"
      "\<And>x. status (threads k' x) = (if x = a then THREAD_READY else status (threads k x))" "\<And>x. wakeup_tick (threads k' x) = wakeup_tick (threads k x)"
      using k' by (auto simp: thread_unblock_def assert_def set_status_def link_prevs_sleepers split: if_splits)
    show "threads_to_wakeup k' = as @ t # bs" "status (threads k' t) \<noteq> THREAD_BLOCKED" "\<forall>x \<in> set (as @ [t]). wakeup_tick (threads k' x) \<le> ticks k'"
      using u Cons.prems by auto
  qed
  then show ?case using Cons.prems by (subst wake_loop.simps) (auto split: option.split)
qed

section \<open>Properties\<close>

text \<open>C6. Mutual exclusion: in every state that the kernel can reach, a thread that holds a lock keeps it through every step,
  of whatever thread or interrupt, except when it is itself running and releases the lock, waits for a condition with it,
  goes to sleep under the lock of the sleeping threads, or makes a thread under the lock of the numbers of threads.
\<close>
theorem lock_mutual_exclusion:
  assumes "reachable addr k" "step addr k e k'" "holder k l = Some t" "\<not> (current k = t \<and> releases k e l)"
  shows "holder k' l = Some t \<and> sema_value k (Lock_Sema l) = 0"
proof -
  have ok: "kernel_ok k" using reachable_ok[OF assms(1)] by blast
  then have "sema_value k (Lock_Sema l) = 0" using assms(3) core_okD(7)[of "Some (current k)"] by (auto simp: kernel_ok_iff core_ok_def lock_ok_def)
  then show ?thesis using step_keeps[OF assms(2) ok] assms(3,4) by (auto simp: keeps_def)
qed

theorem lock_mutual_exclusion_witness:
  "\<exists>k k'. reachable addr0 k \<and> step addr0 k Tick k' \<and> holder k 2 = Some 1 \<and> holder k' 2 = Some 1 \<and> sema_value k (Lock_Sema 2) = 0"
proof -
  obtain k k' where k: "reachable addr0 k" "step addr0 k Tick k'" "holder k 2 = Some 1" by (rule run1_state)
  from lock_mutual_exclusion[OF this] k show ?thesis by (auto simp: releases_def)
qed

text \<open>C7. No lost wake-up: whenever threads wait at a semaphore whose value is positive, some thread that was woken up
  at this semaphore is ready or running and is going to look at the value.
\<close>
theorem sema_no_lost_wakeup:
  assumes "reachable addr k" "sema_waiters k s \<noteq> []" "0 < sema_value k s"
  shows "\<exists>t rs. status (threads k t) \<in> {THREAD_RUNNING, THREAD_READY} \<and> kont k t = Sema_Down s # rs"
proof -
  have "wake_ok (statuses k) (kont k) (sema_waiters k) (sema_value k) (set (all_list k))"
    using reachable_ok[OF assms(1)] by (simp add: kernel_ok_iff core_ok_def)
  then have "sema_value k s \<le> card (woken (statuses k) (kont k) (set (all_list k)) s)" using assms(2) by (simp add: wake_ok_def)
  then have "woken (statuses k) (kont k) (set (all_list k)) s \<noteq> {}" using assms(3) by (intro notI) simp
  then show ?thesis by (auto simp: woken_def statuses_def at_down_def)
qed

theorem sema_no_lost_wakeup_witness:
  "\<exists>k t rs. reachable addr0 k \<and> sema_waiters k (Lock_Sema 2) = [3] \<and> sema_value k (Lock_Sema 2) = 1 \<and>
     status (threads k t) \<in> {THREAD_RUNNING, THREAD_READY} \<and> kont k t = Sema_Down (Lock_Sema 2) # rs"
proof -
  obtain k where k: "reachable addr0 k" "sema_waiters k (Lock_Sema 2) = [3]" "sema_value k (Lock_Sema 2) = 1" by (rule run2_state)
  from sema_no_lost_wakeup[OF k(1), of "Lock_Sema 2"] k show ?thesis by auto
qed

text \<open>C8. Every thread is where its status says: exactly the current thread is running; the ready list holds exactly
  the ready threads, each once; and a blocked thread, other than the idle thread, either waits at exactly one semaphore,
  sleeps in the list of sleeping threads, or is being made by exactly one thread, so that no thread is lost.
\<close>
theorem threads_accounted:
  assumes "reachable addr k"
  shows "(\<forall>t. status (threads k t) = THREAD_RUNNING \<longleftrightarrow> t = current k) \<and>
    distinct (ready_list k) \<and> (\<forall>t. t \<in> set (ready_list k) \<longleftrightarrow> status (threads k t) = THREAD_READY \<and> t \<noteq> idle_thread k) \<and>
    (\<forall>t. status (threads k t) = THREAD_BLOCKED \<and> t \<noteq> idle_thread k \<longrightarrow>
      (\<exists>!s. t \<in> set (sema_waiters k s)) \<and> t \<notin> set (threads_to_wakeup k) \<or> (\<forall>s. t \<notin> set (sema_waiters k s)) \<and> t \<in> set (threads_to_wakeup k) \<or>
      (\<forall>s. t \<notin> set (sema_waiters k s)) \<and> t \<notin> set (threads_to_wakeup k) \<and> (\<exists>!c. t \<in> creates (kont k c)))"
proof -
  have "core_ok (Some (current k)) (statuses k) (kont k) (ready_list k) (threads_to_wakeup k) (sema_waiters k) (sema_value k) (holder k)
    (set (all_list k)) (idle_thread k)" using reachable_ok[OF assms] by (simp add: kernel_ok_iff)
  note D = core_okD[OF this]
  have "(\<exists>!s. t \<in> set (sema_waiters k s)) \<and> t \<notin> set (threads_to_wakeup k) \<or> (\<forall>s. t \<notin> set (sema_waiters k s)) \<and> t \<in> set (threads_to_wakeup k) \<or>
      (\<forall>s. t \<notin> set (sema_waiters k s)) \<and> t \<notin> set (threads_to_wakeup k) \<and> (\<exists>!c. t \<in> creates (kont k c))"
    if b: "statuses k t = THREAD_BLOCKED" "t \<noteq> idle_thread k" for t
  proof -
    have w: "t \<in> set (sema_waiters k s) \<longleftrightarrow> at_down (kont k) s t" for s using D(4) b(1) by (simp add: wait_ok_def)
    have sl: "t \<in> set (threads_to_wakeup k) \<longleftrightarrow> kont k t = [Sleep_Block] \<or> kont k t = []" using D(3) b(1) by (simp add: sleep_ok_def)
    have m: "\<exists>!c. t \<in> creates (kont k c)" if "kont k t = [Kernel_Thread]" using D(9) b(1) that unfolding born_ok_def by blast
    consider "kont k t = []" | "kont k t = [Kernel_Thread]" | s where "at_down (kont k) s t" using D(6) b by (auto simp: kont_ok_def)
    then show ?thesis unfolding w sl by cases (use m in \<open>auto simp: at_down_def\<close>)
  qed
  then show ?thesis using D(1,2) by (auto simp: run_ok_def ready_ok_def statuses_def)
qed

theorem threads_accounted_witness:
  "\<exists>k. reachable addr0 k \<and> status (threads k 4) = THREAD_BLOCKED \<and> (\<exists>!s. 4 \<in> set (sema_waiters k s)) \<and> 4 \<notin> set (threads_to_wakeup k)"
proof -
  obtain k k' where k: "reachable addr0 k" "step addr0 k Tick k'" "holder k 2 = Some 1" "sema_waiters k (Lock_Sema 2) = [4, 3]" "status (threads k 4) = THREAD_BLOCKED" "idle_thread k = 2"
    by (rule run1_state)
  have "4 \<in> set (sema_waiters k (Lock_Sema 2))" "status (threads k 4) = THREAD_BLOCKED \<and> 4 \<noteq> idle_thread k" using k(4-6) by simp_all
  then have "(\<exists>!s. 4 \<in> set (sema_waiters k s)) \<and> 4 \<notin> set (threads_to_wakeup k)" using threads_accounted[OF k(1)] by blast
  then show ?thesis using k(1,5) by blast
qed

text \<open>C18. Donation ends: in every state that the kernel can reach, if no lock is held by a thread that has exited, the loop that passes a
  priority on along the locks that threads wait for returns, also when these threads wait for each other in a circle. Whenever it returns, no priority is
  lower than before, and the holder of the lock that the thread waits for has at least the priority of this thread. A holder that has exited makes
  the donation undefined. Sorting the waiters of a semaphore returns them in the order of their priorities.
\<close>
theorem donation_terminates:
  assumes "reachable addr k"
  shows "(case check_to_donate t k of
      None \<Rightarrow> \<exists>l h. holder k l = Some h \<and> \<not> page_alive k h
    | Some k' \<Rightarrow> (\<forall>x. priority (threads k x) \<le> priority (threads k' x)) \<and>
        (\<forall>l h. wait_lock (threads k t) = Some l \<and> holder k l = Some h \<longrightarrow> page_alive k h \<and> priority (threads k t) \<le> priority (threads k' h))) \<and>
    (\<exists>ws. sort_seq (compare_priority k) (sema_waiters k s) = Some ws \<and> mset ws = mset (sema_waiters k s) \<and> in_order (compare_priority k) ws)"
proof -
  have "check_to_donate t k = None \<Longrightarrow> \<exists>l h. holder k l = Some h \<and> \<not> page_alive k h"
    using donate_loop_returns[of k t] reachable_ok[OF assms] by (force simp: check_to_donate_def ran_def)
  then show ?thesis
    using donate_loop_raises donate_loop_first sort_seq_msort[OF weak_order_priority] msort_sorts[OF weak_order_priority]
    by (auto simp: check_to_donate_def split: option.split)
qed

theorem donation_terminates_witness:
  "\<exists>k k'. reachable addr0 k \<and> sema_waiters k (Lock_Sema 2) = [4, 3] \<and> check_to_donate 4 k = Some k' \<and>
     (\<forall>x. priority (threads k x) \<le> priority (threads k' x))"
proof -
  obtain k k' where k: "reachable addr0 k" "step addr0 k Tick k'" "holder k 2 = Some 1" "sema_waiters k (Lock_Sema 2) = [4, 3]"
    "wait_lock (threads k 4) = Some 2" "priority (threads k 4) \<le> priority (threads k 1)" "page_alive k 1" by (rule run1_donated)
  have "check_to_donate 4 k = Some k" unfolding check_to_donate_def by (subst donate_loop.simps) (use k in simp)
  then show ?thesis using donation_terminates[OF k(1), of 4] k(1,4) by (metis (no_types, lifting) option.simps(5))
qed



text \<open>A donation is lost: the donors of a thread are kept in the order of a pointer and not of their priorities, and only the
  first one counts when the thread releases another lock. Here threads with priorities 40 and 50 wait for a
  lock of the main thread; after it has made a thread, for which it takes and releases another lock, its priority is 40.\<close>
theorem donation_lost:
  "case run_events addr0 (run1 @ create 5 20) (boot_kernel False 1 2) of None \<Rightarrow> False
   | Some k \<Rightarrow> current k = 1 \<and> holder k 2 = Some 1 \<and> 4 \<in> set (sema_waiters k (Lock_Sema 2)) \<and> priority (threads k 4) = 50 \<and> priority (threads k 1) = 40"
  by code_simp

text \<open>C40. Sleeping can bring down the kernel: a thread that goes to sleep is in the list of sleeping threads before it is
  blocked, and releasing the lock of this list lets a thread of higher priority run in between. If the time of a thread in this state, and of those
  before it in the list, comes with the next timer interrupt, the interrupt fails: it wakes up a thread that is not blocked, which fails an assertion.
  In the run of the witness the main thread is in this state.\<close>
theorem timer_sleep_panics:
  assumes "threads_to_wakeup k = as @ t # bs" "status (threads k t) \<noteq> THREAD_BLOCKED" "\<forall>x \<in> set (as @ [t]). wakeup_tick (threads k x) \<le> ticks k + 1"
  shows "exec addr Tick k = None"
proof -
  let ?k = "k\<lparr>ticks := ticks k + 1, thread_ticks := thread_ticks k + 1\<rparr>"
  have "wake_loop addr k1 = None" if "tick_account ?k = Some k1" for k1
    using tick_account_sleepers[OF that] assms by (intro wake_loop_stuck[of k1 as t bs]) (auto simp: sleepers_def fun_eq_iff)
  then show ?thesis by (auto simp: timer_interrupt_account Let_def split: bind_splits)
qed

theorem timer_sleep_panics_witness:
  "\<exists>k. reachable addr0 k \<and> enabled k Tick \<and> threads_to_wakeup k = [1] \<and> status (threads k 1) = THREAD_READY \<and> exec addr0 Tick k = None"
proof -
  let ?es = "create_run 3 60 @ [Run (Op_Sleep 1), Continue, Continue, Continue, Tick, Run (Op_Sleep 1), Continue, Continue]"
  have "(case run_events addr0 ?es (boot_kernel False 1 2) of None \<Rightarrow> False
    | Some k \<Rightarrow> enabled k Tick \<and> threads_to_wakeup k = [1] \<and> status (threads k 1) = THREAD_READY \<and> wakeup_tick (threads k 1) \<le> ticks k + 1)"
    by code_simp
  then obtain k where k: "run_events addr0 ?es (boot_kernel False 1 2) = Some k" "enabled k Tick" "threads_to_wakeup k = [1]"
    "status (threads k 1) = THREAD_READY" "wakeup_tick (threads k 1) \<le> ticks k + 1"
    by (auto simp del: enabled.simps split: option.splits)
  have r: "reachable addr0 k" by (rule reachable_boot_run[OF _ k(1)]) simp
  show ?thesis using timer_sleep_panics[of k "[]" 1 "[]" addr0] r k(2-5) by auto
qed

text \<open>A thread that exits keeps its locks, and its page is freed: here a thread takes a lock and exits, and when the main thread then waits for
  the lock, it reads the freed page.\<close>
theorem exit_keeps_lock:
  "case run_events addr0 (create_run 3 40 @ [Run (Op_Lock_Acquire 2), Continue, Run Op_Exit]) (boot_kernel False 1 2) of None \<Rightarrow> False
   | Some k \<Rightarrow> current k = 1 \<and> holder k 2 = Some 3 \<and> \<not> page_alive k 3 \<and> enabled k (Run (Op_Lock_Acquire 2)) \<and> exec addr0 (Run (Op_Lock_Acquire 2)) k = None"
  by code_simp

text \<open>Signalling can bring down the kernel: two threads that wait for a condition, each of which has lost the processor before it
  waits at its semaphore, are both smaller than the other for the comparison that sorts them, so
  that the assertion at the end of \<^verbatim>\<open>list_sort\<close> fails.\<close>
theorem cond_signal_panics:
  "case run_events addr0 ([Run (Op_Lock_Acquire 2), Continue] @ create_run 3 40 @ [Run (Op_Lock_Acquire 2), Run (Op_Cond_Wait 7 2), Continue, Continue] @
      create_run 4 50 @ [Run (Op_Lock_Acquire 2), Run (Op_Cond_Wait 7 2), Continue, Continue]) (boot_kernel False 1 2) of None \<Rightarrow> False
   | Some k \<Rightarrow> enabled k (Run (Op_Cond_Signal 7 2)) \<and> holder k 2 = Some (current k) \<and> cond_waiters k 7 = [3, 1] \<and> exec addr0 (Run (Op_Cond_Signal 7 2)) k = None"
  by code_simp

end
