(* ===== verification/Spec2Isabelle.thy ===== *)
theory Spec2Isabelle
  imports TPCMaster WQ PListSpec FsSpec Arith64 CString StdLib Palloc ThreadsProps
begin

text \<open>
  A model of the course projects under \<^verbatim>\<open>src\<close>: the distributed key-value store of project 3
  (\<^verbatim>\<open>src/group1/kvstore/src/server\<close>) and the threads, the data structures, the run-time library and the file system of
  the Pintos kernel (\<^verbatim>\<open>src/group1/pintos/src\<close>).

  \<^bold>\<open>Conventions.\<close> The programs are in C. A function that can fail an assertion, run off a buffer,
  dereference NULL or a freed block, overflow a signed integer, panic or loop forever returns an option,
  with \<^term>\<open>None\<close> for that outcome, so that a theorem of the form \<open>\<exists>r. f x = Some r\<close> says that the call
  is defined and returns. Error codes and NULL results are values. Heap structures live in maps from
  addresses, with 0 for NULL; \<open>mem n\<close> says whether an allocation of \<open>n\<close> bytes succeeds. Machine integers
  are words where the code relies on their width, and otherwise numbers with the bound written out where
  it matters. State is passed explicitly; threads are steps of a relation. What the code reads without having
  written it is a parameter: the memory behind a buffer, and pointers that are NULL, point to a string or are wild, where
  following a wild one is \<^term>\<open>None\<close>.

  \<^bold>\<open>The key-value store.\<close> Clients send requests to a master, which sends them on to slave servers under
  two-phase commit.
  \<^item> \<^verbatim>\<open>KVConstants\<close>: \<^verbatim>\<open>kvconstants.h\<close>, message types, states, error codes.
  \<^item> \<^verbatim>\<open>Posix\<close>: the file system calls the store and the log make, with injected faults and short writes.
  \<^item> \<^verbatim>\<open>KVInterfaces\<close>: the contracts of a cache, of a store and of a cache in front of a store, as locales.
  \<^item> \<^verbatim>\<open>KVCacheSet\<close>, \<^verbatim>\<open>KVCache\<close>: \<^verbatim>\<open>kvcacheset.c\<close> and \<^verbatim>\<open>kvcache.c\<close>. A set never exceeds its capacity, replacement
    is the second-chance policy, and the cache interprets its contract.
  \<^item> \<^verbatim>\<open>KVStore\<close>: \<^verbatim>\<open>kvstore.c\<close> on files. The directory stands for a finite map, and every operation is the
    operation on it; two concurrent puts of a new key lose one of them.
  \<^item> \<^verbatim>\<open>TPCLog\<close>: \<^verbatim>\<open>tpclog.c\<close>. The log is a list of records that survives a crash.
  \<^item> \<^verbatim>\<open>KVMessage\<close>: \<^verbatim>\<open>kvmessage.c\<close>. A message that arrives in one segment is parsed back when the memory behind the
    unterminated buffer is harmless, given what the JSON library does with such texts; what other memory does to it, and a body in
    two segments, is shown as well.
  \<^item> \<^verbatim>\<open>KVServer\<close>: \<^verbatim>\<open>kvserver.c\<close>. The server serves a dictionary, a participant refines an abstract one, and a
    restart redoes what was committed and keeps what was prepared; the theorems also say for which keys and values the code
    runs over a buffer or locks a lock that does not exist.
  \<^item> \<^verbatim>\<open>TPCMaster\<close>: \<^verbatim>\<open>tpcmaster.c\<close> over a network that is a parameter. A request is committed everywhere or
    nowhere when all votes arrive; what happens when they do not is shown as well. A get asks the replicas of its key in order.
  \<^item> \<^verbatim>\<open>WQ\<close>: \<^verbatim>\<open>wq.c\<close> with any number of threads, as a step relation. Every job is taken exactly once and no
    wake-up is lost.

  \<^bold>\<open>Pintos.\<close> The kernel's library, its threads, and its file system from the bytes of a sector up to names.
  \<^item> \<^verbatim>\<open>PList\<close>, \<^verbatim>\<open>PListOps\<close>, \<^verbatim>\<open>PListSort\<close>, \<^verbatim>\<open>PListSpec\<close>: \<^verbatim>\<open>lib/kernel/list.c\<close>, doubly linked lists on a heap. Each operation
    refines one on sequences, sorting is a stable merge sort, and ordered insertion is a priority queue.
  \<^item> \<^verbatim>\<open>Bitmap\<close>: \<^verbatim>\<open>lib/kernel/bitmap.c\<close>. The operations are those on a list of bits; scanning and flipping is a
    first-fit allocator whose ranges never overlap.
  \<^item> \<^verbatim>\<open>Arith64\<close>: \<^verbatim>\<open>lib/arithmetic.c\<close>, 64-bit division on a 32-bit machine. Quotients are correct, remainders
    are cut to 32 bits.
  \<^item> \<^verbatim>\<open>CString\<close>: \<^verbatim>\<open>lib/string.c\<close>, all functions on a memory of bytes.
  \<^item> \<^verbatim>\<open>StdLib\<close>: \<^verbatim>\<open>lib/stdlib.c\<close>. Heap sort, binary search and \<open>atoi\<close> on arrays of bytes; sorting is shown on the
    list of elements that the bytes stand for.
  \<^item> \<^verbatim>\<open>Palloc\<close>: \<^verbatim>\<open>threads/palloc.c\<close>, the page allocator, with the addresses of \<^verbatim>\<open>threads/vaddr.h\<close>. It is an instance of
    the interface of range allocators of \<^verbatim>\<open>Bitmap\<close>; requests that must not fail are included.
  \<^item> \<^verbatim>\<open>FixedPoint\<close>: \<^verbatim>\<open>threads/fixed-point.h\<close>. Products and quotients are right up to one unit in the last place.
  \<^item> \<^verbatim>\<open>Threads\<close>, \<^verbatim>\<open>ThreadsInv\<close>, \<^verbatim>\<open>ThreadsProps\<close>: \<^verbatim>\<open>threads/thread.c\<close>, \<^verbatim>\<open>threads/synch.c\<close> and the sleeping threads of
    \<^verbatim>\<open>devices/timer.c\<close>, as a step relation on the state of the kernel: operations of the running thread, the rest of an operation
    after its thread was blocked, and interrupts. Locks exclude each other, no wake-up is lost, no thread is lost, and
    priority donation ends unless it reads the freed page of a thread that exited with a lock; donation does not reach the scheduler, a
    tick at the wrong moment stops the kernel, and runs show where donations, conditions and locks of exited threads go wrong.
  \<^item> \<^verbatim>\<open>FsInode\<close>, \<^verbatim>\<open>FsState\<close>, \<^verbatim>\<open>FsDir\<close>: \<^verbatim>\<open>devices/block.c\<close>, \<^verbatim>\<open>filesys/inode.c\<close>, \<^verbatim>\<open>filesys/file.c\<close>, \<^verbatim>\<open>filesys/free-map.c\<close> and
    \<^verbatim>\<open>filesys/directory.c\<close>, down to the bytes of inodes and directory entries, with the table of open inodes.
  \<^item> \<^verbatim>\<open>FsLayout\<close>, \<^verbatim>\<open>Filesys\<close>, \<^verbatim>\<open>FsNamed\<close>, \<^verbatim>\<open>FsFormat\<close>, \<^verbatim>\<open>FsSpec\<close>: the invariant of a disk, \<^verbatim>\<open>filesys/filesys.c\<close>, and the
    proof that the file system is a map from names to contents which survives shutdowns and crashes
    between calls. The invariant \<open>fs_ok\<close> holds between calls that open and close their files, when no file but the
    free map is open; a file that is open while it is removed is followed until it is closed. The contract is the locale \<open>file_store\<close>.

  \<^bold>\<open>How the parts fit.\<close> \<^verbatim>\<open>Prelude\<close> holds what all share. Each contract is a locale that is interpreted on the
  definitions of the component that provides it: \<open>lossy_cache\<close> by the sets and the cache, \<open>kv_store\<close> by the
  store, \<open>write_through\<close> by the server's use of both, \<open>elem_list\<close> by the lists, \<open>extent_alloc\<close> by the bitmaps
  and \<open>file_store\<close> by the file system. A theorem about a client goes through the interpretation.

  \<^bold>\<open>Loops and bounds.\<close> Loops with a bound in the code are recursive functions with a termination proof.
  Loops that may run forever, the second phase of a commit and the loops over linked lists, directory
  entries and donated locks, are partial functions into options, and it is proved that they return where they do. No model
  has fuel. Lengths and offsets of files stay below the bound of a signed 32-bit integer, 2147483647, less
  one sector where the code rounds up; indices of bitmaps stay below 4294967264, where rounding up to a
  whole element does not wrap.

  \<^bold>\<open>Not modelled.\<close>
  \<^item> \<^verbatim>\<open>json-c\<close>, \<^verbatim>\<open>uthash.h\<close>, \<^verbatim>\<open>utlist.h\<close> and FUSE are third-party code. The calls of JSON are a parameter; the
    macros for hash tables and lists are used at the level of the sequence of their elements.
  \<^item> \<^verbatim>\<open>socket_server.c\<close>, the programs under \<^verbatim>\<open>main\<close> and the Python client open sockets, start threads and parse
    command lines; the work queue they share and the requests they pass on are modelled.
  \<^item> Stacks and the switch of registers, start-up, interrupt entry, paging, program loading, system calls and the other
    device drivers manipulate page tables, stacks, registers and ports, with assembly code in between.
  \<^item> The homework programs under \<^verbatim>\<open>src/af\<close> other than those named above, and all tests and examples.
\<close>

end
